(* ===== verification/Prelude.thy ===== *)
theory Prelude
  imports Main "HOL-Library.Word" "HOL-Library.Multiset"
begin

text \<open>
  Shared vocabulary of the development: bytes and network byte order, C strings, the number
  formats of \<^verbatim>\<open>printf\<close> (\<open>%d\<close>, \<open>%u\<close>, \<open>%x\<close>) and the digit tables the parsers use, bounded
  buffers, and the outcomes of code whose behaviour C leaves undefined. The two collections
  \<open>net_simps\<close> and \<open>text_simps\<close> hold the rewriting facts the component proofs share.
\<close>

named_theorems net_simps "byte order and packet layout"
named_theorems text_simps "C strings and number formats"

section \<open>Bytes and network byte order\<close>

type_synonym byte = "8 word"

text \<open>
  \<open>htons\<close> followed by a store through an \<open>unsigned short *\<close> leaves the two bytes of the
  value in network order in memory, whatever the host order is: \<open>be16\<close> is that pair of
  bytes, \<open>rd16\<close> is the load followed by \<open>ntohs\<close>.
\<close>

definition be16 :: "16 word \<Rightarrow> byte list" where
  "be16 w = [word_of_nat (unat w div 256), word_of_nat (unat w mod 256)]"

fun rd16 :: "byte list \<Rightarrow> 16 word" where
  "rd16 (hi # lo # _) = word_of_nat (unat hi * 256 + unat lo)"
| "rd16 _ = 0"

lemma unat_lt_256 [simp]: "unat (b::byte) < 256"
  using unsigned_less [of b] by simp

lemma unat_lt_65536 [simp]: "unat (w::16 word) < 65536"
  using unsigned_less [of w] by simp

lemma unat_byte_of_nat [net_simps]: "n < 256 \<Longrightarrow> unat (word_of_nat n :: byte) = n"
  by (simp add: unat_of_nat)

lemma unat_u16_of_nat [net_simps]: "n < 65536 \<Longrightarrow> unat (word_of_nat n :: 16 word) = n"
  by (simp add: unat_of_nat)

lemma length_be16 [simp, net_simps]: "length (be16 w) = 2"
  by (simp add: be16_def)

lemma be16_not_Nil [simp]: "be16 w \<noteq> []"
  by (simp add: be16_def)

lemma rd16_be16_append [simp, net_simps]: "rd16 (be16 w @ r) = w"
proof -
  have "unat w div 256 < 256"
    using unat_lt_65536 [of w] by (simp add: less_mult_imp_div_less)
  moreover have "unat w mod 256 < 256" by simp
  ultimately have "rd16 (be16 w @ r) = word_of_nat (unat w div 256 * 256 + unat w mod 256)"
    by (simp add: be16_def unat_byte_of_nat)
  then show ?thesis by simp
qed

lemma rd16_be16 [simp, net_simps]: "rd16 (be16 w) = w"
  using rd16_be16_append [of w "[]"] by simp

lemma be16_inject [simp]: "be16 v = be16 w \<longleftrightarrow> v = w"
  by (metis rd16_be16)

lemma drop_be16 [simp, net_simps]: "drop 2 (be16 w @ r) = r"
  by (simp add: be16_def)

section \<open>C strings\<close>

abbreviation nul :: char where
  "nul \<equiv> CHR 0x00"

text \<open>The string a \<open>char *\<close> denotes: the characters before the first NUL.\<close>

definition cstr :: "string \<Rightarrow> string" where
  "cstr s = takeWhile (\<lambda>c. c \<noteq> nul) s"

lemma cstr_append_nul [simp, text_simps]: "nul \<notin> set s \<Longrightarrow> cstr (s @ nul # r) = s"
  by (subst cstr_def, subst takeWhile_append2) auto

lemma cstr_id [simp, text_simps]: "nul \<notin> set s \<Longrightarrow> cstr s = s"
  by (auto simp: cstr_def takeWhile_eq_all_conv)

lemma nul_notin_cstr [simp, text_simps]: "nul \<notin> set (cstr s)"
  by (auto simp: cstr_def dest: set_takeWhileD)

lemma length_cstr_le [text_simps]: "length (cstr s) \<le> length s"
  by (simp add: cstr_def length_takeWhile_le)

section \<open>Digits and number formats\<close>

definition digit_char :: "nat \<Rightarrow> char" where
  "digit_char d = char_of (if d < 10 then 48 + d else 87 + d)"

text \<open>\<open>isdigit\<close> and the index \<open>strchr\<close> finds in the decimal and hexadecimal digit tables.\<close>

definition isdigit :: "char \<Rightarrow> bool" where
  "isdigit c \<longleftrightarrow> (48::nat) \<le> of_char c \<and> of_char c \<le> (57::nat)"

definition dec_digit :: "char \<Rightarrow> nat option" where
  "dec_digit c = (if isdigit c then Some (of_char c - 48) else None)"

definition hex_digit :: "char \<Rightarrow> nat option" where
  "hex_digit c =
     (let n = of_char c :: nat in
      if 48 \<le> n \<and> n \<le> 57 then Some (n - 48)
      else if 97 \<le> n \<and> n \<le> 102 then Some (n - 87)
      else if 65 \<le> n \<and> n \<le> 70 then Some (n - 55)
      else None)"

fun num_str :: "nat \<Rightarrow> nat \<Rightarrow> string" where
  "num_str b n =
     (if b < 2 \<or> n < b then [digit_char n] else num_str b (n div b) @ [digit_char (n mod b)])"

declare num_str.simps [simp del]

text \<open>\<open>%u\<close> and \<open>%lu\<close>, \<open>%x\<close>, and \<open>%d\<close>.\<close>

definition dec :: "nat \<Rightarrow> string" where
  "dec n = num_str 10 n"

definition hex :: "nat \<Rightarrow> string" where
  "hex n = num_str 16 n"

definition dec_int :: "int \<Rightarrow> string" where
  "dec_int i = (if i < 0 then CHR ''-'' # dec (nat (- i)) else dec (nat i))"

lemma of_char_digit_char [simp, text_simps]:
  "d < 36 \<Longrightarrow> of_char (digit_char d) = (if d < 10 then 48 + d else 87 + d)"
  by (simp add: digit_char_def)

lemma dec_digit_digit_char [simp, text_simps]: "d < 10 \<Longrightarrow> dec_digit (digit_char d) = Some d"
  by (simp add: dec_digit_def isdigit_def)

lemma hex_digit_digit_char [simp, text_simps]: "d < 16 \<Longrightarrow> hex_digit (digit_char d) = Some d"
  by (auto simp: hex_digit_def Let_def)

lemma isdigit_digit_char [simp, text_simps]: "d < 10 \<Longrightarrow> isdigit (digit_char d)"
  by (simp add: isdigit_def)

lemma dec_digit_lt: "dec_digit c = Some d \<Longrightarrow> d < 10"
  by (auto simp: dec_digit_def isdigit_def split: if_splits)

lemma hex_digit_lt: "hex_digit c = Some d \<Longrightarrow> d < 16"
  by (auto simp: hex_digit_def Let_def split: if_splits)

lemma digit_char_eq_iff: "d < 36 \<Longrightarrow> digit_char d = c \<longleftrightarrow> of_char c = (if d < 10 then 48 + d else 87 + d)"
  by (metis of_char_digit_char of_char_eq_iff)

lemma num_str_not_Nil [simp]: "num_str b n \<noteq> []"
  by (subst num_str.simps) simp

lemma dec_not_Nil [simp]: "dec n \<noteq> []" and hex_not_Nil [simp]: "hex n \<noteq> []"
  by (simp_all add: dec_def hex_def)

lemma set_num_str:
  "2 \<le> b \<Longrightarrow> set (num_str b n) \<subseteq> digit_char ` {..<b}"
proof (induction b n rule: num_str.induct)
  case (1 b n)
  show ?case
  proof (cases "b < 2 \<or> n < b")
    case True
    with 1 show ?thesis by (subst num_str.simps) auto
  next
    case False
    with 1 have "set (num_str b (n div b)) \<subseteq> digit_char ` {..<b}" by auto
    moreover have "n mod b < b" using False by simp
    ultimately show ?thesis using False by (subst num_str.simps) auto
  qed
qed

text \<open>
  What the parsers compute: a left-to-right Horner evaluation. Every proper prefix of a
  number has a smaller value, which is what their range checks rely on.
\<close>

fun horner :: "(char \<Rightarrow> nat option) \<Rightarrow> nat \<Rightarrow> nat \<Rightarrow> string \<Rightarrow> nat option" where
  "horner dig b a [] = Some a"
| "horner dig b a (c # cs) = (case dig c of None \<Rightarrow> None | Some d \<Rightarrow> horner dig b (a * b + d) cs)"

lemma horner_append:
  "horner dig b a (xs @ ys) = (case horner dig b a xs of None \<Rightarrow> None | Some m \<Rightarrow> horner dig b m ys)"
  by (induction dig b a xs rule: horner.induct) (auto split: option.splits)

lemma horner_num_str:
  assumes "2 \<le> b" and "\<And>d. d < b \<Longrightarrow> dig (digit_char d) = Some d"
  shows "horner dig b 0 (num_str b n) = Some n"
  using assms
proof (induction b n rule: num_str.induct)
  case (1 b n)
  show ?case
  proof (cases "n < b")
    case True
    with 1 show ?thesis by (subst num_str.simps) simp
  next
    case False
    with 1 have IH: "horner dig b 0 (num_str b (n div b)) = Some (n div b)" by auto
    have "n mod b < b" using 1 by simp
    with False 1 IH show ?thesis
      by (subst num_str.simps) (simp add: horner_append)
  qed
qed

lemma horner_dec [simp, text_simps]: "horner dec_digit 10 0 (dec n) = Some n"
  unfolding dec_def by (rule horner_num_str) auto

lemma horner_hex [simp, text_simps]: "horner hex_digit 16 0 (hex n) = Some n"
  unfolding hex_def by (rule horner_num_str) auto

lemma horner_mono: "0 < b \<Longrightarrow> horner dig b a s = Some n \<Longrightarrow> a \<le> n"
proof (induction dig b a s rule: horner.induct)
  case (2 dig b a c cs)
  then obtain d where "dig c = Some d" and "a * b + d \<le> n"
    by (auto split: option.splits)
  moreover have "a \<le> a * b" using \<open>0 < b\<close> by simp
  ultimately show ?case by linarith
qed simp

lemma dec_inject [simp]: "dec m = dec n \<longleftrightarrow> m = n"
  by (metis horner_dec option.inject)

lemma length_num_str: "2 \<le> b \<Longrightarrow> 0 < k \<Longrightarrow> n < b ^ k \<Longrightarrow> length (num_str b n) \<le> k"
proof (induction k arbitrary: n)
  case (Suc k)
  show ?case
  proof (cases "n < b")
    case True
    then show ?thesis by (subst num_str.simps) simp
  next
    case False
    with Suc.prems have "0 < k" by (cases k) (auto simp: not_less)
    moreover have "n div b < b ^ k"
      using Suc.prems by (simp add: less_mult_imp_div_less mult.commute)
    ultimately have "length (num_str b (n div b)) \<le> k"
      using Suc by simp
    with False Suc.prems show ?thesis by (subst num_str.simps) simp
  qed
qed simp

lemma length_dec_byte [text_simps]: "n < 256 \<Longrightarrow> length (dec n) \<le> 3"
  unfolding dec_def by (rule length_num_str) auto

lemma length_dec_u16 [text_simps]: "n < 65536 \<Longrightarrow> length (dec n) \<le> 5"
  unfolding dec_def by (rule length_num_str) auto

lemma length_hex_u16 [text_simps]: "n < 65536 \<Longrightarrow> length (hex n) \<le> 4"
  unfolding hex_def by (rule length_num_str) auto

lemma dec_chars: "c \<in> set (dec n) \<Longrightarrow> isdigit c"
  using set_num_str [of 10 n] by (auto simp: dec_def)

lemma hex_chars: "c \<in> set (hex n) \<Longrightarrow> hex_digit c \<noteq> None"
  using set_num_str [of 16 n] by (auto simp: hex_def)

lemma nul_notin_dec [simp]: "nul \<notin> set (dec n)"
  by (auto dest: dec_chars simp: isdigit_def)

lemma nul_notin_hex [simp]: "nul \<notin> set (hex n)"
  by (auto dest: hex_chars simp: hex_digit_def)

text \<open>
  \<open>atoi\<close>: skip white space, take an optional sign, then the digits up to the first character
  that is no digit. (C leaves a value outside \<open>int\<close> undefined; the model keeps it.)
\<close>

definition isspace :: "char \<Rightarrow> bool" where
  "isspace c \<longleftrightarrow> c = CHR '' '' \<or> (9::nat) \<le> of_char c \<and> of_char c \<le> (13::nat)"

fun atoi_digits :: "int \<Rightarrow> string \<Rightarrow> int" where
  "atoi_digits a [] = a"
| "atoi_digits a (c # cs) =
     (case dec_digit c of None \<Rightarrow> a | Some d \<Rightarrow> atoi_digits (a * 10 + int d) cs)"

definition atoi :: "string \<Rightarrow> int" where
  "atoi s = (case dropWhile isspace s of
       [] \<Rightarrow> 0
     | c # cs \<Rightarrow>
         if c = CHR ''-'' then - atoi_digits 0 cs
         else if c = CHR ''+'' then atoi_digits 0 cs
         else atoi_digits 0 (c # cs))"

lemma atoi_digits_horner:
  "horner dec_digit 10 a s = Some n \<Longrightarrow> atoi_digits (int a) s = int n"
proof (induction s arbitrary: a)
  case (Cons c cs)
  then obtain d where "dec_digit c = Some d" and "horner dec_digit 10 (a * 10 + d) cs = Some n"
    by (auto split: option.splits)
  with Cons.IH [of "a * 10 + d"] show ?case by simp
qed simp

lemma atoi_dec [simp, text_simps]: "atoi (dec n) = int n"
proof -
  obtain c cs where s: "dec n = c # cs" by (cases "dec n") auto
  then have "isdigit c" using dec_chars [of c n] by simp
  then have "\<not> isspace c" and "c \<noteq> CHR ''-''" and "c \<noteq> CHR ''+''"
    by (auto simp: isdigit_def isspace_def)
  moreover have "atoi_digits 0 (dec n) = int n"
    using atoi_digits_horner [OF horner_dec [of n]] by simp
  ultimately show ?thesis by (simp add: atoi_def s)
qed

text \<open>Words with a separator between them.\<close>

fun join :: "char \<Rightarrow> string list \<Rightarrow> string" where
  "join sep [] = []"
| "join sep [w] = w"
| "join sep (w # v # ws) = w @ sep # join sep (v # ws)"

lemma join_Cons: "ws \<noteq> [] \<Longrightarrow> join sep (w # ws) = w @ sep # join sep ws"
  by (cases ws) auto

section \<open>Undefined behaviour as a value\<close>

text \<open>
  A piece of C code that may run into undefined behaviour (an access outside an object, a null
  pointer passed to a string function, a division by zero) or may never return yields an
  \<open>outcome\<close>.
\<close>

datatype 'a outcome = Ok 'a | Undefined | Hangs

fun bind_outcome :: "'a outcome \<Rightarrow> ('a \<Rightarrow> 'b outcome) \<Rightarrow> 'b outcome" where
  "bind_outcome (Ok a) f = f a"
| "bind_outcome Undefined f = Undefined"
| "bind_outcome Hangs f = Hangs"

lemma bind_outcome_eq_Ok [simp]:
  "bind_outcome m f = Ok b \<longleftrightarrow> (\<exists>a. m = Ok a \<and> f a = Ok b)"
  by (cases m) auto

lemma bind_outcome_cong [fundef_cong]:
  "m = n \<Longrightarrow> (\<And>a. n = Ok a \<Longrightarrow> f a = g a) \<Longrightarrow> bind_outcome m f = bind_outcome n g"
  by (cases n) auto

fun is_ok :: "'a outcome \<Rightarrow> bool" where
  "is_ok (Ok a) = True"
| "is_ok Undefined = False"
| "is_ok Hangs = False"

lemma is_ok_iff: "is_ok m \<longleftrightarrow> (\<exists>a. m = Ok a)"
  by (cases m) auto

text \<open>\<open>sprintf\<close> into an array of \<open>n\<close> characters: the text and its NUL have to fit.\<close>

definition sprintf_into :: "nat \<Rightarrow> string \<Rightarrow> string outcome" where
  "sprintf_into n s = (if length s < n then Ok s else Undefined)"

text \<open>\<open>snprintf\<close> into an array of \<open>n\<close> characters: the text is cut at \<open>n - 1\<close>.\<close>

definition snprintf :: "nat \<Rightarrow> string \<Rightarrow> string" where
  "snprintf n s = take (n - 1) s"

lemma snprintf_fits [simp, text_simps]: "length s < n \<Longrightarrow> snprintf n s = s"
  by (simp add: snprintf_def)

section \<open>Tables of slots\<close>

text \<open>Several components keep a fixed array of slots and change one of them at a time.\<close>

lemma length_filter_update:
  "i < length xs \<Longrightarrow>
     length (filter P (xs[i := x])) + (if P (xs ! i) then 1 else 0)
       = length (filter P xs) + (if P x then 1 else 0)"
proof (induction xs arbitrary: i)
  case (Cons y ys)
  then show ?case by (cases i) auto
qed simp

lemma length_filter_less_iff:
  "length (filter P xs) < length xs \<longleftrightarrow> (\<exists>i < length xs. \<not> P (xs ! i))"
proof -
  have "length (filter P xs) < length xs \<longleftrightarrow> (\<exists>x \<in> set xs. \<not> P x)"
    by (induction xs) (auto simp: less_Suc_eq_le)
  then show ?thesis by (metis in_set_conv_nth)
qed

end
