(* ===== verification/TftpServer.thy ===== *)
theory TftpServer
  imports Prelude
begin

text \<open>
  The TFTP server of \<^verbatim>\<open>server.c\<close>: \<open>read_data\<close> (a read request: send a file in blocks of
  512 bytes, wait for an answer after each one), \<open>write_data\<close> (a write request: store what
  arrives, acknowledge it) and \<open>main\<close> (the parent that forks a child per request).

  What the network does to a child is a script: the list of the results of its successive
  \<open>recvfrom\<close> calls. A child is a function of its script; it yields the datagrams it sends, each
  with its destination, and the way it ends. When the script runs out the child is still inside
  \<open>recvfrom\<close> (\<open>Blocked\<close>).
\<close>

section \<open>Datagrams and sessions\<close>

type_synonym endpoint = "32 word \<times> 16 word"

text \<open>
  A \<open>recvfrom\<close> call: a datagram and its source address, a failure with \<open>errno\<close> equal to
  \<open>EWOULDBLOCK\<close> (the one-second timeout), or another failure.
\<close>

datatype recv = is_Dgram: Dgram endpoint "byte list" | Timeout | Error

datatype ending = Finished | GaveUp | Blocked

record session =
  tx :: "(endpoint \<times> byte list) list"
  ending :: ending

record wsession = session +
  stored :: "byte list"

definition failures :: "recv list \<Rightarrow> nat" where
  "failures rs = length (filter (\<lambda>r. \<not> is_Dgram r) rs)"

definition answers :: "recv list \<Rightarrow> nat" where
  "answers rs = length (filter is_Dgram rs)"

definition data_packet :: "nat \<Rightarrow> byte list \<Rightarrow> byte list" where
  "data_packet block payload = be16 3 @ be16 (word_of_nat block) @ payload"

definition ack_packet :: "nat \<Rightarrow> byte list" where
  "ack_packet block = be16 4 @ be16 (word_of_nat block)"

definition error_packet :: "byte list" where
  "error_packet = take 5 (be16 5 @ be16 1 @ be16 0)"

text \<open>
  \<open>strcpy(filename, buffer + 2)\<close> into 256 characters, from the 517-byte request buffer: a name
  without a NUL in the buffer, or of 256 characters or more, is undefined behaviour.
\<close>

definition request_file :: "byte list \<Rightarrow> byte list outcome" where
  "request_file buffer =
     (let name = takeWhile (\<lambda>b. b \<noteq> 0) (drop 2 buffer) in
      if name = drop 2 buffer \<or> 256 \<le> length name then Undefined else Ok name)"

section \<open>Read requests\<close>

datatype wait = Answered | Exhausted | Starved

text \<open>
  The inner loop of \<open>read_data\<close>. Any datagram ends the wait, and \<open>recvfrom\<close> stores its source
  in \<open>*child_client\<close>, which is where the next packet goes. A failure counts in \<open>no_data\<close>,
  resends the packet and, at the tenth one, gives up. \<open>no_data\<close> is never reset.
\<close>

fun await_ack :: "byte list \<Rightarrow> nat \<Rightarrow> endpoint \<Rightarrow> recv list \<Rightarrow>
    (endpoint \<times> byte list) list \<times> nat \<times> endpoint \<times> wait \<times> recv list" where
  "await_ack pkt no_data peer [] = ([], no_data, peer, Starved, [])"
| "await_ack pkt no_data peer (Dgram src d # rs) = ([], no_data, src, Answered, rs)"
| "await_ack pkt no_data peer (_ # rs) =
     (let no_data' = no_data + 1 in
      if no_data' = 10 then ([(peer, pkt)], no_data', peer, Exhausted, rs)
      else (let (out, r) = await_ack pkt no_data' peer rs in ((peer, pkt) # out, r)))"

text \<open>
  The outer loop: \<open>rest\<close> is what \<open>fread\<close> has not read yet. A read of fewer than 512 bytes is
  the last block.
\<close>

function send_file :: "byte list \<Rightarrow> nat \<Rightarrow> nat \<Rightarrow> endpoint \<Rightarrow> recv list \<Rightarrow> session" where
  "send_file rest block no_data peer rs =
     (let payload = take 512 rest;
          num_get = length payload;
          pkt = data_packet block payload;
          (out, no_data', peer', w, rs') = await_ack pkt no_data peer rs
      in case w of
           Starved \<Rightarrow> \<lparr>tx = (peer, pkt) # out, ending = Blocked\<rparr>
         | Exhausted \<Rightarrow> \<lparr>tx = (peer, pkt) # out, ending = GaveUp\<rparr>
         | Answered \<Rightarrow>
             if num_get < 512 then \<lparr>tx = (peer, pkt) # out, ending = Finished\<rparr>
             else (let s = send_file (drop 512 rest) (block + 1) no_data' peer' rs'
                   in s\<lparr>tx := (peer, pkt) # out @ tx s\<rparr>))"
  by pat_completeness auto
termination
  by (relation "measure (\<lambda>(rest, _). length rest)") auto

declare send_file.simps [simp del]

definition read_data ::
    "(byte list \<Rightarrow> byte list option) \<Rightarrow> byte list \<Rightarrow> endpoint \<Rightarrow> recv list \<Rightarrow> session outcome" where
  "read_data fs buffer client rs =
     bind_outcome (request_file buffer) (\<lambda>name.
       case fs name of
         None \<Rightarrow> Ok \<lparr>tx = [(client, error_packet)], ending = Finished\<rparr>
       | Some file \<Rightarrow> Ok (send_file file 1 0 client rs))"

section \<open>Write requests\<close>

text \<open>
  The loop of \<open>write_data\<close>. \<open>recvfrom\<close> takes at most 517 bytes. A timeout resends the last
  acknowledgement until ten of them come in a row. Anything else resets the counter, is stored
  from offset 4 on up to its first NUL (\<open>fprintf("%s")\<close>), and is acknowledged with the next
  block number; fewer than 516 bytes end the transfer, and so does a failed \<open>recvfrom\<close>, whose
  result \<open>-1\<close> is taken for a length. A datagram of 517 bytes or more makes
  \<open>buffer[data_len] = '\0'\<close> store behind the 517-byte buffer.
\<close>

definition stored_text :: "byte list \<Rightarrow> byte list" where
  "stored_text data = takeWhile (\<lambda>b. b \<noteq> 0) (drop 4 data)"

text \<open>
  The \<open>addr_len\<close> of \<open>write_data\<close> is not initialised: the first \<open>recvfrom\<close> that gets a datagram stores
  only that many bytes of its source over the \<open>struct sockaddr_in\<close> (the port at offset 2, the address at
  offset 4, in network order), and fails where the number is negative; then \<open>addr_len\<close> is 16.
\<close>

definition overlay :: "nat \<Rightarrow> 'a::len word \<Rightarrow> 'a word \<Rightarrow> 'a word" where
  "overlay k old new = push_bit k (drop_bit k new) + take_bit k old"

definition store_addr :: "int \<Rightarrow> endpoint \<Rightarrow> endpoint \<Rightarrow> endpoint" where
  "store_addr addr_len old new =
     (overlay (8 * nat (8 - addr_len)) (fst old) (fst new), overlay (8 * nat (4 - addr_len)) (snd old) (snd new))"

lemma store_addr_all: "8 \<le> n \<Longrightarrow> store_addr n old new = new"
  by (simp add: store_addr_def overlay_def)

fun recv_file :: "int \<Rightarrow> nat \<Rightarrow> nat \<Rightarrow> byte list \<Rightarrow> endpoint \<Rightarrow> recv list \<Rightarrow> wsession outcome" where
  "recv_file addr_len timeout block last_packet peer [] = Ok \<lparr>tx = [], ending = Blocked, stored = []\<rparr>"
| "recv_file addr_len timeout block last_packet peer (Timeout # rs) =
     (if timeout + 1 \<ge> 10 then Ok \<lparr>tx = [], ending = GaveUp, stored = []\<rparr>
      else bind_outcome (recv_file addr_len (timeout + 1) block last_packet peer rs) (\<lambda>s.
        Ok (s\<lparr>tx := (peer, last_packet) # tx s\<rparr>)))"
| "recv_file addr_len timeout block last_packet peer (Error # rs) =
     Ok \<lparr>tx = [(peer, ack_packet (block + 1))], ending = Finished, stored = []\<rparr>"
| "recv_file addr_len timeout block last_packet peer (Dgram src d # rs) =
     (let data = take 517 d; data_len = length data; ack = ack_packet (block + 1);
          peer' = store_addr addr_len peer src in
      if addr_len < 0 then Ok \<lparr>tx = [(peer, ack)], ending = Finished, stored = []\<rparr>
      else if data_len \<ge> 517 then Undefined
      else if data_len < 516
      then Ok \<lparr>tx = [(peer', ack)], ending = Finished, stored = stored_text data\<rparr>
      else bind_outcome (recv_file 16 0 (block + 1) ack peer' rs) (\<lambda>s.
        Ok (s\<lparr>tx := (peer', ack) # tx s, stored := stored_text data @ stored s\<rparr>)))"

text \<open>
  \<open>fopen(file, "w")\<close> is not checked: when it fails, the null \<open>FILE *\<close> reaches \<open>fprintf\<close> or
  \<open>fclose\<close>.
\<close>

definition write_data ::
    "(byte list \<Rightarrow> bool) \<Rightarrow> int \<Rightarrow> byte list \<Rightarrow> endpoint \<Rightarrow> recv list \<Rightarrow> (byte list \<times> wsession) outcome" where
  "write_data can_write addr_len buffer client rs =
     bind_outcome (request_file buffer) (\<lambda>name.
       if \<not> can_write name then Undefined
       else bind_outcome (recv_file addr_len 0 0 (ack_packet 0) client rs) (\<lambda>s.
         Ok (name, s\<lparr>tx := (client, ack_packet 0) # tx s\<rparr>)))"

section \<open>The parent\<close>

record child =
  c_tid :: int
  c_op :: "16 word"
  c_buffer :: "byte list"
  c_client :: endpoint

text \<open>
  One request of the parent loop: what its \<open>recvfrom\<close> returned and whether \<open>fork\<close> made a
  child. The buffer is allocated once, so a request overwrites only a prefix of the previous
  one, and a failed \<open>recvfrom\<close> leaves it as it was; its result is not looked at.
\<close>

definition receive_into :: "byte list \<Rightarrow> byte list \<Rightarrow> byte list" where
  "receive_into buffer d = take (length buffer) d @ drop (length d) buffer"

fun parent_loop :: "int \<Rightarrow> byte list \<Rightarrow> endpoint \<Rightarrow> (recv \<times> bool) list \<Rightarrow> child list" where
  "parent_loop tid buffer client [] = []"
| "parent_loop tid buffer client ((r, forked) # rs) =
     (let (buffer', client') = (case r of Dgram src d \<Rightarrow> (receive_into buffer d, src)
                                        | _ \<Rightarrow> (buffer, client));
          kids = parent_loop (tid - 1) buffer' client' rs
      in if forked
         then \<lparr>c_tid = tid, c_op = rd16 buffer', c_buffer = buffer', c_client = client'\<rparr> # kids
         else kids)"

definition tftp_main :: "string list \<Rightarrow> bool \<Rightarrow> bool \<Rightarrow> endpoint \<Rightarrow> (recv \<times> bool) list \<Rightarrow> child list" where
  "tftp_main argv sock_ok bind_ok client0 rs =
     (if length argv \<noteq> 3 \<or> \<not> sock_ok \<or> \<not> bind_ok then []
      else parent_loop (atoi (argv ! 2)) (replicate 517 0) client0 rs)"

datatype service = NoSocket | ReadService session | WriteService "byte list" wsession | Ignored

text \<open>The port a child binds: \<open>htons(tid)\<close> keeps the low sixteen bits.\<close>

definition child_port :: "child \<Rightarrow> 16 word" where
  "child_port c = word_of_int (c_tid c)"

definition child_main ::
    "(byte list \<Rightarrow> byte list option) \<Rightarrow> (byte list \<Rightarrow> bool) \<Rightarrow> int \<Rightarrow> bool \<Rightarrow> bool \<Rightarrow> child \<Rightarrow>
      recv list \<Rightarrow> service outcome" where
  "child_main fs can_write addr_len sock_ok bind_ok c rs =
     (if \<not> sock_ok \<or> \<not> bind_ok then Ok NoSocket
      else if c_op c = 1
      then bind_outcome (read_data fs (c_buffer c) (c_client c) rs) (\<lambda>s. Ok (ReadService s))
      else if c_op c = 2
      then bind_outcome (write_data can_write addr_len (c_buffer c) (c_client c) rs) (\<lambda>(f, s). Ok (WriteService f s))
      else Ok Ignored)"


section \<open>One wait\<close>

lemma failures_simps [simp]:
  "failures [] = 0" "failures (Timeout # rs) = Suc (failures rs)"
  "failures (Error # rs) = Suc (failures rs)" "failures (Dgram s d # rs) = failures rs"
  "failures (xs @ ys) = failures xs + failures ys"
  by (simp_all add: failures_def)

lemma answers_simps [simp]:
  "answers [] = 0" "answers (Timeout # rs) = answers rs"
  "answers (Error # rs) = answers rs" "answers (Dgram s d # rs) = Suc (answers rs)"
  "answers (xs @ ys) = answers xs + answers ys"
  by (simp_all add: answers_def)

lemma await_ack_fail:
  "\<not> is_Dgram r \<Longrightarrow> await_ack pkt nd peer (r # rs) =
     (if nd + 1 = 10 then ([(peer, pkt)], nd + 1, peer, Exhausted, rs)
      else (let (out, rest) = await_ack pkt (nd + 1) peer rs in ((peer, pkt) # out, rest)))"
  by (cases r) (auto simp: Let_def)

lemma counts_fail [simp]:
  "\<not> is_Dgram r \<Longrightarrow> failures (r # rs) = Suc (failures rs)"
  "\<not> is_Dgram r \<Longrightarrow> answers (r # rs) = answers rs"
  by (simp_all add: failures_def answers_def)

text \<open>
  A wait that starts below ten failures ends in one of three ways; in each the packet has been
  resent once per failure.
\<close>

lemma await_ack_split:
  assumes "nd < 10"
  shows
   "(\<exists>fs src d rs'. rs = fs @ Dgram src d # rs' \<and> answers fs = 0 \<and> nd + failures fs < 10 \<and>
       await_ack pkt nd peer rs =
         (replicate (failures fs) (peer, pkt), nd + failures fs, src, Answered, rs'))
    \<or> (\<exists>fs rs'. rs = fs @ rs' \<and> answers fs = 0 \<and> nd + failures fs = 10 \<and>
       await_ack pkt nd peer rs =
         (replicate (failures fs) (peer, pkt), 10, peer, Exhausted, rs'))
    \<or> (answers rs = 0 \<and> nd + failures rs < 10 \<and>
       await_ack pkt nd peer rs =
         (replicate (failures rs) (peer, pkt), nd + failures rs, peer, Starved, []))"
    (is "?A nd rs \<or> ?E nd rs \<or> ?S nd rs")
  using assms
proof (induction rs arbitrary: nd)
  case (Cons r rs)
  show ?case
  proof (cases "is_Dgram r")
    case True
    then obtain src d where "r = Dgram src d" by (cases r) auto
    with Cons.prems have "?A nd (r # rs)"
      by (intro exI [of _ "[]"] exI [of _ src] exI [of _ d] exI [of _ rs]) simp
    then show ?thesis ..
  next
    case fail: False
    show ?thesis
    proof (cases "nd + 1 = 10")
      case True
      with fail have "?E nd (r # rs)"
        by (intro exI [of _ "[r]"] exI [of _ rs]) (simp add: await_ack_fail)
      then show ?thesis by blast
    next
      case False
      with Cons.prems have "nd + 1 < 10" by simp
      from Cons.IH [OF this] consider "?A (nd + 1) rs" | "?E (nd + 1) rs" | "?S (nd + 1) rs"
        by blast
      then show ?thesis
      proof cases
        case 1
        then obtain fs src d rs' where *: "rs = fs @ Dgram src d # rs'" "answers fs = 0"
          "nd + 1 + failures fs < 10" "await_ack pkt (nd + 1) peer rs =
             (replicate (failures fs) (peer, pkt), nd + 1 + failures fs, src, Answered, rs')" by blast
        with fail False have "?A nd (r # rs)"
          by (intro exI [of _ "r # fs"] exI [of _ src] exI [of _ d] exI [of _ rs'])
            (simp add: await_ack_fail)
        then show ?thesis ..
      next
        case 2
        then obtain fs rs' where "rs = fs @ rs'" "answers fs = 0" "nd + 1 + failures fs = 10"
          "await_ack pkt (nd + 1) peer rs = (replicate (failures fs) (peer, pkt), 10, peer, Exhausted, rs')"
          by blast
        with fail False have "?E nd (r # rs)"
          by (intro exI [of _ "r # fs"] exI [of _ rs']) (simp add: await_ack_fail)
        then show ?thesis by blast
      next
        case 3
        with fail False have "?S nd (r # rs)" by (simp add: await_ack_fail)
        then show ?thesis by blast
      qed
    qed
  qed
qed simp

lemma await_ack_cases [consumes 1, case_names answered exhausted starved]:
  assumes "nd < 10"
  obtains
    (answered) fs src d rs' where "rs = fs @ Dgram src d # rs'" "answers fs = 0"
      "nd + failures fs < 10"
      "await_ack pkt nd peer rs =
         (replicate (failures fs) (peer, pkt), nd + failures fs, src, Answered, rs')"
  | (exhausted) fs rs' where "rs = fs @ rs'" "answers fs = 0" "nd + failures fs = 10"
      "await_ack pkt nd peer rs = (replicate (failures fs) (peer, pkt), 10, peer, Exhausted, rs')"
  | (starved) "answers rs = 0" "nd + failures rs < 10"
      "await_ack pkt nd peer rs =
         (replicate (failures rs) (peer, pkt), nd + failures rs, peer, Starved, [])"
  using await_ack_split [OF assms, of rs pkt peer] by (elim disjE exE conjE) metis+

section \<open>Whole transfers\<close>

text \<open>The number of blocks of a file: the last one has fewer than 512 bytes, possibly none.\<close>

definition blocks :: "byte list \<Rightarrow> nat" where
  "blocks file = length file div 512 + 1"

lemma blocks_short [simp]: "length file < 512 \<Longrightarrow> blocks file = 1"
  by (simp add: blocks_def)

lemma blocks_long: "512 \<le> length file \<Longrightarrow> blocks file = Suc (blocks (drop 512 file))"
  by (simp add: blocks_def le_div_geq)

lemma map_blocks_short [simp]: "length file < 512 \<Longrightarrow> map g [0..<blocks file] = [g 0]"
  by simp

lemma map_blocks_long:
  "512 \<le> length file \<Longrightarrow>
     map g [0..<blocks file] = g 0 # map (\<lambda>i. g (Suc i)) [0..<blocks (drop 512 file)]"
  by (simp add: blocks_long upt_conv_Cons map_Suc_upt [symmetric] comp_def del: upt_Suc)

text \<open>
  A receiver as RFC 1350 describes it: it takes the next expected block and ignores every
  other data packet, such as a duplicate.
\<close>

fun client_accept :: "16 word \<Rightarrow> byte list list \<Rightarrow> byte list" where
  "client_accept expected [] = []"
| "client_accept expected (p # ps) =
     (if rd16 p = 3 \<and> rd16 (drop 2 p) = expected
      then drop 4 p @ client_accept (1 + expected) ps
      else client_accept expected ps)"

lemma rd16_data_packet [simp, net_simps]:
  "rd16 (data_packet b payload) = 3"
  "rd16 (drop 2 (data_packet b payload)) = word_of_nat b"
  "drop 4 (data_packet b payload) = payload"
  by (simp_all add: data_packet_def be16_def rd16_be16_append [unfolded be16_def, simplified])

lemma client_accept_next [simp]:
  "client_accept (word_of_nat b) (data_packet b payload # ps)
     = payload @ client_accept (1 + word_of_nat b) ps"
  by (simp add: add.commute)

lemma client_accept_resent [simp]:
  "e \<noteq> word_of_nat b \<Longrightarrow>
     client_accept e (replicate k (data_packet b payload) @ ps) = client_accept e ps"
  "e \<noteq> word_of_nat b \<Longrightarrow> client_accept e (replicate k (data_packet b payload)) = []"
  by (induction k) auto

lemma send_file_answered:
  assumes "await_ack (data_packet b (take 512 rest)) nd peer rs = (out, nd', peer', Answered, rs')"
  shows "send_file rest b nd peer rs =
    (if length rest < 512
     then \<lparr>tx = (peer, data_packet b (take 512 rest)) # out, ending = Finished\<rparr>
     else (let s = send_file (drop 512 rest) (b + 1) nd' peer' rs'
           in s\<lparr>tx := (peer, data_packet b (take 512 rest)) # out @ tx s\<rparr>))"
  using assms by (subst send_file.simps) simp

lemma send_file_stops:
  assumes "await_ack (data_packet b (take 512 rest)) nd peer rs = (out, nd', peer', w, rs')"
    and "w \<noteq> Answered"
  shows "send_file rest b nd peer rs =
    \<lparr>tx = (peer, data_packet b (take 512 rest)) # out,
     ending = (if w = Starved then Blocked else GaveUp)\<rparr>"
  using assms by (subst send_file.simps) (cases w, simp_all)

lemma send_file_induct [case_names block]:
  assumes step: "\<And>rest b nd peer rs.
      (\<And>out nd' src rs'. 512 \<le> length rest \<Longrightarrow>
         await_ack (data_packet b (take 512 rest)) nd peer rs = (out, nd', src, Answered, rs') \<Longrightarrow>
         P (drop 512 rest) (b + 1) nd' src rs') \<Longrightarrow> P rest b nd peer rs"
  shows "P rest b nd peer rs"
proof (induction "length rest" arbitrary: rest b nd peer rs rule: less_induct)
  case less
  show ?case by (rule step) (rule less, simp)
qed

lemma send_file_transfers:
  assumes "nd + failures rs < 10" and "blocks rest \<le> answers rs"
  shows "ending (send_file rest b nd peer rs) = Finished \<and>
    client_accept (word_of_nat b) (map snd (tx (send_file rest b nd peer rs))) = rest"
  using assms
proof (induction rest b nd peer rs rule: send_file_induct)
  case (block rest b nd peer rs)
  let ?pkt = "data_packet b (take 512 rest)"
  from block.prems have "nd < 10" by simp
  then show ?case
  proof (cases rule: await_ack_cases [of nd rs ?pkt peer])
    case (answered fs src d rs')
    show ?thesis
    proof (cases "length rest < 512")
      case True
      with answered show ?thesis by (simp add: send_file_answered map_replicate_const)
    next
      case False
      then have "ending (send_file (drop 512 rest) (b + 1) (nd + failures fs) src rs') = Finished \<and>
        client_accept (word_of_nat (b + 1))
          (map snd (tx (send_file (drop 512 rest) (b + 1) (nd + failures fs) src rs'))) = drop 512 rest"
        using block.prems answered
        by (intro block.IH [OF _ answered(4)]) (auto simp: blocks_long)
      with False answered show ?thesis
        by (simp add: send_file_answered Let_def map_replicate_const)
    qed
  next
    case (exhausted fs rs')
    with block.prems show ?thesis by simp
  next
    case starved
    with block.prems show ?thesis by (simp add: blocks_def)
  qed
qed

text \<open>
  The datagrams a session sends to one address; a session that hears from nobody else sends to no other.
\<close>

definition sent_to :: "endpoint \<Rightarrow> (endpoint \<times> byte list) list \<Rightarrow> (endpoint \<times> byte list) list" where
  "sent_to host out = filter (\<lambda>(dst, pkt). dst = host) out"

definition from_only :: "endpoint \<Rightarrow> recv list \<Rightarrow> bool" where
  "from_only host rs \<longleftrightarrow> list_all (\<lambda>r. case r of Dgram src d \<Rightarrow> src = host | _ \<Rightarrow> True) rs"

lemma from_only_append [simp]:
  "from_only host [] " "from_only host (xs @ ys) \<longleftrightarrow> from_only host xs \<and> from_only host ys"
  "from_only host (Dgram src d # rs) \<longleftrightarrow> src = host \<and> from_only host rs"
  "from_only host (Timeout # rs) \<longleftrightarrow> from_only host rs" "from_only host (Error # rs) \<longleftrightarrow> from_only host rs"
  by (simp_all add: from_only_def)

lemma send_file_one_peer:
  assumes "nd < 10" and "from_only peer rs"
  shows "fst ` set (tx (send_file rest b nd peer rs)) \<subseteq> {peer}"
  using assms
proof (induction rest b nd peer rs rule: send_file_induct)
  case (block rest b nd peer rs)
  let ?pkt = "data_packet b (take 512 rest)"
  from block.prems(1) show ?case
  proof (cases rule: await_ack_cases [of nd rs ?pkt peer])
    case (answered fs src d rs')
    show ?thesis
    proof (cases "length rest < 512")
      case True
      with answered show ?thesis by (auto simp: send_file_answered)
    next
      case False
      then have "fst ` set (tx (send_file (drop 512 rest) (b + 1) (nd + failures fs) src rs')) \<subseteq> {src}"
        using block.prems answered by (intro block.IH [OF _ answered(4)]) auto
      with False answered block.prems show ?thesis by (auto simp: send_file_answered Let_def)
    qed
  qed (auto simp: send_file_stops)
qed

lemma send_file_sent_to:
  assumes "nd < 10" and "from_only peer rs"
  shows "sent_to peer (tx (send_file rest b nd peer rs)) = tx (send_file rest b nd peer rs)"
  using send_file_one_peer [OF assms, of rest b] by (force simp: sent_to_def intro: filter_True)

lemma send_file_gives_up:
  assumes "nd < 10"
  shows "ending (send_file rest b nd peer rs) = GaveUp \<longleftrightarrow>
    (\<exists>pre post. rs = pre @ post \<and> nd + failures pre = 10 \<and> answers pre < blocks rest)"
  using assms
proof (induction rest b nd peer rs rule: send_file_induct)
  case (block rest b nd peer rs)
  let ?pkt = "data_packet b (take 512 rest)"
  let ?G = "\<lambda>nd rest rs. \<exists>pre post. rs = pre @ post \<and> nd + failures pre = 10 \<and> answers pre < blocks rest"
  from block.prems show ?case
  proof (cases rule: await_ack_cases [of nd rs ?pkt peer])
    case (answered fs src d rs')
    have shift: "?G nd rest rs \<longleftrightarrow> (\<exists>pre post. rs' = pre @ post \<and> nd + failures fs + failures pre = 10
        \<and> Suc (answers pre) < blocks rest)"
    proof
      assume "?G nd rest rs"
      then obtain pre post where *: "rs = pre @ post" "nd + failures pre = 10" "answers pre < blocks rest"
        by blast
      have "\<not> (\<exists>us. fs = pre @ us)"
        using * answered(3) by (auto)
      with * answered(1) obtain us where "pre = fs @ us" "us \<noteq> []" "us @ post = Dgram src d # rs'"
        by (auto simp: append_eq_append_conv2)
      then obtain vs where "pre = fs @ Dgram src d # vs" "rs' = vs @ post"
        by (cases us) auto
      with * answered show "\<exists>pre post. rs' = pre @ post \<and> nd + failures fs + failures pre = 10
        \<and> Suc (answers pre) < blocks rest" by auto
    next
      assume "\<exists>pre post. rs' = pre @ post \<and> nd + failures fs + failures pre = 10
        \<and> Suc (answers pre) < blocks rest"
      then obtain pre post where "rs' = pre @ post" "nd + failures fs + failures pre = 10"
        "Suc (answers pre) < blocks rest" by blast
      with answered show "?G nd rest rs"
        by (intro exI [of _ "fs @ Dgram src d # pre"] exI [of _ post]) simp
    qed
    show ?thesis
    proof (cases "length rest < 512")
      case True
      with answered have "ending (send_file rest b nd peer rs) \<noteq> GaveUp"
        by (simp add: send_file_answered)
      with shift True show ?thesis by simp
    next
      case False
      from False have "ending (send_file (drop 512 rest) (b + 1) (nd + failures fs) src rs') = GaveUp
          \<longleftrightarrow> ?G (nd + failures fs) (drop 512 rest) rs'"
        by (intro block.IH [OF _ answered(4) answered(3)]) simp
      with shift False answered show ?thesis
        by (simp add: send_file_answered Let_def blocks_long)
    qed
  next
    case (exhausted fs rs')
    then have "?G nd rest rs" by (intro exI [of _ fs] exI [of _ rs']) (simp add: blocks_def)
    with exhausted show ?thesis by (simp add: send_file_stops)
  next
    case starved
    then have "\<not> ?G nd rest rs" by auto
    with starved show ?thesis by (simp add: send_file_stops)
  qed
qed

text \<open>What is sent is a block of the file under its own number, and resending is bounded.\<close>

lemma send_file_packets:
  assumes "nd < 10" and "pkt \<in> snd ` set (tx (send_file rest b nd peer rs))"
  shows "\<exists>i < blocks rest. pkt = data_packet (b + i) (take 512 (drop (512 * i) rest))"
  using assms
proof (induction rest b nd peer rs rule: send_file_induct)
  case (block rest b nd peer rs)
  let ?pkt = "data_packet b (take 512 rest)"
  have first: "\<exists>i < blocks rest. ?pkt = data_packet (b + i) (take 512 (drop (512 * i) rest))"
    by (rule exI [of _ 0]) (simp add: blocks_def)
  from block.prems(1) show ?case
  proof (cases rule: await_ack_cases [of nd rs ?pkt peer])
    case (answered fs src d rs')
    show ?thesis
    proof (cases "length rest < 512 \<or> pkt = ?pkt")
      case True
      with first answered block.prems(2) show ?thesis
        by (auto simp: send_file_answered)
    next
      case False
      with block.prems(2) answered
      have "pkt \<in> snd ` set (tx (send_file (drop 512 rest) (b + 1) (nd + failures fs) src rs'))"
        by (auto simp: send_file_answered Let_def)
      with block.IH [OF _ answered(4) answered(3)] False
      obtain i where "i < blocks (drop 512 rest)"
        "pkt = data_packet (b + 1 + i) (take 512 (drop (512 * i) (drop 512 rest)))" by auto
      with False show ?thesis
        by (intro exI [of _ "Suc i"]) (simp add: blocks_long add.commute)
    qed
  next
    case (exhausted fs rs')
    with first block.prems(2) show ?thesis by (auto simp: send_file_stops)
  next
    case starved
    with first block.prems(2) show ?thesis by (auto simp: send_file_stops)
  qed
qed

lemma send_file_bounded:
  assumes "nd < 10"
  shows "length (tx (send_file rest b nd peer rs)) \<le> blocks rest + (10 - nd)"
  using assms
proof (induction rest b nd peer rs rule: send_file_induct)
  case (block rest b nd peer rs)
  let ?pkt = "data_packet b (take 512 rest)"
  from block.prems show ?case
  proof (cases rule: await_ack_cases [of nd rs ?pkt peer])
    case (answered fs src d rs')
    then show ?thesis
      using block.IH [OF _ answered(4) answered(3)]
      by (auto simp: send_file_answered Let_def blocks_long)
  qed (auto simp: send_file_stops blocks_def)
qed

text \<open>With no failure at all, each block goes to the sender of the datagram before it.\<close>

fun source :: "recv \<Rightarrow> endpoint" where
  "source (Dgram src d) = src"
| "source _ = (0, 0)"

lemma send_file_no_failure:
  assumes "failures rs = 0" and "blocks rest \<le> length rs"
  shows "tx (send_file rest b nd peer rs) =
    map (\<lambda>i. ((peer # map source rs) ! i, data_packet (b + i) (take 512 (drop (512 * i) rest))))
      [0..<blocks rest]"
  using assms
proof (induction "blocks rest" arbitrary: rest b peer rs)
  case (Suc n)
  then obtain src d rs' where rs: "rs = Dgram src d # rs'"
    by (cases rs; cases "hd rs") (auto simp: blocks_def)
  show ?case
  proof (cases "length rest < 512")
    case True
    with rs show ?thesis by (simp add: send_file_answered)
  next
    case False
    with Suc.hyps have "n = blocks (drop 512 rest)" by (simp add: blocks_long)
    with Suc.prems Suc.hyps rs False
    have "tx (send_file (drop 512 rest) (b + 1) nd src rs') =
      map (\<lambda>i. ((src # map source rs') ! i,
        data_packet (b + 1 + i) (take 512 (drop (512 * i) (drop 512 rest))))) [0..<blocks (drop 512 rest)]"
      by (intro Suc.hyps) (simp_all add: blocks_long)
    with False rs show ?thesis
      by (simp add: send_file_answered Let_def map_blocks_long add.commute)
  qed
qed (simp add: blocks_def)

section \<open>Storing\<close>

lemma stored_text_cong: "drop 4 d = drop 4 e \<Longrightarrow> stored_text d = stored_text e"
  by (simp add: stored_text_def)

lemma recv_file_full:
  "0 \<le> al \<Longrightarrow> length d = 516 \<Longrightarrow> recv_file al t b l p (Dgram src d # rs) =
     bind_outcome (recv_file 16 0 (b + 1) (ack_packet (b + 1)) (store_addr al p src) rs) (\<lambda>s.
       Ok (s\<lparr>tx := (store_addr al p src, ack_packet (b + 1)) # tx s, stored := stored_text d @ stored s\<rparr>))"
  by (simp add: Let_def)

lemma recv_file_last:
  "0 \<le> al \<Longrightarrow> length d < 516 \<Longrightarrow> recv_file al t b l p (Dgram src d # rs) =
     Ok \<lparr>tx = [(store_addr al p src, ack_packet (b + 1))], ending = Finished, stored = stored_text d\<rparr>"
  by (simp add: Let_def)

lemma recv_file_oversize:
  "0 \<le> al \<Longrightarrow> 517 \<le> length d \<Longrightarrow> recv_file al t b l p (Dgram src d # rs) = Undefined"
  by (simp add: Let_def min_def)

lemma recv_file_no_room:
  "al < 0 \<Longrightarrow> recv_file al t b l p (Dgram src d # rs) =
     Ok \<lparr>tx = [(p, ack_packet (b + 1))], ending = Finished, stored = []\<rparr>"
  by (simp add: Let_def)

declare recv_file.simps(4) [simp del]

lemmas recv_file_steps [simp] = recv_file_full recv_file_last recv_file_oversize recv_file_no_room

text \<open>Fewer than ten timeouts in a row, \<open>t\<close> of them counted already.\<close>

fun patient :: "nat \<Rightarrow> recv list \<Rightarrow> bool" where
  "patient t [] = True"
| "patient t (Timeout # rs) = (t + 1 < 10 \<and> patient (t + 1) rs)"
| "patient t (_ # rs) = patient 0 rs"

lemma recv_file_stores:
  assumes "patient t rs" and "0 \<le> al"
    and "filter (\<lambda>r. r \<noteq> Timeout) rs = map (\<lambda>(src, d). Dgram src d) (ds @ [lst]) @ later"
    and "\<forall>(src, d) \<in> set ds. length d = 516" and "length (snd lst) < 516"
  shows "\<exists>s. recv_file al t b l p rs = Ok s \<and> ending s = Finished \<and>
    stored s = concat (map (\<lambda>x. stored_text (snd x)) (ds @ [lst]))"
  using assms
proof (induction t rs arbitrary: al b l p ds rule: patient.induct [case_names Empty Time Dg Err])
  case (Time t rs)
  have "filter (\<lambda>r. r \<noteq> Timeout) rs = map (\<lambda>(src, d). Dgram src d) (ds @ [lst]) @ later"
    and "patient (t + 1) rs" and "t + 1 < 10" using Time.prems(1,3) by simp_all
  then obtain s where "recv_file al (t + 1) b l p rs = Ok s" "ending s = Finished"
    "stored s = concat (map (\<lambda>x. stored_text (snd x)) (ds @ [lst]))"
    using Time.IH [OF _ Time.prems(2) _ Time.prems(4,5)] by blast
  with \<open>t + 1 < 10\<close> show ?case by (simp add: comp_def)
next
  case (Dg t src d rs)
  show ?case
  proof (cases ds)
    case Nil
    with Dg.prems show ?thesis by (cases lst) simp
  next
    case (Cons x ds')
    with Dg.prems have x: "x = (src, d)" "length d = 516" by (cases x; simp)+
    from Dg.IH [of 16 ds' "b + 1" "ack_packet (b + 1)" "store_addr al p src"] Dg.prems Cons
    obtain s where "recv_file 16 0 (b + 1) (ack_packet (b + 1)) (store_addr al p src) rs = Ok s" "ending s = Finished"
      "stored s = concat (map (\<lambda>x. stored_text (snd x)) (ds' @ [lst]))" by auto
    with Cons x Dg.prems(2) show ?thesis by simp
  qed
next
  case (Err t rs)
  then show ?case by (cases ds) (auto split: prod.splits)
qed simp

text \<open>What is left of a file when every block is cut at its first zero byte.\<close>

definition cut_blocks :: "byte list \<Rightarrow> byte list" where
  "cut_blocks content =
     concat (map (\<lambda>i. takeWhile (\<lambda>b. b \<noteq> 0) (take 512 (drop (512 * i) content))) [0..<blocks content])"

lemma cut_blocks_short: "length content < 512 \<Longrightarrow> cut_blocks content = takeWhile (\<lambda>b. b \<noteq> 0) content"
  by (simp add: cut_blocks_def)

lemma cut_blocks_long:
  "512 \<le> length content \<Longrightarrow>
     cut_blocks content = takeWhile (\<lambda>b. b \<noteq> 0) (take 512 content) @ cut_blocks (drop 512 content)"
  by (simp add: cut_blocks_def map_blocks_long add.commute)

text \<open>The whole file, as the reader sends it, through the writer.\<close>

lemma recv_file_of_blocks:
  "0 \<le> al \<Longrightarrow> \<exists>s. recv_file al t b l p (map (\<lambda>i. Dgram src (data_packet (c + i) (take 512 (drop (512 * i) content))))
         [0..<blocks content]) = Ok s \<and> ending s = Finished \<and>
     stored s = cut_blocks content
     \<and> map snd (tx s) = map (\<lambda>i. ack_packet (b + 1 + i)) [0..<blocks content]"
proof (induction "blocks content" arbitrary: al t b l p c content)
  case (Suc n)
  have len: "length (data_packet c x) = 4 + length x" for x by (simp add: data_packet_def)
  show ?case
  proof (cases "length content < 512")
    case True
    with Suc.prems show ?thesis by (simp add: len stored_text_def cut_blocks_short)
  next
    case False
    with Suc.hyps have "n = blocks (drop 512 content)" by (simp add: blocks_long)
    then obtain s where "recv_file 16 0 (b + 1) (ack_packet (b + 1)) (store_addr al p src)
        (map (\<lambda>i. Dgram src (data_packet (c + 1 + i) (take 512 (drop (512 * i) (drop 512 content)))))
          [0..<blocks (drop 512 content)]) = Ok s"
      "ending s = Finished" "stored s = cut_blocks (drop 512 content)"
      "map snd (tx s) = map (\<lambda>i. ack_packet (b + 1 + 1 + i)) [0..<blocks (drop 512 content)]"
      using Suc.hyps(1) [of "drop 512 content" 16 0 "b + 1" "ack_packet (b + 1)" "store_addr al p src" "c + 1"] by fastforce
    with False Suc.prems show ?thesis
      by (simp add: map_blocks_long cut_blocks_long len stored_text_def add.commute)
  qed
qed (simp add: blocks_def)

lemma cut_blocks_eq_iff:
  "length (cut_blocks content) \<le> length content \<and> (cut_blocks content = content \<longleftrightarrow> 0 \<notin> set content)"
proof (induction "blocks content" arbitrary: content)
  case (Suc n)
  show ?case
  proof (cases "length content < 512")
    case True
    then show ?thesis by (auto simp: cut_blocks_short takeWhile_eq_all_conv length_takeWhile_le)
  next
    case False
    let ?a = "take 512 content" and ?b = "drop 512 content"
    let ?t = "takeWhile (\<lambda>b. b \<noteq> 0) ?a" and ?r = "cut_blocks ?b"
    have IH: "length ?r \<le> length ?b" "?r = ?b \<longleftrightarrow> 0 \<notin> set ?b"
      using Suc.hyps(1) [of ?b] Suc.hyps(2) False by (simp_all add: blocks_long)
    have t: "length ?t \<le> length ?a" "?t = ?a \<longleftrightarrow> 0 \<notin> set ?a"
      by (rule length_takeWhile_le) (auto simp: takeWhile_eq_all_conv)
    have split: "cut_blocks content = ?t @ ?r" "content = ?a @ ?b"
      using False by (simp_all add: cut_blocks_long)
    have len: "length (?t @ ?r) = length ?t + length ?r" "length content = length ?a + length ?b"
      by simp_all
    have eqs: "?t = ?a \<and> ?r = ?b" if eq: "?t @ ?r = ?a @ ?b"
    proof -
      from eq have "length ?t + length ?r = length ?a + length ?b"
        by (metis length_append)
      with t(1) IH(1) have "length ?t = length ?a" by linarith
      then show ?thesis by (rule append_eq_append_conv [THEN iffD1, OF disjI1]) (rule eq)
    qed
    have "?t @ ?r = ?a @ ?b \<longleftrightarrow> ?t = ?a \<and> ?r = ?b"
      by (rule iffI, erule eqs, elim conjE, simp only:)
    moreover have "0 \<in> set content \<longleftrightarrow> 0 \<in> set ?a \<or> 0 \<in> set ?b"
      by (metis Un_iff set_append append_take_drop_id)
    ultimately have "cut_blocks content = content \<longleftrightarrow> 0 \<notin> set content"
      using split t(2) IH(2) by metis
    moreover have "length (cut_blocks content) \<le> length content"
      unfolding split(1) len using t(1) IH(1) by linarith
    ultimately show ?thesis by blast
  qed
qed (simp add: blocks_def)

text \<open>Sessions as long as no datagram is too long, whatever else happens.\<close>

fun fits_buffer :: "recv \<Rightarrow> bool" where
  "fits_buffer (Dgram src d) \<longleftrightarrow> length d \<le> 516"
| "fits_buffer _ \<longleftrightarrow> True"

lemma recv_file_defined:
  "list_all fits_buffer rs \<Longrightarrow> \<exists>s. recv_file al t b l p rs = Ok s"
proof (induction al t b l p rs rule: recv_file.induct)
  case (2 al t b l p rs)
  show ?case
  proof (cases "t + 1 \<ge> 10")
    case False
    with 2 have "\<exists>s. recv_file al (t + 1) b l p rs = Ok s" by auto
    with False show ?thesis by auto
  qed simp
next
  case (4 al t b l p src d rs)
  have "length d \<le> 516" using "4.prems" by simp
  then consider "0 \<le> al" "length d = 516" | "0 \<le> al" "length d < 516" | "al < 0" by linarith
  then show ?case
  proof cases
    case 1
    have "\<exists>s. recv_file 16 0 (b + 1) (ack_packet (b + 1)) (store_addr al p src) rs = Ok s"
      by (rule "4.IH" [OF refl refl refl refl]) (use 1 "4.prems" in auto)
    with 1 show ?thesis by auto
  qed simp_all
qed simp_all

lemma recv_file_timeouts:
  "recv_file al t b l p (replicate k Timeout @ rs) =
     (if t + k \<ge> 10 \<and> k > 0 then
        (if t \<ge> 10 then Ok \<lparr>tx = [], ending = GaveUp, stored = []\<rparr>
         else Ok \<lparr>tx = replicate (9 - t) (p, l), ending = GaveUp, stored = []\<rparr>)
      else bind_outcome (recv_file al (t + k) b l p rs) (\<lambda>s. Ok (s\<lparr>tx := replicate k (p, l) @ tx s\<rparr>)))"
proof (induction k arbitrary: t)
  case 0
  then show ?case by (cases "recv_file al t b l p rs") auto
next
  case (Suc k)
  show ?case
  proof (cases "t \<ge> 9")
    case True
    then show ?thesis by simp
  next
    case False
    then have "9 - t = Suc (9 - Suc t)" by simp
    with False Suc [of "Suc t"] show ?thesis
      by (cases "recv_file al (Suc t + k) b l p rs") (auto simp: replicate_append_same)
  qed
qed

section \<open>The parent\<close>

lemma parent_loop_tids:
  "map c_tid (parent_loop tid buffer client rs)
     = map (\<lambda>i. tid - int i) (filter (\<lambda>i. snd (rs ! i)) [0..<length rs])"
proof (induction tid buffer client rs rule: parent_loop.induct)
  case (2 tid buffer client r forked rs)
  have "map (\<lambda>i. tid - int i) (filter (\<lambda>i. snd (((r, forked) # rs) ! i)) [0..<Suc (length rs)])
    = (if forked then [tid] else [])
      @ map (\<lambda>i. tid - 1 - int i) (filter (\<lambda>i. snd (rs ! i)) [0..<length rs])"
    by (simp add: upt_conv_Cons map_Suc_upt [symmetric] filter_map comp_def algebra_simps
        del: upt_Suc)
  with 2 show ?case by (auto simp: Let_def split: recv.splits prod.splits)
qed simp

text \<open>The first request a parent sees: the bytes of a well-formed RRQ or WRQ.\<close>

definition request :: "16 word \<Rightarrow> byte list \<Rightarrow> byte list \<Rightarrow> byte list" where
  "request code name tail = be16 code @ name @ 0 # tail"

lemma receive_request:
  assumes "length name < 256"
  obtains rest where
    "receive_into (replicate 517 0) (request code name tail) = be16 code @ name @ 0 # rest"
proof -
  have "take 517 (request code name tail) = be16 code @ name @ 0 # take (514 - length name) tail"
    using assms by (simp add: request_def take_Cons' Suc_diff_le)
  then show ?thesis using that by (simp add: receive_into_def)
qed

lemma request_file_request:
  assumes "0 \<notin> set name" and "length name < 256"
  shows "request_file (be16 code @ name @ 0 # rest) = Ok name"
proof -
  have "takeWhile (\<lambda>b. b \<noteq> 0) (name @ 0 # rest) = name"
    using assms(1) by (subst takeWhile_append2) auto
  with assms(2) show ?thesis by (simp add: request_file_def Let_def)
qed

section \<open>Properties\<close>

text \<open>
  C1: A read request for an existing file with a name below 256 bytes, from the request datagram through the parent and the
  forked child to the client: if fewer than ten receives fail, there is an answer for every
  block and all answers come from the client, the child ends normally, everything it sends goes to the
  client's address, and a receiver there that follows RFC 1350 (it drops duplicates)
  reassembles exactly the file, also when the block number wraps around at 65536. (A datagram from
  elsewhere redirects the rest of the transfer, see \<open>rrq_output_follows_sender\<close>.)
\<close>

theorem rrq_delivers_file:
  assumes "fs name = Some content" and "0 \<notin> set name" and "length name < 256"
    and "failures rs < 10" and "blocks content \<le> answers rs" and "from_only client rs"
  shows "\<exists>c s. tftp_main [prog, lo, hi] True True peer0 [(Dgram client (request 1 name tail), True)] = [c]
    \<and> c_tid c = atoi hi
    \<and> child_main fs can_write al True True c rs = Ok (ReadService s)
    \<and> ending s = Finished \<and> fst ` set (tx s) \<subseteq> {client}
    \<and> client_accept 1 (map snd (sent_to client (tx s))) = content"
proof -
  obtain rest where buf: "receive_into (replicate 517 0) (request 1 name tail) = be16 1 @ name @ 0 # rest"
    using receive_request assms(3) by blast
  let ?c = "\<lparr>c_tid = atoi hi, c_op = 1, c_buffer = be16 1 @ name @ 0 # rest, c_client = client\<rparr>"
  have "tftp_main [prog, lo, hi] True True peer0 [(Dgram client (request 1 name tail), True)] = [?c]"
    by (simp add: tftp_main_def buf)
  moreover have "child_main fs can_write al True True ?c rs = Ok (ReadService (send_file content 1 0 client rs))"
    using assms by (simp add: child_main_def read_data_def request_file_request)
  ultimately show ?thesis
    using send_file_transfers [of 0 rs content 1 client] send_file_sent_to [of 0 client rs content 1]
      send_file_one_peer [of 0 client rs content 1] assms by auto
qed

theorem rrq_delivers_file_witness:
  "\<exists>c s. tftp_main [''server'', ''8000'', ''9000''] True True (0, 0)
       [(Dgram (1, 2) (request 1 [97] []), True)] = [c] \<and> c_tid c = atoi ''9000''
    \<and> child_main (\<lambda>n. if n = [97] then Some [104, 105] else None) (\<lambda>_. True) 0 True True c
         [Timeout, Dgram (1, 2) [0, 4, 0, 1]] = Ok (ReadService s)
    \<and> ending s = Finished \<and> fst ` set (tx s) \<subseteq> {(1, 2)}
    \<and> client_accept 1 (map snd (sent_to (1, 2) (tx s))) = [104, 105]"
  by (rule rrq_delivers_file) simp_all

text \<open>
  C39: A read session for an existing file is abandoned exactly when ten receives have failed, counted over the whole
  session and not in a row, before every block was answered. (The README describes a counter of
  consecutive timeouts: "10 timeouts (which is a 10 second timeout)".)
\<close>

theorem rrq_gives_up_iff:
  assumes "read_data fs buffer client rs = Ok s"
    and "request_file buffer = Ok name" and "fs name = Some content"
  shows "ending s = GaveUp \<longleftrightarrow>
    (\<exists>pre post. rs = pre @ post \<and> failures pre = 10 \<and> answers pre < blocks content)"
  using assms send_file_gives_up [of 0 content 1 client rs] by (simp add: read_data_def)

theorem rrq_gives_up_iff_witness:
  "ending (send_file [] 1 0 (0, 0) (replicate 10 Timeout)) = GaveUp \<longleftrightarrow>
    (\<exists>pre post. replicate 10 Timeout = pre @ post \<and> failures pre = 10 \<and> answers pre < blocks [])"
  by (rule rrq_gives_up_iff [where fs = "\<lambda>_. Some []" and buffer = "[0, 1, 97, 0]" and name = "[97]"])
    (simp_all add: read_data_def request_file_def)

text \<open>
  Everything a read session sends is a block of the file under its own 16-bit number, in at
  most 516 bytes, and the session sends at most ten datagrams more than the file has blocks.
\<close>

theorem rrq_session_bounded:
  "(\<forall>pkt \<in> snd ` set (tx (send_file content 1 0 client rs)).
      \<exists>i < blocks content. pkt = data_packet (1 + i) (take 512 (drop (512 * i) content))
        \<and> length pkt \<le> 516)
   \<and> length (tx (send_file content 1 0 client rs)) \<le> blocks content + 10"
proof (intro conjI ballI)
  fix pkt assume "pkt \<in> snd ` set (tx (send_file content 1 0 client rs))"
  with send_file_packets [of 0 pkt content 1 client rs]
  obtain i where "i < blocks content" "pkt = data_packet (1 + i) (take 512 (drop (512 * i) content))"
    by auto
  then show "\<exists>i < blocks content. pkt = data_packet (1 + i) (take 512 (drop (512 * i) content))
      \<and> length pkt \<le> 516"
    by (intro exI [of _ i]) (simp add: data_packet_def)
next
  show "length (tx (send_file content 1 0 client rs)) \<le> blocks content + 10"
    using send_file_bounded [of 0 content 1 client rs] by simp
qed

theorem rrq_session_bounded_witness:
  "length (tx (send_file [1, 2, 3] 1 0 (0, 0) (replicate 20 Timeout))) \<le> 11"
  using rrq_session_bounded [of "[1, 2, 3]" "(0, 0)" "replicate 20 Timeout"] by simp

text \<open>
  With no failure, the exact output of a read session: block \<open>i\<close> goes to the source of the
  \<open>i\<close>-th datagram that arrived (the first one to the client). Neither the opcode, nor the
  acknowledged block number, nor the source address of a datagram is checked, so any datagram
  from anywhere advances the transfer and redirects it.
\<close>

theorem rrq_output_follows_sender:
  assumes "failures rs = 0" and "blocks content \<le> length rs"
  shows "tx (send_file content 1 0 client rs) =
    map (\<lambda>i. ((client # map source rs) ! i, data_packet (1 + i) (take 512 (drop (512 * i) content))))
      [0..<blocks content]"
  using send_file_no_failure [OF assms] by simp

theorem rrq_output_follows_sender_witness:
  "tx (send_file (replicate 512 7 @ [9]) 1 0 (1, 1) [Dgram (66, 6) [], Dgram (1, 1) []]) =
    [((1, 1), data_packet 1 (replicate 512 7)), ((66, 6), data_packet 2 [9])]"
proof -
  have "blocks (replicate 512 (7 :: byte) @ [9]) = 2" by (simp add: blocks_def)
  with rrq_output_follows_sender [of "[Dgram (66, 6) [], Dgram (1, 1) []]" "replicate 512 7 @ [9]" "(1, 1)"]
  show ?thesis by (simp add: upt_rec numeral_2_eq_2)
qed

text \<open>
  C3: A write request for a file that can be written, its name below 256 bytes, from the datagram through the parent and the child: as long as no ten
  timeouts come in a row, full blocks followed by a shorter one are stored, in the order of
  arrival and from whomever they come, under the requested name, each up to its first zero byte; provided
  that the uninitialised \<open>addr_len\<close> is not negative.
\<close>

theorem wrq_stores_blocks:
  assumes "can_write name" and "0 \<notin> set name" and "length name < 256" and "patient 0 rs" and "0 \<le> al"
    and "filter (\<lambda>r. r \<noteq> Timeout) rs = map (\<lambda>(src, d). Dgram src d) (ds @ [lst]) @ later"
    and "\<forall>(src, d) \<in> set ds. length d = 516" and "length (snd lst) < 516"
  shows "\<exists>c s. tftp_main [prog, lo, hi] True True peer0 [(Dgram client (request 2 name tail), True)] = [c]
    \<and> child_main fs can_write al True True c rs = Ok (WriteService name s)
    \<and> ending s = Finished \<and> stored s = concat (map (\<lambda>x. stored_text (snd x)) (ds @ [lst]))"
proof -
  obtain rest where buf: "receive_into (replicate 517 0) (request 2 name tail) = be16 2 @ name @ 0 # rest"
    using receive_request assms(3) by blast
  let ?c = "\<lparr>c_tid = atoi hi, c_op = 2, c_buffer = be16 2 @ name @ 0 # rest, c_client = client\<rparr>"
  have "tftp_main [prog, lo, hi] True True peer0 [(Dgram client (request 2 name tail), True)] = [?c]"
    by (simp add: tftp_main_def buf)
  moreover obtain s where "recv_file al 0 0 (ack_packet 0) client rs = Ok s" "ending s = Finished"
    "stored s = concat (map (\<lambda>x. stored_text (snd x)) (ds @ [lst]))"
    using recv_file_stores [OF assms(4-8)] by blast
  then have "child_main fs can_write al True True ?c rs
      = Ok (WriteService name (s\<lparr>tx := (client, ack_packet 0) # tx s\<rparr>))"
    using assms(1-3) by (simp add: child_main_def write_data_def request_file_request)
  ultimately show ?thesis
    using \<open>ending s = Finished\<close> \<open>stored s = _\<close> by auto
qed

theorem wrq_stores_blocks_witness:
  "\<exists>c s. tftp_main [''server'', ''8000'', ''9000''] True True (0, 0)
       [(Dgram (1, 2) (request 2 [97] []), True)] = [c]
    \<and> child_main (\<lambda>_. None) (\<lambda>_. True) 5 True True c [Timeout, Dgram (1, 2) [0, 3, 0, 1, 104, 105]]
        = Ok (WriteService [97] s)
    \<and> ending s = Finished
    \<and> stored s = concat (map (\<lambda>x. stored_text (snd x)) ([] @ [((1 :: 32 word, 2 :: 16 word), [0, 3, 0, 1, 104, 105])]))"
  by (rule wrq_stores_blocks [where later = "[]"]) simp_all

text \<open>
  C2: Round trip. What a read session sends to its client without failures, with an answer to every block and hearing from nobody else,
  is stored by a write session that receives it (with a nonnegative value in its uninitialised \<open>addr_len\<close>)
  unchanged exactly when the file has no zero byte: the writer ends normally after
  acknowledging every block in order, but \<open>fprintf("%s")\<close> cuts each block at its first zero.
\<close>

theorem transfer_roundtrip:
  assumes "failures rs = 0" and "blocks content \<le> length rs" and "from_only client rs" and "0 \<le> al"
  shows "\<exists>s. recv_file al 0 0 (ack_packet 0) peer
      (map (\<lambda>(dst, pkt). Dgram src pkt) (sent_to client (tx (send_file content 1 0 client rs)))) = Ok s
    \<and> ending s = Finished
    \<and> map snd (tx s) = map (\<lambda>i. ack_packet (1 + i)) [0..<blocks content]
    \<and> (stored s = content \<longleftrightarrow> 0 \<notin> set content)"
  using recv_file_of_blocks [of al 0 0 "ack_packet 0" peer src 1 content] send_file_sent_to [of 0 client rs content 1]
    send_file_no_failure [OF assms(1,2), of 1 0 client] cut_blocks_eq_iff [of content] assms(3,4)
  by (auto simp: comp_def)

theorem transfer_roundtrip_witness:
  "\<exists>s. recv_file 0 0 0 (ack_packet 0) (0, 0)
      (map (\<lambda>(dst, pkt). Dgram (3, 3) pkt) (sent_to (1, 1) (tx (send_file [1, 0, 2] 1 0 (1, 1) [Dgram (1, 1) []])))) = Ok s
    \<and> ending s = Finished
    \<and> map snd (tx s) = map (\<lambda>i. ack_packet (1 + i)) [0..<blocks [1, 0, 2]]
    \<and> (stored s = [1, 0, 2] \<longleftrightarrow> 0 \<notin> set [1, 0, 2 :: byte])"
  by (rule transfer_roundtrip) simp_all

text \<open>
  A write session is free of undefined behaviour as long as no datagram exceeds 516 bytes,
  whatever else arrives or fails; a datagram of 517 bytes or more, from anyone, makes it store
  behind its buffer.
\<close>

theorem wrq_buffer_safety:
  "(list_all fits_buffer rs \<longrightarrow> (\<exists>s. recv_file al 0 0 (ack_packet 0) client rs = Ok s))
   \<and> (0 \<le> al \<and> 517 \<le> length d \<longrightarrow> recv_file al 0 0 (ack_packet 0) client (Dgram src d # rs) = Undefined)"
  using recv_file_defined recv_file_oversize by blast

theorem wrq_buffer_safety_witness:
  "(\<exists>s. recv_file 0 0 0 (ack_packet 0) (0, 0) [Dgram (1, 1) [0, 3, 0, 1]] = Ok s)
   \<and> recv_file 0 0 0 (ack_packet 0) (0, 0) (Dgram (1, 1) (replicate 517 1) # []) = Undefined"
  using wrq_buffer_safety [of "[Dgram (1, 1) [0, 3, 0, 1]]" 0 "(0, 0)" "[]" "(1, 1)"]
    wrq_buffer_safety [of "[]" 0 "(0, 0)" "replicate 517 1" "(1, 1)"]
  by simp

text \<open>
  Timeouts of a write session, for any number \<open>k\<close> of them in a row: ten end it after nine
  resends of the last acknowledgement; fewer only add \<open>k\<close> resends, and the next datagram starts
  the count again.
\<close>

theorem wrq_timeouts:
  "recv_file al 0 b l peer (replicate k Timeout @ Dgram src d # rs) =
     (if 10 \<le> k then Ok \<lparr>tx = replicate 9 (peer, l), ending = GaveUp, stored = []\<rparr>
      else bind_outcome (recv_file al 0 b l peer (Dgram src d # rs)) (\<lambda>s.
        Ok (s\<lparr>tx := replicate k (peer, l) @ tx s\<rparr>)))"
proof -
  have "recv_file al (0 + k) b l peer (Dgram src d # rs) = recv_file al 0 b l peer (Dgram src d # rs)"
    by (simp add: recv_file.simps)
  then show ?thesis unfolding recv_file_timeouts by simp
qed

text \<open>
  The \<open>i\<close>-th request of the parent is served under transfer identifier \<open>hi - i\<close>, so distinct
  requests get distinct identifiers, and distinct ports for 65536 requests. Nothing stops the
  identifiers at the other end of the range: request number \<open>hi - lo\<close> is given the very port
  the parent itself is bound to.
\<close>

theorem parent_ports:
  fixes lo hi :: nat
  assumes "list_all snd rs"
  shows "map c_tid (tftp_main [prog, dec lo, dec hi] True True peer0 rs)
      = map (\<lambda>i. int hi - int i) [0..<length rs]
    \<and> (length rs \<le> 65536 \<longrightarrow> distinct (map child_port (tftp_main [prog, dec lo, dec hi] True True peer0 rs)))
    \<and> (lo \<le> hi \<and> hi - lo < length rs \<longrightarrow>
        child_port (tftp_main [prog, dec lo, dec hi] True True peer0 rs ! (hi - lo)) = word_of_nat lo)"
proof -
  let ?kids = "tftp_main [prog, dec lo, dec hi] True True peer0 rs"
  have "filter (\<lambda>i. snd (rs ! i)) [0..<length rs] = [0..<length rs]"
    using assms by (simp add: filter_id_conv list_all_length)
  then have tids: "map c_tid ?kids = map (\<lambda>i. int hi - int i) [0..<length rs]"
    by (simp add: tftp_main_def parent_loop_tids)
  have ports: "map child_port ?kids = map (\<lambda>i. word_of_int (int hi - int i)) [0..<length rs]"
  proof -
    have "map child_port ?kids = map word_of_int (map c_tid ?kids)" by (simp add: child_port_def)
    then show ?thesis unfolding tids by simp
  qed
  have len: "length ?kids = length rs" using arg_cong [OF tids, of length] by simp
  have inj: "i = j" if "i < 65536" "j < 65536"
    and "(word_of_int (int hi - int i) :: 16 word) = word_of_int (int hi - int j)" for i j
  proof -
    have "(word_of_nat i :: 16 word) = word_of_nat j"
      using that(3) by simp
    then show ?thesis
      using that(1,2) by (metis unat_u16_of_nat)
  qed
  have "distinct (map child_port ?kids)" if "length rs \<le> 65536"
    unfolding ports distinct_map using that by (auto intro!: inj_onI inj)
  moreover have "child_port (?kids ! (hi - lo)) = word_of_nat lo" if "lo \<le> hi" "hi - lo < length rs"
  proof -
    have "child_port (?kids ! (hi - lo)) = map child_port ?kids ! (hi - lo)"
      using that len by simp
    also have "\<dots> = word_of_nat lo" unfolding ports using that by (simp add: of_nat_diff)
    finally show ?thesis .
  qed
  ultimately show ?thesis using tids by blast
qed

theorem parent_ports_witness:
  "child_port (tftp_main [''server'', dec 8000, dec 8001] True True (0, 0)
      [(Error, True), (Error, True)] ! (8001 - 8000)) = word_of_nat 8000"
  using parent_ports [of "[(Error, True), (Error, True)]" "''server''" 8000 8001 "(0, 0)"] by simp

end
