(* ===== verification/GuessWord.thy ===== *)
theory GuessWord
  imports Prelude
begin

text \<open>
  The word handling of the guessing game in \<^verbatim>\<open>unpv13e/hw2_server.c\<close>: comparing a guess with
  the secret word (\<open>word_match\<close>), reading the dictionary (\<open>dic_init\<close>) and drawing a secret
  (\<open>get_secret\<close>).
\<close>

abbreviation newline :: char where
  "newline \<equiv> CHR 0x0A"

definition tolower :: "char \<Rightarrow> char" where
  "tolower c = (if (65::nat) \<le> of_char c \<and> of_char c \<le> (90::nat) then char_of (of_char c + 32 :: nat) else c)"

abbreviation lower :: "string \<Rightarrow> string" where
  "lower \<equiv> map tolower"

section \<open>Comparing a guess\<close>

record match_number =
  correct :: int
  place_correct :: int

text \<open>
  The inner loop of the second count: the first position of the secret that holds the letter and
  is not used yet is marked as used; \<open>None\<close> when there is none.
\<close>

fun use_letter :: "char \<Rightarrow> string \<Rightarrow> bool list \<Rightarrow> bool list option" where
  "use_letter c (s # ss) (u # us) =
     (if tolower c = tolower s \<and> \<not> u then Some (True # us)
      else map_option ((#) u) (use_letter c ss us))"
| "use_letter c _ _ = None"

fun count_correct :: "string \<Rightarrow> string \<Rightarrow> bool list \<Rightarrow> int" where
  "count_correct [] secret used = 0"
| "count_correct (c # cs) secret used =
     (case use_letter c secret used of
        None \<Rightarrow> count_correct cs secret used
      | Some used' \<Rightarrow> 1 + count_correct cs secret used')"

definition count_places :: "string \<Rightarrow> string \<Rightarrow> int" where
  "count_places secret guess = int (length (filter (\<lambda>(s, g). tolower s = tolower g) (zip secret guess)))"

text \<open>
  \<open>word_match\<close> also yields the guess as it leaves it in the caller's buffer: a newline at its end
  is overwritten with a NUL (which still takes part in the count of places). Two empty words make
  it read \<open>guess[-1]\<close>.
\<close>

definition word_match :: "string \<Rightarrow> string \<Rightarrow> (match_number \<times> string) outcome" where
  "word_match secret guess =
     (if length guess \<noteq> length secret then Ok (\<lparr>correct = -1, place_correct = -1\<rparr>, guess)
      else if guess = [] then Undefined
      else let cut = (last guess = newline);
               g = (if cut then butlast guess else guess);
               arr = (if cut then butlast guess @ [nul] else guess)
           in Ok (\<lparr>correct = count_correct g secret (replicate (length secret) False),
                   place_correct = count_places secret arr\<rparr>, g))"

section \<open>The dictionary\<close>

text \<open>
  \<open>fgets(str, 1025, fp)\<close>: at most 1024 characters, up to and including the first newline. The
  file is read twice, once to count the lines and once to store them.
\<close>

fun fgets :: "nat \<Rightarrow> string \<Rightarrow> string \<times> string" where
  "fgets 0 s = ([], s)"
| "fgets (Suc k) [] = ([], [])"
| "fgets (Suc k) (c # cs) =
     (if c = newline then ([c], cs) else (let (l, r) = fgets k cs in (c # l, r)))"

lemma fgets_append: "fgets k s = (l, r) \<Longrightarrow> s = l @ r"
  by (induction k s arbitrary: l r rule: fgets.induct) (auto split: if_splits prod.splits)

lemma fgets_whole_line:
  "newline \<notin> set t \<Longrightarrow> length t < k \<Longrightarrow> fgets k (t @ newline # r) = (t @ [newline], r)"
proof (induction t arbitrary: k)
  case Nil
  then show ?case by (cases k) simp_all
next
  case (Cons c t)
  then show ?case by (cases k) auto
qed

lemma fgets_progress: "fgets (Suc k) s = (l, r) \<Longrightarrow> s \<noteq> [] \<Longrightarrow> l \<noteq> []"
  by (cases s) (auto split: if_splits prod.splits)

function read_lines :: "string \<Rightarrow> string list" where
  "read_lines s = (if s = [] then [] else (let (l, r) = fgets 1024 s in l # read_lines r))"
  by pat_completeness auto
termination
proof (relation "measure length")
  fix s l r and x :: "string \<times> string"
  assume "s \<noteq> []" and "x = fgets 1024 s" and "(l, r) = x"
  then have "fgets (Suc 1023) s = (l, r)" by simp
  with \<open>s \<noteq> []\<close> have "l \<noteq> []" and "s = l @ r"
    by (blast dest: fgets_progress, blast dest: fgets_append)
  then show "(r, s) \<in> measure length" by simp
qed simp

declare read_lines.simps [simp del]

text \<open>The first pass: how many lines \<open>fgets\<close> returns. \<open>dic_init\<close> exits when there is no file.\<close>

function count_lines :: "string \<Rightarrow> nat" where
  "count_lines s = (if s = [] then 0 else Suc (count_lines (snd (fgets 1024 s))))"
  by pat_completeness auto
termination
proof (relation "measure length")
  fix s :: string
  assume "s \<noteq> []"
  obtain l r where lr: "fgets (Suc 1023) s = (l, r)" by fastforce
  with \<open>s \<noteq> []\<close> have "l \<noteq> []" and "s = l @ r"
    by (blast dest: fgets_progress, blast dest: fgets_append)
  with lr show "(snd (fgets 1024 s), s) \<in> measure length" by simp
qed simp

declare count_lines.simps [simp del]

definition dic_init :: "string option \<Rightarrow> (nat \<times> string list) option" where
  "dic_init f = (case f of None \<Rightarrow> None
     | Some text \<Rightarrow> Some (count_lines text, take (count_lines text) (read_lines text)))"

text \<open>
  \<open>get_secret\<close>: the line number \<open>rand() % dic_size\<close>, up to the first character that is a NUL, a
  newline or, as a \<open>signed char\<close>, below \<open>'0'\<close>. An empty dictionary is a division by zero.
\<close>

definition secret_char :: "char \<Rightarrow> bool" where
  "secret_char c \<longleftrightarrow> c \<noteq> nul \<and> c \<noteq> newline \<and> (48::nat) \<le> of_char c \<and> of_char c < (128::nat)"

definition get_secret :: "string list \<Rightarrow> nat \<Rightarrow> string outcome" where
  "get_secret dic r =
     (if dic = [] then Undefined else Ok (takeWhile secret_char (dic ! (r mod length dic))))"

section \<open>Counting is multiset intersection\<close>

text \<open>The letters of the secret that are still free.\<close>

definition unused :: "string \<Rightarrow> bool list \<Rightarrow> string" where
  "unused secret used = map fst (filter (\<lambda>(s, u). \<not> u) (zip secret used))"

lemma unused_simps [simp]:
  "unused [] us = []" "unused ss [] = []"
  "unused (s # ss) (u # us) = (if u then unused ss us else s # unused ss us)"
  by (simp_all add: unused_def)

lemma unused_none [simp]: "unused ss (replicate (length ss) False) = ss"
  by (induction ss) auto

lemma use_letter_Some:
  "use_letter c ss us = Some us' \<Longrightarrow>
     mset (lower (unused ss us)) = add_mset (tolower c) (mset (lower (unused ss us')))"
  by (induction c ss us arbitrary: us' rule: use_letter.induct) (auto split: if_splits)

lemma use_letter_None: "use_letter c ss us = None \<Longrightarrow> tolower c \<notin> set (lower (unused ss us))"
  by (induction c ss us rule: use_letter.induct) (auto split: if_splits)

lemma count_correct_inter:
  "count_correct g ss us = int (size (mset (lower g) \<inter># mset (lower (unused ss us))))"
proof (induction g ss us rule: count_correct.induct)
  case (2 c cs ss us)
  show ?case
  proof (cases "use_letter c ss us")
    case None
    with 2 use_letter_None [OF None] show ?thesis
      by (simp add: inter_add_left1)
  next
    case (Some us')
    with 2 use_letter_Some [OF Some] show ?thesis by simp
  qed
qed simp

lemma count_places_simps [simp]:
  "count_places [] gs = 0" "count_places ss [] = 0"
  "count_places (s # ss) (g # gs) = (if tolower s = tolower g then 1 else 0) + count_places ss gs"
  by (simp_all add: count_places_def)

lemma count_places_le:
  "length ss = length gs \<Longrightarrow> count_places ss gs \<le> int (size (mset (lower gs) \<inter># mset (lower ss)))"
proof (induction ss gs rule: list_induct2)
  case (Cons s ss g gs)
  have "size (mset (lower gs) \<inter># mset (lower ss))
      \<le> size (add_mset (tolower g) (mset (lower gs)) \<inter># add_mset (tolower s) (mset (lower ss)))"
    by (intro size_mset_mono subset_mset.inf_mono) auto
  with Cons show ?case by auto
qed simp

lemma count_places_full_iff:
  "length ss = length gs \<Longrightarrow> count_places ss gs \<le> int (length ss)
     \<and> (count_places ss gs = int (length ss) \<longleftrightarrow> lower ss = lower gs)"
  by (induction ss gs rule: list_induct2) auto

lemma fgets_length: "fgets k s = (l, r) \<Longrightarrow> length l \<le> k"
  by (induction k s arbitrary: l r rule: fgets.induct) (auto split: if_splits prod.splits)

lemma fgets_complete:
  "fgets k s = (l, r) \<Longrightarrow> r \<noteq> [] \<Longrightarrow> length l = k \<or> (l \<noteq> [] \<and> last l = newline)"
  by (induction k s arbitrary: l r rule: fgets.induct) (auto split: if_splits prod.splits)

lemma count_lines_eq: "count_lines s = length (read_lines s)"
proof (induction s rule: read_lines.induct)
  case (1 s)
  show ?case
  proof (cases "s = []")
    case False
    obtain l r where lr: "fgets 1024 s = (l, r)" by (cases "fgets 1024 s")
    have "count_lines r = length (read_lines r)" by (rule 1 [OF False refl lr [symmetric]])
    with lr False show ?thesis by (simp add: read_lines.simps [of s] count_lines.simps [of s])
  qed (simp add: read_lines.simps count_lines.simps)
qed

lemma concat_read_lines: "concat (read_lines s) = s"
proof (induction s rule: read_lines.induct)
  case (1 s)
  show ?case
  proof (cases "s = []")
    case False
    obtain l r where lr: "fgets 1024 s = (l, r)" by (cases "fgets 1024 s")
    have "concat (read_lines r) = r" by (rule 1 [OF False refl lr [symmetric]])
    with lr False fgets_append [OF lr] show ?thesis by (subst read_lines.simps) simp
  qed (simp add: read_lines.simps)
qed

lemma read_lines_lengths: "l \<in> set (read_lines s) \<Longrightarrow> l \<noteq> [] \<and> length l \<le> 1024"
proof (induction s rule: read_lines.induct)
  case (1 s)
  show ?case
  proof (cases "s = []")
    case False
    obtain h r where hr: "fgets 1024 s = (h, r)" by (cases "fgets 1024 s")
    have "fgets (Suc 1023) s = (h, r)" using hr by simp
    then have "h \<noteq> []" using False by (rule fgets_progress)
    moreover have "length h \<le> 1024" using fgets_length [OF hr] .
    moreover have "l = h \<or> l \<in> set (read_lines r)"
      using "1.prems" hr False by (simp add: read_lines.simps [of s])
    ultimately show ?thesis using "1.IH" [OF False refl hr [symmetric]] by blast
  next
    case True
    with "1.prems" show ?thesis by (simp add: read_lines.simps)
  qed
qed

section \<open>Properties\<close>

text \<open>
  Comparing a guess with the secret word: words of different lengths give -1; otherwise
  (two empty words aside) the first count is the size of the multiset of letters the two words
  share, the second the number of positions where they agree, both up to case. The second never
  exceeds the first, which never exceeds the length, and it reaches the length exactly for the
  secret word itself. A newline at the end of the guess is no letter of it.
\<close>

theorem word_match_counts:
  assumes "length guess = length secret" and "guess \<noteq> []"
  shows "\<exists>m g. word_match secret guess = Ok (m, g)
     \<and> g = (if last guess = newline then butlast guess else guess)
     \<and> correct m = int (size (mset (lower g) \<inter># mset (lower secret)))
     \<and> (last guess \<noteq> newline \<longrightarrow>
          place_correct m = int (card {i. i < length secret \<and> tolower (secret ! i) = tolower (guess ! i)})
          \<and> 0 \<le> place_correct m \<and> place_correct m \<le> correct m \<and> correct m \<le> int (length secret)
          \<and> (place_correct m = int (length secret) \<longleftrightarrow> lower secret = lower guess))"
proof -
  have "count_places secret guess
      = int (card {i. i < length secret \<and> tolower (secret ! i) = tolower (guess ! i)})"
    using assms(1) by (simp add: count_places_def length_filter_conv_card cong: conj_cong)
  moreover have "size (mset (lower guess) \<inter># mset (lower secret)) \<le> length secret"
    using size_mset_mono [of "mset (lower guess) \<inter># mset (lower secret)" "mset (lower secret)"] by simp
  ultimately show ?thesis
    using assms count_places_le [of secret guess] count_places_full_iff [of secret guess]
    by (auto simp: word_match_def Let_def count_correct_inter)
qed

theorem word_match_counts_witness:
  "\<exists>m. word_match ''Paper'' ''Apple'' = Ok (m, ''Apple'') \<and> correct m = 4 \<and> place_correct m = 1"
proof -
  have "size (mset (lower ''Apple'') \<inter># mset (lower ''Paper'')) = 4" by code_simp
  moreover have "count_places ''Paper'' ''Apple'' = 1" by code_simp
  moreover have "\<exists>m. word_match ''Paper'' ''Apple'' = Ok (m, ''Apple'')
      \<and> correct m = int (size (mset (lower ''Apple'') \<inter># mset (lower ''Paper'')))"
    using word_match_counts [of "''Apple''" "''Paper''"] by auto
  ultimately show ?thesis by (auto simp: word_match_def)
qed

text \<open>
  Reading the dictionary loses and adds nothing: the second pass finds exactly the lines the
  first pass counted, put together they are the file, none is empty or longer than 1024
  characters (so every one fits its buffer of 1025), and every line is a line of the file: it ends
  with the newline, unless it is the last one or has 1024 characters.
\<close>

theorem dic_init_lossless:
  assumes "dic_init (Some content) = Some (n, lines)"
  shows "n = length lines \<and> concat lines = content \<and> (\<forall>l\<in>set lines. l \<noteq> [] \<and> length l \<le> 1024)
    \<and> (\<forall>i. Suc i < n \<longrightarrow> last (lines ! i) = newline \<or> length (lines ! i) = 1024)"
proof -
  have lines: "lines = read_lines content" and n: "n = length lines"
    using assms by (auto simp: dic_init_def count_lines_eq)
  have "last (read_lines s ! i) = newline \<or> length (read_lines s ! i) = 1024"
    if "Suc i < length (read_lines s)" for s i
    using that
  proof (induction s arbitrary: i rule: read_lines.induct)
    case (1 s)
    from 1 have ne: "s \<noteq> []" by (auto simp: read_lines.simps)
    obtain l r where lr: "fgets 1024 s = (l, r)" by (cases "fgets 1024 s")
    then have rl: "read_lines s = l # read_lines r" using ne by (subst read_lines.simps) simp
    show ?case
    proof (cases i)
      case 0
      then have "r \<noteq> []" using "1.prems" rl by (auto simp: read_lines.simps)
      with fgets_complete [OF lr] show ?thesis using 0 rl by auto
    next
      case (Suc j)
      with 1(1) [OF ne refl lr [symmetric], of j] "1.prems" rl show ?thesis by simp
    qed
  qed
  with lines n concat_read_lines [of content] read_lines_lengths [of _ content] show ?thesis by auto
qed

theorem dic_init_lossless_witness:
  "\<exists>lines. dic_init (Some (''ant'' @ [newline] @ ''bee'')) = Some (2, lines)
     \<and> concat lines = ''ant'' @ [newline] @ ''bee''"
proof -
  have r: "read_lines (''ant'' @ [newline] @ ''bee'') = [''ant'' @ [newline], ''bee'']"
    by (simp add: read_lines.simps eval_nat_numeral)
  have d: "dic_init (Some (''ant'' @ [newline] @ ''bee'')) = Some (2, [''ant'' @ [newline], ''bee''])"
    unfolding dic_init_def option.case count_lines_eq r by simp
  with dic_init_lossless [OF d] show ?thesis by blast
qed

end
