(* ===== verification/GuessServer.thy ===== *)
theory GuessServer
  imports GuessWord
begin

text \<open>
  The main loop of the guessing game (\<^verbatim>\<open>unpv13e/hw2_server.c\<close>, \<open>main\<close>): five player slots kept
  in parallel arrays, one \<open>select\<close> per round, first the listening socket, then every slot.

  What the kernel returns in a round is an input of the model (\<open>round_in\<close>); the sockets the
  server writes to and closes are its output (\<open>action\<close>). Output on the server's own terminal is
  not modelled.
\<close>

section \<open>State, inputs and actions\<close>

record game =
  player_fds :: "int list"
  slot_available :: "bool list"
  has_username :: "bool list"
  usernames :: "string option list"
  player_count :: int
  secret :: string
  fds :: "int set"
  dic :: "string list"
  rand :: "nat \<Rightarrow> nat"
  drawn :: nat

text \<open>
  \<open>sel\<close>: the descriptors \<open>select\<close> reports, or \<open>None\<close> when it fails (its result is ignored and
  the set keeps what was asked for). \<open>acc\<close>: the result of \<open>accept\<close>. \<open>name_bytes\<close>: what the
  \<open>read\<close> of the first name puts into the buffer. \<open>slot_read a\<close>: what the \<open>read\<close> of slot \<open>a\<close>
  returns, \<open>None\<close> for \<open>-1\<close>, and no bytes at end of file.
\<close>

record round_in =
  sel :: "int set option"
  acc :: int
  name_bytes :: string
  slot_read :: "nat \<Rightarrow> string option"

text \<open>
  \<open>WildStore\<close> is the store to \<open>buffer[-1]\<close> that \<open>buffer[strlen(buffer) - 1] = '\0'\<close> makes of an
  empty string, as after every disconnect. C leaves undefined what it hits; that is a parameter of the
  model, \<open>spill\<close>: what the store makes of the state, \<open>Undefined\<close> where it ends the program.
\<close>

datatype action = Send int string | CloseFd int | WildStore

definition game_init :: "string list \<Rightarrow> (nat \<Rightarrow> nat) \<Rightarrow> int set \<Rightarrow> game outcome" where
  "game_init d rnd fds0 =
     bind_outcome (get_secret d (rnd 0)) (\<lambda>s.
       Ok \<lparr>player_fds = replicate 5 (-1), slot_available = replicate 5 True,
           has_username = replicate 5 False, usernames = replicate 5 None,
           player_count = 0, secret = s, fds = fds0, dic = d, rand = rnd, drawn = 1\<rparr>)"

section \<open>Buffers and messages\<close>

text \<open>
  \<open>read\<close> into the zeroed buffer of 1025 characters, then its C string; 1025 characters without a
  NUL leave no terminator.
\<close>

definition read_cstr :: "string \<Rightarrow> string outcome" where
  "read_cstr d = (if 1025 \<le> length d \<and> nul \<notin> set (take 1025 d) then Undefined
                  else Ok (cstr (take 1025 d)))"

definition chop :: "(game \<Rightarrow> game outcome) \<Rightarrow> string \<Rightarrow> game \<Rightarrow> (string \<times> action list \<times> game) outcome" where
  "chop spill s g =
     (if s = [] then bind_outcome (spill g) (\<lambda>g'. Ok ([], [WildStore], g')) else Ok (butlast s, [], g))"

text \<open>The byte in front of the buffer belongs to no variable of the model.\<close>

definition harmless :: "(game \<Rightarrow> game outcome) \<Rightarrow> bool" where
  "harmless spill \<longleftrightarrow> (\<forall>g g'. spill g = Ok g' \<longrightarrow> g' = g)"

definition welcome_msg :: string where
  "welcome_msg = ''Welcome to Guess the Word, please enter your username.''"

definition taken_msg :: "string \<Rightarrow> string" where
  "taken_msg u = ''Username '' @ u @ '' is already taken, please enter a different username.''"

definition start_msg :: "string \<Rightarrow> string" where
  "start_msg u = ''Let's start playing, '' @ u"

definition players_msg :: "int \<Rightarrow> string \<Rightarrow> string" where
  "players_msg n s = ''There are '' @ dec_int n @ '' player(s) playing. The secret word is ''
     @ dec (length s) @ '' letter(s).''"

definition length_msg :: "string \<Rightarrow> string" where
  "length_msg s = ''Invalid guess length. The secret word is '' @ dec (length s) @ '' letter(s).''"

definition won_msg :: "string \<Rightarrow> string \<Rightarrow> string" where
  "won_msg u s = u @ '' has correctly guessed the word '' @ s"

definition try_msg :: "string \<Rightarrow> string \<Rightarrow> match_number \<Rightarrow> string" where
  "try_msg u g m = u @ '' guessed '' @ g @ '': '' @ dec_int (correct m)
     @ '' letter(s) were correct and '' @ dec_int (place_correct m)
     @ '' letter(s) were correctly placed.''"

section \<open>New connections\<close>

definition arm_fds :: "int \<Rightarrow> game \<Rightarrow> game" where
  "arm_fds listenfd g =
     g\<lparr>fds := insert listenfd (fds g) \<union> {fd \<in> set (player_fds g). fd > -1}\<rparr>"

definition do_select :: "round_in \<Rightarrow> game \<Rightarrow> game" where
  "do_select r g = g\<lparr>fds := (case sel r of None \<Rightarrow> fds g | Some ready \<Rightarrow> fds g \<inter> ready)\<rparr>"

text \<open>
  The first name check: the occupied slots in order, up to the first one with this name.
  \<open>strcmp\<close> with a slot that never had a name is a null pointer.
\<close>

fun find_name :: "string \<Rightarrow> (bool \<times> string option) list \<Rightarrow> bool outcome" where
  "find_name n [] = Ok False"
| "find_name n ((avail, u) # slots) =
     (if avail then find_name n slots
      else case u of
             None \<Rightarrow> Undefined
           | Some v \<Rightarrow> if n = v then Ok True else find_name n slots)"

fun first_free :: "bool list \<Rightarrow> nat option" where
  "first_free [] = None"
| "first_free (avail # xs) = (if avail then Some 0 else map_option Suc (first_free xs))"

text \<open>A player enters the game in slot \<open>a\<close>.\<close>

definition seat_named :: "nat \<Rightarrow> string \<Rightarrow> game \<Rightarrow> game" where
  "seat_named a n g =
     g\<lparr>usernames := (usernames g)[a := Some n], has_username := (has_username g)[a := True]\<rparr>"

definition greet :: "int \<Rightarrow> string \<Rightarrow> game \<Rightarrow> action list outcome" where
  "greet fd n g =
     bind_outcome (sprintf_into 1025 (start_msg n)) (\<lambda>m1.
     bind_outcome (sprintf_into 1025 (players_msg (player_count g) (secret g))) (\<lambda>m2.
       Ok [Send fd m1, Send fd m2]))"

text \<open>
  The branch of the listening socket. The flag says that the round ends here (\<open>continue\<close>): a
  sixth connection is closed. A client whose name is taken keeps a slot without a name.
\<close>

definition accept_phase :: "(game \<Rightarrow> game outcome) \<Rightarrow> int \<Rightarrow> round_in \<Rightarrow> game \<Rightarrow> (game \<times> action list \<times> bool) outcome" where
  "accept_phase spill listenfd r g =
     (if listenfd \<notin> fds g then Ok (g, [], False)
      else if player_count g \<ge> 5 then Ok (g, [CloseFd (acc r)], True)
      else if acc r < 0 then Undefined
      else
        let connfd = acc r; g0 = g\<lparr>player_count := player_count g + 1, fds := fds g - {connfd}\<rparr> in
        bind_outcome (read_cstr (name_bytes r)) (\<lambda>s.
        bind_outcome (chop spill s g0) (\<lambda>(buffer, wild, g1).
        bind_outcome (find_name buffer (zip (slot_available g1) (usernames g1))) (\<lambda>name_used.
        if \<not> name_used then
          (case first_free (slot_available g1) of
             None \<Rightarrow> Ok (g1, Send connfd welcome_msg # wild, False)
           | Some a \<Rightarrow>
               let g2 = seat_named a buffer
                    (g1\<lparr>slot_available := (slot_available g1)[a := False],
                        player_fds := (player_fds g1)[a := connfd]\<rparr>)
               in bind_outcome (greet connfd buffer g2) (\<lambda>out.
                    Ok (g2, Send connfd welcome_msg # wild @ out, False)))
        else
          bind_outcome (sprintf_into 1025 (taken_msg buffer)) (\<lambda>m.
          let out = Send connfd welcome_msg # wild @ [Send connfd m] in
          case first_free (slot_available g1) of
            None \<Rightarrow> Ok (g1, out, False)
          | Some a \<Rightarrow> Ok (g1\<lparr>slot_available := (slot_available g1)[a := False],
                             player_fds := (player_fds g1)[a := connfd]\<rparr>, out, False))))))"

section \<open>Data from a player\<close>

definition drop_player :: "nat \<Rightarrow> game \<Rightarrow> game" where
  "drop_player a g =
     g\<lparr>player_fds := (player_fds g)[a := -1], slot_available := (slot_available g)[a := True],
       has_username := (has_username g)[a := False], player_count := player_count g - 1\<rparr>"

text \<open>The broadcast over the slots from \<open>b\<close> on; \<open>over\<close> is the \<open>game_over\<close> flag.\<close>

fun broadcast :: "string \<Rightarrow> bool \<Rightarrow> nat list \<Rightarrow> game \<Rightarrow> game \<times> action list" where
  "broadcast m over [] g = (g, [])"
| "broadcast m over (b # bs) g =
     (if has_username g ! b then
        let fd = player_fds g ! b;
            (g', out) = broadcast m over bs (if over then drop_player b g else g)
        in (g', Send fd m # (if over then [CloseFd fd] else []) @ out)
      else broadcast m over bs g)"

definition guess_phase :: "nat \<Rightarrow> string \<Rightarrow> game \<Rightarrow> (game \<times> action list) outcome" where
  "guess_phase a buffer g =
     (let name = (case usernames g ! a of None \<Rightarrow> [] | Some u \<Rightarrow> u) in
      bind_outcome (word_match (secret g) buffer) (\<lambda>(result, buffer').
      if correct result = -1 then
        bind_outcome (sprintf_into 2048 (length_msg (secret g))) (\<lambda>m.
          Ok (g, [Send (player_fds g ! a) m]))
      else if place_correct result = int (length (secret g)) then
        bind_outcome (sprintf_into 2048 (won_msg name (secret g))) (\<lambda>m.
        bind_outcome (get_secret (dic g) (rand g (drawn g))) (\<lambda>s.
          Ok (broadcast m True [0..<5] (g\<lparr>secret := s, drawn := drawn g + 1\<rparr>))))
      else
        bind_outcome (sprintf_into 2048 (try_msg name buffer' result)) (\<lambda>m.
          Ok (broadcast m False [0..<5] g))))"

text \<open>
  The second name check, for a client that has a slot but no name: its loop
  \<open>for (int b = 0; b < 5; a++)\<close> advances the slot number \<open>a\<close> and never \<open>b\<close>. The result is the
  value of \<open>a\<close> after the loop and the flag \<open>name_used\<close>; \<open>None\<close> means that the loop does not end.
\<close>

partial_function (option) retry_scan ::
    "bool list \<Rightarrow> string option list \<Rightarrow> string \<Rightarrow> nat \<Rightarrow> nat \<Rightarrow> (nat \<times> bool) outcome option" where
  "retry_scan avail unames buffer b a =
     (if b < 5 then
        (if \<not> avail ! b then
           (case unames ! b of
              None \<Rightarrow> Some Undefined
            | Some u \<Rightarrow> if u = buffer then Some (Ok (a, True))
                        else retry_scan avail unames buffer b (a + 1))
         else retry_scan avail unames buffer b (a + 1))
      else Some (Ok (a, False)))"

declare retry_scan.simps [code]

definition retry_phase :: "nat \<Rightarrow> string \<Rightarrow> game \<Rightarrow> (game \<times> action list) outcome" where
  "retry_phase a buffer g =
     (case retry_scan (slot_available g) (usernames g) buffer 0 a of
        None \<Rightarrow> Hangs
      | Some res \<Rightarrow> bind_outcome res (\<lambda>(a', name_used).
          if name_used then
            bind_outcome (sprintf_into 1025 (taken_msg buffer)) (\<lambda>m.
              Ok (g, [Send (player_fds g ! a') m]))
          else
            let g' = seat_named a' buffer g in
            bind_outcome (greet (player_fds g' ! a') buffer g') (\<lambda>out. Ok (g', out))))"

definition slot_phase :: "(game \<Rightarrow> game outcome) \<Rightarrow> round_in \<Rightarrow> nat \<Rightarrow> game \<Rightarrow> (game \<times> action list) outcome" where
  "slot_phase spill r a g =
     (if slot_available g ! a \<or> player_fds g ! a \<notin> fds g then Ok (g, [])
      else
        let fd = player_fds g ! a;
            data = (case slot_read r a of None \<Rightarrow> [] | Some d \<Rightarrow> take 1025 d);
            bytes_read = (case slot_read r a of None \<Rightarrow> -1 | Some d \<Rightarrow> int (length data));
            g0 = g\<lparr>fds := fds g - {fd}\<rparr>
        in bind_outcome (read_cstr data) (\<lambda>s.
             bind_outcome (chop spill s g0) (\<lambda>(buffer, wild, g1).
             if bytes_read \<le> 0 then Ok (drop_player a g1, wild @ [CloseFd fd])
             else bind_outcome (if has_username g1 ! a then guess_phase a buffer g1
                                else retry_phase a buffer g1)
                    (\<lambda>(g2, out). Ok (g2, wild @ out)))))"

fun slots_phase :: "(game \<Rightarrow> game outcome) \<Rightarrow> round_in \<Rightarrow> nat list \<Rightarrow> game \<Rightarrow> (game \<times> action list) outcome" where
  "slots_phase spill r [] g = Ok (g, [])"
| "slots_phase spill r (a # as) g =
     bind_outcome (slot_phase spill r a g) (\<lambda>(g1, out1).
     bind_outcome (slots_phase spill r as g1) (\<lambda>(g2, out2). Ok (g2, out1 @ out2)))"

definition server_round :: "(game \<Rightarrow> game outcome) \<Rightarrow> int \<Rightarrow> round_in \<Rightarrow> game \<Rightarrow> (game \<times> action list) outcome" where
  "server_round spill listenfd r g =
     bind_outcome (accept_phase spill listenfd r (do_select r (arm_fds listenfd g))) (\<lambda>(g1, out1, cont).
       if cont then Ok (g1, out1)
       else bind_outcome (slots_phase spill r [0..<5] g1) (\<lambda>(g2, out2). Ok (g2, out1 @ out2)))"

fun run_server :: "(game \<Rightarrow> game outcome) \<Rightarrow> int \<Rightarrow> round_in list \<Rightarrow> game \<Rightarrow> (game \<times> action list) outcome" where
  "run_server spill listenfd [] g = Ok (g, [])"
| "run_server spill listenfd (r # rs) g =
     bind_outcome (server_round spill listenfd r g) (\<lambda>(g1, out1).
     bind_outcome (run_server spill listenfd rs g1) (\<lambda>(g2, out2). Ok (g2, out1 @ out2)))"

section \<open>The invariant\<close>

text \<open>
  The arrays have five entries; exactly the occupied slots have a descriptor, \<open>player_count\<close>
  counts them, a named slot is occupied and has a name, and no two named slots share one.
\<close>

definition seats :: "game \<Rightarrow> nat" where
  "seats g = length (filter Not (slot_available g))"

definition shape_ok :: "game \<Rightarrow> bool" where
  "shape_ok g \<longleftrightarrow> length (player_fds g) = 5 \<and> length (slot_available g) = 5
     \<and> length (has_username g) = 5 \<and> length (usernames g) = 5 \<and> dic g \<noteq> []"

definition slot_ok :: "game \<Rightarrow> nat \<Rightarrow> bool" where
  "slot_ok g a \<longleftrightarrow> player_fds g ! a \<ge> -1 \<and> (slot_available g ! a \<longleftrightarrow> player_fds g ! a = -1)
     \<and> (has_username g ! a \<longrightarrow> \<not> slot_available g ! a \<and> usernames g ! a \<noteq> None)"

definition names_ok :: "game \<Rightarrow> bool" where
  "names_ok g \<longleftrightarrow> (\<forall>a<5. \<forall>b<5. has_username g ! a \<and> has_username g ! b
      \<and> usernames g ! a = usernames g ! b \<longrightarrow> a = b)"

definition game_ok :: "game \<Rightarrow> bool" where
  "game_ok g \<longleftrightarrow> shape_ok g \<and> (\<forall>a<5. slot_ok g a) \<and> names_ok g
     \<and> player_count g = int (seats g)"

lemma game_okI:
  "shape_ok g \<Longrightarrow> (\<And>a. a < 5 \<Longrightarrow> slot_ok g a) \<Longrightarrow> names_ok g
     \<Longrightarrow> player_count g = int (seats g) \<Longrightarrow> game_ok g"
  by (simp add: game_ok_def)

lemma game_okD:
  assumes "game_ok g"
  shows "shape_ok g" and "a < 5 \<Longrightarrow> slot_ok g a" and "names_ok g"
    and "player_count g = int (seats g)"
  using assms by (simp_all add: game_ok_def)

lemma seats_le: "length (slot_available g) = 5 \<Longrightarrow> seats g \<le> 5"
  unfolding seats_def using length_filter_le [of Not "slot_available g"] by simp

lemma seats_lt_iff:
  "length (slot_available g) = 5 \<Longrightarrow> seats g < 5 \<longleftrightarrow> (\<exists>a<5. slot_available g ! a)"
  unfolding seats_def using length_filter_less_iff [of Not "slot_available g"] by simp

lemma first_free_Some: "first_free xs = Some a \<Longrightarrow> a < length xs \<and> xs ! a \<and> (\<forall>i<a. \<not> xs ! i)"
proof (induction xs arbitrary: a)
  case (Cons x xs)
  show ?case
  proof (cases x)
    case True
    with Cons.prems show ?thesis by simp
  next
    case False
    with Cons.prems obtain a' where "first_free xs = Some a'" "a = Suc a'" by auto
    with Cons.IH False show ?thesis by (auto simp: nth_Cons split: nat.splits)
  qed
qed simp

lemma first_free_None: "first_free xs = None \<longleftrightarrow> (\<forall>i<length xs. \<not> xs ! i)"
  by (induction xs) (auto simp: less_Suc_eq_0_disj)

lemma find_name_False:
  "find_name n slots = Ok False \<Longrightarrow> i < length slots \<Longrightarrow> slots ! i = (False, u) \<Longrightarrow>
     u \<noteq> None \<and> u \<noteq> Some n"
proof (induction n slots arbitrary: i rule: find_name.induct)
  case (2 n avail u' slots)
  then show ?case by (cases i) (auto split: if_splits option.splits)
qed simp

lemma game_ok_fds [simp]: "game_ok (g\<lparr>fds := F\<rparr>) = game_ok g"
  by (simp add: game_ok_def shape_ok_def slot_ok_def names_ok_def seats_def)

lemma game_ok_secret [simp]: "game_ok (g\<lparr>secret := s, drawn := d\<rparr>) = game_ok g"
  by (simp add: game_ok_def shape_ok_def slot_ok_def names_ok_def seats_def)

lemma game_ok_drop_player:
  assumes ok: "game_ok g" and a: "a < 5" and "\<not> slot_available g ! a"
  shows "game_ok (drop_player a g)"
proof (rule game_okI)
  have sh: "shape_ok g" using ok by (rule game_okD)
  then show "shape_ok (drop_player a g)" by (simp add: shape_ok_def drop_player_def)
  show "slot_ok (drop_player a g) b" if "b < 5" for b
    using game_okD(2) [OF ok that] sh a
    by (cases "b = a") (auto simp: slot_ok_def drop_player_def shape_ok_def)
  have "has_username (drop_player a g) ! b \<longleftrightarrow> b \<noteq> a \<and> has_username g ! b" if "b < 5" for b
    using that sh a by (simp add: drop_player_def shape_ok_def nth_list_update)
  then show "names_ok (drop_player a g)"
    using game_okD(3) [OF ok] by (simp add: names_ok_def) (simp add: drop_player_def)
  have "seats g = Suc (seats (drop_player a g))"
    using assms sh length_filter_update [of a "slot_available g" Not True]
    by (simp add: shape_ok_def drop_player_def seats_def)
  then show "player_count (drop_player a g) = int (seats (drop_player a g))"
    using game_okD(4) [OF ok] by (simp add: drop_player_def)
qed

text \<open>Taking a slot, without a name and with one.\<close>

lemma game_ok_seat:
  assumes ok: "game_ok g" and a: "a < 5" and av: "slot_available g ! a" and fd: "0 \<le> fd"
  shows "game_ok (g\<lparr>player_count := player_count g + 1, fds := F,
      slot_available := (slot_available g)[a := False], player_fds := (player_fds g)[a := fd]\<rparr>)"
    (is "game_ok ?g")
proof (rule game_okI)
  have sh: "shape_ok g" using ok by (rule game_okD)
  then show "shape_ok ?g" by (simp add: shape_ok_def)
  have nu: "\<not> has_username g ! a" using game_okD(2) [OF ok a] av by (simp add: slot_ok_def)
  show "slot_ok ?g b" if "b < 5" for b
    using game_okD(2) [OF ok that] sh a fd nu
    by (cases "b = a") (auto simp: slot_ok_def shape_ok_def)
  show "names_ok ?g" using game_okD(3) [OF ok] by (simp add: names_ok_def)
  have "length (filter Not ((slot_available g)[a := False])) = Suc (seats g)"
    using a av sh length_filter_update [of a "slot_available g" Not False]
    by (simp add: shape_ok_def seats_def)
  then show "player_count ?g = int (seats ?g)"
    using game_okD(4) [OF ok] by (simp add: seats_def)
qed

lemma game_ok_seat_named:
  assumes ok: "game_ok g" and a: "a < 5" and av: "\<not> slot_available g ! a"
    and new: "\<And>b. b < 5 \<Longrightarrow> b \<noteq> a \<Longrightarrow> has_username g ! b \<Longrightarrow> usernames g ! b \<noteq> Some n"
  shows "game_ok (seat_named a n g)"
proof (rule game_okI)
  have sh: "shape_ok g" using ok by (rule game_okD)
  then show "shape_ok (seat_named a n g)" by (simp add: shape_ok_def seat_named_def)
  show "slot_ok (seat_named a n g) b" if "b < 5" for b
    using game_okD(2) [OF ok that] sh a av
    by (cases "b = a") (auto simp: slot_ok_def shape_ok_def seat_named_def)
  have u: "has_username (seat_named a n g) ! b \<longleftrightarrow> b = a \<or> has_username g ! b"
    "usernames (seat_named a n g) ! b = (if b = a then Some n else usernames g ! b)" if "b < 5" for b
    using that sh a by (simp_all add: seat_named_def shape_ok_def nth_list_update)
  show "names_ok (seat_named a n g)"
    unfolding names_ok_def
  proof (intro allI impI)
    fix b c :: nat
    assume "b < 5" "c < 5" and "has_username (seat_named a n g) ! b
      \<and> has_username (seat_named a n g) ! c
      \<and> usernames (seat_named a n g) ! b = usernames (seat_named a n g) ! c"
    then show "b = c"
      using u [of b] u [of c] new [of b] new [of c] game_okD(3) [OF ok]
      by (cases "b = a"; cases "c = a") (auto simp: names_ok_def)
  qed
  show "player_count (seat_named a n g) = int (seats (seat_named a n g))"
    using game_okD(4) [OF ok] by (simp add: seat_named_def seats_def)
qed

lemma game_ok_broadcast:
  "game_ok g \<Longrightarrow> set bs \<subseteq> {..<5} \<Longrightarrow> game_ok (fst (broadcast m over bs g))"
proof (induction m over bs g rule: broadcast.induct)
  case (2 m over b bs g)
  have d: "game_ok (drop_player b g)" if "has_username g ! b"
  proof (rule game_ok_drop_player)
    show "game_ok g" "b < 5" using 2 by simp_all
    then show "\<not> slot_available g ! b" using game_okD(2) [of g b] that by (auto simp: slot_ok_def)
  qed
  show ?case
  proof (cases "has_username g ! b")
    case True
    with 2 d show ?thesis by (cases over) (simp_all add: Let_def case_prod_unfold)
  next
    case False
    with 2 show ?thesis by simp
  qed
qed simp

lemma game_ok_guess:
  assumes "game_ok g" and "guess_phase a buffer g = Ok (g', out)"
  shows "game_ok g'"
proof -
  have b: "game_ok g1 \<Longrightarrow> broadcast m over [0..<5] g1 = (g', out) \<Longrightarrow> game_ok g'" for m over g1
    using game_ok_broadcast [of g1 "[0..<5]" m over] by (simp add: atLeast0LessThan)
  obtain result buffer' where wm: "word_match (secret g) buffer = Ok (result, buffer')"
    using assms(2) by (cases "word_match (secret g) buffer") (auto simp: guess_phase_def Let_def)
  consider "g' = g" | m where "broadcast m False [0..<5] g = (g', out)"
    | m s where "broadcast m True [0..<5] (g\<lparr>secret := s, drawn := drawn g + 1\<rparr>) = (g', out)"
    using assms(2) wm by (auto simp: guess_phase_def Let_def split: if_splits)
  then show ?thesis
  proof cases
    case 2
    show ?thesis by (rule b [OF assms(1) 2])
  next
    case (3 m s)
    show ?thesis by (rule b [OF _ 3]) (simp add: assms(1))
  qed (simp add: assms(1))
qed

text \<open>The second name check ends at once or never; it never lets anybody in.\<close>

lemma retry_scan_result:
  assumes "retry_scan avail unames buffer b a = Some res" and "b < 5"
  shows "(\<not> avail ! b \<and> unames ! b = None \<and> res = Undefined)
     \<or> (\<not> avail ! b \<and> unames ! b = Some buffer \<and> (\<exists>a'. res = Ok (a', True)))"
  using assms(2)
proof (induction rule: retry_scan.raw_induct [OF _ assms(1)])
  case (1 f avail unames buffer b a res)
  note IH = "1.IH"
  show ?case
  proof (cases "\<not> avail ! b \<and> (unames ! b = None \<or> unames ! b = Some buffer)")
    case True
    with 1 show ?thesis by (auto split: if_splits)
  next
    case False
    then have "f avail unames buffer b (a + 1) = Some res"
      using 1 by (auto split: if_splits option.splits)
    then show ?thesis using IH \<open>b < 5\<close> by blast
  qed
qed

lemma retry_scan_cases:
  "retry_scan avail unames buffer 0 a =
     (if avail ! 0 then None
      else case unames ! 0 of
             None \<Rightarrow> Some Undefined
           | Some u \<Rightarrow> if u = buffer then Some (Ok (a, True)) else None)"
proof (cases "\<not> avail ! 0 \<and> (unames ! 0 = None \<or> unames ! 0 = Some buffer)")
  case True
  then show ?thesis by (subst retry_scan.simps) (auto split: option.splits)
next
  case False
  then have "retry_scan avail unames buffer 0 a = None"
    using retry_scan_result [of avail unames buffer 0 a]
    by (cases "retry_scan avail unames buffer 0 a") auto
  with False show ?thesis by (auto split: option.splits)
qed

lemma retry_phase_cases:
  "retry_phase a buffer g =
     (if slot_available g ! 0 then Hangs
      else case usernames g ! 0 of
             None \<Rightarrow> Undefined
           | Some u \<Rightarrow> if u = buffer
               then bind_outcome (sprintf_into 1025 (taken_msg buffer)) (\<lambda>m. Ok (g, [Send (player_fds g ! a) m]))
               else Hangs)"
  by (auto simp: retry_phase_def retry_scan_cases split: option.splits)

lemma retry_phase_same: "retry_phase a buffer g = Ok (g', out) \<Longrightarrow> g' = g"
  by (auto simp: retry_phase_cases split: if_splits option.splits)

text \<open>As long as the store in front of the buffer hits nothing, or is not made.\<close>

abbreviation kept :: "(game \<Rightarrow> game outcome) \<Rightarrow> action list \<Rightarrow> bool" where
  "kept spill out \<equiv> harmless spill \<or> WildStore \<notin> set out"

lemma chop_kept: "chop spill s g = Ok (buffer, wild, g') \<Longrightarrow> kept spill wild \<Longrightarrow> g' = g"
  by (cases "spill g") (auto simp: chop_def harmless_def split: if_splits)

lemma game_ok_slot:
  assumes ok: "game_ok g" and a: "a < 5" and res: "slot_phase spill r a g = Ok (g', out)" and kept: "kept spill out"
  shows "game_ok g'"
proof (cases "slot_available g ! a \<or> player_fds g ! a \<notin> fds g")
  case True
  with assms show ?thesis by (auto simp: slot_phase_def)
next
  case False
  let ?g1 = "g\<lparr>fds := fds g - {player_fds g ! a}\<rparr>"
  have ok1: "game_ok ?g1" using ok by simp
  have drop: "game_ok (drop_player a ?g1)"
    using ok1 a False by (intro game_ok_drop_player) simp_all
  let ?d = "case slot_read r a of None \<Rightarrow> [] | Some d \<Rightarrow> take 1025 d"
  let ?n = "case slot_read r a of None \<Rightarrow> -1 | Some d \<Rightarrow> int (length ?d)"
  obtain s where rc: "read_cstr ?d = Ok s"
    using res False by (auto simp: slot_phase_def Let_def)
  obtain buffer wild g1 where c: "chop spill s ?g1 = Ok (buffer, wild, g1)"
    using res False rc by (auto simp: slot_phase_def Let_def)
  have "set wild \<subseteq> set out" using res False rc c by (auto simp: slot_phase_def Let_def split: if_splits)
  then have chop: "chop spill s ?g1 = Ok (buffer, wild, ?g1)" using chop_kept [OF c] kept c by auto
  have step: "(if ?n \<le> 0
            then Ok (drop_player a ?g1, wild @ [CloseFd (player_fds g ! a)])
            else bind_outcome (if has_username ?g1 ! a then guess_phase a buffer ?g1
                               else retry_phase a buffer ?g1)
                   (\<lambda>(g2, out). Ok (g2, wild @ out))) = Ok (g', out)"
    using res False rc chop by (simp add: slot_phase_def Let_def)
  consider "g' = drop_player a ?g1" | b o2 where "guess_phase a b ?g1 = Ok (g', o2)"
    | b o2 where "retry_phase a b ?g1 = Ok (g', o2)"
    using step by (auto split: if_splits)
  then show ?thesis
    by cases (use ok1 drop game_ok_guess retry_phase_same in \<open>blast+\<close>)
qed

lemma game_ok_slots:
  "game_ok g \<Longrightarrow> set as \<subseteq> {..<5} \<Longrightarrow> slots_phase spill r as g = Ok (g', out) \<Longrightarrow> kept spill out \<Longrightarrow> game_ok g'"
proof (induction as arbitrary: g g' out)
  case (Cons a as)
  obtain g1 out1 out2 where "slot_phase spill r a g = Ok (g1, out1)" and "slots_phase spill r as g1 = Ok (g', out2)"
    "out = out1 @ out2" using Cons.prems by auto
  with Cons show ?case using game_ok_slot [of g a spill r g1 out1] by auto
qed simp

text \<open>A free slot is found exactly when fewer than five are taken.\<close>

lemma free_slot:
  assumes "game_ok g" and "player_count g < 5"
  obtains a where "first_free (slot_available g) = Some a" and "a < 5" and "slot_available g ! a"
proof -
  have "seats g < 5" and len: "length (slot_available g) = 5"
    using assms by (simp_all add: game_ok_def shape_ok_def)
  then obtain b where "b < 5" "slot_available g ! b" using seats_lt_iff by blast
  then have "first_free (slot_available g) \<noteq> None" using len by (auto simp: first_free_None)
  then show thesis using that first_free_Some len by fastforce
qed

lemma game_ok_accept:
  assumes ok: "game_ok g" and res: "accept_phase spill listenfd r g = Ok (g', out, cont)" and kept: "kept spill out"
  shows "game_ok g'"
proof (cases "listenfd \<notin> fds g \<or> player_count g \<ge> 5")
  case True
  then show ?thesis using ok res by (auto simp: accept_phase_def split: if_splits)
next
  case False
  then obtain a where a: "first_free (slot_available g) = Some a" "a < 5" "slot_available g ! a"
    using free_slot [OF ok] by auto
  have fd: "0 \<le> acc r" using res False by (simp add: accept_phase_def split: if_splits)
  let ?g2 = "g\<lparr>player_count := player_count g + 1, fds := fds g - {acc r},
      slot_available := (slot_available g)[a := False], player_fds := (player_fds g)[a := acc r]\<rparr>"
  have ok2: "game_ok ?g2" using ok a fd by (intro game_ok_seat)
  obtain s where rc: "read_cstr (name_bytes r) = Ok s"
    using res False fd by (auto simp: accept_phase_def Let_def)
  let ?g1 = "g\<lparr>player_count := player_count g + 1, fds := fds g - {acc r}\<rparr>"
  obtain buffer wild g1 where c: "chop spill s ?g1 = Ok (buffer, wild, g1)"
    using res False fd rc by (auto simp: accept_phase_def Let_def)
  have "set wild \<subseteq> set out"
    using res False fd rc c by (auto simp: accept_phase_def Let_def split: if_splits option.splits)
  then have chop: "chop spill s ?g1 = Ok (buffer, wild, ?g1)" using chop_kept [OF c] kept c by auto
  obtain used where fn: "find_name buffer (zip (slot_available g) (usernames g)) = Ok used"
    using res False fd rc chop by (auto simp: accept_phase_def Let_def)
  show ?thesis
  proof (cases used)
    case True
    then have "g' = ?g2"
      using res False fd rc chop fn a by (auto simp: accept_phase_def Let_def)
    with ok2 show ?thesis by simp
  next
    case nu: False
    have g': "g' = seat_named a buffer ?g2"
      using res False fd rc chop fn a nu by (auto simp: accept_phase_def Let_def)
    show ?thesis
      unfolding g'
    proof (rule game_ok_seat_named [OF ok2 \<open>a < 5\<close>])
      have len: "length (slot_available g) = 5" "length (usernames g) = 5"
        using ok by (simp_all add: game_ok_def shape_ok_def)
      then show "\<not> slot_available ?g2 ! a" using a by simp
      fix b :: nat
      assume "b < 5" "b \<noteq> a" "has_username ?g2 ! b"
      then have "\<not> slot_available g ! b" using game_okD(2) [OF ok, of b] by (auto simp: slot_ok_def)
      then show "usernames ?g2 ! b \<noteq> Some buffer"
        using find_name_False [of buffer "zip (slot_available g) (usernames g)" b "usernames g ! b"]
          fn nu len \<open>b < 5\<close> by simp
    qed
  qed
qed

lemma game_ok_round:
  assumes "game_ok g" and "server_round spill listenfd r g = Ok (g', out)" and kept: "kept spill out"
  shows "game_ok g'"
proof -
  let ?g = "do_select r (arm_fds listenfd g)"
  have ok: "game_ok ?g" using assms(1) by (simp add: do_select_def arm_fds_def)
  obtain g1 out1 cont where acc: "accept_phase spill listenfd r ?g = Ok (g1, out1, cont)"
    and rest: "(if cont then Ok (g1, out1)
       else bind_outcome (slots_phase spill r [0..<5] g1) (\<lambda>(g2, out2). Ok (g2, out1 @ out2))) = Ok (g', out)"
    using assms(2) by (auto simp: server_round_def)
  have "set out1 \<subseteq> set out" using rest by (auto split: if_splits)
  then have ok1: "game_ok g1" using game_ok_accept [OF ok acc] kept by blast
  show ?thesis
  proof (cases cont)
    case True
    with rest ok1 show ?thesis by simp
  next
    case False
    then obtain out2 where "slots_phase spill r [0..<5] g1 = Ok (g', out2)" "set out2 \<subseteq> set out" using rest by auto
    then show ?thesis using ok1 kept game_ok_slots [of g1 "[0..<5]" spill r g' out2] by (auto simp: atLeast0LessThan)
  qed
qed

lemma game_ok_run:
  "game_ok g \<Longrightarrow> run_server spill listenfd rs g = Ok (g', out) \<Longrightarrow> kept spill out \<Longrightarrow> game_ok g'"
proof (induction rs arbitrary: g out)
  case (Cons r rs)
  then obtain g1 out1 out2 where *: "server_round spill listenfd r g = Ok (g1, out1)"
    "run_server spill listenfd rs g1 = Ok (g', out2)" "out = out1 @ out2" by auto
  then have "game_ok g1" using Cons.prems game_ok_round [OF Cons.prems(1) *(1)] by auto
  with * Cons.prems show ?case by (intro Cons.IH) auto
qed simp

lemma game_ok_init: "game_init d rnd F = Ok g \<Longrightarrow> game_ok g"
  by (auto simp: game_init_def get_secret_def game_ok_def shape_ok_def slot_ok_def names_ok_def
      seats_def split: if_splits)

section \<open>The broadcast\<close>

lemma broadcast_going_on:
  "broadcast m False bs g =
     (g, map (\<lambda>b. Send (player_fds g ! b) m) (filter (\<lambda>b. has_username g ! b) bs))"
  by (induction bs) (simp_all add: Let_def)

lemma drop_player_other [simp]:
  "b \<noteq> a \<Longrightarrow> has_username (drop_player a g) ! b = has_username g ! b"
  "b \<noteq> a \<Longrightarrow> player_fds (drop_player a g) ! b = player_fds g ! b"
  "a < length (has_username g) \<Longrightarrow> \<not> has_username (drop_player a g) ! a"
  "length (has_username (drop_player a g)) = length (has_username g)"
  "secret (drop_player a g) = secret g" "usernames (drop_player a g) = usernames g"
  by (simp_all add: drop_player_def)

lemma broadcast_game_over:
  assumes "distinct bs" and "set bs \<subseteq> {..<length (has_username g)}"
  shows "snd (broadcast m True bs g) =
      concat (map (\<lambda>b. [Send (player_fds g ! b) m, CloseFd (player_fds g ! b)])
                (filter (\<lambda>b. has_username g ! b) bs))
    \<and> secret (fst (broadcast m True bs g)) = secret g
    \<and> (\<forall>b. has_username (fst (broadcast m True bs g)) ! b \<longleftrightarrow> has_username g ! b \<and> b \<notin> set bs)"
  using assms
proof (induction bs arbitrary: g)
  case (Cons b bs)
  show ?case
  proof (cases "has_username g ! b")
    case True
    let ?g = "drop_player b g"
    have "map (\<lambda>c. [Send (player_fds ?g ! c) m, CloseFd (player_fds ?g ! c)])
              (filter (\<lambda>c. has_username ?g ! c) bs)
        = map (\<lambda>c. [Send (player_fds g ! c) m, CloseFd (player_fds g ! c)])
              (filter (\<lambda>c. has_username g ! c) bs)"
    proof -
      have "c \<noteq> b" if "c \<in> set bs" for c using that Cons.prems by auto
      then show ?thesis by (intro map_cong filter_cong) auto
    qed
    moreover have "has_username ?g ! c \<longleftrightarrow> c \<noteq> b \<and> has_username g ! c" for c
      using Cons.prems by (cases "c = b") auto
    ultimately show ?thesis
      using Cons.IH [of ?g] Cons.prems True by (simp add: Let_def case_prod_unfold) blast
  next
    case False
    with Cons.IH [of g] Cons.prems show ?thesis by auto
  qed
qed simp

section \<open>Properties\<close>

text \<open>
  C4: Whatever clients connect, send and disconnect in whatever order, after any number of
  rounds that the server survives, and provided that its store in front of \<open>buffer\<close> hits none of its
  variables or has not yet happened (it happens at every disconnect, and what it hits is a parameter of the
  model), the number of players it keeps is the number of occupied slots and lies
  between 0 and 5, a slot has a descriptor exactly when it is occupied, every named slot is
  occupied and no two players have the same name.
\<close>

theorem game_invariant:
  assumes "game_init d rnd F = Ok g0" and "run_server spill listenfd rs g0 = Ok (g, out)"
    and "harmless spill \<or> WildStore \<notin> set out"
  shows "0 \<le> player_count g \<and> player_count g \<le> 5
    \<and> player_count g = int (card {a. a < 5 \<and> \<not> slot_available g ! a})
    \<and> (\<forall>a<5. slot_available g ! a \<longleftrightarrow> player_fds g ! a = -1)
    \<and> (\<forall>a<5. has_username g ! a \<longrightarrow> \<not> slot_available g ! a)
    \<and> (\<forall>a<5. \<forall>b<5. has_username g ! a \<and> has_username g ! b \<and> usernames g ! a = usernames g ! b
         \<longrightarrow> a = b)"
proof -
  have ok: "game_ok g" using assms game_ok_init game_ok_run by blast
  then have len: "length (slot_available g) = 5" by (simp add: game_ok_def shape_ok_def)
  have "seats g = card {a. a < 5 \<and> \<not> slot_available g ! a}"
    by (simp add: seats_def length_filter_conv_card len)
  with ok len seats_le [of g] show ?thesis
    by (auto simp: game_ok_def slot_ok_def names_ok_def)
qed

definition demo_rounds :: "round_in list" where
  "demo_rounds =
     [\<lparr>sel = Some {3}, acc = 4, name_bytes = ''ann'' @ [newline], slot_read = (\<lambda>_. None)\<rparr>,
      \<lparr>sel = Some {3, 4}, acc = 5, name_bytes = ''bob'' @ [newline],
       slot_read = (\<lambda>a. if a = 0 then Some (''frog'' @ [newline]) else None)\<rparr>,
      \<lparr>sel = Some {5}, acc = 0, name_bytes = [],
       slot_read = (\<lambda>a. if a = 1 then Some (''word'' @ [newline]) else None)\<rparr>]"

theorem game_invariant_witness:
  "\<exists>g0 g out. game_init [''word''] (\<lambda>_. 7) {} = Ok g0
     \<and> run_server Ok 3 demo_rounds g0 = Ok (g, out) \<and> player_count g \<le> 5"
proof -
  have "is_ok (bind_outcome (game_init [''word''] (\<lambda>_. 7) {}) (run_server Ok 3 demo_rounds))"
    by code_simp
  then obtain g0 g out where run: "game_init [''word''] (\<lambda>_. 7) {} = Ok g0"
    "run_server Ok 3 demo_rounds g0 = Ok (g, out)" by (auto simp: is_ok_iff)
  moreover have "harmless Ok" by (simp add: harmless_def)
  ultimately show ?thesis using game_invariant [OF run] by blast
qed

text \<open>
  A client whose first name was taken never gets into the game, whatever name it sends next:
  if the server survives its message at all, nothing changes but that it is told again that the
  name is taken, and with a name no player uses the server runs into undefined behaviour or into
  a loop that never ends. (The loop over the slots steps \<open>a\<close> in place of \<open>b\<close>.)
\<close>

theorem second_name_never_admitted:
  "(\<forall>g' out. retry_phase a n g = Ok (g', out) \<longrightarrow>
       g' = g \<and> out = [Send (player_fds g ! a) (taken_msg n)])
   \<and> ((\<forall>b<5. \<not> slot_available g ! b \<longrightarrow> usernames g ! b \<noteq> Some n) \<longrightarrow>
        retry_phase a n g = (if \<not> slot_available g ! 0 \<and> usernames g ! 0 = None then Undefined
                             else Hangs))"
  by (auto simp: retry_phase_cases sprintf_into_def intro!: exI [of _ 0] split: if_splits option.splits)

definition demo_game :: game where
  "demo_game = \<lparr>player_fds = [4, 5, 6, -1, -1], slot_available = [False, False, False, True, True],
     has_username = [True, True, False, False, False],
     usernames = [Some ''ann'', Some ''bob'', None, None, None], player_count = 3,
     secret = ''word'', fds = {3, 4, 5, 6}, dic = [''word'', ''Frog'' @ [newline]],
     rand = (\<lambda>_. 7), drawn = 1\<rparr>"

theorem second_name_never_admitted_witness:
  "retry_phase 2 ''carl'' demo_game = Hangs
   \<and> (\<exists>out. retry_phase 2 ''ann'' demo_game = Ok (demo_game, out))"
proof -
  have free: "\<forall>b<5. \<not> slot_available demo_game ! b \<longrightarrow> usernames demo_game ! b \<noteq> Some ''carl''"
    by code_simp
  have "retry_phase 2 ''carl'' demo_game = Hangs"
    using conjunct2 [OF second_name_never_admitted [of 2 "''carl''" demo_game]] free
    by (simp add: demo_game_def)
  moreover have "is_ok (retry_phase 2 ''ann'' demo_game)" by code_simp
  ultimately show ?thesis
    using second_name_never_admitted [of 2 "''ann''" demo_game] by (auto simp: is_ok_iff)
qed

text \<open>
  C5: A right guess (the secret word up to case) of player \<open>a\<close> ends the game for everybody who has
  a name, and for nobody else: each of them, in slot order, is told who guessed the word and is
  disconnected, no named slot is left and the next word of the dictionary becomes the secret. (The guess is
  not empty and does not end in a newline, the message fits its buffer of 2048 characters, and the
  dictionary is not empty, so that a word \<open>s\<close> can be drawn.)
\<close>

theorem right_guess_ends_game:
  assumes "usernames g ! a = Some u" and "length (has_username g) = 5"
    and "lower guess = lower (secret g)" and "guess \<noteq> []" and "last guess \<noteq> newline"
    and "length (won_msg u (secret g)) < 2048"
    and "get_secret (dic g) (rand g (drawn g)) = Ok s"
  shows "\<exists>g'. guess_phase a guess g = Ok (g',
        concat (map (\<lambda>b. [Send (player_fds g ! b) (won_msg u (secret g)), CloseFd (player_fds g ! b)])
                  (filter (\<lambda>b. has_username g ! b) [0..<5])))
      \<and> secret g' = s \<and> (\<forall>b<5. \<not> has_username g' ! b)"
proof -
  let ?g = "g\<lparr>secret := s, drawn := drawn g + 1\<rparr>" and ?m = "won_msg u (secret g)"
  have len: "length (secret g) = length guess"
    using assms(3) by (metis length_map)
  then have wm: "word_match (secret g) guess = Ok (\<lparr>correct = count_correct guess (secret g)
        (replicate (length (secret g)) False), place_correct = int (length (secret g))\<rparr>, guess)"
    using assms count_places_full_iff [OF len] by (simp add: word_match_def)
  have "0 \<le> count_correct guess (secret g) (replicate (length (secret g)) False)"
    by (simp add: count_correct_inter)
  then have "guess_phase a guess g = Ok (broadcast ?m True [0..<5] ?g)"
    using assms wm by (simp add: guess_phase_def sprintf_into_def)
  moreover note broadcast_game_over [of "[0..<5]" ?g ?m]
  ultimately show ?thesis
    using assms(2) by (cases "broadcast ?m True [0..<5] ?g") (simp add: atLeast0LessThan)
qed

theorem right_guess_ends_game_witness:
  "\<exists>g'. guess_phase 1 ''WoRd'' demo_game = Ok (g',
        concat (map (\<lambda>b. [Send (player_fds demo_game ! b) (won_msg ''bob'' (secret demo_game)),
                          CloseFd (player_fds demo_game ! b)])
                  (filter (\<lambda>b. has_username demo_game ! b) [0..<5])))
      \<and> secret g' = ''Frog'' \<and> (\<forall>b<5. \<not> has_username g' ! b)"
  by (rule right_guess_ends_game) (code_simp, code_simp, code_simp, code_simp, code_simp, code_simp, code_simp)

text \<open>
  A wrong guess of the right length changes nothing in the game; every player with a name,
  the guesser included, gets one message, with the number of letters the guess and the secret
  word share as multisets and the number of positions where they agree, both up to case.
\<close>

theorem wrong_guess_broadcast:
  assumes "usernames g ! a = Some u" and "length guess = length (secret g)" and "guess \<noteq> []"
    and "last guess \<noteq> newline" and "lower guess \<noteq> lower (secret g)"
    and "m = \<lparr>correct = int (size (mset (lower guess) \<inter># mset (lower (secret g)))),
              place_correct = int (card {i. i < length guess
                                       \<and> tolower (secret g ! i) = tolower (guess ! i)})\<rparr>"
    and "length (try_msg u guess m) < 2048"
  shows "guess_phase a guess g = Ok (g,
      map (\<lambda>b. Send (player_fds g ! b) (try_msg u guess m)) (filter (\<lambda>b. has_username g ! b) [0..<5]))"
proof -
  have len: "length (secret g) = length guess" using assms(2) by simp
  have "count_places (secret g) guess = place_correct m"
    using assms(2,6) by (simp add: count_places_def length_filter_conv_card cong: conj_cong)
  then have wm: "word_match (secret g) guess = Ok (m, guess)"
    using assms by (simp add: word_match_def count_correct_inter)
  have "place_correct m \<noteq> int (length (secret g))"
    using \<open>count_places (secret g) guess = place_correct m\<close> count_places_full_iff [OF len] assms(5)
    by auto
  moreover have "correct m \<noteq> -1" using assms(6) by simp
  ultimately show ?thesis
    using assms(1,7) wm by (simp add: guess_phase_def sprintf_into_def broadcast_going_on)
qed

theorem wrong_guess_broadcast_witness:
  "guess_phase 0 ''Crow'' demo_game = Ok (demo_game,
     [Send 4 ''ann guessed Crow: 3 letter(s) were correct and 0 letter(s) were correctly placed.'',
      Send 5 ''ann guessed Crow: 3 letter(s) were correct and 0 letter(s) were correctly placed.''])"
proof -
  let ?m = "\<lparr>correct = 3, place_correct = 0\<rparr>"
  have "guess_phase 0 ''Crow'' demo_game = Ok (demo_game,
      map (\<lambda>b. Send (player_fds demo_game ! b) (try_msg ''ann'' ''Crow'' ?m))
        (filter (\<lambda>b. has_username demo_game ! b) [0..<5]))"
  proof (rule wrong_guess_broadcast)
    have "{i. i < length ''Crow'' \<and> tolower (secret demo_game ! i) = tolower (''Crow'' ! i)}
        = set (filter (\<lambda>i. tolower (secret demo_game ! i) = tolower (''Crow'' ! i)) [0..<4])"
      by auto
    also have "\<dots> = {}" by code_simp
    finally have "card {i. i < length ''Crow'' \<and> tolower (secret demo_game ! i) = tolower (''Crow'' ! i)} = 0"
      by simp
    moreover have "size (mset (lower ''Crow'') \<inter># mset (lower (secret demo_game))) = 3" by code_simp
    ultimately show "?m = \<lparr>correct = int (size (mset (lower ''Crow'') \<inter># mset (lower (secret demo_game)))),
        place_correct = int (card {i. i < length ''Crow''
            \<and> tolower (secret demo_game ! i) = tolower (''Crow'' ! i)})\<rparr>" by simp
  qed (code_simp, code_simp, code_simp, code_simp, code_simp, code_simp)
  also have "map (\<lambda>b. Send (player_fds demo_game ! b) (try_msg ''ann'' ''Crow'' ?m))
        (filter (\<lambda>b. has_username demo_game ! b) [0..<5])
      = [Send 4 ''ann guessed Crow: 3 letter(s) were correct and 0 letter(s) were correctly placed.'',
         Send 5 ''ann guessed Crow: 3 letter(s) were correct and 0 letter(s) were correctly placed.'']"
    by code_simp
  finally show ?thesis .
qed

text \<open>
  With all five slots taken a sixth connection is closed at once and nothing else of the game
  changes; the round ends there, so no player is served in it.
\<close>

theorem sixth_connection_refused:
  assumes "game_ok g" and "\<forall>a<5. \<not> slot_available g ! a"
    and "listenfd \<in> fds (do_select r (arm_fds listenfd g))"
  shows "\<exists>F. server_round spill listenfd r g = Ok (g\<lparr>fds := F\<rparr>, [CloseFd (acc r)])"
proof -
  have "length (slot_available g) = 5" using assms(1) by (simp add: game_ok_def shape_ok_def)
  then have "seats g = 5" using assms(2) seats_le [of g] seats_lt_iff [of g] by force
  then have "player_count g = 5" using assms(1) by (simp add: game_ok_def)
  with assms(3) show ?thesis
    by (auto simp: server_round_def accept_phase_def do_select_def arm_fds_def)
qed

definition full_game :: game where
  "full_game = demo_game\<lparr>player_fds := [4, 5, 6, 7, 8], slot_available := replicate 5 False,
     player_count := 5\<rparr>"

lemma all_less_5: "(\<forall>a<5. P a) \<longleftrightarrow> P 0 \<and> P 1 \<and> P 2 \<and> P 3 \<and> P (4::nat)"
  by (auto simp: less_Suc_eq eval_nat_numeral)

theorem sixth_connection_refused_witness:
  "\<exists>F. server_round Ok 3 (hd demo_rounds) full_game = Ok (full_game\<lparr>fds := F\<rparr>, [CloseFd 4])"
proof -
  have "game_ok full_game"
    by (simp add: game_ok_def shape_ok_def slot_ok_def names_ok_def seats_def all_less_5
        full_game_def demo_game_def)
  moreover have "\<forall>a<5. \<not> slot_available full_game ! a" by (simp add: all_less_5 full_game_def)
  moreover have "3 \<in> fds (do_select (hd demo_rounds) (arm_fds 3 full_game))" by code_simp
  moreover have "acc (hd demo_rounds) = 4" by (simp add: demo_rounds_def)
  ultimately show ?thesis using sixth_connection_refused [of full_game 3 "hd demo_rounds"] by metis
qed

text \<open>
  When a player's connection ends or its \<open>read\<close> fails, its slot becomes free again, its
  descriptor is closed, the number of players goes down by one and no other slot is touched; but
  the server also stores a NUL in front of its buffer, since it cuts the last character off an
  empty string before it looks at the result of \<open>read\<close>.
\<close>

theorem disconnect_frees_slot:
  assumes "game_ok g" and "a < 5" and "\<not> slot_available g ! a" and "player_fds g ! a \<in> fds g"
    and "slot_read r a = None \<or> slot_read r a = Some []"
  shows "\<exists>g'. slot_phase Ok r a g = Ok (g', [WildStore, CloseFd (player_fds g ! a)])
     \<and> slot_available g' ! a \<and> player_fds g' ! a = -1 \<and> \<not> has_username g' ! a
     \<and> player_count g' = player_count g - 1
     \<and> (\<forall>b<5. b \<noteq> a \<longrightarrow> slot_available g' ! b = slot_available g ! b
          \<and> player_fds g' ! b = player_fds g ! b \<and> has_username g' ! b = has_username g ! b)"
proof -
  let ?g1 = "g\<lparr>fds := fds g - {player_fds g ! a}\<rparr>"
  have "slot_phase Ok r a g = Ok (drop_player a ?g1, [WildStore, CloseFd (player_fds g ! a)])"
    using assms(3-5) by (auto simp: slot_phase_def Let_def read_cstr_def chop_def cstr_def)
  moreover have "shape_ok g" using assms(1) by (rule game_okD)
  ultimately show ?thesis
    using assms(2) by (auto simp: drop_player_def shape_ok_def)
qed

theorem disconnect_frees_slot_witness:
  "\<exists>g'. slot_phase Ok (hd demo_rounds) 1 full_game = Ok (g', [WildStore, CloseFd 5])
        \<and> player_count g' = 4"
proof -
  have "game_ok full_game"
    by (simp add: game_ok_def shape_ok_def slot_ok_def names_ok_def seats_def all_less_5
        full_game_def demo_game_def)
  moreover have "\<not> slot_available full_game ! 1" by (simp add: full_game_def)
  moreover have "player_fds full_game ! 1 \<in> fds full_game"
    by (simp add: full_game_def demo_game_def)
  moreover have "slot_read (hd demo_rounds) 1 = None" by (simp add: demo_rounds_def)
  moreover have "player_fds full_game ! 1 = 5" "player_count full_game = 5"
    by (simp_all add: full_game_def)
  ultimately show ?thesis
    using disconnect_frees_slot [of full_game 1 "hd demo_rounds"] by fastforce
qed

text \<open>
  A client that is in a slot without ever having had a name makes the server crash when the
  next client connects: the check of the new name hands the null pointer of that slot to
  \<open>strcmp\<close>, unless an earlier slot has the same name.
\<close>

theorem nameless_slot_crashes_server:
  assumes "listenfd \<in> fds g" and "player_count g < 5" and "0 \<le> acc r"
    and "a < length (slot_available g)" and "a < length (usernames g)"
    and "\<not> slot_available g ! a" and "usernames g ! a = None"
    and "read_cstr (name_bytes r) = Ok s"
    and "\<forall>b<a. \<not> slot_available g ! b \<longrightarrow> usernames g ! b \<noteq> Some (butlast s)"
  shows "accept_phase Ok listenfd r g = Undefined"
proof -
  have "find_name n slots = Undefined"
    if "i < length slots" "slots ! i = (False, None)" "\<forall>j<i. slots ! j \<noteq> (False, Some n)" for n slots i
    using that
  proof (induction n slots arbitrary: i rule: find_name.induct)
    case (2 n avail u slots)
    show ?case
    proof (cases i)
      case 0
      with 2 show ?thesis by simp
    next
      case (Suc j)
      then have "slots ! j = (False, None)" "j < length slots" "\<forall>k<j. slots ! k \<noteq> (False, Some n)"
        and "(avail, u) \<noteq> (False, Some n)"
        using 2 by (auto simp: nth_Cons split: nat.splits)
      with 2 show ?thesis by (auto split: option.splits)
    qed
  qed simp
  from this [of a "zip (slot_available g) (usernames g)" "butlast s"]
  have "find_name (butlast s) (zip (slot_available g) (usernames g)) = Undefined"
    using assms by auto
  then show ?thesis using assms(1-3,8) by (cases "s = []") (simp_all add: accept_phase_def Let_def chop_def)
qed

theorem nameless_slot_crashes_server_witness:
  "accept_phase Ok 3 ((hd demo_rounds)\<lparr>acc := 9, name_bytes := ''dan'' @ [newline]\<rparr>) demo_game = Undefined"
proof (rule nameless_slot_crashes_server)
  show "\<forall>b<2. \<not> slot_available demo_game ! b \<longrightarrow> usernames demo_game ! b \<noteq> Some (butlast (''dan'' @ [newline]))"
    by code_simp
qed (code_simp+)

end
