(* ===== verification/GuessClient.thy ===== *)
theory GuessClient
  imports GuessServer
begin

text \<open>
  The client of the guessing game, \<^verbatim>\<open>unpv13e/hw2_client.c\<close>: it waits for the server, and answers
  what it reads with a line from standard input. What the socket delivers is an input of the model;
  the terminal output is left out.
\<close>

section \<open>State\<close>

text \<open>
  The pointer \<open>username\<close> points to the block from \<open>calloc\<close> (with its text) until the first name is
  read; from then on to \<open>server_response\<close> itself, written \<open>None\<close>. \<open>cli_in\<close> is what standard
  input still holds, \<open>cli_sent\<close> what each \<open>write\<close> sent.
\<close>

record game_client =
  name_ptr :: "string option"
  server_response :: string
  cli_in :: string
  cli_sent :: "string list"

text \<open>
  What a call of \<open>select\<close> and the \<open>read\<close> after it give: the descriptor is not in the set (which is
  never cleared, so \<open>select\<close> may return for another one), or the \<open>read\<close> returns bytes, none at end
  of file; \<open>None\<close> for \<open>-1\<close>.
\<close>

datatype cli_event = Not_ready | Reads "string option"

definition client_init :: "string \<Rightarrow> game_client" where
  "client_init inp = \<lparr>name_ptr = Some [], server_response = [], cli_in = inp, cli_sent = []\<rparr>"

section \<open>The loop\<close>

definition username_text :: "game_client \<Rightarrow> string" where
  "username_text c = (case name_ptr c of None \<Rightarrow> server_response c | Some s \<Rightarrow> s)"

definition expected_taken :: "string \<Rightarrow> string" where
  "expected_taken u = ''Username '' @ u @ '' is already taken, please enter a different username''"

text \<open>
  \<open>fgets\<close> into \<open>server_response\<close> and \<open>write\<close> with the NUL; at the end of standard input \<open>fgets\<close>
  leaves the buffer as it is, and the text of the server goes back to it.
\<close>

definition answer :: "game_client \<Rightarrow> game_client" where
  "answer c =
     (let (l, rest) = fgets 1024 (cli_in c);
          s = (if cli_in c = [] then server_response c else cstr l)
      in c\<lparr>server_response := s, cli_in := rest, cli_sent := cli_sent c @ [s @ [nul]]\<rparr>)"

text \<open>One turn of the loop; the flag says that it is left with \<open>break\<close>.\<close>

definition client_step :: "cli_event \<Rightarrow> game_client \<Rightarrow> (game_client \<times> bool) outcome" where
  "client_step e c =
     (case e of
        Not_ready \<Rightarrow> Ok (c, False)
      | Reads r \<Rightarrow>
          bind_outcome (read_cstr (case r of None \<Rightarrow> [] | Some d \<Rightarrow> take 1025 d)) (\<lambda>s.
          let c1 = c\<lparr>server_response := s\<rparr>; temp = expected_taken (username_text c1) in
          if s = welcome_msg \<or> s = temp then Ok ((answer c1)\<lparr>name_ptr := None\<rparr>, False)
          else if s = ''GGWP'' then Ok (c1, True)
          else if s = ''Too many players atm.'' then Ok (c1, True)
          else if s \<noteq> [] then Ok (answer c1, False)
          else Ok (c1, False)))"

text \<open>
  After the loop: \<open>free(username)\<close>, which is undefined for the array \<open>server_response\<close>, and the
  end of \<open>main\<close>. The flag of the result says that \<open>main\<close> has returned.
\<close>

fun run_client :: "cli_event list \<Rightarrow> game_client \<Rightarrow> (game_client \<times> bool) outcome" where
  "run_client [] c = Ok (c, False)"
| "run_client (e # es) c =
     bind_outcome (client_step e c) (\<lambda>(c', left).
       if \<not> left then run_client es c'
       else if name_ptr c' = None then Undefined else Ok (c', True))"

definition client_main :: "bool \<Rightarrow> bool \<Rightarrow> string \<Rightarrow> cli_event list \<Rightarrow> (game_client \<times> bool) outcome" where
  "client_main sock_ok conn_ok inp es =
     (if \<not> sock_ok \<or> \<not> conn_ok then Ok (client_init inp, True) else run_client es (client_init inp))"

section \<open>Whole lines and whole messages\<close>

definition input_line :: "string \<Rightarrow> bool" where
  "input_line l \<longleftrightarrow> (\<exists>t. l = t @ [newline] \<and> newline \<notin> set t \<and> nul \<notin> set t \<and> length l \<le> 1024)"

lemma answer_line:
  assumes "input_line l" and "cli_in c = l @ r"
  shows "answer c =
    c\<lparr>server_response := l, cli_in := r, cli_sent := cli_sent c @ [l @ [nul]]\<rparr>"
proof -
  obtain t where l: "l = t @ [newline]" and t: "newline \<notin> set t" "nul \<notin> set t" "length t < 1024"
    using assms by (auto simp: input_line_def)
  have "fgets 1024 (l @ r) = (l, r)" using fgets_whole_line [OF t(1) t(3)] l by simp
  then have "fgets 1024 (cli_in c) = (l, r)" using assms(2) by simp
  moreover have "cstr l = l" using l t(2) by simp
  ultimately show ?thesis using l assms(2) by (simp add: answer_def)
qed

text \<open>A message that the client answers: it fits the buffer and is none of the farewells.\<close>

definition asks :: "string \<Rightarrow> bool" where
  "asks m \<longleftrightarrow> m \<noteq> [] \<and> nul \<notin> set m \<and> length m < 1025 \<and> m \<noteq> ''GGWP'' \<and> m \<noteq> ''Too many players atm.''"

lemma read_cstr_message: "nul \<notin> set m \<Longrightarrow> length m < 1025 \<Longrightarrow> read_cstr m = Ok m"
  by (simp add: read_cstr_def)

lemma client_step_asks:
  assumes "asks m" and "input_line l"
  shows "\<exists>c'. client_step (Reads (Some m)) (c\<lparr>cli_in := l @ r\<rparr>) = Ok (c', False)
    \<and> cli_in c' = r \<and> cli_sent c' = cli_sent c @ [l @ [nul]]
    \<and> name_ptr c' = (if m = welcome_msg \<or> m = expected_taken (username_text (c\<lparr>server_response := m\<rparr>))
                     then None else name_ptr c)"
proof -
  have rc: "read_cstr m = Ok m" using assms(1) by (intro read_cstr_message) (simp_all add: asks_def)
  have an: "answer (c\<lparr>cli_in := l @ r, server_response := m\<rparr>) =
      c\<lparr>server_response := l, cli_in := r, cli_sent := cli_sent c @ [l @ [nul]]\<rparr>"
    by (subst answer_line [OF assms(2)]) simp_all
  let ?c1 = "c\<lparr>cli_in := l @ r, server_response := m\<rparr>"
  let ?taken = "m = expected_taken (username_text (c\<lparr>server_response := m\<rparr>))"
  have "username_text ?c1 = username_text (c\<lparr>server_response := m\<rparr>)"
    by (simp add: username_text_def split: option.split)
  then have "client_step (Reads (Some m)) (c\<lparr>cli_in := l @ r\<rparr>) =
      Ok (if m = welcome_msg \<or> ?taken then (answer ?c1)\<lparr>name_ptr := None\<rparr> else answer ?c1, False)"
    using assms(1) by (simp add: client_step_def rc Let_def asks_def)
  then show ?thesis unfolding an by simp
qed

text \<open>The name as the text of the buffer that was just read is never found in the buffer.\<close>

lemma aliased_never_taken: "name_ptr c = None \<Longrightarrow> m \<noteq> expected_taken (username_text (c\<lparr>server_response := m\<rparr>))"
  by (auto simp: username_text_def expected_taken_def dest: arg_cong [of _ _ length])

lemma run_client_append:
  "run_client (es @ fs) c =
     bind_outcome (run_client es c) (\<lambda>(c', done). if done then Ok (c', True) else run_client fs c')"
proof (induction es arbitrary: c)
  case (Cons e es)
  then show ?case by (cases "client_step e c") (auto split: prod.splits)
qed simp

lemma run_client_asks:
  assumes "\<forall>m \<in> set ms. asks m" and "\<forall>l \<in> set ls. input_line l" and "length ls = length ms"
  shows "\<exists>c'. run_client (map (\<lambda>m. Reads (Some m)) ms) (c\<lparr>cli_in := concat ls @ r\<rparr>) = Ok (c', False)
    \<and> cli_in c' = r \<and> cli_sent c' = cli_sent c @ map (\<lambda>l. l @ [nul]) ls
    \<and> (name_ptr c = None \<or> welcome_msg \<in> set ms \<longrightarrow> name_ptr c' = None)"
  using assms(3,1,2)
proof (induction ls ms arbitrary: c rule: list_induct2)
  case (Cons l ls m ms)
  then obtain c1 where c1: "client_step (Reads (Some m)) (c\<lparr>cli_in := l @ concat ls @ r\<rparr>) = Ok (c1, False)"
    "cli_in c1 = concat ls @ r" "cli_sent c1 = cli_sent c @ [l @ [nul]]"
    "name_ptr c1 = (if m = welcome_msg \<or> m = expected_taken (username_text (c\<lparr>server_response := m\<rparr>))
                     then None else name_ptr c)"
    using client_step_asks [of m l, where c = c and r = "concat ls @ r"] by auto
  then have eq: "c1\<lparr>cli_in := concat ls @ r\<rparr> = c1" by simp
  obtain c' where "run_client (map (\<lambda>m. Reads (Some m)) ms) c1 = Ok (c', False)"
    "cli_in c' = r" "cli_sent c' = cli_sent c1 @ map (\<lambda>l. l @ [nul]) ls"
    "name_ptr c1 = None \<or> welcome_msg \<in> set ms \<longrightarrow> name_ptr c' = None"
    using Cons.IH [of c1] Cons.prems eq by auto
  then show ?case using c1 by auto
qed (auto intro: exI [of _ "c\<lparr>cli_in := r\<rparr>"])

text \<open>The end of the stream: nothing is answered, and the loop goes on.\<close>

lemma run_client_eof:
  "run_client (replicate n (Reads (Some []))) c = Ok (if n = 0 then c else c\<lparr>server_response := []\<rparr>, False)"
proof -
  have "client_step (Reads (Some [])) c = Ok (c\<lparr>server_response := []\<rparr>, False)" for c
    by (simp add: client_step_def read_cstr_def cstr_def Let_def welcome_msg_def expected_taken_def)
  then show ?thesis by (induction n arbitrary: c) auto
qed

lemma run_client_farewell:
  assumes "m = ''GGWP'' \<or> m = ''Too many players atm.''"
  shows "run_client (Reads (Some m) # es) c =
    (if name_ptr c = None then Undefined else Ok (c\<lparr>server_response := m\<rparr>, True))"
proof -
  have "read_cstr m = Ok m" "length m \<le> 1025" using assms by (auto intro!: read_cstr_message)
  moreover have "m \<noteq> expected_taken u" "m \<noteq> welcome_msg" for u
    using assms by (auto simp: expected_taken_def welcome_msg_def)
  ultimately show ?thesis using assms by (auto simp: client_step_def Let_def)
qed

section \<open>What the server sends\<close>

definition server_text :: "string \<Rightarrow> bool" where
  "server_text m \<longleftrightarrow> m = welcome_msg \<or> (\<exists>u s n g r. m = taken_msg u \<or> m = start_msg u \<or> m = players_msg n s
     \<or> m = length_msg s \<or> m = won_msg u s \<or> m = try_msg u g r)"

lemma server_textI [intro]:
  "server_text welcome_msg" "server_text (taken_msg u)" "server_text (start_msg u)"
  "server_text (players_msg n s)" "server_text (length_msg s)" "server_text (won_msg u s)"
  "server_text (try_msg u g r)"
  unfolding server_text_def by blast+

lemma server_text_no_farewell: "server_text m \<Longrightarrow> m \<noteq> [] \<and> m \<noteq> ''GGWP'' \<and> m \<noteq> ''Too many players atm.''"
proof -
  have w: "won_msg u s \<noteq> x" "try_msg u g r \<noteq> x" if "length x \<le> 21" for u s g r x
    using that by (auto simp: won_msg_def try_msg_def)
  show "server_text m \<Longrightarrow> ?thesis"
    unfolding server_text_def using w by (auto simp: welcome_msg_def taken_msg_def start_msg_def
        players_msg_def length_msg_def)
qed

text \<open>Nor is a farewell what several messages in a row make when one \<open>read\<close> returns them together.\<close>

lemma server_text_long: "server_text m \<Longrightarrow> 21 \<le> length m"
  unfolding server_text_def
  by (auto simp: welcome_msg_def taken_msg_def start_msg_def players_msg_def length_msg_def won_msg_def try_msg_def)

lemma joined_no_farewell:
  assumes "ms \<noteq> []" and "\<forall>m \<in> set ms. server_text m"
  shows "concat ms \<noteq> [] \<and> concat ms \<noteq> ''GGWP'' \<and> concat ms \<noteq> ''Too many players atm.''"
proof -
  obtain m ms' where ms: "ms = m # ms'" using assms(1) by (cases ms) auto
  then have m: "server_text m" "21 \<le> length m" using assms(2) server_text_long by auto
  show ?thesis
  proof (cases ms')
    case Nil
    with ms m server_text_no_farewell show ?thesis by simp
  next
    case (Cons m' ms'')
    then have "21 \<le> length m'" using ms assms(2) server_text_long by auto
    then have "42 \<le> length (concat ms)" using ms m(2) Cons by simp
    then have "concat ms \<noteq> x" if "length x < 42" for x using that by auto
    from this [of "[]"] this [of "''GGWP''"] this [of "''Too many players atm.''"] show ?thesis by simp
  qed
qed

definition sends_texts :: "action list \<Rightarrow> bool" where
  "sends_texts out \<longleftrightarrow> (\<forall>fd m. Send fd m \<in> set out \<longrightarrow> server_text m)"

lemma sends_texts_simps [simp]:
  "sends_texts []" "sends_texts (Send fd m # out) \<longleftrightarrow> server_text m \<and> sends_texts out"
  "sends_texts (CloseFd fd # out) = sends_texts out" "sends_texts (WildStore # out) = sends_texts out"
  "sends_texts (out @ out') \<longleftrightarrow> sends_texts out \<and> sends_texts out'"
  by (auto simp: sends_texts_def)

lemma sprintf_into_Ok [simp]: "sprintf_into n s = Ok m \<longleftrightarrow> m = s \<and> length s < n"
  by (auto simp: sprintf_into_def)

lemma sends_texts_broadcast: "server_text m \<Longrightarrow> sends_texts (snd (broadcast m over bs g))"
  by (induction m over bs g rule: broadcast.induct) (auto simp: Let_def split: prod.splits)

lemma sends_texts_chop: "chop spill s g = Ok (b, wild, g') \<Longrightarrow> sends_texts wild"
  by (cases "spill g") (auto simp: chop_def split: if_splits)

lemma sends_texts_greet: "greet fd n g = Ok out \<Longrightarrow> sends_texts out"
  by (auto simp: greet_def)

lemma sends_texts_accept:
  assumes "accept_phase spill lfd r g = Ok (g', out, cont)"
  shows "sends_texts out"
proof (cases "lfd \<notin> fds g \<or> player_count g \<ge> 5 \<or> acc r < 0")
  case False
  then obtain s where s: "read_cstr (name_bytes r) = Ok s"
    using assms by (auto simp: accept_phase_def Let_def)
  obtain buffer wild g1 where c: "chop spill s (g\<lparr>player_count := player_count g + 1, fds := fds g - {acc r}\<rparr>) = Ok (buffer, wild, g1)"
    using assms False s by (auto simp: accept_phase_def Let_def)
  show ?thesis using assms False sends_texts_chop [OF c]
    by (auto simp: accept_phase_def Let_def s c sends_texts_greet split: if_splits option.splits)
qed (use assms in \<open>auto simp: accept_phase_def split: if_splits\<close>)

lemma sends_texts_guess: "guess_phase a buffer g = Ok (g', out) \<Longrightarrow> sends_texts out"
  using sends_texts_broadcast
  by (auto simp: guess_phase_def Let_def split: if_splits prod.splits) (metis server_textI(6,7) snd_conv)+

lemma sends_texts_retry: "retry_phase a buffer g = Ok (g', out) \<Longrightarrow> sends_texts out"
  by (auto simp: retry_phase_cases split: if_splits option.splits)

lemma sends_texts_slot:
  assumes "slot_phase spill r a g = Ok (g', out)"
  shows "sends_texts out"
proof (cases "slot_available g ! a \<or> player_fds g ! a \<notin> fds g")
  case False
  let ?data = "case slot_read r a of None \<Rightarrow> [] | Some d \<Rightarrow> take 1025 d"
  obtain s where s: "read_cstr ?data = Ok s" using assms False by (auto simp: slot_phase_def Let_def)
  obtain buffer wild g1 where c: "chop spill s (g\<lparr>fds := fds g - {player_fds g ! a}\<rparr>) = Ok (buffer, wild, g1)"
    using assms False s by (auto simp: slot_phase_def Let_def)
  show ?thesis using assms False sends_texts_chop [OF c]
    by (auto simp: slot_phase_def Let_def s c sends_texts_guess sends_texts_retry split: if_splits)
qed (use assms in \<open>auto simp: slot_phase_def\<close>)

lemma sends_texts_slots: "slots_phase spill r as g = Ok (g', out) \<Longrightarrow> sends_texts out"
proof (induction spill r as g arbitrary: g' out rule: slots_phase.induct)
  case (2 spill r a as g)
  then obtain g1 out1 out2 where "slot_phase spill r a g = Ok (g1, out1)" "slots_phase spill r as g1 = Ok (g', out2)"
    "out = out1 @ out2" by auto
  then show ?case using "2.IH" [OF _ refl] sends_texts_slot by fastforce
qed simp

lemma sends_texts_round: "server_round spill lfd r g = Ok (g', out) \<Longrightarrow> sends_texts out"
  by (auto simp: server_round_def dest!: sends_texts_accept sends_texts_slots split: if_splits)

lemma sends_texts_run: "run_server spill lfd rs g = Ok (g', out) \<Longrightarrow> sends_texts out"
proof (induction spill lfd rs g arbitrary: g' out rule: run_server.induct)
  case (2 spill lfd r rs g)
  then obtain g1 out1 out2 where "server_round spill lfd r g = Ok (g1, out1)" "run_server spill lfd rs g1 = Ok (g', out2)"
    "out = out1 @ out2" by auto
  then show ?case using "2.IH" [OF _ refl] sends_texts_round by fastforce
qed simp

end
