(* ===== verification/Inet4.thy ===== *)
theory Inet4
  imports Prelude
begin

text \<open>
  IPv4 addresses as text: \<open>inet_pton4\<close> (\<^verbatim>\<open>unpv13e/libfree/inet_pton.c\<close>), \<open>inet_ntop4\<close>
  (\<^verbatim>\<open>unpv13e/libfree/inet_ntop.c\<close>), \<open>inet_aton\<close> (\<^verbatim>\<open>unpv13e/libfree/inet_aton.c\<close>) and the
  IPv4-only versions of \<open>inet_pton\<close> and \<open>inet_ntop\<close> (\<^verbatim>\<open>unpv13e/libfree/inet_pton_ipv4.c\<close>,
  \<^verbatim>\<open>unpv13e/libfree/inet_ntop_ipv4.c\<close>). The contract of a pair of a parser and a printer is the
  locale \<open>addr_codec\<close>.
\<close>

abbreviation dot :: char where
  "dot \<equiv> CHR ''.''"

section \<open>The contract of a text form of addresses\<close>

locale addr_codec =
  fixes parse :: "string \<Rightarrow> byte list option"
    and print :: "byte list \<Rightarrow> string"
    and width :: nat
    and strlen_max :: nat
  assumes parse_print: "length bs = width \<Longrightarrow> parse (print bs) = Some bs"
    and print_length: "length bs = width \<Longrightarrow> length (print bs) < strlen_max"
begin

lemma print_inject:
  "length as = width \<Longrightarrow> length bs = width \<Longrightarrow> print as = print bs \<longleftrightarrow> as = bs"
  by (metis parse_print option.inject)

lemma print_fits: "length bs = width \<Longrightarrow> sprintf_into strlen_max (print bs) = Ok (print bs)"
  by (simp add: sprintf_into_def print_length)

lemma print_then_parse:
  "length bs = width \<Longrightarrow> bind_outcome (sprintf_into strlen_max (print bs)) (\<lambda>s. Ok (parse s)) = Ok (Some bs)"
  by (simp add: print_fits parse_print)

end

section \<open>Parsing\<close>

text \<open>
  The loop of \<open>inet_pton4\<close>: \<open>tmp\<close> is the part of the array \<open>tmp\<close> up to and including \<open>*tp\<close>,
  \<open>None\<close> is a \<open>return (0)\<close>.
\<close>

fun pton4_loop :: "nat \<Rightarrow> bool \<Rightarrow> nat list \<Rightarrow> string \<Rightarrow> (nat \<times> nat list) option" where
  "pton4_loop octets saw_digit tmp [] = Some (octets, tmp)"
| "pton4_loop octets saw_digit tmp (ch # src) =
     (case dec_digit ch of
        Some d \<Rightarrow>
          let new = last tmp * 10 + d in
          if new > 255 then None
          else if \<not> saw_digit then
            (if octets + 1 > 4 then None else pton4_loop (octets + 1) True (butlast tmp @ [new]) src)
          else pton4_loop octets True (butlast tmp @ [new]) src
      | None \<Rightarrow>
          if ch = dot \<and> saw_digit then
            (if octets = 4 then None else pton4_loop octets False (tmp @ [0]) src)
          else None)"

definition inet_pton4 :: "string \<Rightarrow> byte list option" where
  "inet_pton4 src =
     (case pton4_loop 0 False [0] src of
        None \<Rightarrow> None
      | Some (octets, tmp) \<Rightarrow> if octets < 4 then None else Some (map word_of_nat (take 4 tmp)))"

text \<open>
  \<open>inet_aton\<close>: an accumulator of 64 bits (\<open>u_long\<close>), which wraps. The fall-through of the cases
  \<open>'.'\<close> and \<open>'\0'\<close> is \<open>close_part\<close>; the address is kept in 32 bits from the \<open>htonl\<close> on.
\<close>

definition close_part :: "64 word \<Rightarrow> 64 word \<Rightarrow> (64 word \<times> 64 word) option" where
  "close_part acc addr = (if acc > 255 then None else Some (0, or (push_bit 8 addr) acc))"

fun aton_loop :: "nat \<Rightarrow> 64 word \<Rightarrow> 64 word \<Rightarrow> string \<Rightarrow> (nat \<times> 64 word) option" where
  "aton_loop dots acc addr [] = map_option (\<lambda>(_, addr'). (dots, addr')) (close_part acc addr)"
| "aton_loop dots acc addr (cc # cp) =
     (case dec_digit cc of
        Some d \<Rightarrow> aton_loop dots (acc * 10 + word_of_nat d) addr cp
      | None \<Rightarrow>
          if cc = dot then
            (if dots + 1 > 3 then None
             else case close_part acc addr of
                    None \<Rightarrow> None
                  | Some (acc', addr') \<Rightarrow> aton_loop (dots + 1) acc' addr' cp)
          else None)"

definition be32 :: "32 word \<Rightarrow> byte list" where
  "be32 w = map (\<lambda>i. word_of_nat (unat w div 256 ^ i mod 256)) [3, 2, 1, 0]"

definition inet_aton :: "string \<Rightarrow> byte list option" where
  "inet_aton cp =
     (case aton_loop 0 0 0 cp of
        None \<Rightarrow> None
      | Some (dots, addr) \<Rightarrow>
          Some (be32 (ucast (if dots < 3 then push_bit (8 * (3 - dots)) addr else addr))))"

section \<open>Printing\<close>

definition quad_text :: "byte list \<Rightarrow> string" where
  "quad_text src = join dot (map (\<lambda>i. dec (unat (src ! i))) [0..<4])"

text \<open>
  \<open>inet_ntop4\<close>: the text into a local array of 16, then, unless it is longer than \<open>size\<close>, a copy
  with its NUL into \<open>dst\<close>, which has \<open>size\<close> characters. \<open>None\<close> is the null pointer (\<open>ENOSPC\<close>).
\<close>

definition inet_ntop4 :: "byte list \<Rightarrow> nat \<Rightarrow> string option outcome" where
  "inet_ntop4 src sz =
     bind_outcome (sprintf_into 16 (quad_text src)) (\<lambda>tmp.
       if length tmp > sz then Ok None
       else bind_outcome (sprintf_into sz tmp) (\<lambda>dst. Ok (Some dst)))"

section \<open>The IPv4-only library\<close>

datatype errno = EAFNOSUPPORT | ENOSPC

text \<open>
  \<open>inet_pton\<close> returns 1, 0 or -1; with 1 it stores an address, with -1 it sets \<open>errno\<close>.
\<close>

datatype pton_result = Valid "byte list" | Invalid | Failed errno

definition AF_INET :: int where "AF_INET = 2"

definition pton_status :: "pton_result \<Rightarrow> int" where
  "pton_status r = (case r of Valid _ \<Rightarrow> 1 | Invalid \<Rightarrow> 0 | Failed _ \<Rightarrow> -1)"

definition inet_pton_ipv4 :: "int \<Rightarrow> string \<Rightarrow> pton_result" where
  "inet_pton_ipv4 family strptr =
     (if family = AF_INET then
        (case inet_aton strptr of Some in_val \<Rightarrow> Valid in_val | None \<Rightarrow> Invalid)
      else Failed EAFNOSUPPORT)"

definition inet_ntop_ipv4 :: "int \<Rightarrow> byte list \<Rightarrow> nat \<Rightarrow> errno + string" where
  "inet_ntop_ipv4 family p len =
     (if family = AF_INET then
        let temp = snprintf 16 (quad_text p) in
        if length temp \<ge> len then Inl ENOSPC else Inr temp
      else Inl EAFNOSUPPORT)"

section \<open>Dotted quads\<close>

lemma length4E:
  assumes "length bs = 4"
  obtains a b c d where "bs = [a, b, c, d]"
  using assms by (auto simp: length_Suc_conv eval_nat_numeral)

lemma quad_text_simp: "quad_text [a, b, c, d] =
    dec (unat a) @ dot # dec (unat b) @ dot # dec (unat c) @ dot # dec (unat d)"
  by (simp add: quad_text_def upt_rec)

lemma length_quad_text: "length bs = 4 \<Longrightarrow> length (quad_text bs) < 16"
proof (elim length4E)
  fix a b c d
  assume "bs = [a, b, c, d]"
  moreover have "length (dec (unat x)) \<le> 3" for x :: byte by (rule length_dec_byte) simp
  from this [of a] this [of b] this [of c] this [of d]
  have "length (dec (unat a)) + length (dec (unat b)) + length (dec (unat c)) + length (dec (unat d)) \<le> 12"
    by simp
  ultimately show "length (quad_text bs) < 16" by (simp add: quad_text_simp)
qed

lemma not_digit_dot [simp]: "dec_digit dot = None" "\<not> isdigit dot"
  by (simp_all add: dec_digit_def isdigit_def)

text \<open>One part of a quad: at least one digit, and a value of at most 255.\<close>

definition octet :: "string \<Rightarrow> nat \<Rightarrow> bool" where
  "octet p v \<longleftrightarrow> p \<noteq> [] \<and> horner dec_digit 10 0 p = Some v \<and> v \<le> 255"

lemma octet_dec [simp]: "octet (dec n) v \<longleftrightarrow> v = n \<and> n \<le> 255"
  by (auto simp: octet_def)

lemma pton4_loop_digits:
  "horner dec_digit 10 m ds = Some n \<Longrightarrow> n \<le> 255 \<Longrightarrow>
     pton4_loop octets True (xs @ [m]) (ds @ s) = pton4_loop octets True (xs @ [n]) s"
proof (induction ds arbitrary: m)
  case (Cons c ds)
  then obtain d where d: "dec_digit c = Some d" "horner dec_digit 10 (m * 10 + d) ds = Some n"
    by (auto split: option.splits)
  then have "m * 10 + d \<le> n" using horner_mono [OF _ d(2)] by simp
  with Cons d show ?case by simp
qed simp

lemma pton4_loop_octet:
  assumes "octet p v" and "octets < 4"
  shows "pton4_loop octets False (xs @ [0]) (p @ s) = pton4_loop (octets + 1) True (xs @ [v]) s"
proof -
  obtain c ds where p: "p = c # ds" using assms by (cases p) (auto simp: octet_def)
  with assms(1) obtain d where d: "dec_digit c = Some d" "horner dec_digit 10 d ds = Some v" "v \<le> 255"
    by (auto simp: octet_def split: option.splits)
  then have "d \<le> 255" using horner_mono [OF _ d(2)] by simp
  with p d assms pton4_loop_digits [OF d(2,3)] show ?thesis by simp
qed

lemma pton4_loop_dot:
  "octets < 4 \<Longrightarrow> pton4_loop octets True tmp (dot # s) = pton4_loop octets False (tmp @ [0]) s"
  by simp

lemma pton4_quad:
  assumes "octet a A" "octet b B" "octet c C" "octet d D"
  shows "inet_pton4 (a @ dot # b @ dot # c @ dot # d) = Some (map word_of_nat [A, B, C, D])"
  using assms pton4_loop_octet [OF assms(1), of 0 "[]"] pton4_loop_octet [OF assms(2), of 1 "[A]"]
    pton4_loop_octet [OF assms(3), of 2 "[A, B]"] pton4_loop_octet [OF assms(4), of 3 "[A, B, C]" "[]"]
  by (simp add: inet_pton4_def numeral_eq_Suc)

text \<open>What the loop has read when it succeeds: digits, then the end or a dot.\<close>

lemma pton4_loop_inv:
  assumes "pton4_loop octets saw (xs @ [m]) s = Some (octets', tmp')" and "m \<le> 255"
  shows "\<exists>ds n k. horner dec_digit 10 m ds = Some n \<and> n \<le> 255
    \<and> k = (if saw \<or> ds = [] then octets else octets + 1)
    \<and> (s = ds \<and> octets' = k \<and> tmp' = xs @ [n]
       \<or> (\<exists>r. s = ds @ dot # r \<and> (saw \<or> ds \<noteq> []) \<and> k \<noteq> 4
             \<and> pton4_loop k False (xs @ [n] @ [0]) r = Some (octets', tmp')))"
  using assms
proof (induction s arbitrary: octets saw m)
  case Nil
  then show ?case by (intro exI [of _ "[]"] exI [of _ m] exI [of _ octets]) auto
next
  case (Cons ch s)
  show ?case
  proof (cases "dec_digit ch")
    case None
    with Cons.prems have "ch = dot" "saw" "octets \<noteq> 4"
      and "pton4_loop octets False (xs @ [m] @ [0]) s = Some (octets', tmp')"
      by (auto split: if_splits)
    then show ?thesis
      using \<open>m \<le> 255\<close> by (intro exI [of _ "[]"] exI [of _ m] exI [of _ octets]) simp
  next
    case (Some d)
    let ?k = "if saw then octets else octets + 1" and ?m = "m * 10 + d"
    have le: "?m \<le> 255" and loop: "pton4_loop ?k True (xs @ [?m]) s = Some (octets', tmp')"
      using Cons.prems Some by (auto simp: Let_def split: if_splits)
    obtain ds n k where *: "horner dec_digit 10 ?m ds = Some n" "n \<le> 255" "k = ?k"
      "s = ds \<and> octets' = k \<and> tmp' = xs @ [n]
       \<or> (\<exists>r. s = ds @ dot # r \<and> k \<noteq> 4
             \<and> pton4_loop k False (xs @ [n] @ [0]) r = Some (octets', tmp'))"
      using Cons.IH [OF loop le] by auto
    show ?thesis
      by (rule exI [of _ "ch # ds"], rule exI [of _ n], rule exI [of _ k]) (use Some * in auto)
  qed
qed

text \<open>One step of the loop over the parts: the next part and, before four of them, a dot.\<close>

lemma pton4_part:
  assumes "pton4_loop octets False (xs @ [0]) s = Some (octets', tmp')" and "4 \<le> octets'"
    and "octets < 4"
  shows "\<exists>p v. octet p v \<and> (octets = 3 \<and> s = p \<and> octets' = 4 \<and> tmp' = xs @ [v]
     \<or> octets < 3 \<and> (\<exists>r. s = p @ dot # r
           \<and> pton4_loop (octets + 1) False ((xs @ [v]) @ [0]) r = Some (octets', tmp')))"
proof -
  obtain ds n where ds: "horner dec_digit 10 0 ds = Some n" "n \<le> 255" and
    cs: "s = ds \<and> octets' = (if ds = [] then octets else octets + 1) \<and> tmp' = xs @ [n]
       \<or> (\<exists>r. s = ds @ dot # r \<and> ds \<noteq> [] \<and> octets + 1 \<noteq> 4
             \<and> pton4_loop (octets + 1) False (xs @ [n] @ [0]) r = Some (octets', tmp'))"
    using pton4_loop_inv [OF assms(1)] by (auto split: if_splits)
  have "ds \<noteq> []" using cs assms(2,3) by (auto split: if_splits)
  with ds have "octet ds n" by (simp add: octet_def)
  with cs \<open>ds \<noteq> []\<close> assms(2,3) show ?thesis by (intro exI [of _ ds] exI [of _ n]) auto
qed

lemma pton4_quad_only:
  assumes "inet_pton4 s = Some bs"
  shows "\<exists>a A b B c C d D. octet a A \<and> octet b B \<and> octet c C \<and> octet d D
     \<and> s = a @ dot # b @ dot # c @ dot # d \<and> bs = map word_of_nat [A, B, C, D]"
proof -
  obtain octets' tmp' where l0: "pton4_loop 0 False ([] @ [0]) s = Some (octets', tmp')" "4 \<le> octets'"
    and bs: "bs = map word_of_nat (take 4 tmp')"
    using assms by (auto simp: inet_pton4_def split: option.splits if_splits)
  obtain a A s1 where 1: "octet a A" "s = a @ dot # s1"
    "pton4_loop 1 False ([A] @ [0]) s1 = Some (octets', tmp')"
    using pton4_part [OF l0] by auto
  obtain b B s2 where 2: "octet b B" "s1 = b @ dot # s2"
    "pton4_loop 2 False ([A, B] @ [0]) s2 = Some (octets', tmp')"
    using pton4_part [OF 1(3) l0(2)] by (auto simp: numeral_eq_Suc)
  obtain c C s3 where 3: "octet c C" "s2 = c @ dot # s3"
    "pton4_loop 3 False ([A, B, C] @ [0]) s3 = Some (octets', tmp')"
    using pton4_part [OF 2(3) l0(2)] by (auto simp: numeral_eq_Suc)
  obtain d D where 4: "octet d D" "s3 = d" "tmp' = [A, B, C, D]"
    using pton4_part [OF 3(3) l0(2)] by auto
  have "bs = map word_of_nat [A, B, C, D]" using bs 4 by simp
  with 1 2 3 4 show ?thesis by blast
qed

section \<open>What inet\_aton accepts\<close>

text \<open>A part of an address for \<open>inet_aton\<close>: digits, possibly none, with a value modulo \<open>2 ^ 64\<close>.\<close>

definition part_value :: "string \<Rightarrow> nat" where
  "part_value p = (case horner dec_digit 10 0 p of None \<Rightarrow> 0 | Some n \<Rightarrow> n mod 2 ^ 64)"

definition aton_part :: "string \<Rightarrow> bool" where
  "aton_part p \<longleftrightarrow> horner dec_digit 10 0 p \<noteq> None \<and> part_value p \<le> 255"

lemma or_shift: "n < 256 \<Longrightarrow> or (push_bit 8 (word_of_nat A :: 64 word)) (word_of_nat n) = word_of_nat (A * 256 + n)"
proof -
  assume n: "n < 256"
  then have "take_bit 8 n = n" by (simp add: take_bit_eq_mod)
  then have "(word_of_nat n :: 64 word) = take_bit 8 (word_of_nat n)" by (metis take_bit_of_nat)
  then have low: "bit (word_of_nat n :: 64 word) k \<Longrightarrow> k < 8" for k
    by (metis bit_take_bit_iff)
  have "and (push_bit 8 (word_of_nat A :: 64 word)) (word_of_nat n) = 0"
    by (rule bit_eqI) (auto simp: bit_and_iff bit_push_bit_iff dest: low)
  then have "or (push_bit 8 (word_of_nat A :: 64 word)) (word_of_nat n)
      = push_bit 8 (word_of_nat A) + word_of_nat n"
    by (simp add: disjunctive_add_eq_or)
  also have "\<dots> = word_of_nat (A * 256 + n)" by (simp add: push_bit_eq_mult mult.commute)
  finally show ?thesis .
qed

lemma word_unat_id: "word_of_nat (unat w) = (w :: 64 word)"
  by simp

lemma close_part_of_nat:
  "close_part (word_of_nat n) (word_of_nat A) =
     (if n mod 2 ^ 64 \<le> 255 then Some (0, word_of_nat (A * 256 + n mod 2 ^ 64)) else None)"
proof -
  have u: "unat (word_of_nat n :: 64 word) = n mod 2 ^ 64" by (simp add: unat_of_nat)
  then have "(word_of_nat n :: 64 word) > 255 \<longleftrightarrow> n mod 2 ^ 64 > 255"
    by (simp add: word_less_nat_alt)
  moreover have "(word_of_nat n :: 64 word) = word_of_nat (n mod 2 ^ 64)"
    using word_unat_id [of "word_of_nat n"] unfolding u by simp
  ultimately show ?thesis
    using or_shift [of "n mod 2 ^ 64" A] by (simp add: close_part_def)
qed

lemma aton_loop_digits:
  "horner dec_digit 10 a ds = Some n \<Longrightarrow>
     aton_loop dots (word_of_nat a) addr (ds @ s) = aton_loop dots (word_of_nat n) addr s"
proof (induction ds arbitrary: a)
  case (Cons c ds)
  then obtain d where d: "dec_digit c = Some d" "horner dec_digit 10 (a * 10 + d) ds = Some n"
    by (auto split: option.splits)
  have "word_of_nat a * 10 + word_of_nat d = (word_of_nat (a * 10 + d) :: 64 word)" by simp
  with Cons.IH [OF d(2)] d(1) show ?case by (simp del: of_nat_add of_nat_mult)
qed simp

lemma aton_loop_parts:
  "ps \<noteq> [] \<Longrightarrow> dots + length ps \<le> 4 \<Longrightarrow> \<forall>p\<in>set ps. aton_part p \<Longrightarrow>
     aton_loop dots 0 (word_of_nat A) (join dot ps) =
       Some (dots + length ps - 1, word_of_nat (foldl (\<lambda>A p. A * 256 + part_value p) A ps))"
proof (induction ps arbitrary: dots A)
  case (Cons p ps)
  then obtain n where n: "horner dec_digit 10 0 p = Some n" "n mod 2 ^ 64 \<le> 255" "part_value p = n mod 2 ^ 64"
    by (auto simp: aton_part_def part_value_def split: option.splits)
  show ?case
  proof (cases "ps = []")
    case True
    with n aton_loop_digits [OF n(1), of dots "word_of_nat A" "[]"] close_part_of_nat [of n A]
    show ?thesis by simp
  next
    case False
    with Cons have IH: "aton_loop (dots + 1) 0 (word_of_nat (A * 256 + part_value p)) (join dot ps) =
       Some (dots + 1 + length ps - 1,
             word_of_nat (foldl (\<lambda>A p. A * 256 + part_value p) (A * 256 + part_value p) ps))"
      by (intro Cons.IH) auto
    have "dots + 1 \<le> 3" using False Cons.prems by (cases ps) auto
    then show ?thesis
      using n IH False aton_loop_digits [OF n(1), of dots "word_of_nat A" "dot # join dot ps"]
        close_part_of_nat [of n A]
      by (simp add: join_Cons del: of_nat_add of_nat_mult)
  qed
qed simp

lemma aton_loop_only:
  "aton_loop dots (word_of_nat a) addr s = Some res \<Longrightarrow> dots \<le> 3 \<Longrightarrow>
     \<exists>ds n ps. s = join dot (ds # ps) \<and> horner dec_digit 10 a ds = Some n \<and> n mod 2 ^ 64 \<le> 255
       \<and> (\<forall>p\<in>set ps. aton_part p) \<and> dots + length ps \<le> 3"
proof (induction s arbitrary: dots a addr)
  case Nil
  then have "n mod 2 ^ 64 \<le> 255" if "n = a" for n
    using close_part_of_nat [of a "unat addr"] that by (auto split: if_splits)
  with Nil show ?case
    by (intro exI [of _ "[]"] exI [of _ a]) (auto intro: exI [of _ "[] :: string list"])
next
  case (Cons c s)
  show ?case
  proof (cases "dec_digit c")
    case None
    with Cons.prems have c: "c = dot" "dots + 1 \<le> 3" by (auto split: if_splits)
    with Cons.prems None have "close_part (word_of_nat a) addr \<noteq> None" by (auto split: option.splits)
    then have a: "a mod 2 ^ 64 \<le> 255"
      using close_part_of_nat [of a "unat addr"] by (auto split: if_splits)
    from c Cons.prems None obtain addr' where "aton_loop (dots + 1) (word_of_nat 0) addr' s = Some res"
      by (auto simp: close_part_def split: option.splits if_splits)
    from Cons.IH [OF this c(2)] obtain ds n ps where *: "s = join dot (ds # ps)"
      "horner dec_digit 10 0 ds = Some n" "n mod 2 ^ 64 \<le> 255" "\<forall>p\<in>set ps. aton_part p"
      "dots + 1 + length ps \<le> 3" by blast
    then have "aton_part ds" by (simp add: aton_part_def part_value_def)
    with * a c show ?thesis
      by (intro exI [of _ "[]"] exI [of _ a] exI [of _ "ds # ps"]) auto
  next
    case (Some d)
    have "word_of_nat a * 10 + word_of_nat d = (word_of_nat (a * 10 + d) :: 64 word)" by simp
    with Some Cons.prems have "aton_loop dots (word_of_nat (a * 10 + d)) addr s = Some res"
      by (simp del: of_nat_add of_nat_mult)
    from Cons.IH [OF this Cons.prems(2)] obtain ds n ps where *: "s = join dot (ds # ps)"
      "horner dec_digit 10 (a * 10 + d) ds = Some n" "n mod 2 ^ 64 \<le> 255"
      "\<forall>p\<in>set ps. aton_part p" "dots + length ps \<le> 3" by blast
    have "c # s = join dot ((c # ds) # ps)" using * by (cases ps) auto
    with * Some show ?thesis by (intro exI [of _ "c # ds"] exI [of _ n] exI [of _ ps]) simp
  qed
qed

lemma be32_digits:
  assumes "a \<le> 255" "b \<le> 255" "c \<le> 255" "d \<le> 255"
  shows "be32 (word_of_nat (((a * 256 + b) * 256 + c) * 256 + d)) = map word_of_nat [a, b, c, d]"
proof -
  let ?n = "((a * 256 + b) * 256 + c) * 256 + d"
  have "unat (word_of_nat ?n :: 32 word) = ?n"
    unfolding unat_of_nat using assms by simp
  moreover have "?n div 256 ^ 3 mod 256 = a" "?n div 256 ^ 2 mod 256 = b"
    "?n div 256 ^ 1 mod 256 = c" "?n div 256 ^ 0 mod 256 = d"
  proof -
    have s: "(x * 256 + y) div 256 = x" "(x * 256 + y) mod 256 = y" if "y \<le> 255" for x y :: nat
      using that by simp_all
    have p: "(256::nat) ^ 3 = 256 * (256 * 256)" "(256::nat) ^ 2 = 256 * 256" "(256::nat) ^ 1 = 256"
      "(256::nat) ^ 0 = 1" by simp_all
    show "?n div 256 ^ 3 mod 256 = a" "?n div 256 ^ 2 mod 256 = b"
      "?n div 256 ^ 1 mod 256 = c" "?n div 256 ^ 0 mod 256 = d"
      unfolding p div_mult2_eq s [OF assms(4)] s [OF assms(3)] s [OF assms(2)] using assms(1)
      by (simp_all only: s [OF assms(4)] s [OF assms(3)] s [OF assms(2)] div_by_1) simp
  qed
  ultimately show ?thesis unfolding be32_def by (simp del: of_nat_add of_nat_mult)
qed

lemma push_bit_of_nat_word: "push_bit k (word_of_nat n :: 'a::len word) = word_of_nat (n * 2 ^ k)"
  by (simp add: push_bit_eq_mult)

lemma ucast_of_nat_64: "ucast (word_of_nat n :: 64 word) = (word_of_nat n :: 32 word)"
  by (simp add: unsigned_of_nat word_of_nat_eq_iff)

lemma replicate_3: "replicate 3 x = [x, x, x]"
  by (simp add: numeral_eq_Suc)

lemma be32_parts:
  assumes "ps \<noteq> []" "length ps \<le> 4" "\<forall>p\<in>set ps. aton_part p" "dots = length ps - 1"
    and "addr = (word_of_nat (foldl (\<lambda>A p. A * 256 + part_value p) 0 ps) :: 64 word)"
  shows "be32 (ucast (if dots < 3 then push_bit (8 * (3 - dots)) addr else addr))
    = take 4 (map (\<lambda>p. word_of_nat (part_value p)) ps @ replicate 3 0)"
proof -
  consider a where "ps = [a]" | a b where "ps = [a, b]" | a b c where "ps = [a, b, c]"
    | a b c d where "ps = [a, b, c, d]"
    using assms(1,2) by (cases ps rule: remdups_adj.cases; cases "tl (tl ps)"; cases "tl (tl (tl ps))") auto
  then show ?thesis
  proof cases
    case (1 a)
    then have "part_value a \<le> 255" using assms(3) by (simp add: aton_part_def)
    with 1 be32_digits [of "part_value a" 0 0 0] show ?thesis
      unfolding assms(4,5) by (simp add: push_bit_of_nat_word ucast_of_nat_64 ac_simps replicate_3 del: of_nat_mult of_nat_add)
  next
    case (2 a b)
    then have "part_value a \<le> 255" "part_value b \<le> 255" using assms(3) by (simp_all add: aton_part_def)
    with 2 be32_digits [of "part_value a" "part_value b" 0 0] show ?thesis
      unfolding assms(4,5) by (simp add: push_bit_of_nat_word ucast_of_nat_64 ac_simps replicate_3 del: of_nat_mult of_nat_add)
  next
    case (3 a b c)
    then have "part_value a \<le> 255" "part_value b \<le> 255" "part_value c \<le> 255"
      using assms(3) by (simp_all add: aton_part_def)
    with 3 be32_digits [of "part_value a" "part_value b" "part_value c" 0] show ?thesis
      unfolding assms(4,5) by (simp add: push_bit_of_nat_word ucast_of_nat_64 ac_simps replicate_3 del: of_nat_mult of_nat_add)
  next
    case (4 a b c d)
    then have "part_value a \<le> 255" "part_value b \<le> 255" "part_value c \<le> 255" "part_value d \<le> 255"
      using assms(3) by (simp_all add: aton_part_def)
    with 4 be32_digits [of "part_value a" "part_value b" "part_value c" "part_value d"] show ?thesis
      unfolding assms(4,5) by (simp add: push_bit_of_nat_word ucast_of_nat_64 ac_simps replicate_3 del: of_nat_mult of_nat_add)
  qed
qed

lemma inet_aton_join:
  assumes "ps \<noteq> []" "length ps \<le> 4" "\<forall>p\<in>set ps. aton_part p"
  shows "inet_aton (join dot ps) = Some (take 4 (map (\<lambda>p. word_of_nat (part_value p)) ps @ replicate 3 0))"
proof -
  have "aton_loop 0 0 0 (join dot ps) = Some (length ps - 1,
      word_of_nat (foldl (\<lambda>A p. A * 256 + part_value p) 0 ps))"
    using aton_loop_parts [of ps 0 0] assms by simp
  then show ?thesis
    unfolding inet_aton_def by (simp only: option.case prod.case be32_parts [OF assms refl refl])
qed

lemma inet_aton_only:
  assumes "inet_aton s = Some bs"
  shows "\<exists>ps. ps \<noteq> [] \<and> length ps \<le> 4 \<and> s = join dot ps \<and> (\<forall>p\<in>set ps. aton_part p)"
proof -
  obtain res where "aton_loop 0 (word_of_nat 0) 0 s = Some res"
    using assms by (auto simp: inet_aton_def split: option.splits)
  from aton_loop_only [OF this] obtain ds n ps where *: "s = join dot (ds # ps)"
    "horner dec_digit 10 0 ds = Some n" "n mod 2 ^ 64 \<le> 255" "\<forall>p\<in>set ps. aton_part p" "length ps \<le> 3"
    by auto
  then have "aton_part ds" by (simp add: aton_part_def part_value_def)
  with * show ?thesis by (intro exI [of _ "ds # ps"]) auto
qed

lemma byte_le_255: "unat (x::byte) \<le> 255"
  using unat_lt_256 [of x] by linarith

lemma pton4_quad_text: "length bs = 4 \<Longrightarrow> inet_pton4 (quad_text bs) = Some bs"
  by (elim length4E) (simp add: quad_text_simp pton4_quad byte_le_255)

lemma aton_quad_text: "length bs = 4 \<Longrightarrow> inet_aton (quad_text bs) = Some bs"
proof (elim length4E)
  fix a b c d
  assume "bs = [a, b, c, d]"
  moreover have "aton_part (dec (unat x)) \<and> part_value (dec (unat x)) = unat x" for x :: byte
    using byte_le_255 [of x] by (simp add: aton_part_def part_value_def)
  ultimately show "inet_aton (quad_text bs) = Some bs"
    using inet_aton_join [of "[dec (unat a), dec (unat b), dec (unat c), dec (unat d)]"]
    by (simp add: quad_text_simp)
qed

interpretation quad: addr_codec inet_pton4 quad_text 4 16
  by unfold_locales (simp_all add: length_quad_text pton4_quad_text)

section \<open>Properties\<close>

text \<open>
  C40: \<open>inet_pton4\<close> accepts exactly the dotted quads: four parts of at least one decimal digit
  each and of value at most 255, separated by single dots, and nothing before, between or after
  them; the result is the four values.
\<close>

theorem inet_pton4_language:
  "inet_pton4 s = Some bs \<longleftrightarrow>
     (\<exists>a A b B c C d D. octet a A \<and> octet b B \<and> octet c C \<and> octet d D
        \<and> s = a @ dot # b @ dot # c @ dot # d \<and> bs = map word_of_nat [A, B, C, D])"
  using pton4_quad pton4_quad_only by blast

text \<open>
  \<open>inet_aton\<close> accepts up to four parts of decimal digits, separated by dots, where a part may
  be empty (so \<open>""\<close> and \<open>"..."\<close> are addresses) and only its value modulo \<open>2 ^ 64\<close> is compared
  with 255 (so \<open>"18446744073709551617"\<close> is the part 1); missing parts are zero bytes at the end,
  not in front of the last part.
\<close>

theorem inet_aton_language:
  "inet_aton s = Some bs \<longleftrightarrow>
     (\<exists>ps. ps \<noteq> [] \<and> length ps \<le> 4 \<and> s = join dot ps
        \<and> \<not> (\<exists>p. p \<in> set ps \<and> \<not> aton_part p)
        \<and> bs = take 4 (map (\<lambda>p. word_of_nat (part_value p)) ps @ replicate 3 0))"
proof
  assume s: "inet_aton s = Some bs"
  from inet_aton_only [OF this] obtain ps where ps: "ps \<noteq> []" "length ps \<le> 4" "s = join dot ps"
    "\<forall>p\<in>set ps. aton_part p" by blast
  with s inet_aton_join [OF ps(1,2,4)]
  have "bs = take 4 (map (\<lambda>p. word_of_nat (part_value p)) ps @ replicate 3 0)" by simp
  with ps show "\<exists>ps. ps \<noteq> [] \<and> length ps \<le> 4 \<and> s = join dot ps
        \<and> \<not> (\<exists>p. p \<in> set ps \<and> \<not> aton_part p)
        \<and> bs = take 4 (map (\<lambda>p. word_of_nat (part_value p)) ps @ replicate 3 0)" by blast
qed (use inet_aton_join in blast)

text \<open>
  Printing an IPv4 address and parsing it again gives the address, with \<open>inet_pton4\<close> and with
  \<open>inet_aton\<close>. The two printers differ in their check of the buffer: \<open>inet_ntop\<close> of the
  IPv4-only library refuses exactly the buffers without room for the NUL, \<open>inet_ntop4\<close> lets a
  buffer of exactly \<open>strlen\<close> characters pass and then stores the NUL behind it.
\<close>

theorem ipv4_text_roundtrip:
  assumes "length bs = 4"
  shows "inet_pton4 (quad_text bs) = Some bs \<and> inet_aton (quad_text bs) = Some bs
    \<and> inet_ntop_ipv4 AF_INET bs sz =
        (if sz \<le> length (quad_text bs) then Inl ENOSPC else Inr (quad_text bs))
    \<and> inet_ntop4 bs sz =
        (if sz < length (quad_text bs) then Ok None
         else if sz = length (quad_text bs) then Undefined else Ok (Some (quad_text bs)))"
  using assms length_quad_text [OF assms] pton4_quad_text aton_quad_text
  by (auto simp: inet_ntop_ipv4_def inet_ntop4_def sprintf_into_def)

theorem ipv4_text_roundtrip_witness:
  "inet_ntop4 [127, 0, 0, 1] 9 = Undefined \<and> inet_ntop_ipv4 AF_INET [127, 0, 0, 1] 9 = Inl ENOSPC
   \<and> inet_pton4 ''127.0.0.1'' = Some [127, 0, 0, 1]"
proof -
  have q: "quad_text [127, 0, 0, 1] = ''127.0.0.1''" by code_simp
  show ?thesis using ipv4_text_roundtrip [of "[127, 0, 0, 1]" 9] unfolding q by simp
qed

end
