(* ===== verification/Inet6.thy ===== *)
theory Inet6
  imports Inet4
begin

text \<open>
  IPv6 addresses as text: \<open>inet_pton6\<close> with the dispatcher \<open>inet_pton\<close>
  (\<^verbatim>\<open>unpv13e/libfree/inet_pton.c\<close>) and \<open>inet_ntop6\<close> with \<open>inet_ntop\<close>
  (\<^verbatim>\<open>unpv13e/libfree/inet_ntop.c\<close>).
\<close>

abbreviation colon :: char where
  "colon \<equiv> CHR '':''"

section \<open>Parsing\<close>

text \<open>
  The state of the loop: the array \<open>tmp\<close> of 16 bytes, the indices \<open>tp\<close> and \<open>colonp\<close> into it, the
  text from \<open>curtok\<close> on, \<open>saw_xdigit\<close> and \<open>val\<close>.
\<close>

record pton6 =
  tmp6 :: "byte list"
  tp6 :: nat
  colonp :: "nat option"
  curtok :: string
  saw_xdigit :: bool
  val6 :: nat

text \<open>\<open>*tp++ = (val >> 8) & 0xff; *tp++ = val & 0xff\<close>, \<open>None\<close> when the two bytes do not fit.\<close>

definition put16 :: "pton6 \<Rightarrow> pton6 option" where
  "put16 s =
     (if tp6 s + 2 > 16 then None
      else Some (s\<lparr>tmp6 := (tmp6 s)[tp6 s := word_of_nat (val6 s div 256 mod 256),
                              Suc (tp6 s) := word_of_nat (val6 s mod 256)],
                   tp6 := tp6 s + 2\<rparr>))"

definition put_quad :: "byte list \<Rightarrow> pton6 \<Rightarrow> pton6" where
  "put_quad q s = s\<lparr>tmp6 := take (tp6 s) (tmp6 s) @ q @ drop (tp6 s + 4) (tmp6 s), tp6 := tp6 s + 4,
                    saw_xdigit := False\<rparr>"

fun pton6_loop :: "pton6 \<Rightarrow> string \<Rightarrow> pton6 option" where
  "pton6_loop s [] = Some s"
| "pton6_loop s (ch # src) =
     (case hex_digit ch of
        Some d \<Rightarrow>
          let v = val6 s * 16 + d in
          if v > 65535 then None else pton6_loop (s\<lparr>val6 := v, saw_xdigit := True\<rparr>) src
      | None \<Rightarrow>
          if ch = colon then
            let s1 = s\<lparr>curtok := src\<rparr> in
            if \<not> saw_xdigit s1 then
              (if colonp s1 \<noteq> None then None else pton6_loop (s1\<lparr>colonp := Some (tp6 s1)\<rparr>) src)
            else
              (case put16 s1 of
                 None \<Rightarrow> None
               | Some s2 \<Rightarrow> pton6_loop (s2\<lparr>saw_xdigit := False, val6 := 0\<rparr>) src)
          else if ch = dot \<and> tp6 s + 4 \<le> 16 then
            (case inet_pton4 (curtok s) of
               None \<Rightarrow> None
             | Some q \<Rightarrow> Some (put_quad q s))
          else None)"

text \<open>The loop that moves the bytes behind a \<open>::\<close> to the end of the array, by hand.\<close>

fun shift_steps :: "nat \<Rightarrow> nat \<Rightarrow> nat \<Rightarrow> byte list \<Rightarrow> byte list" where
  "shift_steps c n 0 t = t"
| "shift_steps c n (Suc k) t =
     (let t' = shift_steps c n k t; i = Suc k in (t'[16 - i := t' ! (c + n - i)])[c + n - i := 0])"

definition shift_loop :: "nat \<Rightarrow> nat \<Rightarrow> byte list \<Rightarrow> byte list" where
  "shift_loop c n t = shift_steps c n n t"

definition pton6_finish :: "pton6 \<Rightarrow> byte list option" where
  "pton6_finish s0 =
     (case (if saw_xdigit s0 then put16 s0 else Some s0) of
        None \<Rightarrow> None
      | Some s \<Rightarrow>
          (case colonp s of
             None \<Rightarrow> if tp6 s \<noteq> 16 then None else Some (tmp6 s)
           | Some c \<Rightarrow> Some (shift_loop c (tp6 s - c) (tmp6 s))))"

definition pton6_start :: "string \<Rightarrow> pton6" where
  "pton6_start src =
     \<lparr>tmp6 = replicate 16 0, tp6 = 0, colonp = None, curtok = src, saw_xdigit = False, val6 = 0\<rparr>"

definition inet_pton6 :: "string \<Rightarrow> byte list option" where
  "inet_pton6 src0 =
     (case (if src0 \<noteq> [] \<and> hd src0 = colon
            then (if tl src0 \<noteq> [] \<and> hd (tl src0) = colon then Some (tl src0) else None)
            else Some src0) of
        None \<Rightarrow> None
      | Some src \<Rightarrow>
          (case pton6_loop (pton6_start src) src of
             None \<Rightarrow> None
           | Some s \<Rightarrow> pton6_finish s))"

definition AF_INET6 :: int where "AF_INET6 = 30"

definition inet_pton :: "int \<Rightarrow> string \<Rightarrow> pton_result" where
  "inet_pton af src =
     (let result = (\<lambda>r. case r of None \<Rightarrow> Invalid | Some dst \<Rightarrow> Valid dst) in
      if af = AF_INET then result (inet_pton4 src)
      else if af = AF_INET6 then result (inet_pton6 src)
      else Failed EAFNOSUPPORT)"

section \<open>Printing\<close>

text \<open>The array \<open>words\<close>, and the longest run of zeros in it; a run_base of \<open>-1\<close> is \<open>None\<close>.\<close>

definition words_of :: "byte list \<Rightarrow> nat list" where
  "words_of src = map (\<lambda>i. unat (src ! (2 * i)) * 256 + unat (src ! (2 * i + 1))) [0..<8]"

record run =
  run_base :: nat
  run_len :: nat

definition better :: "run option \<Rightarrow> run option \<Rightarrow> run option" where
  "better best cur =
     (case cur of
        None \<Rightarrow> best
      | Some c \<Rightarrow> (case best of None \<Rightarrow> cur | Some b \<Rightarrow> if run_len c > run_len b then cur else best))"

fun run_loop :: "nat list \<Rightarrow> nat list \<Rightarrow> run option \<Rightarrow> run option \<Rightarrow> run option" where
  "run_loop ws [] best cur = better best cur"
| "run_loop ws (i # is) best cur =
     (if ws ! i = 0 then
        run_loop ws is best
          (Some (case cur of None \<Rightarrow> \<lparr>run_base = i, run_len = 1\<rparr> | Some c \<Rightarrow> c\<lparr>run_len := run_len c + 1\<rparr>))
      else run_loop ws is (better best cur) None)"

definition best_run :: "nat list \<Rightarrow> run option" where
  "best_run ws =
     (case run_loop ws [0..<8] None None of
        None \<Rightarrow> None
      | Some b \<Rightarrow> if run_len b < 2 then None else Some b)"

text \<open>
  The loop that writes the text, from word \<open>i\<close> on. The embedded IPv4 address goes through
  \<open>inet_ntop4\<close> with what is left of the array of 46, which is at least 16 there.
\<close>

definition in_run :: "run option \<Rightarrow> nat \<Rightarrow> bool" where
  "in_run best i = (case best of None \<Rightarrow> False | Some b \<Rightarrow> run_base b \<le> i \<and> i < run_base b + run_len b)"

definition embeds_ipv4 :: "nat list \<Rightarrow> run option \<Rightarrow> bool" where
  "embeds_ipv4 ws best =
     (case best of
        None \<Rightarrow> False
      | Some b \<Rightarrow> run_base b = 0 \<and> (run_len b = 6 \<or> run_len b = 5 \<and> ws ! 5 = 65535))"

fun ntop6_loop :: "byte list \<Rightarrow> nat list \<Rightarrow> run option \<Rightarrow> nat list \<Rightarrow> string \<Rightarrow> string option outcome" where
  "ntop6_loop src ws best [] text = Ok (Some text)"
| "ntop6_loop src ws best (i # is) text =
     (if in_run best i then
        ntop6_loop src ws best is (if best \<noteq> None \<and> i = run_base (the best) then text @ [colon] else text)
      else
        let text1 = (if i \<noteq> 0 then text @ [colon] else text) in
        if i = 6 \<and> embeds_ipv4 ws best then
          bind_outcome (inet_ntop4 (drop 12 src) (46 - length text1)) (\<lambda>r.
            case r of None \<Rightarrow> Ok None | Some q \<Rightarrow> Ok (Some (text1 @ q)))
        else ntop6_loop src ws best is (text1 @ hex (ws ! i)))"

definition inet_ntop6 :: "byte list \<Rightarrow> nat \<Rightarrow> string option outcome" where
  "inet_ntop6 src sz =
     (let ws = words_of src; best = best_run ws in
      bind_outcome (ntop6_loop src ws best [0..<8] []) (\<lambda>r.
      case r of
        None \<Rightarrow> Ok None
      | Some text0 \<Rightarrow>
          let text = (if best \<noteq> None \<and> run_base (the best) + run_len (the best) = 8
                      then text0 @ [colon] else text0) in
          bind_outcome (sprintf_into 46 text) (\<lambda>tmp.
            if length tmp + 1 > sz then Ok None else Ok (Some tmp))))"

definition inet_ntop :: "int \<Rightarrow> byte list \<Rightarrow> nat \<Rightarrow> (errno + string) outcome" where
  "inet_ntop af src sz =
     (let result = (\<lambda>r. case r of None \<Rightarrow> Inl ENOSPC | Some dst \<Rightarrow> Inr dst) in
      if af = AF_INET then bind_outcome (inet_ntop4 src sz) (\<lambda>r. Ok (result r))
      else if af = AF_INET6 then bind_outcome (inet_ntop6 src sz) (\<lambda>r. Ok (result r))
      else Ok (Inl EAFNOSUPPORT))"

section \<open>The hand-made shift\<close>

lemma length_shift_steps [simp]: "length (shift_steps c n k t) = length t"
  by (induction k) (simp_all add: Let_def)

lemma shift_steps_nth:
  assumes "length t = 16" and "c + n \<le> 16"
  shows "k \<le> n \<Longrightarrow> j < 16 \<Longrightarrow> shift_steps c n k t ! j =
    (if c + n = 16 then (if 16 - k \<le> j then 0 else t ! j)
     else if 16 - k \<le> j then t ! (j - (16 - (c + n)))
     else if c + n - k \<le> j \<and> j < c + n then 0 else t ! j)"
proof (induction k arbitrary: j)
  case 0
  with assms show ?case by auto
next
  case (Suc k)
  have k: "k \<le> n" using Suc.prems by simp
  have src: "shift_steps c n k t ! (c + n - Suc k) =
        (if c + n = 16 then t ! (16 - Suc k) else t ! (c + n - Suc k))"
    using Suc.IH [of "c + n - Suc k"] Suc.prems assms(2) k by auto
  show ?case
  proof (cases "c + n = 16")
    case True
    then show ?thesis
      using assms src Suc.IH [of j] Suc.prems k by (auto simp: Let_def nth_list_update)
  next
    case False
    then have lt: "c + n - Suc k < 16 - Suc k" using assms(2) Suc.prems by simp
    consider "j = 16 - Suc k" | "j = c + n - Suc k" "j \<noteq> 16 - Suc k"
      | "j \<noteq> c + n - Suc k" "j \<noteq> 16 - Suc k" by blast
    then show ?thesis
    proof cases
      case 1
      then have "j - (16 - (c + n)) = c + n - Suc k" using Suc.prems assms(2) by simp
      with 1 False lt src assms(1) Suc.prems show ?thesis by (simp add: Let_def)
    next
      case 2
      with False lt assms Suc.prems show ?thesis by (simp add: Let_def)
    next
      case 3
      have "shift_steps c n (Suc k) t ! j = shift_steps c n k t ! j"
        using 3 by (simp add: Let_def)
      moreover have "16 - Suc k \<le> j \<longleftrightarrow> 16 - k \<le> j" using 3 Suc.prems by auto
      moreover have "c + n - Suc k \<le> j \<longleftrightarrow> c + n - k \<le> j" using 3 Suc.prems assms(2) by auto
      ultimately show ?thesis using Suc.IH [of j] Suc.prems k False by simp
    qed
  qed
qed

lemma shift_loop_result:
  assumes "length B \<le> 16" and "c \<le> length B"
  shows "shift_loop c (length B - c) (B @ replicate (16 - length B) 0) =
    take c B @ (if length B = 16 then replicate (16 - c) 0
                else replicate (16 - length B) 0 @ drop c B)" (is "?l = ?r")
proof (rule nth_equalityI)
  let ?t = "B @ replicate (16 - length B) (0::byte)"
  have t: "length ?t = 16" using assms by simp
  show len: "length ?l = length ?r" using assms by (simp add: shift_loop_def)
  fix j assume "j < length ?l"
  then have "j < 16" using assms by (simp add: shift_loop_def)
  with shift_steps_nth [OF t, of c "length B - c" "length B - c" j] assms show "?l ! j = ?r ! j"
    by (auto simp: shift_loop_def nth_append min_def)
qed

section \<open>Groups\<close>

text \<open>The state with the bytes \<open>B\<close> stored and zeros behind them.\<close>

definition pstate :: "byte list \<Rightarrow> nat option \<Rightarrow> string \<Rightarrow> bool \<Rightarrow> nat \<Rightarrow> pton6" where
  "pstate B c ct saw v = \<lparr>tmp6 = B @ replicate (16 - length B) 0, tp6 = length B, colonp = c,
     curtok = ct, saw_xdigit = saw, val6 = v\<rparr>"

definition bytes16 :: "nat \<Rightarrow> byte list" where
  "bytes16 n = [word_of_nat (n div 256 mod 256), word_of_nat (n mod 256)]"

abbreviation groups :: "nat list \<Rightarrow> byte list" where
  "groups ns \<equiv> concat (map bytes16 ns)"

lemma length_bytes16 [simp]: "length (bytes16 n) = 2"
  by (simp add: bytes16_def)

lemma length_groups [simp]: "length (groups ns) = 2 * length ns"
  by (induction ns) auto

lemma pton6_start_pstate: "pton6_start src = pstate [] None src False 0"
  by (simp add: pton6_start_def pstate_def)

lemma pstate_simps [simp]:
  "tp6 (pstate B c ct saw v) = length B" "colonp (pstate B c ct saw v) = c"
  "curtok (pstate B c ct saw v) = ct" "saw_xdigit (pstate B c ct saw v) = saw"
  "val6 (pstate B c ct saw v) = v" "tmp6 (pstate B c ct saw v) = B @ replicate (16 - length B) 0"
  "(pstate B c ct saw v)\<lparr>val6 := v'\<rparr> = pstate B c ct saw v'"
  "(pstate B c ct saw v)\<lparr>saw_xdigit := saw'\<rparr> = pstate B c ct saw' v"
  "(pstate B c ct saw v)\<lparr>curtok := ct'\<rparr> = pstate B c ct' saw v"
  "(pstate B c ct saw v)\<lparr>colonp := c'\<rparr> = pstate B c' ct saw v"
  by (simp_all add: pstate_def)

lemma put16_pstate:
  "put16 (pstate B c ct saw v) =
     (if length B + 2 \<le> 16 then Some (pstate (B @ bytes16 v) c ct saw v) else None)"
proof -
  have "(B @ replicate k (0::byte))[length B := x, Suc (length B) := y] = B @ [x, y] @ replicate (k - 2) 0"
    if two: "2 \<le> k" for k x y
  proof -
    obtain m where "k = Suc (Suc m)" using le_Suc_ex [OF two] by auto
    then show ?thesis by (simp add: list_update_append)
  qed
  from this [of "16 - length B" "word_of_nat (v div 256 mod 256)" "word_of_nat (v mod 256)"]
  show ?thesis
    by (auto simp: put16_def pstate_def bytes16_def)
qed

lemma put_quad_pstate:
  "length q = 4 \<Longrightarrow> length B + 4 \<le> 16 \<Longrightarrow>
     put_quad q (pstate B c ct saw v) = pstate (B @ q) c ct False v"
  by (simp add: put_quad_def pstate_def)

lemma hex_digit_colon [simp]: "hex_digit colon = None" "hex_digit dot = None" "colon \<noteq> dot"
  by (simp_all add: hex_digit_def)

lemma pton6_digits:
  "horner hex_digit 16 v ds = Some n \<Longrightarrow> n \<le> 65535 \<Longrightarrow>
     pton6_loop (pstate B c ct saw v) (ds @ s) = pton6_loop (pstate B c ct (saw \<or> ds \<noteq> []) n) s"
proof (induction ds arbitrary: v saw)
  case (Cons x ds)
  then obtain d where d: "hex_digit x = Some d" "horner hex_digit 16 (v * 16 + d) ds = Some n"
    by (auto split: option.splits)
  then have "v * 16 + d \<le> n" using horner_mono [OF _ d(2)] by simp
  with Cons d show ?case by simp
qed simp

lemma pton6_hex:
  "n \<le> 65535 \<Longrightarrow>
     pton6_loop (pstate B c ct False 0) (hex n @ s) = pton6_loop (pstate B c ct True n) s"
  by (subst pton6_digits [of _ _ n]) simp_all

text \<open>Groups that are each followed by a colon.\<close>

abbreviation colon_groups :: "nat list \<Rightarrow> string" where
  "colon_groups ns \<equiv> concat (map (\<lambda>n. hex n @ [colon]) ns)"

lemma pton6_colon_groups:
  "\<forall>n\<in>set ns. n \<le> 65535 \<Longrightarrow> length B + 2 * length ns \<le> 16 \<Longrightarrow>
     pton6_loop (pstate B c ct False 0) (colon_groups ns @ s) =
     pton6_loop (pstate (B @ groups ns) c (if ns = [] then ct else s) False 0) s"
proof (induction ns arbitrary: B ct)
  case (Cons n ns)
  with Cons.IH [of "B @ bytes16 n" "colon_groups ns @ s"] show ?case
    by (simp add: pton6_hex put16_pstate)
qed simp

lemma colon_groups_join: "ns \<noteq> [] \<Longrightarrow> colon_groups ns = join colon (map hex ns) @ [colon]"
  by (induction ns rule: induct_list012) auto

lemma join_butlast: "ns \<noteq> [] \<Longrightarrow> join colon (map hex ns) = colon_groups (butlast ns) @ hex (last ns)"
  by (induction ns rule: induct_list012) auto

lemma pton6_join:
  assumes "ns \<noteq> []" "\<forall>n\<in>set ns. n \<le> 65535" "length B + 2 * length ns \<le> 16"
  shows "\<exists>ct'. pton6_loop (pstate B c ct False 0) (join colon (map hex ns)) =
    Some (pstate (B @ groups (butlast ns)) c ct' True (last ns))"
proof -
  have b: "\<forall>n\<in>set (butlast ns). n \<le> 65535" "length B + 2 * length (butlast ns) \<le> 16" "last ns \<le> 65535"
    using assms by (auto dest: in_set_butlastD)
  have "pton6_loop (pstate B c ct False 0) (join colon (map hex ns)) =
    pton6_loop (pstate (B @ groups (butlast ns)) c (if butlast ns = [] then ct else hex (last ns)) False 0)
      (hex (last ns) @ [])"
    using pton6_colon_groups [OF b(1,2)] assms(1) by (simp add: join_butlast)
  also have "\<dots> = Some (pstate (B @ groups (butlast ns)) c
      (if butlast ns = [] then ct else hex (last ns)) True (last ns))"
    by (subst pton6_hex) (use b in simp_all)
  finally show ?thesis by blast
qed

lemma groups_butlast: "ns \<noteq> [] \<Longrightarrow> groups (butlast ns) @ bytes16 (last ns) = groups ns"
  by (induction ns rule: induct_list012) auto

text \<open>Finishing after the stored bytes \<open>B\<close>.\<close>

definition spread :: "nat option \<Rightarrow> byte list \<Rightarrow> byte list option" where
  "spread c B =
     (case c of
        None \<Rightarrow> if length B = 16 then Some B else None
      | Some k \<Rightarrow> Some (take k B @ (if length B = 16 then replicate (16 - k) 0
                                   else replicate (16 - length B) 0 @ drop k B)))"

lemma spread_shift:
  "length B \<le> 16 \<Longrightarrow> k \<le> length B \<Longrightarrow>
     spread (Some k) B = Some (shift_loop k (length B - k) (B @ replicate (16 - length B) 0))"
  by (simp add: spread_def shift_loop_result)

lemma spread_None: "spread None B = (if length B = 16 then Some B else None)"
  by (simp add: spread_def)

lemma pton6_finish_False:
  assumes "length B \<le> 16" "\<And>k. c = Some k \<Longrightarrow> k \<le> length B"
  shows "pton6_finish (pstate B c ct False v) = spread c B"
  using assms by (cases c) (simp_all add: pton6_finish_def spread_shift spread_None)

lemma pton6_finish_True:
  assumes "length B + 2 \<le> 16" "\<And>k. c = Some k \<Longrightarrow> k \<le> length B"
  shows "pton6_finish (pstate B c ct True v) = spread c (B @ bytes16 v)"
proof (cases c)
  case (Some k)
  with assms have "k \<le> length (B @ bytes16 v)" "length (B @ bytes16 v) \<le> 16" by auto
  with Some assms(1) show ?thesis
    by (simp add: pton6_finish_def put16_pstate spread_shift del: length_append)
qed (use assms in \<open>simp add: pton6_finish_def put16_pstate spread_None\<close>)

lemma pton6_rest:
  assumes "\<forall>n\<in>set ns. n \<le> 65535" "length B + 2 * length ns \<le> 16" "\<And>k. c = Some k \<Longrightarrow> k \<le> length B"
  shows "(case pton6_loop (pstate B c ct False 0) (join colon (map hex ns)) of
      None \<Rightarrow> None | Some s \<Rightarrow> pton6_finish s) = spread c (B @ groups ns)"
proof (cases "ns = []")
  case True
  then show ?thesis using assms by (simp add: pton6_finish_False)
next
  case False
  then obtain ct' where *: "pton6_loop (pstate B c ct False 0) (join colon (map hex ns)) =
    Some (pstate (B @ groups (butlast ns)) c ct' True (last ns))"
    using pton6_join assms(1,2) by blast
  have "pton6_finish (pstate (B @ groups (butlast ns)) c ct' True (last ns))
      = spread c ((B @ groups (butlast ns)) @ bytes16 (last ns))"
  proof (rule pton6_finish_True)
    show "length (B @ groups (butlast ns)) + 2 \<le> 16"
      using assms(2) False by (cases ns) auto
  qed (use assms(3) in \<open>auto intro: trans_le_add1\<close>)
  with * groups_butlast [OF False] show ?thesis by simp
qed

section \<open>What inet\_pton6 makes of a text\<close>

lemma hd_hex: "hd (hex n @ s) \<noteq> colon"
proof -
  have "hd (hex n) \<in> set (hex n)" by simp
  then have "hex_digit (hd (hex n)) \<noteq> None" by (rule hex_chars)
  then show ?thesis by auto
qed

lemma hd_join: "ns \<noteq> [] \<Longrightarrow> hd (join colon (map hex ns) @ s) \<noteq> colon"
  using hd_hex [of "hd ns"] by (cases ns rule: remdups_adj.cases) auto

lemma pton6_plain:
  assumes "length ws = 8" "\<forall>n\<in>set ws. n \<le> 65535"
  shows "inet_pton6 (join colon (map hex ws)) = Some (groups ws)"
proof -
  have "ws \<noteq> []" using assms by auto
  then show ?thesis
    using hd_join [of ws "[]"] pton6_rest [of ws "[]" None "join colon (map hex ws)"] assms
    by (simp add: inet_pton6_def pton6_start_pstate spread_None)
qed

lemma pton6_no_leading_colon:
  "s \<noteq> [] \<Longrightarrow> hd s \<noteq> colon \<Longrightarrow>
     inet_pton6 s = (case pton6_loop (pstate [] None s False 0) s of
       None \<Rightarrow> None | Some s' \<Rightarrow> pton6_finish s')"
  by (simp add: inet_pton6_def pton6_start_pstate)

lemma pton6_trailing:
  assumes "length ws = 8" "\<forall>n\<in>set ws. n \<le> 65535"
  shows "inet_pton6 (join colon (map hex ws) @ [colon]) = Some (groups ws)"
proof -
  have "ws \<noteq> []" using assms by auto
  then have "inet_pton6 (colon_groups ws) = (case pton6_loop (pstate [] None (colon_groups ws) False 0)
      (colon_groups ws) of None \<Rightarrow> None | Some s' \<Rightarrow> pton6_finish s')"
    using hd_join [of ws "[colon]"] by (intro pton6_no_leading_colon) (auto simp: colon_groups_join)
  moreover have "pton6_loop (pstate [] None (colon_groups ws) False 0) (colon_groups ws)
      = Some (pstate (groups ws) None [] False 0)"
    using pton6_colon_groups [of ws "[]" None "colon_groups ws" "[]"] assms \<open>ws \<noteq> []\<close> by simp
  moreover have "pton6_finish (pstate (groups ws) None [] False 0) = Some (groups ws)"
    by (subst pton6_finish_False) (use assms in \<open>simp_all add: spread_None\<close>)
  ultimately show ?thesis using \<open>ws \<noteq> []\<close> by (simp add: colon_groups_join)
qed

text \<open>The loop after a \<open>::\<close>, and how the parser gets there.\<close>

lemma pton6_at_double:
  assumes "\<forall>n\<in>set L. n \<le> 65535" "2 * length L \<le> 16"
  shows "inet_pton6 (join colon (map hex L) @ colon # colon # s) =
    (case pton6_loop (pstate (groups L) (Some (2 * length L)) s False 0) s of
       None \<Rightarrow> None | Some s' \<Rightarrow> pton6_finish s')"
proof (cases "L = []")
  case True
  then show ?thesis by (simp add: inet_pton6_def pton6_start_pstate)
next
  case False
  let ?s = "colon_groups L @ colon # s"
  from False have eq: "join colon (map hex L) @ colon # colon # s = ?s"
    by (simp add: colon_groups_join)
  have "inet_pton6 ?s = (case pton6_loop (pstate [] None ?s False 0) ?s of
      None \<Rightarrow> None | Some s' \<Rightarrow> pton6_finish s')"
    using hd_join [OF False, of "colon # colon # s"] unfolding eq
    by (intro pton6_no_leading_colon) auto
  also have "pton6_loop (pstate [] None ?s False 0) ?s
      = pton6_loop (pstate (groups L) None (colon # s) False 0) (colon # s)"
    using pton6_colon_groups [OF assms(1), of "[]" None _ "colon # s"] assms(2) False by simp
  finally show ?thesis unfolding eq by simp
qed

lemma pton6_double:
  assumes "\<forall>n\<in>set L. n \<le> 65535" "\<forall>n\<in>set R. n \<le> 65535" "length L + length R \<le> 8"
  shows "inet_pton6 (join colon (map hex L) @ colon # colon # join colon (map hex R)) =
    Some (if length L + length R = 8 then groups L @ replicate (16 - 2 * length L) 0
          else groups L @ replicate (16 - 2 * (length L + length R)) 0 @ groups R)"
  using pton6_at_double [OF assms(1), of "join colon (map hex R)"]
    pton6_rest [OF assms(2), of "groups L" "Some (2 * length L)" "join colon (map hex R)"] assms(3)
  by (auto simp: spread_def)

text \<open>An IPv4 address at the end.\<close>

lemma hex_of_digit_char: "dec_digit c = Some d \<Longrightarrow> hex_digit c = Some d"
  by (auto simp: dec_digit_def isdigit_def hex_digit_def Let_def split: if_splits)

lemma horner_hex_bound:
  "\<forall>c\<in>set s. isdigit c \<Longrightarrow> \<exists>n. horner hex_digit 16 a s = Some n \<and> n < (a + 1) * 16 ^ length s"
proof (induction s arbitrary: a)
  case (Cons c s)
  then obtain d where d: "dec_digit c = Some d" by (auto simp: dec_digit_def)
  then have "hex_digit c = Some d" "d < 10" by (simp_all add: hex_of_digit_char dec_digit_lt)
  moreover obtain n where n: "horner hex_digit 16 (a * 16 + d) s = Some n"
    "n < (a * 16 + d + 1) * 16 ^ length s" using Cons by auto
  have "(a * 16 + d + 1) * 16 ^ length s \<le> ((a + 1) * 16) * 16 ^ length s"
    using \<open>d < 10\<close> by (intro mult_right_mono) auto
  with n(2) have "n < ((a + 1) * 16) * 16 ^ length s" by (rule less_le_trans)
  then have "n < (a + 1) * 16 ^ length (c # s)" by (simp only: length_Cons power_Suc mult.assoc)
  ultimately show ?case using n by simp
qed simp

lemma pton6_quad_end:
  assumes "length q = 4" "length B + 4 \<le> 16"
  shows "\<exists>v. pton6_loop (pstate B c (quad_text q) False 0) (quad_text q) = Some (pstate (B @ q) c (quad_text q) False v)"
proof -
  obtain a b c' d where q: "q = [a, b, c', d]" using assms(1) by (rule length4E)
  obtain r where r: "quad_text q = dec (unat a) @ dot # r" by (simp add: q quad_text_simp)
  obtain n where n: "horner hex_digit 16 0 (dec (unat a)) = Some n" "n < 16 ^ length (dec (unat a))"
    using horner_hex_bound [of "dec (unat a)" 0] dec_chars by auto
  moreover have "(16::nat) ^ length (dec (unat a)) \<le> 16 ^ 3"
    by (intro power_increasing length_dec_byte) auto
  ultimately have "n \<le> 65535" by simp
  with n r have "pton6_loop (pstate B c (quad_text q) False 0) (quad_text q)
    = pton6_loop (pstate B c (quad_text q) True n) (dot # r)"
    by (simp add: pton6_digits del: pton6_loop.simps)
  also have "\<dots> = Some (pstate (B @ q) c (quad_text q) False n)"
    using assms by (simp add: quad.parse_print put_quad_pstate)
  finally show ?thesis by blast
qed

lemma pton6_double_quad:
  assumes "length q = 4" "\<forall>n\<in>set R. n \<le> 65535" "length R < 6"
  shows "inet_pton6 (colon # colon # colon_groups R @ quad_text q) =
    Some (replicate (12 - 2 * length R) 0 @ groups R @ q)"
proof -
  let ?c = "Some 0 :: nat option"
  have "pton6_loop (pstate [] ?c (colon_groups R @ quad_text q) False 0) (colon_groups R @ quad_text q)
     = pton6_loop (pstate (groups R) ?c (quad_text q) False 0) (quad_text q)"
    using pton6_colon_groups [OF assms(2), of "[]" ?c _ "quad_text q"] assms(3) by simp
  moreover obtain v where "pton6_loop (pstate (groups R) ?c (quad_text q) False 0) (quad_text q)
     = Some (pstate (groups R @ q) ?c (quad_text q) False v)"
    using pton6_quad_end [OF assms(1), of "groups R" ?c] assms(3) by auto
  moreover have "pton6_finish (pstate (groups R @ q) ?c (quad_text q) False v)
      = Some (replicate (12 - 2 * length R) 0 @ groups R @ q)"
    by (subst pton6_finish_False) (use assms in \<open>simp_all add: spread_def\<close>)
  ultimately show ?thesis
    using pton6_at_double [of "[]" "colon_groups R @ quad_text q"] by simp
qed

section \<open>The longest run of zeros\<close>

definition zero_run :: "nat list \<Rightarrow> nat \<Rightarrow> nat \<Rightarrow> bool" where
  "zero_run ws p l \<longleftrightarrow> (\<forall>i. p \<le> i \<longrightarrow> i < p + l \<longrightarrow> ws ! i = 0)"

definition run_size :: "run option \<Rightarrow> nat" where
  "run_size r = (case r of None \<Rightarrow> 0 | Some b \<Rightarrow> run_len b)"

definition best_ok :: "nat list \<Rightarrow> nat \<Rightarrow> run option \<Rightarrow> bool" where
  "best_ok ws i best \<longleftrightarrow>
     (\<forall>b. best = Some b \<longrightarrow> zero_run ws (run_base b) (run_len b) \<and> run_base b + run_len b \<le> i)"

definition cur_ok :: "nat list \<Rightarrow> nat \<Rightarrow> run option \<Rightarrow> bool" where
  "cur_ok ws i cur \<longleftrightarrow>
     (case cur of
        None \<Rightarrow> i = 0 \<or> ws ! (i - 1) \<noteq> 0
      | Some c \<Rightarrow> zero_run ws (run_base c) (run_len c) \<and> run_base c + run_len c = i
          \<and> (run_base c = 0 \<or> ws ! (run_base c - 1) \<noteq> 0))"

definition longest_ok :: "nat list \<Rightarrow> nat \<Rightarrow> run option \<Rightarrow> run option \<Rightarrow> bool" where
  "longest_ok ws i best cur \<longleftrightarrow>
     (\<forall>p l. 0 < l \<longrightarrow> p + l \<le> i \<longrightarrow> zero_run ws p l \<longrightarrow>
        l \<le> run_size best \<or> (\<exists>c. cur = Some c \<and> run_base c \<le> p))"

lemma run_size_better: "run_size (better best cur) = max (run_size best) (run_size cur)"
  by (auto simp: better_def run_size_def split: option.splits)

lemma best_ok_better: "best_ok ws i best \<Longrightarrow> cur_ok ws i cur \<Longrightarrow> best_ok ws i (better best cur)"
  by (auto simp: better_def best_ok_def cur_ok_def split: option.splits if_splits)

lemma longest_better:
  "longest_ok ws i best cur \<Longrightarrow> cur_ok ws i cur \<Longrightarrow> longest_ok ws i (better best cur) None"
  unfolding longest_ok_def
proof (intro allI impI disjI1)
  fix p l :: nat
  assume ok: "cur_ok ws i cur" and l: "0 < l" "p + l \<le> i" "zero_run ws p l"
    and "\<forall>p l. 0 < l \<longrightarrow> p + l \<le> i \<longrightarrow> zero_run ws p l \<longrightarrow>
        l \<le> run_size best \<or> (\<exists>c. cur = Some c \<and> run_base c \<le> p)"
  then consider "l \<le> run_size best" | c where "cur = Some c" "run_base c \<le> p" by blast
  then show "l \<le> run_size (better best cur)"
  proof cases
    case 1
    then show ?thesis by (simp add: run_size_better)
  next
    case (2 c)
    then have "l \<le> run_len c" using ok l(2) by (simp add: cur_ok_def)
    moreover have "run_size cur = run_len c" using 2 by (simp add: run_size_def)
    ultimately show ?thesis by (simp add: run_size_better)
  qed
qed

lemma run_loop_spec:
  "best_ok ws i best \<Longrightarrow> cur_ok ws i cur \<Longrightarrow> longest_ok ws i best cur \<Longrightarrow> i \<le> 8 \<Longrightarrow>
     best_ok ws 8 (run_loop ws [i..<8] best cur) \<and> longest_ok ws 8 (run_loop ws [i..<8] best cur) None"
proof (induction "8 - i" arbitrary: i best cur)
  case 0
  then have "[i..<8] = []" "i = 8" by simp_all
  with 0 show ?case using best_ok_better longest_better by simp
next
  case (Suc k)
  then have u: "[i..<8] = i # [Suc i..<8]" and i: "i < 8" by (simp_all add: upt_conv_Cons)
  show ?case
  proof (cases "ws ! i = 0")
    case True
    let ?c = "Some (case cur of None \<Rightarrow> \<lparr>run_base = i, run_len = 1\<rparr> | Some c \<Rightarrow> c\<lparr>run_len := run_len c + 1\<rparr>)"
    have "best_ok ws (Suc i) best" using Suc.prems by (auto simp: best_ok_def)
    moreover have c: "cur_ok ws (Suc i) ?c"
      using Suc.prems(2) True by (auto simp: cur_ok_def zero_run_def less_Suc_eq split: option.splits)
    moreover have "longest_ok ws (Suc i) best ?c"
      unfolding longest_ok_def
    proof (intro allI impI)
      fix p l :: nat
      assume l: "0 < l" "p + l \<le> Suc i" and z: "zero_run ws p l"
      show "l \<le> run_size best \<or> (\<exists>c. ?c = Some c \<and> run_base c \<le> p)"
      proof (cases "p + l = Suc i")
        case False
        then have "l \<le> run_size best \<or> (\<exists>c. cur = Some c \<and> run_base c \<le> p)"
          using Suc.prems(3) l z by (auto simp: longest_ok_def)
        then show ?thesis by auto
      next
        case True
        have nz: "ws ! (j - 1) = 0" if "p < j" "j \<le> i" for j
          using z that True by (auto simp: zero_run_def)
        show ?thesis
        proof (cases cur)
          case None
          then have "i = 0 \<or> ws ! (i - 1) \<noteq> 0" using Suc.prems(2) by (simp add: cur_ok_def)
          with nz [of i] None l True show ?thesis by force
        next
          case (Some c)
          then have "run_base c = 0 \<or> ws ! (run_base c - 1) \<noteq> 0" "run_base c \<le> i"
            using Suc.prems(2) by (auto simp: cur_ok_def)
          with nz [of "run_base c"] Some show ?thesis by force
        qed
      qed
    qed
    moreover have "k = 8 - Suc i" "Suc i \<le> 8" using Suc.hyps(2) i by simp_all
    ultimately show ?thesis using Suc.hyps(1) [of "Suc i" best ?c] True u by simp
  next
    case False
    let ?b = "better best cur"
    have "best_ok ws (Suc i) ?b"
      using best_ok_better [OF Suc.prems(1,2)] by (auto simp: best_ok_def)
    moreover have "cur_ok ws (Suc i) None" using False by (simp add: cur_ok_def)
    moreover have "longest_ok ws (Suc i) ?b None"
    proof -
      have "longest_ok ws i ?b None" using Suc.prems by (intro longest_better)
      moreover have "p + l \<noteq> Suc i" if "0 < l" "zero_run ws p l" for p l
        using that False by (force simp: zero_run_def)
      ultimately show ?thesis by (auto simp: longest_ok_def le_Suc_eq)
    qed
    moreover have "k = 8 - Suc i" "Suc i \<le> 8" using Suc.hyps(2) i by simp_all
    ultimately show ?thesis using Suc.hyps(1) [of "Suc i" ?b None] False u by simp
  qed
qed

lemma best_run_Some:
  "best_run ws = Some b \<Longrightarrow> zero_run ws (run_base b) (run_len b) \<and> run_base b + run_len b \<le> 8 \<and> 2 \<le> run_len b"
  using run_loop_spec [of ws 0 None None]
  by (auto simp: best_run_def best_ok_def cur_ok_def longest_ok_def split: option.splits if_splits)

lemma best_run_longest:
  assumes "zero_run ws p l" "p + l \<le> 8" "2 \<le> l"
  shows "\<exists>b. best_run ws = Some b \<and> l \<le> run_len b"
proof -
  have "longest_ok ws 8 (run_loop ws [0..<8] None None) None"
    using run_loop_spec [of ws 0 None None] by (simp add: best_ok_def cur_ok_def longest_ok_def)
  then have "l \<le> run_size (run_loop ws [0..<8] None None)"
    using assms by (simp add: longest_ok_def)
  with \<open>2 \<le> l\<close> show ?thesis
    by (cases "run_loop ws [0..<8] None None") (auto simp: best_run_def run_size_def)
qed

section \<open>The text inet\_ntop6 writes\<close>

lemma less_8_cases: "i < 8 \<Longrightarrow> i = 0 \<or> i = 1 \<or> i = 2 \<or> i = 3 \<or> i = 4 \<or> i = 5 \<or> i = 6 \<or> i = (7::nat)"
  by auto

lemma length8E:
  assumes "length ws = 8"
  obtains a b c d e f g h where "ws = [a, b, c, d, e, f, g, h]"
  using assms by (auto simp: length_Suc_conv eval_nat_numeral)

lemma upt_8: "[0..<8] = [0, 1, 2, 3, 4, 5, 6, 7::nat]"
  by (simp add: upt_rec)

lemma ntop6_loop_none:
  assumes "length ws = 8"
  shows "ntop6_loop src ws None [0..<8] [] = Ok (Some (join colon (map hex ws)))"
  using assms by (elim length8E) (simp add: upt_8 in_run_def embeds_ipv4_def)

definition run_text :: "nat list \<Rightarrow> nat \<Rightarrow> nat \<Rightarrow> string" where
  "run_text ws p l =
     join colon (map hex (take p ws)) @ colon # colon # join colon (map hex (drop (p + l) ws))"

lemma ntop6_loop_run:
  assumes "length ws = 8" "b = \<lparr>run_base = p, run_len = l\<rparr>" "2 \<le> l" "p + l \<le> 8"
    and "\<not> embeds_ipv4 ws (Some b)"
  shows "\<exists>t. ntop6_loop src ws (Some b) [0..<8] [] = Ok (Some t)
     \<and> (if p + l = 8 then t @ [colon] else t) = run_text ws p l"
proof -
  obtain w0 w1 w2 w3 w4 w5 w6 w7 where ws: "ws = [w0, w1, w2, w3, w4, w5, w6, w7]"
    using assms(1) by (rule length8E)
  have em: "embeds_ipv4 ws (Some \<lparr>run_base = p, run_len = l\<rparr>) = False" using assms(2,5) by simp
  have "p = 0 \<or> p = 1 \<or> p = 2 \<or> p = 3 \<or> p = 4 \<or> p = 5 \<or> p = 6" using assms(3,4) by auto
  moreover have "l = 2 \<or> l = 3 \<or> l = 4 \<or> l = 5 \<or> l = 6 \<or> l = 7 \<or> l = 8" using assms(3,4) by auto
  ultimately show ?thesis
    using em assms(4) unfolding assms(2) upt_8 run_text_def ws
    by (elim disjE) (simp_all add: in_run_def)
qed

lemma ntop6_loop_embedded:
  assumes "length ws = 8" "b = \<lparr>run_base = p, run_len = l\<rparr>" "embeds_ipv4 ws (Some b)"
    and "length src = 16"
  shows "ntop6_loop src ws (Some b) [0..<8] [] =
    Ok (Some (colon # colon # colon_groups (drop l (take 6 ws)) @ quad_text (drop 12 src)))"
proof -
  obtain w0 w1 w2 w3 w4 w5 w6 w7 where ws: "ws = [w0, w1, w2, w3, w4, w5, w6, w7]"
    using assms(1) by (rule length8E)
  have q: "length (quad_text (drop 12 src)) < 16" using assms(4) by (intro length_quad_text) simp
  then have n: "inet_ntop4 (drop 12 src) k = Ok (Some (quad_text (drop 12 src)))" if "16 \<le> k" for k
    using that by (simp add: inet_ntop4_def sprintf_into_def)
  have "length (hex 65535) \<le> 4" by (rule length_hex_u16) simp
  then show ?thesis
    using assms(3) unfolding assms(2) upt_8 ws embeds_ipv4_def
    by (auto simp: in_run_def embeds_ipv4_def n)
qed

lemma length_words_of [simp]: "length (words_of src) = 8"
  by (simp add: words_of_def)

lemma words_of_le: "\<forall>n\<in>set (words_of src). n \<le> 65535"
proof
  fix n assume "n \<in> set (words_of src)"
  then obtain i where n: "n = unat (src ! (2 * i)) * 256 + unat (src ! (2 * i + 1))"
    by (auto simp: words_of_def)
  show "n \<le> 65535" unfolding n
    using byte_le_255 [of "src ! (2 * i)"] byte_le_255 [of "src ! (2 * i + 1)"] by linarith
qed

lemma bytes16_word: "bytes16 (unat a * 256 + unat b) = [a, b]"
proof -
  have "(unat a * 256 + unat b) div 256 = unat a" "(unat a * 256 + unat b) mod 256 = unat b"
    by simp_all
  then show ?thesis unfolding bytes16_def by simp
qed

lemma length16E:
  assumes "length bs = 16"
  obtains a b c d e f g h i j k l m n p q where "bs = [a, b, c, d, e, f, g, h, i, j, k, l, m, n, p, q]"
  using assms by (auto simp: length_Suc_conv eval_nat_numeral)

lemma groups_words_of: "length src = 16 \<Longrightarrow> groups (words_of src) = src"
  by (elim length16E) (simp add: words_of_def upt_8 bytes16_word del: One_nat_def)

lemma groups_zeros: "groups (replicate l 0) = replicate (2 * l) 0"
  by (induction l) (simp_all add: bytes16_def)

lemma split_zero_run:
  assumes "length ws = 8" "zero_run ws p l" "p + l \<le> 8"
  shows "ws = take p ws @ replicate l 0 @ drop (p + l) ws"
  using assms by (intro nth_equalityI) (auto simp: zero_run_def nth_append not_less)

lemma length_join_hex: "\<forall>n\<in>set ns. n \<le> 65535 \<Longrightarrow> length (join colon (map hex ns)) \<le> 5 * length ns"
proof (induction ns rule: induct_list012)
  case (2 n)
  then show ?case using length_hex_u16 [of n] by simp
next
  case (3 n m ns)
  then show ?case using length_hex_u16 [of n] by simp
qed simp

lemma length_colon_groups: "\<forall>n\<in>set ns. n \<le> 65535 \<Longrightarrow> length (colon_groups ns) \<le> 5 * length ns"
proof (induction ns)
  case (Cons n ns)
  then show ?case using length_hex_u16 [of n] by simp
qed simp

text \<open>The text of an address, and that it is the one the loop leaves in the buffer.\<close>

definition ipv6_text :: "byte list \<Rightarrow> string" where
  "ipv6_text src =
     (let ws = words_of src in
      case best_run ws of
        None \<Rightarrow> join colon (map hex ws)
      | Some b \<Rightarrow>
          if embeds_ipv4 ws (Some b)
          then colon # colon # colon_groups (drop (run_len b) (take 6 ws)) @ quad_text (drop 12 src)
          else run_text ws (run_base b) (run_len b))"

lemma length_ipv6_text:
  assumes "length src = 16"
  shows "length (ipv6_text src) < 46"
proof (cases "best_run (words_of src)")
  case None
  then show ?thesis using length_join_hex [OF words_of_le, of src] by (simp add: ipv6_text_def)
next
  case (Some b)
  let ?ws = "words_of src"
  show ?thesis
  proof (cases "embeds_ipv4 ?ws (Some b)")
    case True
    have "\<forall>n\<in>set (drop (run_len b) (take 6 ?ws)). n \<le> 65535"
      using words_of_le by (meson in_set_dropD in_set_takeD)
    then have "length (colon_groups (drop (run_len b) (take 6 ?ws))) \<le> 5 * (6 - run_len b)"
      using length_colon_groups [of "drop (run_len b) (take 6 ?ws)"] by simp
    moreover have "5 \<le> run_len b" using True by (auto simp: embeds_ipv4_def)
    moreover have "length (quad_text (drop 12 src)) < 16" using assms by (intro length_quad_text) simp
    ultimately show ?thesis using Some True by (simp add: ipv6_text_def)
  next
    case False
    have "\<forall>n\<in>set (take (run_base b) ?ws). n \<le> 65535" "\<forall>n\<in>set (drop (run_base b + run_len b) ?ws). n \<le> 65535"
      using words_of_le by (meson in_set_takeD, meson in_set_dropD)
    from this [THEN length_join_hex] best_run_Some [OF Some]
    have "length (run_text ?ws (run_base b) (run_len b)) \<le> 5 * run_base b + 2 + 5 * (8 - (run_base b + run_len b))"
      by (simp add: run_text_def)
    also have "\<dots> < 46"
    proof -
      have "run_base b + run_len b \<le> 8" "2 \<le> run_len b" using best_run_Some [OF Some] by simp_all
      then show ?thesis by arith
    qed
    finally show ?thesis using Some False by (simp add: ipv6_text_def)
  qed
qed

lemma inet_ntop6_text:
  assumes "length src = 16"
  shows "inet_ntop6 src sz = Ok (if length (ipv6_text src) < sz then Some (ipv6_text src) else None)"
proof (cases "best_run (words_of src)")
  case None
  then show ?thesis
    using length_ipv6_text [OF assms] ntop6_loop_none [of "words_of src" src]
    by (simp add: inet_ntop6_def ipv6_text_def sprintf_into_def)
next
  case (Some b)
  obtain p l where b: "b = \<lparr>run_base = p, run_len = l\<rparr>" by (cases b) auto
  note spec = best_run_Some [OF Some, unfolded b, simplified]
  show ?thesis
  proof (cases "embeds_ipv4 (words_of src) (Some b)")
    case True
    then have "p + l \<noteq> 8" by (auto simp: embeds_ipv4_def b)
    with True Some show ?thesis
      using length_ipv6_text [OF assms] ntop6_loop_embedded [OF length_words_of b True assms]
      by (simp add: inet_ntop6_def ipv6_text_def sprintf_into_def b)
  next
    case False
    with ntop6_loop_run [OF length_words_of b _ _ False, of src] spec obtain t where
      t: "ntop6_loop src (words_of src) (Some b) [0..<8] [] = Ok (Some t)"
        "(if p + l = 8 then t @ [colon] else t) = run_text (words_of src) p l" by auto
    with False Some show ?thesis
      using length_ipv6_text [OF assms]
      by (auto simp: inet_ntop6_def ipv6_text_def sprintf_into_def b split: if_splits)
  qed
qed

lemma inet_pton6_text:
  assumes "length src = 16"
  shows "inet_pton6 (ipv6_text src) = Some src"
proof -
  let ?ws = "words_of src"
  have g: "groups ?ws = src" using assms by (rule groups_words_of)
  show ?thesis
  proof (cases "best_run ?ws")
    case None
    then show ?thesis using pton6_plain [OF length_words_of words_of_le] g by (simp add: ipv6_text_def)
  next
    case (Some b)
    let ?p = "run_base b" and ?l = "run_len b"
    note spec = best_run_Some [OF Some]
    have split: "?ws = take ?p ?ws @ replicate ?l 0 @ drop (?p + ?l) ?ws"
      by (rule split_zero_run) (use spec in auto)
    have le: "\<forall>n\<in>set (take ?p ?ws). n \<le> 65535" "\<forall>n\<in>set (drop (?p + ?l) ?ws). n \<le> 65535"
      using words_of_le by (meson in_set_takeD, meson in_set_dropD)
    show ?thesis
    proof (cases "embeds_ipv4 ?ws (Some b)")
      case False
      have "groups ?ws = groups (take ?p ?ws) @ replicate (2 * ?l) 0 @ groups (drop (?p + ?l) ?ws)"
        by (subst split) (simp only: map_append concat_append groups_zeros)
      moreover have n: "length (take ?p ?ws) + length (drop (?p + ?l) ?ws) = 8 - ?l" "?l \<le> 8"
        using spec by auto
      then have "16 - 2 * (8 - ?l) = 2 * ?l" "8 - ?l \<noteq> 8" "8 - ?l \<le> 8" using spec by auto
      ultimately have "inet_pton6 (run_text ?ws ?p ?l) = Some (groups ?ws)"
        using pton6_double [OF le] unfolding run_text_def n(1) by simp
      then show ?thesis using Some False g by (simp add: ipv6_text_def)
    next
      case True
      let ?R = "drop ?l (take 6 ?ws)"
      have l: "?p = 0" "5 \<le> ?l" "?l \<le> 6" using True by (auto simp: embeds_ipv4_def)
      have R: "length ?R = 6 - ?l" "\<forall>n\<in>set ?R. n \<le> 65535"
        using words_of_le by (auto dest: in_set_dropD in_set_takeD)
      have "take 6 ?ws = replicate ?l 0 @ ?R"
        by (subst split) (use l in \<open>simp add: take_Cons' drop_take\<close>)
      then have "groups (take 6 ?ws) = replicate (2 * ?l) 0 @ groups ?R"
        by (metis concat_append groups_zeros map_append)
      moreover have "groups (take 6 ?ws) = take 12 src"
        using assms by (elim length16E) (simp add: words_of_def upt_8 bytes16_word del: One_nat_def)
      moreover have "12 - 2 * length ?R = 2 * ?l" using R(1) l by simp
      ultimately have "replicate (12 - 2 * length ?R) 0 @ groups ?R @ drop 12 src = src"
        by (metis append.assoc append_take_drop_id)
      moreover have "length ?R < 6" "length (drop 12 src) = 4" using R(1) l assms by simp_all
      ultimately show ?thesis
        using pton6_double_quad [of "drop 12 src" ?R] R(2) Some True by (simp add: ipv6_text_def)
    qed
  qed
qed

interpretation v6: addr_codec inet_pton6 ipv6_text 16 46
  by unfold_locales (simp_all add: inet_pton6_text length_ipv6_text)

section \<open>Properties\<close>

text \<open>
  C35: For every IPv6 address \<open>inet_ntop6\<close> writes a text of at most 45 characters, so its local
  array of 46 never overflows; the text is the same for every buffer, exactly the buffers that are too
  short for it and its NUL are refused, and \<open>inet_pton6\<close> maps it back to the address.
\<close>

theorem ipv6_text_roundtrip:
  assumes "length src = 16"
  shows "\<exists>t. length t \<le> 45 \<and> inet_pton6 t = Some src
    \<and> (\<forall>sz. inet_ntop6 src sz = Ok (if length t < sz then Some t else None))"
  using v6.parse_print [OF assms] v6.print_length [OF assms] inet_ntop6_text [OF assms]
  by (intro exI [of _ "ipv6_text src"]) auto

theorem ipv6_text_roundtrip_witness:
  "\<exists>t. length t \<le> 45 \<and> inet_pton6 t = Some (replicate 15 0 @ [1])
    \<and> (\<forall>sz. inet_ntop6 (replicate 15 0 @ [1]) sz = Ok (if length t < sz then Some t else None))"
  by (rule ipv6_text_roundtrip) simp

text \<open>
  The run of zero words that \<open>inet_ntop6\<close> replaces by \<open>::\<close> is a longest one: whenever an
  address has a run of at least two zero words, the text elides a run of zeros that is at least as
  long, and without such a run it writes all eight words.
\<close>

theorem ntop6_elides_longest_run:
  "(zero_run (words_of src) p l \<and> p + l \<le> 8 \<and> 2 \<le> l \<longrightarrow>
      (\<exists>b. best_run (words_of src) = Some b \<and> l \<le> run_len b
         \<and> zero_run (words_of src) (run_base b) (run_len b)))
   \<and> ((\<nexists>p l. zero_run (words_of src) p l \<and> p + l \<le> 8 \<and> 2 \<le> l) \<longrightarrow>
        ipv6_text src = join colon (map hex (words_of src)))"
proof (intro conjI impI)
  assume "zero_run (words_of src) p l \<and> p + l \<le> 8 \<and> 2 \<le> l"
  then obtain b where "best_run (words_of src) = Some b" "l \<le> run_len b"
    using best_run_longest by blast
  then show "\<exists>b. best_run (words_of src) = Some b \<and> l \<le> run_len b
         \<and> zero_run (words_of src) (run_base b) (run_len b)"
    using best_run_Some by blast
next
  assume "\<nexists>p l. zero_run (words_of src) p l \<and> p + l \<le> 8 \<and> 2 \<le> l"
  then have "best_run (words_of src) = None" using best_run_Some by (cases "best_run (words_of src)") auto
  then show "ipv6_text src = join colon (map hex (words_of src))" by (simp add: ipv6_text_def)
qed

theorem ntop6_elides_longest_run_witness:
  "\<exists>b. best_run (words_of ([1, 2, 0, 0, 0, 0] @ replicate 8 0 @ [3, 4])) = Some b \<and> 6 \<le> run_len b"
proof -
  have "words_of ([1, 2, 0, 0, 0, 0] @ replicate 8 0 @ [3, 4]) = [258, 0, 0, 0, 0, 0, 0, 772]"
    by code_simp
  then have "zero_run (words_of ([1, 2, 0, 0, 0, 0] @ replicate 8 0 @ [3, 4])) 1 6"
    by (auto simp: zero_run_def nth_Cons split: nat.splits)
  then show ?thesis
    using ntop6_elides_longest_run [of "[1, 2, 0, 0, 0, 0] @ replicate 8 0 @ [3, 4]" 1 6] by auto
qed

text \<open>
  A text of groups with a \<open>::\<close> in it stands for the groups before it, zeros, and the groups
  after it. But in a full address, eight groups and a \<open>::\<close>, it is not ignored, as the comment says:
  the shift by hand moves the groups after it onto themselves and zeroes every one of them. And
  a single colon behind a full address is accepted.
\<close>

theorem pton6_double_colon:
  assumes "\<forall>n\<in>set L. n \<le> 65535" "\<forall>n\<in>set R. n \<le> 65535" "length L + length R \<le> 8"
  shows "inet_pton6 (join colon (map hex L) @ colon # colon # join colon (map hex R)) =
      Some (if length L + length R < 8
            then groups L @ replicate (16 - 2 * (length L + length R)) 0 @ groups R
            else groups L @ replicate (2 * length R) 0)
    \<and> (length L = 8 \<longrightarrow> inet_pton6 (join colon (map hex L) @ [colon]) = Some (groups L))"
proof -
  have "16 - 2 * length L = 2 * length R" if "length L + length R = 8" using that by simp
  then show ?thesis
    using pton6_double [OF assms] pton6_trailing [of L] assms by auto
qed

theorem pton6_double_colon_witness:
  "inet_pton6 (join colon (map hex [1, 2, 3, 4]) @ colon # colon # join colon (map hex [5, 6, 7, 8])) =
     Some (groups [1, 2, 3, 4] @ replicate 8 0)"
  using pton6_double_colon [of "[1, 2, 3, 4]" "[5, 6, 7, 8]"] by (simp del: list.map)

end
