(* ===== verification/InCksum.thy ===== *)
theory InCksum
  imports Prelude
begin

text \<open>
  The Internet checksum \<open>in_cksum\<close> (\<^verbatim>\<open>unpv13e/libfree/in_cksum.c\<close>). The buffer is read through
  a pointer to 16-bit words; the model is that of the little-endian host the code is configured
  for, so the first byte of a pair is the low one.
\<close>

definition le16 :: "16 word \<Rightarrow> byte list" where
  "le16 w = [word_of_nat (unat w mod 256), word_of_nat (unat w div 256)]"

lemma length_le16 [simp]: "length (le16 w) = 2"
  by (simp add: le16_def)

text \<open>The loop over the words with a 32-bit accumulator, and the odd byte at the end.\<close>

fun sum_words :: "byte list \<Rightarrow> 32 word \<Rightarrow> 32 word" where
  "sum_words (lo # hi # w) s = sum_words w (s + word_of_nat (unat lo + 256 * unat hi))"
| "sum_words [lo] s = s + word_of_nat (unat lo)"
| "sum_words [] s = s"

definition in_cksum :: "byte list \<Rightarrow> 16 word" where
  "in_cksum addr =
     (let sum0 = sum_words addr 0;
          sum1 = drop_bit 16 sum0 + and sum0 0xffff;
          sum2 = sum1 + drop_bit 16 sum1
      in ucast (not sum2))"

section \<open>The sum as a number\<close>

fun word_sum :: "byte list \<Rightarrow> nat" where
  "word_sum (lo # hi # w) = unat lo + 256 * unat hi + word_sum w"
| "word_sum [lo] = unat lo"
| "word_sum [] = 0"

lemma sum_words_eq: "sum_words bs s = s + word_of_nat (word_sum bs)"
  by (induction bs s rule: sum_words.induct) (simp_all add: ac_simps)

lemma word_sum_bound: "word_sum bs \<le> 65535 * ((length bs + 1) div 2)"
proof (induction bs rule: word_sum.induct)
  case (1 lo hi w)
  have "unat lo + 256 * unat hi \<le> 65535"
    using unat_lt_256 [of lo] unat_lt_256 [of hi] by linarith
  with 1 show ?case by simp
next
  case (2 lo)
  have "unat lo \<le> 65535" using unat_lt_256 [of lo] by linarith
  then show ?case by simp
qed simp

lemma word_sum_append: "even (length as) \<Longrightarrow> word_sum (as @ bs) = word_sum as + word_sum bs"
  by (induction as rule: word_sum.induct) auto

lemma word_sum_le16 [simp]: "word_sum (le16 w) = unat w"
proof -
  have "unat w div 256 < 256" using unat_lt_65536 [of w] by (simp add: less_mult_imp_div_less)
  then show ?thesis by (simp add: le16_def unat_byte_of_nat)
qed

definition fold16 :: "nat \<Rightarrow> nat" where
  "fold16 s = (let s1 = s div 65536 + s mod 65536 in (s1 + s1 div 65536) mod 65536)"

lemma unat_not16: "unat (not w :: 16 word) = 65535 - unat w"
proof -
  have "uint (not w) = (- uint w - 1) mod 65536"
    by (subst unsigned_not_eq) (simp add: not_eq_complement take_bit_eq_mod)
  also have "\<dots> = 65535 - uint w"
  proof -
    have "0 \<le> uint w" "uint w < 65536" using uint_bounded [of w] by simp_all
    have "(- uint w - 1) mod 65536 = (65536 + (- uint w - 1)) mod 65536" by (rule mod_add_self1 [symmetric])
    moreover have "(65535 - uint w) mod 65536 = 65535 - uint w"
      by (rule mod_pos_pos_trivial) (use \<open>uint w < 65536\<close> \<open>0 \<le> uint w\<close> in linarith)+
    ultimately show ?thesis by simp
  qed
  finally have "int (unat (not w)) = 65535 - int (unat w)" by (simp only: of_nat_unat)
  then show ?thesis by linarith
qed

lemma ucast_not16: "(ucast (not (w :: 32 word)) :: 16 word) = not (ucast w)"
  by (rule bit_word_eqI) (simp add: bit_simps)

lemma unat_drop16: "unat (drop_bit 16 (w :: 32 word)) = unat w div 65536"
  by (subst unat_drop_bit_eq) (simp add: drop_bit_eq_div)

lemma unat_low16: "unat (and w 0xffff :: 32 word) = unat w mod 65536"
proof -
  have "(0xffff :: 32 word) = mask 16" by (simp add: mask_eq_exp_minus_1)
  then have "and w 0xffff = take_bit 16 w" by (simp only: take_bit_eq_mask)
  then have "unat (and w 0xffff) = unat (take_bit 16 w)" by (simp only:)
  also have "\<dots> = take_bit 16 (unat w)" by (rule unsigned_take_bit_eq)
  also have "\<dots> = unat w mod 65536" by (simp add: take_bit_eq_mod)
  finally show ?thesis .
qed

lemma unat_add32: "unat (v :: 32 word) + unat w < 2 ^ 32 \<Longrightarrow> unat (v + w) = unat v + unat w"
  by (simp add: unat_word_ariths)

lemma in_cksum_fold:
  assumes "word_sum bs < 2 ^ 32"
  shows "unat (in_cksum bs) = 65535 - fold16 (word_sum bs)"
proof -
  let ?s0 = "sum_words bs 0" and ?S = "word_sum bs"
  let ?s1 = "drop_bit 16 ?s0 + and ?s0 0xffff"
  let ?s2 = "?s1 + drop_bit 16 ?s1"
  let ?n1 = "?S div 65536 + ?S mod 65536"
  have s0: "unat ?s0 = ?S" using assms by (simp add: sum_words_eq unat_of_nat)
  have b: "?S div 65536 < 65536" "?S mod 65536 < 65536" using assms by (simp_all add: less_mult_imp_div_less)
  have s1: "unat ?s1 = ?n1"
    by (subst unat_add32) (use b in \<open>simp_all add: unat_drop16 unat_low16 s0\<close>)
  have "?n1 div 65536 \<le> 1" using b by linarith
  then have s2: "unat ?s2 = ?n1 + ?n1 div 65536"
    by (subst unat_add32) (use b in \<open>simp_all add: unat_drop16 s1\<close>)
  have "unat (ucast ?s2 :: 16 word) = (?n1 + ?n1 div 65536) mod 65536"
    by (simp add: unsigned_ucast_eq s2 take_bit_eq_mod)
  then show ?thesis
    by (simp add: in_cksum_def Let_def ucast_not16 unat_not16 fold16_def)
qed

lemma div_mod_65536:
  "k < 65536 \<Longrightarrow> (65536 * h + k) div 65536 = (h :: nat)"
  "k < 65536 \<Longrightarrow> (65536 * h + k) mod 65536 = k"
  by simp_all

lemma fold16_complement:
  assumes "s + (65535 - fold16 s) < 65536 * 65536"
  shows "fold16 (s + (65535 - fold16 s)) = 65535"
proof -
  define h where "h = s div 65536"
  define l where "l = s mod 65536"
  have s: "s = 65536 * h + l" and l: "l < 65536" by (simp_all add: h_def l_def)
  show ?thesis
  proof (cases "h + l < 65536")
    case True
    then have "fold16 s = h + l" by (simp add: fold16_def h_def [symmetric] l_def [symmetric] Let_def)
    moreover have "s + (65535 - (h + l)) = 65536 * h + (65535 - h)" using True s by simp
    ultimately have e: "s + (65535 - fold16 s) = 65536 * h + (65535 - h)" by simp
    have "(65536 * h + (65535 - h)) div 65536 = h" "(65536 * h + (65535 - h)) mod 65536 = 65535 - h"
      by (rule div_mod_65536, simp)+
    then show ?thesis unfolding e using True by (simp add: fold16_def)
  next
    case False
    have "s < 65536 * 65536" using assms by linarith
    then have h: "h < 65536" unfolding h_def by (rule less_mult_imp_div_less)
    have f: "fold16 s = h + l - 65535"
    proof -
      have "(h + l) div 65536 = 1" using False h l by (intro div_nat_eqI) auto
      then have "fold16 s = (h + l + 1) mod 65536"
        by (simp add: fold16_def h_def [symmetric] l_def [symmetric] Let_def)
      also have "\<dots> = (h + l - 65535) mod 65536"
        using False by (simp add: mod_if)
      finally show ?thesis using h l by simp
    qed
    have e: "s + (65535 - fold16 s) = 65536 * (h + 1) + (65534 - h)" if "h \<le> 65534"
      using s f False h l that by simp
    show ?thesis
    proof (cases "h \<le> 65534")
      case True
      have "(65536 * (h + 1) + (65534 - h)) div 65536 = h + 1"
        "(65536 * (h + 1) + (65534 - h)) mod 65536 = 65534 - h" by (rule div_mod_65536, simp)+
      then show ?thesis unfolding e [OF True] using True by (simp add: fold16_def)
    next
      case top: False
      then have "h = 65535" using h by simp
      then have "s + (65535 - fold16 s) = 4294967295" using f s l by simp
      then show ?thesis by (simp add: fold16_def)
    qed
  qed
qed

text \<open>The packet with the checksum filled in.\<close>

lemma in_cksum_filled_in:
  assumes "even (length pre)" and "length pre + 2 + length post \<le> 131070"
  shows "in_cksum (pre @ le16 (in_cksum (pre @ [0, 0] @ post)) @ post) = 0"
proof -
  let ?z = "pre @ [0, 0] @ post" and ?c = "in_cksum (pre @ [0, 0] @ post)"
  let ?p = "pre @ le16 ?c @ post"
  have len: "length (le16 ?c) = 2" by (simp add: le16_def)
  have bound: "word_sum bs < 2 ^ 32" if "length bs \<le> 131070" for bs
  proof -
    have "65535 * ((length bs + 1) div 2) \<le> 65535 * 65535" using that by (intro mult_le_mono2) linarith
    with word_sum_bound [of bs] show ?thesis by simp
  qed
  have z: "word_sum ?z = word_sum pre + word_sum post"
    using word_sum_append [OF assms(1), of "[0, 0] @ post"] by simp
  have "word_sum ?p = word_sum pre + (unat ?c + word_sum post)"
    using word_sum_append [OF assms(1), of "le16 ?c @ post"] word_sum_append [of "le16 ?c" post] len
    by simp
  also have "\<dots> = word_sum ?z + (65535 - fold16 (word_sum ?z))"
    using in_cksum_fold [of ?z] bound [of ?z] assms(2) z by simp
  finally have p: "word_sum ?p = word_sum ?z + (65535 - fold16 (word_sum ?z))" .
  have lt: "word_sum ?p < 2 ^ 32" using bound [of ?p] len assms(2) by simp
  then have "fold16 (word_sum ?p) = 65535"
    using fold16_complement [of "word_sum ?z"] unfolding p by simp
  then have "unat (in_cksum ?p) = 0" using in_cksum_fold [OF lt] by simp
  then show ?thesis by (simp add: unat_eq_0)
qed

section \<open>Properties\<close>

text \<open>
  A packet with its checksum filled in checks out: when the checksum of a packet is computed
  with its checksum field (at an even offset) set to zero and then stored in the field, the
  checksum of the whole packet is 0. This holds for packets of odd length too, and up to the
  131070 bytes for which the 32-bit accumulator cannot overflow.
\<close>

theorem in_cksum_verifies:
  assumes "even (length pre)" and "length pre + 2 + length post \<le> 131070"
  shows "in_cksum (pre @ le16 (in_cksum (pre @ [0, 0] @ post)) @ post) = 0"
  using assms by (rule in_cksum_filled_in)

theorem in_cksum_verifies_witness:
  "in_cksum ([8, 0] @ le16 (in_cksum ([8, 0] @ [0, 0] @ [1, 2, 3])) @ [1, 2, 3]) = 0"
  by (rule in_cksum_verifies) simp_all

end
