(* ===== verification/StreamIO.thy ===== *)
theory StreamIO
  imports Prelude
begin

text \<open>
  Reading and writing byte streams: \<open>readn\<close>, \<open>writen\<close> (\<^verbatim>\<open>unpv13e/lib/readn.c\<close>,
  \<^verbatim>\<open>unpv13e/lib/writen.c\<close>) and the three versions of the buffered \<open>readline\<close>: with one static
  buffer (\<^verbatim>\<open>unpv13e/lib/readline.c\<close>), with one buffer per thread
  (\<^verbatim>\<open>unpv13e/threads/readline.c\<close>) and with a buffer the caller owns
  (\<^verbatim>\<open>unpv13e/server/readline_r.c\<close>). What they need of their source of characters is the locale
  \<open>char_source\<close>.
\<close>

abbreviation nl :: char where
  "nl \<equiv> CHR 0x0A"

section \<open>The kernel's side of a descriptor\<close>

text \<open>
  What the calls of \<open>read\<close> on a descriptor find, in order: data (no data is the end of the file),
  an interrupt (\<open>EINTR\<close>) or another error. A \<open>read\<close> of \<open>n\<close> bytes takes at most \<open>n\<close> of the data
  and leaves the rest for the next one; behind the list the file has ended.
\<close>

datatype event = Data string | Interrupt | Failure

type_synonym kernel = "int \<Rightarrow> event list"

datatype read_result = Got string | Eintr | Eother

definition sys_read :: "kernel \<Rightarrow> int \<Rightarrow> nat \<Rightarrow> read_result \<times> kernel" where
  "sys_read k fd n =
     (case k fd of
        [] \<Rightarrow> (Got [], k)
      | Data d # es \<Rightarrow> (Got (take n d), k(fd := (if length d \<le> n then es else Data (drop n d) # es)))
      | Interrupt # es \<Rightarrow> (Eintr, k(fd := es))
      | Failure # es \<Rightarrow> (Eother, k(fd := es)))"

datatype ending = AtEof | AtFailure

text \<open>The bytes a reader gets out of a descriptor, and how they end.\<close>

fun stream :: "event list \<Rightarrow> string \<times> ending" where
  "stream [] = ([], AtEof)"
| "stream (Data d # es) = (if d = [] then ([], AtEof) else (d @ fst (stream es), snd (stream es)))"
| "stream (Interrupt # es) = stream es"
| "stream (Failure # es) = ([], AtFailure)"

fun event_size :: "event \<Rightarrow> nat" where
  "event_size (Data d) = Suc (length d)"
| "event_size Interrupt = 1"
| "event_size Failure = 1"

definition kernel_size :: "kernel \<Rightarrow> int \<Rightarrow> nat" where
  "kernel_size k fd = sum_list (map event_size (k fd))"

lemma sys_read_size:
  assumes "sys_read k fd n = (r, k')" and "r \<noteq> Got []" and "0 < n"
  shows "kernel_size k' fd < kernel_size k fd"
  using assms by (auto simp: sys_read_def kernel_size_def split: list.splits event.splits if_splits)

lemma sys_read_Got:
  "sys_read k fd n = (Got d, k') \<Longrightarrow> 0 < n \<Longrightarrow>
     length d \<le> n \<and> (if d = [] then stream (k fd) = ([], AtEof)
        else stream (k fd) = (d @ fst (stream (k' fd)), snd (stream (k' fd))))"
  by (cases "k fd") (auto simp: sys_read_def split: event.splits if_splits)

lemma sys_read_Eintr: "sys_read k fd n = (Eintr, k') \<Longrightarrow> stream (k' fd) = stream (k fd)"
  by (cases "k fd") (auto simp: sys_read_def split: event.splits if_splits)

lemma sys_read_Eother: "sys_read k fd n = (Eother, k') \<Longrightarrow> stream (k fd) = ([], AtFailure)"
  by (cases "k fd") (auto simp: sys_read_def split: event.splits if_splits)

lemma sys_read_other_fd: "sys_read k fd n = (r, k') \<Longrightarrow> fd' \<noteq> fd \<Longrightarrow> k' fd' = k fd'"
  by (auto simp: sys_read_def split: list.splits event.splits)

section \<open>readn\<close>

function readn_loop :: "kernel \<Rightarrow> int \<Rightarrow> nat \<Rightarrow> string \<Rightarrow> nat option \<times> string \<times> kernel" where
  "readn_loop k fd nleft ptr =
     (if nleft = 0 then (Some nleft, ptr, k)
      else (case sys_read k fd nleft of
              (Eintr, k') \<Rightarrow> readn_loop k' fd nleft ptr
            | (Eother, k') \<Rightarrow> (None, ptr, k')
            | (Got d, k') \<Rightarrow> if d = [] then (Some nleft, ptr, k')
                              else readn_loop k' fd (nleft - length d) (ptr @ d)))"
  by pat_completeness auto
termination
  by (relation "measure (\<lambda>(k, fd, _). kernel_size k fd)") (auto intro: sys_read_size [OF sym])

declare readn_loop.simps [simp del]

text \<open>\<open>readn\<close>: its result, the bytes in the caller's buffer, and the descriptors afterwards.\<close>

definition readn :: "kernel \<Rightarrow> int \<Rightarrow> nat \<Rightarrow> int \<times> string \<times> kernel" where
  "readn k fd n =
     (case readn_loop k fd n [] of
        (None, buf, k') \<Rightarrow> (-1, buf, k')
      | (Some nleft, buf, k') \<Rightarrow> (int n - int nleft, buf, k'))"

lemma readn_loop_spec:
  "stream (k fd) = (b, e) \<Longrightarrow> readn_loop k fd nleft ptr = (r, buf, k') \<Longrightarrow>
     buf = ptr @ take nleft b
   \<and> r = (if nleft \<le> length b then Some 0 else if e = AtEof then Some (nleft - length b) else None)
   \<and> (nleft \<le> length b \<longrightarrow> stream (k' fd) = (drop nleft b, e))
   \<and> (\<forall>fd'. fd' \<noteq> fd \<longrightarrow> k' fd' = k fd')"
proof (induction k fd nleft ptr arbitrary: b r buf k' rule: readn_loop.induct)
  case (1 k fd nleft ptr)
  show ?case
  proof (cases "nleft = 0")
    case True
    with "1.prems" show ?thesis by (simp add: readn_loop.simps)
  next
    case False
    then have pos: "0 < nleft" by simp
    obtain x k1 where rd: "sys_read k fd nleft = (x, k1)" by (cases "sys_read k fd nleft")
    have other: "\<forall>fd'. fd' \<noteq> fd \<longrightarrow> k1 fd' = k fd'" using sys_read_other_fd [OF rd] by blast
    show ?thesis
    proof (cases x)
      case (Got d)
      note g = sys_read_Got [OF rd [unfolded Got] pos]
      show ?thesis
      proof (cases "d = []")
        case True
        with g "1.prems" False rd Got other show ?thesis
          by (subst (asm) readn_loop.simps) auto
      next
        case ne: False
        obtain b1 where b1: "stream (k1 fd) = (b1, e)" "b = d @ b1"
          using g ne "1.prems"(1) by (cases "stream (k1 fd)") auto
        have l: "readn_loop k1 fd (nleft - length d) (ptr @ d) = (r, buf, k')"
          using "1.prems"(2) False rd Got ne by (subst (asm) readn_loop.simps) simp
        have "buf = (ptr @ d) @ take (nleft - length d) b1
   \<and> r = (if nleft - length d \<le> length b1 then Some 0
          else if e = AtEof then Some (nleft - length d - length b1) else None)
   \<and> (nleft - length d \<le> length b1 \<longrightarrow> stream (k' fd) = (drop (nleft - length d) b1, e))
   \<and> (\<forall>fd'. fd' \<noteq> fd \<longrightarrow> k' fd' = k1 fd')"
          by (rule "1.IH"(1) [OF False rd [symmetric] Got ne b1(1) l])
        moreover have "length d \<le> nleft" using g by simp
        ultimately show ?thesis using b1(2) other by auto
      qed
    next
      case Eintr
      have l: "readn_loop k1 fd nleft ptr = (r, buf, k')"
        using "1.prems"(2) False rd Eintr by (subst (asm) readn_loop.simps) simp
      have "stream (k1 fd) = (b, e)" using sys_read_Eintr [OF rd [unfolded Eintr]] "1.prems"(1) by simp
      from "1.IH"(2) [OF False rd [symmetric] Eintr this l] other show ?thesis by auto
    next
      case Eother
      with sys_read_Eother [OF rd [unfolded Eother]] "1.prems" False rd other show ?thesis
        by (subst (asm) readn_loop.simps) auto
    qed
  qed
qed

section \<open>writen\<close>

text \<open>What the calls of \<open>write\<close> do: accept up to so many bytes (no bytes is the result 0), or fail.\<close>

datatype wevent = Accept nat | WInterrupt | WFailure

fun writen_loop :: "wevent list \<Rightarrow> string \<Rightarrow> string \<Rightarrow> bool \<times> string" where
  "writen_loop ws [] sent = (True, sent)"
| "writen_loop [] ptr sent = (True, sent @ ptr)"
| "writen_loop (Accept m # ws) ptr sent =
     (if m = 0 then (False, sent) else writen_loop ws (drop m ptr) (sent @ take m ptr))"
| "writen_loop (WInterrupt # ws) ptr sent = writen_loop ws ptr sent"
| "writen_loop (WFailure # ws) ptr sent = (False, sent)"

text \<open>
  \<open>writen\<close>: its result and the bytes that went out; a descriptor whose list of events is used up
  accepts everything.
\<close>

definition writen :: "wevent list \<Rightarrow> string \<Rightarrow> int \<times> string" where
  "writen ws buf =
     (case writen_loop ws buf [] of
        (True, sent) \<Rightarrow> (int (length buf), sent)
      | (False, sent) \<Rightarrow> (-1, sent))"

lemma writen_loop_spec:
  "writen_loop ws ptr sent = (ok, out) \<Longrightarrow>
     \<exists>n. out = sent @ take n ptr \<and> (ok \<longrightarrow> out = sent @ ptr) \<and> (\<not> ok \<longrightarrow> n < length ptr)"
proof (induction ws ptr sent rule: writen_loop.induct)
  case (2 c ptr sent)
  then show ?case by (intro exI [of _ "Suc (length ptr)"]) simp
next
  case (3 m ws c ptr sent)
  show ?case
  proof (cases "m = 0")
    case True
    with 3 show ?thesis by (auto intro: exI [of _ 0])
  next
    case False
    with 3 obtain n where n: "out = (sent @ take m (c # ptr)) @ take n (drop m (c # ptr))"
      "ok \<longrightarrow> out = (sent @ take m (c # ptr)) @ drop m (c # ptr)"
      "\<not> ok \<longrightarrow> n < length (drop m (c # ptr))" by auto
    then have "out = sent @ take (m + n) (c # ptr)" by (simp add: take_add)
    moreover have "ok \<longrightarrow> out = sent @ (c # ptr)" using n(2) by simp
    ultimately show ?thesis using n(3) by (intro exI [of _ "m + n"]) auto
  qed
qed (auto intro: exI [of _ 0])

section \<open>Reading a line, from any source of characters\<close>

datatype char_result = Char char | Eof | Err

text \<open>
  The loop of \<open>readline\<close>, with \<open>getc\<close> for its \<open>my_read\<close>: \<open>k\<close> more rounds before \<open>n\<close> reaches
  \<open>maxlen\<close>. The result is the value returned, the characters stored (behind them comes a NUL
  unless the value is -1) and the source afterwards.
\<close>

fun line_loop :: "('s \<Rightarrow> char_result \<times> 's) \<Rightarrow> nat \<Rightarrow> nat \<Rightarrow> string \<Rightarrow> 's \<Rightarrow> int \<times> string \<times> 's" where
  "line_loop getc 0 n ptr s = (int n, ptr, s)"
| "line_loop getc (Suc k) n ptr s =
     (case getc s of
        (Char c, s') \<Rightarrow> if c = nl then (int n, ptr @ [c], s') else line_loop getc k (n + 1) (ptr @ [c]) s'
      | (Eof, s') \<Rightarrow> (int n - 1, ptr, s')
      | (Err, s') \<Rightarrow> (-1, ptr, s'))"

text \<open>The loop of \<open>readline_r\<close>, which ends differently at the end of the file.\<close>

fun line_loop_r :: "('s \<Rightarrow> char_result \<times> 's) \<Rightarrow> nat \<Rightarrow> nat \<Rightarrow> string \<Rightarrow> 's \<Rightarrow> int \<times> string \<times> 's" where
  "line_loop_r getc 0 n ptr s = (int n, ptr, s)"
| "line_loop_r getc (Suc k) n ptr s =
     (case getc s of
        (Char c, s') \<Rightarrow> if c = nl then (int n, ptr @ [c], s') else line_loop_r getc k (n + 1) (ptr @ [c]) s'
      | (Eof, s') \<Rightarrow> if n = 1 then (0, ptr, s') else (int n, ptr, s')
      | (Err, s') \<Rightarrow> (-1, ptr, s'))"

text \<open>The first line of a text, with its newline if it has one.\<close>

fun first_line :: "string \<Rightarrow> string" where
  "first_line [] = []"
| "first_line (c # cs) = (if c = nl then [c] else c # first_line cs)"

lemma length_first_line: "length (first_line b) \<le> length b"
  by (induction b) auto

text \<open>
  The contract: every character comes from the front of the pending ones, and \<open>Eof\<close> and \<open>Err\<close>
  come only when there are none left.
\<close>

locale char_source =
  fixes getc :: "'s \<Rightarrow> char_result \<times> 's"
    and ok :: "'s \<Rightarrow> bool"
    and pending :: "'s \<Rightarrow> string \<times> ending"
  assumes ok_getc: "ok s \<Longrightarrow> getc s = (x, s') \<Longrightarrow> ok s'"
    and getc_Char: "ok s \<Longrightarrow> getc s = (Char c, s') \<Longrightarrow> pending s = (c # fst (pending s'), snd (pending s'))"
    and getc_Eof: "ok s \<Longrightarrow> getc s = (Eof, s') \<Longrightarrow> pending s = ([], AtEof)"
    and getc_Err: "ok s \<Longrightarrow> getc s = (Err, s') \<Longrightarrow> pending s = ([], AtFailure)"
begin

text \<open>
  What the two loops do, in terms of the pending text \<open>b\<close>: with \<open>l\<close> the first line of its first
  \<open>k\<close> characters, \<open>l\<close> is stored, and unless the source ran dry it is gone from the source.
\<close>

lemma line_loop_spec:
  "ok s \<Longrightarrow> pending s = (b, e) \<Longrightarrow> line_loop getc k n ptr s = (r, out, s') \<Longrightarrow>
     (let l = first_line (take k b) in
       out = ptr @ l \<and> ok s'
     \<and> r = (if nl \<in> set l then int n + int (length l) - 1
            else if k \<le> length b then int n + int k
            else if e = AtEof then int n - 1 + int (length b) else -1)
     \<and> (nl \<in> set l \<or> k \<le> length b \<longrightarrow> pending s' = (drop (length l) b, e)))"
proof (induction k arbitrary: n ptr s b)
  case (Suc k)
  obtain x s1 where x: "getc s = (x, s1)" by (cases "getc s")
  show ?case
  proof (cases x)
    case (Char c)
    obtain b1 where b1: "pending s1 = (b1, e)" "b = c # b1"
      using getc_Char [OF Suc.prems(1) x [unfolded Char]] Suc.prems(2) by (cases "pending s1") auto
    have ok1: "ok s1" using ok_getc [OF Suc.prems(1) x] .
    show ?thesis
    proof (cases "c = nl")
      case True
      with Suc.prems x Char b1 ok1 show ?thesis by auto
    next
      case False
      with Suc.prems x Char have "line_loop getc k (n + 1) (ptr @ [c]) s1 = (r, out, s')" by simp
      from Suc.IH [OF ok1 b1(1) this] show ?thesis using False b1(2) by (auto simp: Let_def)
    qed
  next
    case Eof
    with Suc.prems x getc_Eof [of s s1] ok_getc [of s x s1] show ?thesis by auto
  next
    case Err
    with Suc.prems x getc_Err [of s s1] ok_getc [of s x s1] show ?thesis by auto
  qed
qed simp

text \<open>The loop of \<open>readline_r\<close> only differs in the value at the end of the file.\<close>

lemma line_loop_r_spec:
  "ok s \<Longrightarrow> pending s = (b, e) \<Longrightarrow> line_loop getc k n ptr s = (r, out, s') \<Longrightarrow> 1 \<le> n \<Longrightarrow>
     line_loop_r getc k n ptr s =
       (if nl \<notin> set (first_line (take k b)) \<and> length b < k \<and> e = AtEof \<and> n + length b \<noteq> 1
        then r + 1 else r, out, s')"
proof (induction k arbitrary: n ptr s b)
  case (Suc k)
  obtain x s1 where x: "getc s = (x, s1)" by (cases "getc s")
  show ?case
  proof (cases x)
    case (Char c)
    obtain b1 where b1: "pending s1 = (b1, e)" "b = c # b1"
      using getc_Char [OF Suc.prems(1) x [unfolded Char]] Suc.prems(2) by (cases "pending s1") auto
    have ok1: "ok s1" using ok_getc [OF Suc.prems(1) x] .
    show ?thesis
    proof (cases "c = nl")
      case True
      with Suc.prems x Char b1 ok1 show ?thesis by auto
    next
      case False
      with Suc.prems x Char have "line_loop getc k (n + 1) (ptr @ [c]) s1 = (r, out, s')" by simp
      from Suc.IH [OF ok1 b1(1) this] show ?thesis using Suc.prems(4) x Char False b1(2) by auto
    qed
  next
    case Eof
    with Suc.prems x getc_Eof [of s s1] show ?thesis by auto
  next
    case Err
    with Suc.prems x getc_Err [of s s1] show ?thesis by auto
  qed
qed simp

end

section \<open>The buffered source\<close>

text \<open>
  The counter, the buffer (only the bytes of the last \<open>read\<close>) and the pointer into it; static
  variables in one version, a record in the two others.
\<close>

record rline =
  rl_cnt :: int
  rl_buf :: string
  rl_ptr :: nat

text \<open>The label \<open>again\<close>: \<open>read\<close> until it is not interrupted; \<open>None\<close> is another error.\<close>

function read_again :: "kernel \<Rightarrow> int \<Rightarrow> string option \<times> kernel" where
  "read_again k fd =
     (case sys_read k fd 4096 of
        (Eintr, k') \<Rightarrow> read_again k' fd
      | (Eother, k') \<Rightarrow> (None, k')
      | (Got d, k') \<Rightarrow> (Some d, k'))"
  by pat_completeness auto
termination
  by (relation "measure (\<lambda>(k, fd). kernel_size k fd)") (auto intro: sys_read_size [OF sym])

declare read_again.simps [simp del]

definition take_char :: "'a rline_scheme \<times> kernel \<Rightarrow> char_result \<times> 'a rline_scheme \<times> kernel" where
  "take_char = (\<lambda>(r, k).
     (Char (rl_buf r ! rl_ptr r), r\<lparr>rl_cnt := rl_cnt r - 1, rl_ptr := Suc (rl_ptr r)\<rparr>, k))"

definition my_read :: "int \<Rightarrow> 'a rline_scheme \<times> kernel \<Rightarrow> char_result \<times> 'a rline_scheme \<times> kernel" where
  "my_read fd = (\<lambda>(r, k).
     if rl_cnt r \<le> 0 then
       (case read_again k fd of
          (None, k') \<Rightarrow> (Err, r\<lparr>rl_cnt := -1\<rparr>, k')
        | (Some d, k') \<Rightarrow>
            if d = [] then (Eof, r\<lparr>rl_cnt := 0\<rparr>, k')
            else take_char (r\<lparr>rl_cnt := int (length d), rl_buf := d, rl_ptr := 0\<rparr>, k'))
     else take_char (r, k))"

text \<open>\<open>readline\<close> with the static buffer, and \<open>readlinebuf\<close>.\<close>

definition readline :: "int \<Rightarrow> nat \<Rightarrow> rline \<times> kernel \<Rightarrow> int \<times> string \<times> rline \<times> kernel" where
  "readline fd maxlen s = line_loop (my_read fd) (maxlen - 1) 1 [] s"

definition readlinebuf :: "rline \<times> kernel \<Rightarrow> int \<times> string option" where
  "readlinebuf = (\<lambda>(r, k). (rl_cnt r, if rl_cnt r \<noteq> 0 then Some (drop (rl_ptr r) (rl_buf r)) else None))"

text \<open>\<open>readline\<close> with a buffer per thread, allocated (zeroed) at a thread's first call.\<close>

definition fresh_rline :: rline where
  "fresh_rline = \<lparr>rl_cnt = 0, rl_buf = [], rl_ptr = 0\<rparr>"

definition readline_tsd ::
    "nat \<Rightarrow> int \<Rightarrow> nat \<Rightarrow> (nat \<Rightarrow> rline option) \<times> kernel \<Rightarrow> int \<times> string \<times> (nat \<Rightarrow> rline option) \<times> kernel" where
  "readline_tsd thread fd maxlen = (\<lambda>(keys, k).
     let tsd = (case keys thread of None \<Rightarrow> fresh_rline | Some r \<Rightarrow> r) in
     case line_loop (my_read fd) (maxlen - 1) 1 [] (tsd, k) of
       (n, buf, tsd', k') \<Rightarrow> (n, buf, keys(thread \<mapsto> tsd'), k'))"

text \<open>\<open>readline_r\<close>: the caller's record also has the descriptor and the size.\<close>

record rline_r = rline +
  read_fd :: int
  read_maxlen :: nat


definition my_read_r :: "rline_r \<times> kernel \<Rightarrow> char_result \<times> rline_r \<times> kernel" where
  "my_read_r = (\<lambda>(r, k). my_read (read_fd r) (r, k))"

definition readline_r :: "rline_r \<times> kernel \<Rightarrow> int \<times> string \<times> rline_r \<times> kernel" where
  "readline_r = (\<lambda>(r, k). line_loop_r my_read_r (read_maxlen r - 1) 1 [] (r, k))"

section \<open>The contract holds for all of them\<close>

lemma read_again_spec:
  "read_again k fd = (x, k') \<Longrightarrow>
     (case x of
        None \<Rightarrow> stream (k fd) = ([], AtFailure)
      | Some d \<Rightarrow> (if d = [] then stream (k fd) = ([], AtEof)
                    else stream (k fd) = (d @ fst (stream (k' fd)), snd (stream (k' fd)))))
   \<and> (\<forall>fd'. fd' \<noteq> fd \<longrightarrow> k' fd' = k fd')"
proof (induction k fd arbitrary: x rule: read_again.induct)
  case (1 k fd)
  obtain y k1 where y: "sys_read k fd 4096 = (y, k1)" by (cases "sys_read k fd 4096")
  have other: "\<forall>fd'. fd' \<noteq> fd \<longrightarrow> k1 fd' = k fd'" using sys_read_other_fd [OF y] by blast
  show ?case
  proof (cases y)
    case (Got d)
    with "1.prems" y have "x = Some d" "k' = k1" by (auto simp: read_again.simps [of k fd])
    with sys_read_Got [OF y [unfolded Got]] other show ?thesis by auto
  next
    case Eintr
    with "1.prems" y have "read_again k1 fd = (x, k')" by (simp add: read_again.simps [of k fd])
    from "1.IH" [OF y [symmetric] Eintr this] other sys_read_Eintr [OF y [unfolded Eintr]]
    show ?thesis by (cases x) auto
  next
    case Eother
    with "1.prems" y have "x = None" "k' = k1" by (auto simp: read_again.simps [of k fd])
    with sys_read_Eother [OF y [unfolded Eother]] other show ?thesis by auto
  qed
qed

definition rl_ok :: "'a rline_scheme \<times> kernel \<Rightarrow> bool" where
  "rl_ok = (\<lambda>(r, k). rl_cnt r > 0 \<longrightarrow> rl_ptr r + nat (rl_cnt r) = length (rl_buf r))"

definition rl_pending :: "int \<Rightarrow> 'a rline_scheme \<times> kernel \<Rightarrow> string \<times> ending" where
  "rl_pending fd = (\<lambda>(r, k).
     ((if rl_cnt r > 0 then drop (rl_ptr r) (rl_buf r) else []) @ fst (stream (k fd)), snd (stream (k fd))))"

lemma take_char_spec:
  assumes "rl_ok (r, k)" and "0 < rl_cnt r"
  shows "\<exists>c r'. take_char (r, k) = (Char c, r', k) \<and> rl_ok (r', k)
    \<and> drop (rl_ptr r) (rl_buf r) = c # (if rl_cnt r' > 0 then drop (rl_ptr r') (rl_buf r') else [])
    \<and> rline.more r' = rline.more r"
proof -
  have lt: "rl_ptr r < length (rl_buf r)" using assms by (simp add: rl_ok_def)
  then have "drop (rl_ptr r) (rl_buf r) = rl_buf r ! rl_ptr r # drop (Suc (rl_ptr r)) (rl_buf r)"
    by (rule Cons_nth_drop_Suc [symmetric])
  with assms lt show ?thesis by (auto simp: take_char_def rl_ok_def nat_diff_distrib)
qed

lemma my_read_spec:
  assumes "rl_ok (r, k)" and "my_read fd (r, k) = (x, r', k')"
  shows "rl_ok (r', k') \<and> rline.more r' = rline.more r \<and> (\<forall>fd'. fd' \<noteq> fd \<longrightarrow> k' fd' = k fd')
    \<and> (case x of
         Char c \<Rightarrow> rl_pending fd (r, k) = (c # fst (rl_pending fd (r', k')), snd (rl_pending fd (r', k')))
       | Eof \<Rightarrow> rl_pending fd (r, k) = ([], AtEof)
       | Err \<Rightarrow> rl_pending fd (r, k) = ([], AtFailure))"
proof (cases "rl_cnt r \<le> 0")
  case False
  with take_char_spec [of r k] assms show ?thesis
    by (auto simp: my_read_def rl_pending_def)
next
  case True
  obtain y k1 where y: "read_again k fd = (y, k1)" by (cases "read_again k fd")
  note spec = read_again_spec [OF y]
  show ?thesis
  proof (cases "y = None \<or> y = Some []")
    case True
    with \<open>rl_cnt r \<le> 0\<close> spec assms y show ?thesis
      by (auto simp: my_read_def rl_pending_def rl_ok_def)
  next
    case False
    then obtain d where d: "y = Some d" "d \<noteq> []" by (cases y) auto
    let ?r = "r\<lparr>rl_cnt := int (length d), rl_buf := d, rl_ptr := 0\<rparr>"
    have "rl_ok (?r, k1)" by (simp add: rl_ok_def)
    moreover have "0 < rl_cnt ?r" using d by simp
    ultimately obtain c r1 where tc: "take_char (?r, k1) = (Char c, r1, k1)" "rl_ok (r1, k1)"
      "d = c # (if rl_cnt r1 > 0 then drop (rl_ptr r1) (rl_buf r1) else [])"
      "rline.more r1 = rline.more ?r" using take_char_spec [of ?r k1] by auto
    have "x = Char c" "r' = r1" "k' = k1" using tc(1) d y assms(2) True by (auto simp: my_read_def)
    moreover have "stream (k fd) = (d @ fst (stream (k1 fd)), snd (stream (k1 fd)))"
      using spec d by simp
    ultimately show ?thesis
      using tc True spec by (auto simp: rl_pending_def)
  qed
qed

lemma my_read_step:
  "rl_ok s \<Longrightarrow> my_read fd s = (x, s') \<Longrightarrow>
     rl_ok s' \<and> rline.more (fst s') = rline.more (fst s)
     \<and> (\<forall>fd'. fd' \<noteq> fd \<longrightarrow> snd s' fd' = snd s fd')
     \<and> (case x of
          Char c \<Rightarrow> rl_pending fd s = (c # fst (rl_pending fd s'), snd (rl_pending fd s'))
        | Eof \<Rightarrow> rl_pending fd s = ([], AtEof)
        | Err \<Rightarrow> rl_pending fd s = ([], AtFailure))"
  using my_read_spec [of "fst s" "snd s" fd x "fst s'" "snd s'"] by (cases x) simp_all

lemma my_read_ok: "rl_ok s \<Longrightarrow> my_read fd s = (x, s') \<Longrightarrow> rl_ok s'"
  by (drule (1) my_read_step) simp

lemma my_read_Char:
  "rl_ok s \<Longrightarrow> my_read fd s = (Char c, s') \<Longrightarrow>
     rl_pending fd s = (c # fst (rl_pending fd s'), snd (rl_pending fd s'))"
  by (drule (1) my_read_step) simp

lemma my_read_Eof: "rl_ok s \<Longrightarrow> my_read fd s = (Eof, s') \<Longrightarrow> rl_pending fd s = ([], AtEof)"
  by (drule (1) my_read_step) simp

lemma my_read_Err: "rl_ok s \<Longrightarrow> my_read fd s = (Err, s') \<Longrightarrow> rl_pending fd s = ([], AtFailure)"
  by (drule (1) my_read_step) simp

interpretation lib: char_source "my_read fd" rl_ok "rl_pending fd" for fd
  by unfold_locales (erule (1) my_read_ok my_read_Char my_read_Eof my_read_Err)+



section \<open>Properties\<close>

text \<open>
  \<open>readn\<close> delivers the stream unchanged: however the kernel cuts it into pieces and however
  often it interrupts, the buffer holds the first \<open>n\<close> bytes of the stream, or all of them when it
  ends before; the result is the number of bytes, or -1 when the stream ends with an error before
  \<open>n\<close> bytes; after \<open>n\<close> bytes the rest of the stream is still there, and no other descriptor is read.
\<close>

theorem readn_delivers:
  assumes "stream (k fd) = (b, e)" and "readn k fd n = (r, buf, k')"
  shows "buf = take n b
    \<and> r = (if n \<le> length b then int n else if e = AtEof then int (length b) else -1)
    \<and> (n \<le> length b \<longrightarrow> stream (k' fd) = (drop n b, e)) \<and> (\<forall>fd'. fd' \<noteq> fd \<longrightarrow> k' fd' = k fd')"
proof -
  obtain x buf' k'' where l: "readn_loop k fd n [] = (x, buf', k'')" by (cases "readn_loop k fd n []")
  from readn_loop_spec [OF assms(1) l] assms(2) l show ?thesis
    by (auto simp: readn_def split: if_splits option.splits)
qed

theorem readn_delivers_witness:
  "readn (\<lambda>_. [Data ''he'', Interrupt, Data ''llo'']) 3 4 = (4, ''hell'', (\<lambda>_. [Data ''he'', Interrupt, Data ''llo''])(3 := [Data ''o'']))
   \<and> stream (((\<lambda>_. [Data ''he'', Interrupt, Data ''llo''])(3 := [Data ''o''])) 3) = (''o'', AtEof)"
proof -
  let ?k = "\<lambda>_::int. [Data ''he'', Interrupt, Data ''llo'']"
  have r: "readn ?k 3 4 = (4, ''hell'', ?k(3 := [Data ''o'']))"
    by (simp add: readn_def readn_loop.simps sys_read_def)
  have s: "stream (?k 3) = (''hello'', AtEof)" by simp
  from readn_delivers [OF s r] r show ?thesis by simp
qed

text \<open>
  \<open>writen\<close> sends a prefix of the buffer, every byte once and in order, whatever partial writes
  and interrupts there are; it returns the length of the buffer exactly when all of it was sent,
  and -1 only when some of it was not.
\<close>

theorem writen_sends_all:
  "\<exists>n r. writen ws buf = (r, take n buf)
     \<and> (r = int (length buf) \<and> take n buf = buf \<or> r = -1 \<and> n < length buf)"
proof -
  obtain ok out where l: "writen_loop ws buf [] = (ok, out)" by (cases "writen_loop ws buf []")
  from writen_loop_spec [OF l] obtain n where n: "out = take n buf" "ok \<longrightarrow> out = buf" "\<not> ok \<longrightarrow> n < length buf"
    by auto
  show ?thesis
  proof (cases ok)
    case True
    with l n show ?thesis by (intro exI [of _ "length buf"] exI [of _ "int (length buf)"]) (simp add: writen_def)
  next
    case False
    with l n show ?thesis by (intro exI [of _ n] exI [of _ "-1"]) (simp add: writen_def)
  qed
qed

text \<open>
  C37: \<open>readline\<close> stores the first line of the stream, newline included, cut at \<open>maxlen - 1\<close>
  characters, and leaves the rest for the next call. Its result is the number of characters
  stored at a newline and at the end of the file, and -1 when the stream fails before that; but
  when the buffer fills up it is \<open>maxlen\<close>, one more than it stored.
\<close>

theorem readline_first_line:
  assumes "rl_ok s" and "1 \<le> maxlen" and "rl_pending fd s = (b, e)"
    and "readline fd maxlen s = (r, out, s')"
  shows "out = first_line (take (maxlen - 1) b)
    \<and> r = (if nl \<in> set out then int (length out)
           else if maxlen \<le> Suc (length b) then int (length out) + 1
           else if e = AtEof then int (length b) else -1)
    \<and> (nl \<in> set out \<or> maxlen \<le> Suc (length b) \<longrightarrow>
         rl_ok s' \<and> rl_pending fd s' = (drop (length out) b, e))"
proof -
  have full: "length (first_line x) = length x" if "nl \<notin> set (first_line x)" for x
    using that by (induction x) (auto split: if_splits)
  from lib.line_loop_spec [OF assms(1,3) assms(4) [unfolded readline_def]] assms(2) show ?thesis
    using full [of "take (maxlen - 1) b"] by (auto simp: Let_def)
qed

theorem readline_first_line_witness:
  "\<exists>s'. readline 3 4 (fresh_rline, \<lambda>_. [Data ''abcdef'']) = (4, ''abc'', s')
     \<and> rl_pending 3 s' = (''def'', AtEof)"
proof -
  let ?s = "(fresh_rline, \<lambda>_::int. [Data ''abcdef''])"
  obtain r out s' where rl: "readline 3 4 ?s = (r, out, s')" by (cases "readline 3 4 ?s")
  have "rl_ok ?s" "rl_pending 3 ?s = (''abcdef'', AtEof)"
    by (simp_all add: rl_ok_def fresh_rline_def rl_pending_def)
  from readline_first_line [OF this(1) _ this(2) rl] rl show ?thesis by auto
qed



text \<open>
  The static buffer of \<open>readline\<close> belongs to no descriptor: characters read ahead from one
  descriptor are delivered as the input of whatever descriptor is read next. The version with a
  buffer per thread keeps threads apart: a call changes no other thread's buffer.
\<close>

theorem readline_buffer_shared:
  assumes "rl_ok (rl, k)" and "0 < rl_cnt rl" and "first_line (drop (rl_ptr rl) (rl_buf rl)) = l"
    and "nl \<in> set l" and "length l < maxlen"
  shows "fst (snd (readline fd' maxlen (rl, k))) = l
    \<and> (thread' \<noteq> thread \<longrightarrow>
         fst (snd (snd (readline_tsd thread fd maxlen (keys, k)))) thread' = keys thread')"
proof -
  let ?b = "drop (rl_ptr rl) (rl_buf rl)"
  have app: "first_line (take m (x @ y)) = first_line x"
    if "nl \<in> set (first_line x)" "length (first_line x) \<le> m" for m x y
    using that
  proof (induction x arbitrary: m)
    case (Cons c x)
    then show ?case by (cases m) auto
  qed simp
  obtain r out s' where rl: "readline fd' maxlen (rl, k) = (r, out, s')"
    by (cases "readline fd' maxlen (rl, k)")
  have p: "rl_pending fd' (rl, k) = (?b @ fst (stream (k fd')), snd (stream (k fd')))"
    using assms(2) by (simp add: rl_pending_def)
  from lib.line_loop_spec [OF assms(1) p rl [unfolded readline_def]]
  have "out = first_line (take (maxlen - 1) (?b @ fst (stream (k fd'))))" by (simp add: Let_def)
  also have "\<dots> = l" using app [of ?b "maxlen - 1"] assms(3-5) by simp
  finally have "fst (snd (readline fd' maxlen (rl, k))) = l" using rl by simp
  moreover have "fst (snd (snd (readline_tsd thread fd maxlen (keys, k)))) thread' = keys thread'"
    if "thread' \<noteq> thread"
    using that by (simp add: readline_tsd_def Let_def split: prod.splits)
  ultimately show ?thesis by blast
qed

theorem readline_buffer_shared_witness:
  "fst (snd (readline 4 80 (\<lparr>rl_cnt = 3, rl_buf = ''a'' @ [nl] @ ''x'' @ [nl], rl_ptr = 1\<rparr>\<lparr>rl_ptr := 2, rl_cnt := 2\<rparr>,
      \<lambda>_. [Data ''other'']))) = ''x'' @ [nl]"
  using readline_buffer_shared [of "\<lparr>rl_cnt = 2, rl_buf = ''a'' @ [nl] @ ''x'' @ [nl], rl_ptr = 2\<rparr>"
      "\<lambda>_. [Data ''other'']" "''x'' @ [nl]" 80 4]
  by (simp add: rl_ok_def)

end
