(* ===== verification/SockAddr.thy ===== *)
theory SockAddr
  imports Inet6
begin

text \<open>
  Socket address structures and the protocol-independent functions on them: the files
  \<^verbatim>\<open>sock_ntop.c\<close>, \<^verbatim>\<open>sock_ntop_host.c\<close>, \<^verbatim>\<open>sock_cmp_addr.c\<close>, \<^verbatim>\<open>sock_cmp_port.c\<close>,
  \<^verbatim>\<open>sock_get_port.c\<close>, \<^verbatim>\<open>sock_set_addr.c\<close>, \<^verbatim>\<open>sock_set_port.c\<close>, \<^verbatim>\<open>sock_set_wild.c\<close>,
  \<^verbatim>\<open>sock_bind_wild.c\<close>, \<^verbatim>\<open>sockfd_to_family.c\<close> and \<^verbatim>\<open>family_to_level.c\<close> of \<^verbatim>\<open>unpv13e/lib\<close>.
\<close>

section \<open>Byte order of ports\<close>

text \<open>
  A port is kept as the 16-bit word that is in the structure, in network byte order. On the
  little-endian host the code is configured for \<open>htons\<close> and \<open>ntohs\<close> swap the two bytes.
\<close>

definition htons :: "16 word \<Rightarrow> 16 word" where
  "htons w = word_of_nat (unat w mod 256 * 256 + unat w div 256)"

abbreviation ntohs :: "16 word \<Rightarrow> 16 word" where
  "ntohs \<equiv> htons"

lemma unat_htons: "unat (htons w) = unat w mod 256 * 256 + unat w div 256"
proof -
  have "unat w div 256 < 256" using unat_lt_65536 [of w] by (simp add: less_mult_imp_div_less)
  moreover have "unat w mod 256 \<le> 255" using mod_less_divisor [of 256 "unat w"] by linarith
  ultimately have "unat w mod 256 * 256 + unat w div 256 < 65536" by linarith
  then show ?thesis by (simp only: htons_def unat_u16_of_nat)
qed

lemma htons_htons [simp]: "htons (htons w) = w"
proof -
  have d: "unat w div 256 < 256" using unat_lt_65536 [of w] by (simp add: less_mult_imp_div_less)
  then have "(unat w mod 256 * 256 + unat w div 256) mod 256 = unat w div 256"
    "(unat w mod 256 * 256 + unat w div 256) div 256 = unat w mod 256" by simp_all
  then show ?thesis by (subst htons_def) (simp only: unat_htons div_mult_mod_eq of_nat_unat, simp)
qed

lemma unat_htons_eq_iff: "unat (htons v) = unat (htons w) \<longleftrightarrow> v = w"
  by (metis htons_htons word_unat_eq_iff)

lemma uint_eq_iff: "uint (v :: 16 word) = uint w \<longleftrightarrow> v = w"
  by (simp add: word_uint_eq_iff)

lemma htons_eq_iff: "htons v = htons w \<longleftrightarrow> v = w"
  by (metis htons_htons)

section \<open>Socket addresses\<close>

text \<open>
  The structures, with the fields the functions use: port and address, path name, the data of a
  \<open>sockaddr_dl\<close> (index, name length, and the characters from \<open>sdl_data\<close> on), and any other family.
\<close>

datatype sockaddr =
    Sin "16 word" "byte list"
  | Sin6 "16 word" "byte list"
  | Sun string
  | Sdl nat nat string
  | SaOther int

definition AF_UNIX :: int where "AF_UNIX = 1"
definition AF_LINK :: int where "AF_LINK = 18"

fun sa_family :: "sockaddr \<Rightarrow> int" where
  "sa_family (Sin _ _) = AF_INET"
| "sa_family (Sin6 _ _) = AF_INET6"
| "sa_family (Sun _) = AF_UNIX"
| "sa_family (Sdl _ _ _) = AF_LINK"
| "sa_family (SaOther af) = af"

fun sa_valid :: "sockaddr \<Rightarrow> bool" where
  "sa_valid (Sin _ a) = (length a = 4)"
| "sa_valid (Sin6 _ a) = (length a = 16)"
| "sa_valid (Sun p) = (length p < 104 \<and> nul \<notin> set p)"
| "sa_valid (Sdl _ _ d) = (nul \<in> set d)"
| "sa_valid (SaOther af) = (af \<notin> {AF_INET, AF_INET6, AF_UNIX, AF_LINK})"

text \<open>\<open>%*s\<close>: the C string, padded with blanks on the left to the width.\<close>

definition padded :: "nat \<Rightarrow> string \<Rightarrow> string" where
  "padded w s = replicate (w - length s) CHR '' '' @ s"

definition lbracket :: char where "lbracket = CHR ''[''"
definition rbracket :: char where "rbracket = CHR '']''"

text \<open>
  \<open>sock_ntop\<close>: the text in its static array of 128 characters; the null pointer (an error of
  \<open>inet_ntop\<close>) is \<open>None\<close>. The strings made with \<open>strcat\<close> and \<open>strcpy\<close> have to fit.
\<close>

fun sock_ntop :: "sockaddr \<Rightarrow> nat \<Rightarrow> string option outcome" where
  "sock_ntop (Sin port addr) salen =
     bind_outcome (inet_ntop AF_INET addr 128) (\<lambda>r. case r of
       Inl _ \<Rightarrow> Ok None
     | Inr str \<Rightarrow>
         if ntohs port \<noteq> 0 then
           bind_outcome (sprintf_into 128 (str @ snprintf 8 (colon # dec (unat (ntohs port)))))
             (\<lambda>s. Ok (Some s))
         else Ok (Some str))"
| "sock_ntop (Sin6 port addr) salen =
     bind_outcome (inet_ntop AF_INET6 addr 127) (\<lambda>r. case r of
       Inl _ \<Rightarrow> Ok None
     | Inr str \<Rightarrow>
         if ntohs port \<noteq> 0 then
           bind_outcome (sprintf_into 128
               (lbracket # str @ snprintf 8 (rbracket # colon # dec (unat (ntohs port)))))
             (\<lambda>s. Ok (Some s))
         else Ok (Some str))"
| "sock_ntop (Sun path) salen =
     Ok (Some (if cstr path = [] then ''(no pathname bound)'' else snprintf 128 (cstr path)))"
| "sock_ntop (Sdl index nlen data) salen =
     (if nlen > 0 then
        (if nul \<in> set data
         then Ok (Some (snprintf 128 (padded nlen (cstr data) @ '' (index '' @ dec index @ '')'')))
         else Undefined)
      else Ok (Some (snprintf 128 (''AF_LINK, index='' @ dec index))))"
| "sock_ntop (SaOther af) salen =
     Ok (Some (snprintf 128 (''sock_ntop: unknown AF_xxx: '' @ dec_int af @ '', len '' @ dec salen)))"

fun sock_ntop_host :: "sockaddr \<Rightarrow> nat \<Rightarrow> string option outcome" where
  "sock_ntop_host (Sin port addr) salen =
     bind_outcome (inet_ntop AF_INET addr 128) (\<lambda>r. case r of Inl _ \<Rightarrow> Ok None | Inr s \<Rightarrow> Ok (Some s))"
| "sock_ntop_host (Sin6 port addr) salen =
     bind_outcome (inet_ntop AF_INET6 addr 128) (\<lambda>r. case r of Inl _ \<Rightarrow> Ok None | Inr s \<Rightarrow> Ok (Some s))"
| "sock_ntop_host (Sun path) salen =
     Ok (Some (if cstr path = [] then ''(no pathname bound)'' else snprintf 128 (cstr path)))"
| "sock_ntop_host (Sdl index nlen data) salen =
     (if nlen > 0 then
        (if nul \<in> set data then Ok (Some (snprintf 128 (padded nlen (cstr data)))) else Undefined)
      else Ok (Some (snprintf 128 (''AF_LINK, index='' @ dec index))))"
| "sock_ntop_host (SaOther af) salen =
     Ok (Some (snprintf 128 (''sock_ntop_host: unknown AF_xxx: '' @ dec_int af @ '', len '' @ dec salen)))"

section \<open>Comparing, reading and setting\<close>

text \<open>\<open>memcmp\<close> and \<open>strcmp\<close>: the sign of the first difference.\<close>

fun memcmp :: "byte list \<Rightarrow> byte list \<Rightarrow> int" where
  "memcmp (a # as) (b # bs) = (if a = b then memcmp as bs else if a < b then -1 else 1)"
| "memcmp _ _ = 0"

fun strcmp :: "string \<Rightarrow> string \<Rightarrow> int" where
  "strcmp [] [] = 0"
| "strcmp [] (_ # _) = -1"
| "strcmp (_ # _) [] = 1"
| "strcmp (a # as) (b # bs) =
     (if a = b then strcmp as bs else if (of_char a :: nat) < of_char b then -1 else 1)"

definition sock_cmp_addr :: "sockaddr \<Rightarrow> sockaddr \<Rightarrow> int" where
  "sock_cmp_addr sa1 sa2 =
     (if sa_family sa1 \<noteq> sa_family sa2 then -1
      else case (sa1, sa2) of
             (Sin _ a1, Sin _ a2) \<Rightarrow> memcmp a1 a2
           | (Sin6 _ a1, Sin6 _ a2) \<Rightarrow> memcmp a1 a2
           | (Sun p1, Sun p2) \<Rightarrow> strcmp (cstr p1) (cstr p2)
           | _ \<Rightarrow> -1)"

definition sock_cmp_port :: "sockaddr \<Rightarrow> sockaddr \<Rightarrow> int" where
  "sock_cmp_port sa1 sa2 =
     (if sa_family sa1 \<noteq> sa_family sa2 then -1
      else case (sa1, sa2) of
             (Sin p1 _, Sin p2 _) \<Rightarrow> (if p1 = p2 then 1 else 0)
           | (Sin6 p1 _, Sin6 p2 _) \<Rightarrow> (if p1 = p2 then 1 else 0)
           | _ \<Rightarrow> -1)"

fun sock_get_port :: "sockaddr \<Rightarrow> int" where
  "sock_get_port (Sin p _) = uint p"
| "sock_get_port (Sin6 p _) = uint p"
| "sock_get_port _ = -1"

fun sock_set_port :: "sockaddr \<Rightarrow> int \<Rightarrow> sockaddr" where
  "sock_set_port (Sin _ a) port = Sin (word_of_int port) a"
| "sock_set_port (Sin6 _ a) port = Sin6 (word_of_int port) a"
| "sock_set_port sa _ = sa"

fun sock_set_addr :: "sockaddr \<Rightarrow> byte list \<Rightarrow> sockaddr" where
  "sock_set_addr (Sin p _) addr = Sin p (take 4 addr)"
| "sock_set_addr (Sin6 p _) addr = Sin6 p (take 16 addr)"
| "sock_set_addr sa _ = sa"

definition sock_set_wild :: "sockaddr \<Rightarrow> sockaddr" where
  "sock_set_wild sa =
     (case sa of
        Sin _ _ \<Rightarrow> sock_set_addr sa (replicate 4 0)
      | Sin6 _ _ \<Rightarrow> sock_set_addr sa (replicate 16 0)
      | _ \<Rightarrow> sa)"

definition family_to_level :: "int \<Rightarrow> int" where
  "family_to_level family = (if family = AF_INET then 0 else if family = AF_INET6 then 41 else -1)"

text \<open>
  \<open>sockfd_to_family\<close> and \<open>sock_bind_wild\<close> with the kernel's \<open>bind\<close> and \<open>getsockname\<close> as
  parameters: \<open>bind\<close> yields the address the socket then has, or fails.
\<close>

definition sockfd_to_family :: "(int \<Rightarrow> sockaddr option) \<Rightarrow> int \<Rightarrow> int" where
  "sockfd_to_family getsockname sockfd =
     (case getsockname sockfd of None \<Rightarrow> -1 | Some ss \<Rightarrow> sa_family ss)"

definition sock_bind_wild ::
    "(int \<Rightarrow> sockaddr \<Rightarrow> (int \<Rightarrow> sockaddr option) option) \<Rightarrow> int \<Rightarrow> int \<Rightarrow> int" where
  "sock_bind_wild bind sockfd family =
     (let bound = (\<lambda>sa. case bind sockfd sa of
                          None \<Rightarrow> -1
                        | Some getsockname \<Rightarrow>
                            (case getsockname sockfd of None \<Rightarrow> -1 | Some sa' \<Rightarrow> sock_get_port sa'))
      in if family = AF_INET then bound (Sin 0 (replicate 4 0))
         else if family = AF_INET6 then bound (Sin6 0 (replicate 16 0))
         else -1)"

section \<open>The text of a socket address\<close>

declare sock_ntop.simps [simp del]

text \<open>The text \<open>sock_ntop\<close> makes of an Internet address and port (in host byte order).\<close>

definition endpoint4 :: "byte list \<Rightarrow> nat \<Rightarrow> string" where
  "endpoint4 a p = (if p = 0 then quad_text a else quad_text a @ colon # dec p)"

definition endpoint6 :: "byte list \<Rightarrow> nat \<Rightarrow> string" where
  "endpoint6 a p = (if p = 0 then ipv6_text a else lbracket # ipv6_text a @ rbracket # colon # dec p)"

lemma inet_ntop_v4: "length a = 4 \<Longrightarrow> 16 \<le> sz \<Longrightarrow> inet_ntop AF_INET a sz = Ok (Inr (quad_text a))"
  using quad.print_length [of a] by (simp add: inet_ntop_def inet_ntop4_def sprintf_into_def)

lemma inet_ntop_v6: "length a = 16 \<Longrightarrow> 46 \<le> sz \<Longrightarrow> inet_ntop AF_INET6 a sz = Ok (Inr (ipv6_text a))"
  using v6.print_length [of a]
  by (simp add: inet_ntop_def inet_ntop6_text AF_INET_def AF_INET6_def)

lemma port_zero_iff: "ntohs p = 0 \<longleftrightarrow> unat (ntohs p) = 0"
  by (simp add: unat_eq_0)

lemma sock_ntop_v4: "length a = 4 \<Longrightarrow> sock_ntop (Sin p a) salen = Ok (Some (endpoint4 a (unat (ntohs p))))"
  using quad.print_length [of a] length_dec_u16 [of "unat (ntohs p)"]
  by (simp add: sock_ntop.simps inet_ntop_v4 endpoint4_def sprintf_into_def port_zero_iff)

lemma sock_ntop_v6: "length a = 16 \<Longrightarrow> sock_ntop (Sin6 p a) salen = Ok (Some (endpoint6 a (unat (ntohs p))))"
  using v6.print_length [of a] length_dec_u16 [of "unat (ntohs p)"]
  by (simp add: sock_ntop.simps inet_ntop_v6 endpoint6_def sprintf_into_def port_zero_iff)

lemma set_join: "set (join sep ws) \<subseteq> insert sep (\<Union>w\<in>set ws. set w)"
  by (induction sep ws rule: join.induct) auto

lemma digit_colon_bracket: "\<not> isdigit colon" "hex_digit rbracket = None" "hex_digit lbracket = None"
  by (simp_all add: isdigit_def hex_digit_def rbracket_def lbracket_def)

lemma colon_notin_quad: "colon \<notin> set (quad_text a)"
  using set_join [of dot "map (\<lambda>i. dec (unat (a ! i))) [0..<4]"] dec_chars digit_colon_bracket(1)
  by (fastforce simp: quad_text_def)

lemma quad_text_chars: "c \<in> set (quad_text a) \<Longrightarrow> isdigit c \<or> c = dot"
  using set_join [of dot "map (\<lambda>i. dec (unat (a ! i))) [0..<4]"] dec_chars
  by (fastforce simp: quad_text_def)

lemma ipv6_text_chars:
  assumes "c \<in> set (ipv6_text a)"
  shows "hex_digit c \<noteq> None \<or> c = colon \<or> c = dot"
proof -
  have j: "hex_digit c \<noteq> None \<or> c = colon" if "c \<in> set (join colon (map hex ns))" for ns
    using that set_join [of colon "map hex ns"] hex_chars by fastforce
  have g: "hex_digit c \<noteq> None \<or> c = colon" if "c \<in> set (colon_groups ns)" for ns
    using that hex_chars [of c] by (auto split: if_splits)
  have q: "hex_digit c \<noteq> None \<or> c = dot" if "c \<in> set (quad_text b)" for b
    using quad_text_chars [OF that] by (auto simp: isdigit_def hex_digit_def)
  show ?thesis
    using assms j g q unfolding ipv6_text_def run_text_def
    by (fastforce simp: Let_def split: option.splits if_splits)
qed

lemma bracket_notin_ipv6: "rbracket \<notin> set (ipv6_text a)" "lbracket \<notin> set (ipv6_text a)"
  using ipv6_text_chars digit_colon_bracket by (force simp: rbracket_def lbracket_def)+

lemma split_at_char:
  "c \<notin> set x \<Longrightarrow> c \<notin> set y \<Longrightarrow> x @ c # u = y @ c # v \<longleftrightarrow> x = y \<and> u = v"
proof (induction x arbitrary: y)
  case (Cons d x)
  then show ?case by (cases y) auto
next
  case Nil
  then show ?case by (cases y) auto
qed

lemma endpoint4_inject:
  assumes "length a = 4" "length b = 4"
  shows "endpoint4 a p = endpoint4 b q \<longleftrightarrow> a = b \<and> p = q"
proof -
  have "quad_text a \<noteq> quad_text b @ colon # r" "quad_text a @ colon # r \<noteq> quad_text b" for r
    using colon_notin_quad [of a] colon_notin_quad [of b]
    by (metis in_set_conv_decomp)+
  then show ?thesis
    using split_at_char [OF colon_notin_quad colon_notin_quad] quad.print_inject [OF assms]
    by (auto simp: endpoint4_def)
qed

lemma endpoint6_inject:
  assumes "length a = 16" "length b = 16"
  shows "endpoint6 a p = endpoint6 b q \<longleftrightarrow> a = b \<and> p = q"
proof -
  have "ipv6_text x \<noteq> lbracket # r" "lbracket # r \<noteq> ipv6_text x" for r x
    using bracket_notin_ipv6(2) [of x] by (metis list.set_intros(1))+
  then show ?thesis
    using split_at_char [OF bracket_notin_ipv6(1) bracket_notin_ipv6(1)] v6.print_inject [OF assms]
    by (auto simp: endpoint6_def)
qed

lemma memcmp_0_iff: "length as = length bs \<Longrightarrow> memcmp as bs = 0 \<longleftrightarrow> as = bs"
  by (induction as bs rule: memcmp.induct) auto

lemma strcmp_0_iff: "strcmp s t = 0 \<longleftrightarrow> s = t"
  by (induction s t rule: strcmp.induct) auto

section \<open>Properties\<close>

text \<open>
  For every IPv4 and IPv6 address and port \<open>sock_ntop\<close> succeeds within its static buffer, and
  its text determines the endpoint: two addresses of one family have the same text exactly when
  they have the same address and the same port.
\<close>

theorem sock_ntop_determines_endpoint:
  assumes "sa_valid sa1" "sa_valid sa2" "sa_family sa1 = sa_family sa2"
    and "sa_family sa1 = AF_INET \<or> sa_family sa1 = AF_INET6"
  shows "is_ok (sock_ntop sa1 n) \<and> sock_ntop sa1 n \<noteq> Ok None
    \<and> (sock_ntop sa1 n = sock_ntop sa2 n \<longleftrightarrow> sa1 = sa2)"
proof -
  have fam: "AF_INET \<noteq> AF_INET6" by (simp add: AF_INET_def AF_INET6_def)
  consider p a q b where "sa1 = Sin p a" "sa2 = Sin q b" "length a = 4" "length b = 4"
    | p a q b where "sa1 = Sin6 p a" "sa2 = Sin6 q b" "length a = 16" "length b = 16"
    using assms by (cases sa1; cases sa2)
      (auto simp: AF_INET_def AF_INET6_def AF_UNIX_def AF_LINK_def)
  then show ?thesis
  proof cases
    case 1
    then show ?thesis by (simp add: sock_ntop_v4 endpoint4_inject unat_htons_eq_iff) auto
  next
    case 2
    then show ?thesis by (simp add: sock_ntop_v6 endpoint6_inject unat_htons_eq_iff) auto
  qed
qed

theorem sock_ntop_determines_endpoint_witness:
  "sock_ntop (Sin (htons 80) [10, 0, 0, 1]) 16 \<noteq> sock_ntop (Sin (htons 8080) [10, 0, 0, 1]) 16"
proof -
  have "Sin (htons 80) [10, 0, 0, 1] \<noteq> Sin (htons 8080) [10, 0, 0, 1]"
    by (simp add: htons_eq_iff)
  then show ?thesis
    using sock_ntop_determines_endpoint [of "Sin (htons 80) [10, 0, 0, 1]" "Sin (htons 8080) [10, 0, 0, 1]" 16]
    by simp
qed

text \<open>
  Setting and getting go together (the port in network byte order both times, other families
  unchanged), and the address comparison is 0 exactly for equal addresses; but the port comparison
  has the opposite sense: it is 1 for equal ports and 0 for different ones.
\<close>

theorem sock_accessors:
  assumes "sa_valid sa" "sa_valid sb" "sa_family sa = sa_family sb"
    and "sa_family sa = AF_INET \<or> sa_family sa = AF_INET6"
  shows "sock_get_port (sock_set_port sa port) = port mod 65536
    \<and> sock_cmp_addr (sock_set_port sa port) sa = 0
    \<and> sock_cmp_addr (sock_set_wild sa) (sock_set_wild sb) = 0
    \<and> (sock_cmp_addr sa sb = 0 \<longleftrightarrow> sock_set_port sa 0 = sock_set_port sb 0)
    \<and> sock_cmp_port sa sb = (if sock_get_port sa = sock_get_port sb then 1 else 0)"
proof -
  consider p a q b where "sa = Sin p a" "sb = Sin q b" "length a = 4" "length b = 4"
    | p a q b where "sa = Sin6 p a" "sb = Sin6 q b" "length a = 16" "length b = 16"
    using assms by (cases sa; cases sb)
      (auto simp: AF_INET_def AF_INET6_def AF_UNIX_def AF_LINK_def)
  then show ?thesis
    by cases (auto simp: sock_cmp_addr_def sock_cmp_port_def sock_set_wild_def memcmp_0_iff
        unsigned_of_int take_bit_eq_mod uint_eq_iff)
qed

theorem sock_accessors_witness:
  "sock_cmp_port (Sin 1 [10, 0, 0, 1]) (Sin 1 [10, 0, 0, 2]) = 1
   \<and> sock_cmp_addr (Sin 1 [10, 0, 0, 1]) (Sin 1 [10, 0, 0, 2]) \<noteq> 0"
  using sock_accessors [of "Sin 1 [10, 0, 0, 1]" "Sin 1 [10, 0, 0, 2]" 0] by simp

end
