(* ===== verification/AddrInfo.thy ===== *)
theory AddrInfo
  imports SockAddr
begin

text \<open>
  Protocol-independent name and service lookup, \<^verbatim>\<open>unpv13e/libgai\<close>: \<open>getaddrinfo\<close> with its helpers
  (\<^verbatim>\<open>getaddrinfo.c\<close>, \<^verbatim>\<open>ga_aistruct.c\<close>, \<^verbatim>\<open>ga_clone.c\<close>, \<^verbatim>\<open>ga_echeck.c\<close>, \<^verbatim>\<open>ga_nsearch.c\<close>,
  \<^verbatim>\<open>ga_port.c\<close>, \<^verbatim>\<open>ga_serv.c\<close>, \<^verbatim>\<open>ga_unix.c\<close>) and \<open>getnameinfo\<close> (\<^verbatim>\<open>getnameinfo.c\<close>,
  \<^verbatim>\<open>gn_ipv46.c\<close>). The resolver (\<open>gethostbyname\<close>, \<open>gethostbyname2\<close>, \<open>gethostbyaddr\<close>,
  \<open>getservbyname\<close>, \<open>getservbyport\<close>) and \<open>uname\<close> are parameters; allocation never fails. The
  linked list of \<open>addrinfo\<close> structures is a list.
\<close>

section \<open>Constants and structures\<close>

datatype eai = EAI_ADDRFAMILY | EAI_AGAIN | EAI_BADFLAGS | EAI_FAIL | EAI_FAMILY | EAI_MEMORY
  | EAI_NODATA | EAI_NONAME | EAI_SERVICE | EAI_SOCKTYPE | EAI_SYSTEM

definition gai_strerror :: "eai \<Rightarrow> string" where
  "gai_strerror err = (case err of
       EAI_ADDRFAMILY \<Rightarrow> ''address family for host not supported''
     | EAI_AGAIN \<Rightarrow> ''temporary failure in name resolution''
     | EAI_BADFLAGS \<Rightarrow> ''invalid flags value''
     | EAI_FAIL \<Rightarrow> ''non-recoverable failure in name resolution''
     | EAI_FAMILY \<Rightarrow> ''address family not supported''
     | EAI_MEMORY \<Rightarrow> ''memory allocation failure''
     | EAI_NODATA \<Rightarrow> ''no address associated with host''
     | EAI_NONAME \<Rightarrow> ''host nor service provided, or not known''
     | EAI_SERVICE \<Rightarrow> ''service not supported for socket type''
     | EAI_SOCKTYPE \<Rightarrow> ''socket type not supported''
     | EAI_SYSTEM \<Rightarrow> ''system error'')"

definition AF_UNSPEC :: int where "AF_UNSPEC = 0"
definition SOCK_STREAM :: int where "SOCK_STREAM = 1"
definition SOCK_DGRAM :: int where "SOCK_DGRAM = 2"
definition SOCK_RAW :: int where "SOCK_RAW = 3"

type_synonym flags = "32 word"

definition AI_PASSIVE :: flags where "AI_PASSIVE = 1"
definition AI_CANONNAME :: flags where "AI_CANONNAME = 2"
definition AI_CLONE :: flags where "AI_CLONE = 4"
definition NI_NOFQDN :: flags where "NI_NOFQDN = 1"
definition NI_NUMERICHOST :: flags where "NI_NUMERICHOST = 2"
definition NI_NAMEREQD :: flags where "NI_NAMEREQD = 4"
definition NI_NUMERICSERV :: flags where "NI_NUMERICSERV = 8"
definition NI_DGRAM :: flags where "NI_DGRAM = 16"

definition has :: "flags \<Rightarrow> flags \<Rightarrow> bool" where
  "has fs f \<longleftrightarrow> and fs f \<noteq> 0"

record addrinfo =
  ai_flags :: flags
  ai_family :: int
  ai_socktype :: int
  ai_protocol :: int
  ai_addrlen :: nat
  ai_canonname :: "string option"
  ai_addr :: "sockaddr option"

record hints =
  h_flags :: flags
  h_family :: int
  h_socktype :: int
  h_protocol :: int

definition no_hints :: hints where
  "no_hints = \<lparr>h_flags = 0, h_family = AF_UNSPEC, h_socktype = 0, h_protocol = 0\<rparr>"

text \<open>The argument \<open>addr\<close> of \<open>ga_aistruct\<close>: the bytes of an address, or a path.\<close>

datatype host_addr = Bytes "byte list" | Path string

text \<open>The state of \<open>getaddrinfo\<close>: the list so far, and the paths that were unlinked.\<close>

type_synonym ai_state = "addrinfo list \<times> string list"

definition ga_aistruct :: "ai_state \<Rightarrow> hints \<Rightarrow> host_addr \<Rightarrow> int \<Rightarrow> eai + ai_state" where
  "ga_aistruct st hintsp addr family =
     (let (ais, unlinked) = st;
          ai = \<lparr>ai_flags = (if h_socktype hintsp = 0 then AI_CLONE else 0), ai_family = family,
                ai_socktype = h_socktype hintsp, ai_protocol = h_protocol hintsp, ai_addrlen = 0,
                ai_canonname = None, ai_addr = None\<rparr>
      in if family = AF_INET then
           (case addr of
              Bytes a \<Rightarrow> Inr (ais @ [ai\<lparr>ai_addr := Some (Sin 0 (take 4 a)), ai_addrlen := 16\<rparr>], unlinked)
            | Path _ \<Rightarrow> Inr (ais @ [ai], unlinked))
         else if family = AF_INET6 then
           (case addr of
              Bytes a \<Rightarrow> Inr (ais @ [ai\<lparr>ai_addr := Some (Sin6 0 (take 16 a)), ai_addrlen := 28\<rparr>], unlinked)
            | Path _ \<Rightarrow> Inr (ais @ [ai], unlinked))
         else if family = AF_UNIX then
           (case addr of
              Path p \<Rightarrow>
                if length p \<ge> 104 then Inl EAI_SERVICE
                else Inr (ais @ [ai\<lparr>ai_addr := Some (Sun p), ai_addrlen := 106\<rparr>],
                          if has (h_flags hintsp) AI_PASSIVE then unlinked @ [p] else unlinked)
            | Bytes _ \<Rightarrow> Inr (ais @ [ai], unlinked))
         else Inr (ais @ [ai], unlinked))"

definition ga_clone :: "addrinfo \<Rightarrow> addrinfo" where
  "ga_clone ai = ai\<lparr>ai_flags := 0, ai_canonname := None\<rparr>"

section \<open>Checks and searches\<close>

abbreviation empty :: "string option \<Rightarrow> bool" where
  "empty s \<equiv> s = None \<or> s = Some []"

definition ga_echeck :: "string option \<Rightarrow> string option \<Rightarrow> flags \<Rightarrow> int \<Rightarrow> int \<Rightarrow> eai option" where
  "ga_echeck hostname servname fs family socktype =
     (if and fs (not (or AI_PASSIVE AI_CANONNAME)) \<noteq> 0 then Some EAI_BADFLAGS
      else if empty hostname \<and> empty servname then Some EAI_NONAME
      else if family = AF_UNSPEC then None
      else if family = AF_INET \<or> family = AF_INET6 then
        (if socktype \<noteq> 0 \<and> socktype \<noteq> SOCK_STREAM \<and> socktype \<noteq> SOCK_DGRAM \<and> socktype \<noteq> SOCK_RAW
         then Some EAI_SOCKTYPE else None)
      else if family = AF_UNIX then
        (if socktype \<noteq> 0 \<and> socktype \<noteq> SOCK_STREAM \<and> socktype \<noteq> SOCK_DGRAM
         then Some EAI_SOCKTYPE else None)
      else Some EAI_FAMILY)"

text \<open>
  \<open>ga_nsearch\<close>: the pairs of host and family to look up, or \<open>None\<close> when it ends the process
  (\<open>err_quit\<close>), since the list is empty.
\<close>

definition searches_for :: "int \<Rightarrow> string \<Rightarrow> string \<Rightarrow> (string \<times> int) list" where
  "searches_for family host4 host6 =
     (if family = AF_INET then [(host4, AF_INET)]
      else if family = AF_INET6 then [(host6, AF_INET6)]
      else if family = AF_UNSPEC then [(host6, AF_INET6), (host4, AF_INET)]
      else [])"

definition ga_nsearch :: "string option \<Rightarrow> hints \<Rightarrow> (string \<times> int) list option" where
  "ga_nsearch hostname hintsp =
     (let search =
        (if empty hostname then
           (if has (h_flags hintsp) AI_PASSIVE then searches_for (h_family hintsp) ''0.0.0.0'' ''0::0''
            else searches_for (h_family hintsp) ''localhost'' ''0::1'')
         else searches_for (h_family hintsp) (the hostname) (the hostname))
      in if length search < 1 \<or> length search > 2 then None else Some search)"

section \<open>Ports and services\<close>

definition set_ai_port :: "addrinfo \<Rightarrow> 16 word \<Rightarrow> addrinfo" where
  "set_ai_port ai port = ai\<lparr>ai_addr := map_option (\<lambda>sa. sock_set_port sa (uint port)) (ai_addr ai)\<rparr>"

definition inet_family :: "addrinfo \<Rightarrow> bool" where
  "inet_family ai \<longleftrightarrow> ai_family ai = AF_INET \<or> ai_family ai = AF_INET6"

text \<open>What \<open>ga_port\<close> does to the entry it works on, the original or the clone.\<close>

definition fill_port :: "addrinfo \<Rightarrow> 16 word \<Rightarrow> int \<Rightarrow> addrinfo" where
  "fill_port ai port socktype =
     (let ai' = ai\<lparr>ai_socktype := socktype\<rparr> in if inet_family ai' then set_ai_port ai' port else ai')"

fun ga_port :: "addrinfo list \<Rightarrow> 16 word \<Rightarrow> int \<Rightarrow> nat \<times> addrinfo list" where
  "ga_port [] port socktype = (0, [])"
| "ga_port (ai # rest) port socktype =
     (let (n, rest') = ga_port rest port socktype;
          found = (if inet_family ai then Suc n else n)
      in if has (ai_flags ai) AI_CLONE then
           (if ai_socktype ai \<noteq> 0 then (found, ai # fill_port (ga_clone ai) port socktype # rest')
            else (found, fill_port ai port socktype # rest'))
         else if ai_socktype ai \<noteq> socktype then (n, ai # rest')
         else (found, fill_port ai port socktype # rest'))"

definition try_port :: "16 word option \<Rightarrow> int \<Rightarrow> nat \<times> addrinfo list \<Rightarrow> nat \<times> addrinfo list" where
  "try_port port socktype st =
     (case port of
        None \<Rightarrow> st
      | Some p \<Rightarrow> (let (rc, ais) = ga_port (snd st) p socktype in (fst st + rc, ais)))"

text \<open>\<open>ga_serv\<close>; \<open>getservbyname\<close> yields the port in network byte order.\<close>

definition ga_serv ::
    "(string \<Rightarrow> string \<Rightarrow> 16 word option) \<Rightarrow> addrinfo list \<Rightarrow> hints \<Rightarrow> string \<Rightarrow> eai + addrinfo list" where
  "ga_serv getservbyname ais hintsp serv =
     (let (nfound, ais') =
        (if isdigit (hd serv) then
           let port = Some (htons (word_of_int (atoi serv))) in
           if h_socktype hintsp \<noteq> 0 then try_port port (h_socktype hintsp) (0, ais)
           else try_port port SOCK_DGRAM (try_port port SOCK_STREAM (0, ais))
         else
           let st1 = (if h_socktype hintsp = 0 \<or> h_socktype hintsp = SOCK_STREAM
                      then try_port (getservbyname serv ''tcp'') SOCK_STREAM (0, ais) else (0, ais))
           in if h_socktype hintsp = 0 \<or> h_socktype hintsp = SOCK_DGRAM
              then try_port (getservbyname serv ''udp'') SOCK_DGRAM st1 else st1)
      in if nfound = 0 then Inl (if h_socktype hintsp = 0 then EAI_NONAME else EAI_SERVICE)
         else Inr ais')"

section \<open>Unix domain\<close>

datatype gai_result = Failed_with eai | Found "addrinfo list" | Exits

definition set_canon :: "string option \<Rightarrow> addrinfo list \<Rightarrow> addrinfo list" where
  "set_canon name ais = (case ais of [] \<Rightarrow> [] | ai # rest \<Rightarrow> ai\<lparr>ai_canonname := name\<rparr> # rest)"

text \<open>\<open>ga_unix\<close>, with the node name \<open>uname\<close> gives; also the paths it unlinked.\<close>

definition ga_unix :: "string option \<Rightarrow> string \<Rightarrow> hints \<Rightarrow> gai_result \<times> string list" where
  "ga_unix uname path hintsp =
     (if h_family hintsp \<noteq> AF_UNSPEC \<and> h_family hintsp \<noteq> AF_UNIX then (Failed_with EAI_ADDRFAMILY, [])
      else
        let finish = (\<lambda>hs st.
              case ga_aistruct st hs (Path path) AF_UNIX of
                Inl e \<Rightarrow> (Failed_with e, snd st)
              | Inr (ais, unlinked) \<Rightarrow>
                  if has (h_flags hs) AI_CANONNAME then
                    (case uname of
                       None \<Rightarrow> (Failed_with EAI_SYSTEM, unlinked)
                     | Some nodename \<Rightarrow> (Found (set_canon (Some nodename) ais), unlinked))
                  else (Found ais, unlinked))
        in if h_socktype hintsp = 0 then
             (case ga_aistruct ([], []) (hintsp\<lparr>h_socktype := SOCK_STREAM\<rparr>) (Path path) AF_UNIX of
                Inl e \<Rightarrow> (Failed_with e, [])
              | Inr st \<Rightarrow> finish (hintsp\<lparr>h_socktype := SOCK_DGRAM\<rparr>) st)
           else finish hintsp ([], []))"

section \<open>getaddrinfo\<close>

datatype herror = HOST_NOT_FOUND | TRY_AGAIN | NO_RECOVERY | NO_DATA | OTHER_HERROR

record hostent =
  he_name :: string
  he_addrtype :: int
  he_addr_list :: "byte list list"

text \<open>
  The resolver: \<open>gethostbyname\<close> with the state of the option \<open>RES_USE_INET6\<close>, and
  \<open>gethostbyname2\<close>, which is always called with that option off.
\<close>

record resolver =
  gethostbyname :: "bool \<Rightarrow> string \<Rightarrow> herror + hostent"
  gethostbyname2 :: "string \<Rightarrow> int \<Rightarrow> herror + hostent"
  getservbyname :: "string \<Rightarrow> string \<Rightarrow> 16 word option"
  gethostbyaddr :: "byte list \<Rightarrow> int \<Rightarrow> string option"
  getservbyport :: "16 word \<Rightarrow> string option \<Rightarrow> string option"
  nodename :: "string option"

definition of_herror :: "herror \<Rightarrow> eai" where
  "of_herror e = (case e of
       HOST_NOT_FOUND \<Rightarrow> EAI_NONAME | TRY_AGAIN \<Rightarrow> EAI_AGAIN | NO_RECOVERY \<Rightarrow> EAI_FAIL
     | NO_DATA \<Rightarrow> EAI_NODATA | OTHER_HERROR \<Rightarrow> EAI_NONAME)"

text \<open>A numeric address: one entry, or an error when the caller wants another family.\<close>

definition numeric_entry ::
    "hints \<Rightarrow> int \<Rightarrow> int \<Rightarrow> byte list \<Rightarrow> addrinfo list \<Rightarrow> eai + addrinfo list" where
  "numeric_entry hs family sfamily a ais =
     (if h_family hs \<noteq> AF_UNSPEC \<and> h_family hs \<noteq> family then Inl EAI_ADDRFAMILY
      else if sfamily \<noteq> family then Inr ais
      else case ga_aistruct (ais, []) hs (Bytes a) family of Inl e \<Rightarrow> Inl e | Inr (ais', _) \<Rightarrow> Inr ais')"

fun add_entries :: "hints \<Rightarrow> int \<Rightarrow> byte list list \<Rightarrow> addrinfo list \<Rightarrow> eai + addrinfo list" where
  "add_entries hs family [] ais = Inr ais"
| "add_entries hs family (ap # aps) ais =
     (case ga_aistruct (ais, []) hs (Bytes ap) family of
        Inl e \<Rightarrow> Inl e
      | Inr (ais', _) \<Rightarrow> add_entries hs family aps ais')"

text \<open>One round of the search loop; \<open>canon\<close> is the canonical name saved so far.\<close>

definition search_one ::
    "resolver \<Rightarrow> string option \<Rightarrow> hints \<Rightarrow> nat \<Rightarrow> string \<times> int \<Rightarrow> addrinfo list \<times> string option
     \<Rightarrow> eai + (addrinfo list \<times> string option)" where
  "search_one rs hostname hs nsearch sptr st =
     (let (host, family) = sptr; (ais, canon) = st;
          keep = (\<lambda>r. case r of Inl e \<Rightarrow> Inl e | Inr ais' \<Rightarrow> Inr (ais', canon))
      in if isdigit (hd host) \<and> pton_status (inet_pton AF_INET host) = 1 then
           (case inet_pton AF_INET host of
              Valid a \<Rightarrow> keep (numeric_entry hs AF_INET family a ais) | _ \<Rightarrow> Inr st)
         else if (hex_digit (hd host) \<noteq> None \<or> hd host = colon) \<and> colon \<in> set host
                 \<and> pton_status (inet_pton AF_INET6 host) = 1 then
           (case inet_pton AF_INET6 host of
              Valid a \<Rightarrow> keep (numeric_entry hs AF_INET6 family a ais) | _ \<Rightarrow> Inr st)
         else
           (case (if nsearch = 2 then gethostbyname2 rs host family
                  else gethostbyname rs (family = AF_INET6) host) of
              Inl e \<Rightarrow> if nsearch = 2 then Inr st else Inl (of_herror e)
            | Inr hptr \<Rightarrow>
                if h_family hs \<noteq> AF_UNSPEC \<and> h_family hs \<noteq> he_addrtype hptr then Inl EAI_ADDRFAMILY
                else
                  let canon' = (if \<not> empty hostname \<and> has (h_flags hs) AI_CANONNAME \<and> canon = None
                                then Some (he_name hptr) else canon)
                  in (case add_entries hs (he_addrtype hptr) (he_addr_list hptr) ais of
                        Inl e \<Rightarrow> Inl e
                      | Inr ais' \<Rightarrow> Inr (ais', canon'))))"

fun search_all ::
    "resolver \<Rightarrow> string option \<Rightarrow> hints \<Rightarrow> nat \<Rightarrow> (string \<times> int) list \<Rightarrow> addrinfo list \<times> string option
     \<Rightarrow> eai + (addrinfo list \<times> string option)" where
  "search_all rs hostname hs nsearch [] st = Inr st"
| "search_all rs hostname hs nsearch (sptr # sptrs) st =
     (case search_one rs hostname hs nsearch sptr st of
        Inl e \<Rightarrow> Inl e
      | Inr st' \<Rightarrow> search_all rs hostname hs nsearch sptrs st')"

definition getaddrinfo ::
    "resolver \<Rightarrow> string option \<Rightarrow> string option \<Rightarrow> hints option \<Rightarrow> gai_result \<times> string list" where
  "getaddrinfo rs hostname servname hintsp =
     (let hs = (case hintsp of None \<Rightarrow> no_hints | Some h \<Rightarrow> h) in
      case ga_echeck hostname servname (h_flags hs) (h_family hs) (h_socktype hs) of
        Some e \<Rightarrow> (Failed_with e, [])
      | None \<Rightarrow>
          if (hostname = Some ''/local'' \<or> hostname = Some ''/unix'')
             \<and> \<not> empty servname \<and> hd (the servname) = CHR ''/''
          then ga_unix (nodename rs) (the servname) hs
          else (case ga_nsearch hostname hs of
                  None \<Rightarrow> (Exits, [])
                | Some search \<Rightarrow>
                    ((case search_all rs hostname hs (length search) search ([], None) of
                        Inl e \<Rightarrow> Failed_with e
                      | Inr (ais, canon) \<Rightarrow>
                          if ais = [] then Failed_with EAI_NONAME
                          else
                            let ais1 = (if \<not> empty hostname \<and> has (h_flags hs) AI_CANONNAME
                                        then set_canon (if canon \<noteq> None then canon
                                                        else Some (fst (hd search))) ais
                                        else ais)
                            in if \<not> empty servname then
                                 (case ga_serv (getservbyname rs) ais1 hs (the servname) of
                                    Inl e \<Rightarrow> Failed_with e
                                  | Inr ais2 \<Rightarrow> Found ais2)
                               else Found ais1), [])))"

section \<open>getnameinfo\<close>

text \<open>The result is the value returned and the two strings; a size of 0 leaves its string alone.\<close>

definition gn_ipv46 ::
    "resolver \<Rightarrow> nat \<Rightarrow> nat \<Rightarrow> byte list \<Rightarrow> int \<Rightarrow> 16 word \<Rightarrow> flags
     \<Rightarrow> (int \<times> string option \<times> string option) outcome" where
  "gn_ipv46 rs hostlen servlen aptr family port fs =
     (let numeric = (\<lambda>_::unit. bind_outcome (inet_ntop family aptr hostlen) (\<lambda>r. case r of
            Inl _ \<Rightarrow> Ok None | Inr h \<Rightarrow> Ok (Some (Some h))));
          service = (if servlen > 0 then
              Some (snprintf servlen
                (if has fs NI_NUMERICSERV then dec (unat (ntohs port))
                 else case getservbyport rs port (if has fs NI_DGRAM then Some ''udp'' else None) of
                        Some s \<Rightarrow> s
                      | None \<Rightarrow> dec (unat (ntohs port))))
            else None)
      in bind_outcome
           (if hostlen > 0 then
              (if has fs NI_NUMERICHOST then numeric ()
               else case gethostbyaddr rs aptr family of
                      Some name \<Rightarrow>
                        Ok (Some (Some (snprintf hostlen
                          (if has fs NI_NOFQDN then takeWhile (\<lambda>c. c \<noteq> dot) name else name))))
                    | None \<Rightarrow> if has fs NI_NAMEREQD then Ok None else numeric ())
            else Ok (Some None))
           (\<lambda>host. case host of
              None \<Rightarrow> Ok (1, None, None)
            | Some h \<Rightarrow> Ok (0, h, service)))"

definition getnameinfo ::
    "resolver \<Rightarrow> sockaddr \<Rightarrow> nat \<Rightarrow> nat \<Rightarrow> flags \<Rightarrow> (int \<times> string option \<times> string option) outcome" where
  "getnameinfo rs sa hostlen servlen fs =
     (case sa of
        Sin port a \<Rightarrow> gn_ipv46 rs hostlen servlen a AF_INET port fs
      | Sin6 port a \<Rightarrow> gn_ipv46 rs hostlen servlen a AF_INET6 port fs
      | Sun path \<Rightarrow> Ok (0, if hostlen > 0 then Some (snprintf hostlen ''/local'') else None,
                         if servlen > 0 then Some (snprintf servlen (cstr path)) else None)
      | _ \<Rightarrow> Ok (1, None, None))"

section \<open>What the entries of a result have in common\<close>

lemma AF_distinct [simp]:
  "AF_INET \<noteq> AF_INET6" "AF_INET6 \<noteq> AF_INET" "AF_UNIX \<noteq> AF_INET" "AF_UNIX \<noteq> AF_INET6"
  "AF_INET \<noteq> AF_UNIX" "AF_INET6 \<noteq> AF_UNIX" "AF_INET \<noteq> AF_UNSPEC" "AF_INET6 \<noteq> AF_UNSPEC"
  "AF_UNIX \<noteq> AF_UNSPEC" "AF_UNSPEC \<noteq> AF_UNIX" "AF_UNSPEC \<noteq> AF_INET" "AF_UNSPEC \<noteq> AF_INET6"
  by (simp_all add: AF_INET_def AF_INET6_def AF_UNIX_def AF_UNSPEC_def)

text \<open>An entry is one the caller asked for.\<close>

definition asked_for :: "hints \<Rightarrow> addrinfo \<Rightarrow> bool" where
  "asked_for hs ai \<longleftrightarrow> (h_family hs \<noteq> AF_UNSPEC \<longrightarrow> ai_family ai = h_family hs)
     \<and> (h_socktype hs \<noteq> 0 \<longrightarrow> ai_socktype ai = h_socktype hs)"

lemma ga_aistruct_asked:
  assumes "ga_aistruct (ais, un) hs addr family = Inr (ais', un')"
    and "\<forall>ai\<in>set ais. asked_for hs ai" and "h_family hs \<noteq> AF_UNSPEC \<longrightarrow> family = h_family hs"
  shows "\<forall>ai\<in>set ais'. asked_for hs ai"
  using assms by (auto simp: ga_aistruct_def Let_def asked_for_def split: if_splits host_addr.splits)

lemma add_entries_asked:
  "add_entries hs family aps ais = Inr ais' \<Longrightarrow> \<forall>ai\<in>set ais. asked_for hs ai \<Longrightarrow>
     (h_family hs \<noteq> AF_UNSPEC \<longrightarrow> family = h_family hs) \<Longrightarrow> \<forall>ai\<in>set ais'. asked_for hs ai"
proof (induction aps arbitrary: ais)
  case (Cons ap aps)
  then obtain ais1 un where 1: "ga_aistruct (ais, []) hs (Bytes ap) family = Inr (ais1, un)"
    and 2: "add_entries hs family aps ais1 = Inr ais'" by (auto split: sum.splits)
  have "\<forall>ai\<in>set ais1. asked_for hs ai" by (rule ga_aistruct_asked [OF 1 Cons.prems(2,3)])
  from Cons.IH [OF 2 this Cons.prems(3)] show ?case .
qed simp

lemma numeric_entry_asked:
  "numeric_entry hs family sfamily a ais = Inr ais' \<Longrightarrow> \<forall>ai\<in>set ais. asked_for hs ai \<Longrightarrow>
     \<forall>ai\<in>set ais'. asked_for hs ai"
  using ga_aistruct_asked [of ais "[]" hs "Bytes a" family ais']
  by (auto simp: numeric_entry_def split: if_splits sum.splits)

lemma keep_asked:
  "(case r of Inl e \<Rightarrow> Inl e | Inr ais' \<Rightarrow> Inr (ais', canon)) = Inr (ais1, canon1) \<Longrightarrow> r = Inr ais1"
  by (cases r) auto

lemma search_one_asked:
  assumes one: "search_one rs hostname hs n (host, family) (ais, canon) = Inr (ais', canon')"
    and ais: "\<forall>ai\<in>set ais. asked_for hs ai"
  shows "\<forall>ai\<in>set ais'. asked_for hs ai"
proof -
  consider a where "numeric_entry hs AF_INET family a ais = Inr ais'"
    | a where "numeric_entry hs AF_INET6 family a ais = Inr ais'"
    | "ais' = ais"
    | t aps where "add_entries hs t aps ais = Inr ais'" "h_family hs \<noteq> AF_UNSPEC \<longrightarrow> t = h_family hs"
  proof (cases "isdigit (hd host) \<and> pton_status (inet_pton AF_INET host) = 1")
    case True
    then obtain a where "inet_pton AF_INET host = Valid a"
      by (auto simp: pton_status_def split: pton_result.splits)
    moreover from True have c4: "(isdigit (hd host) \<and> pton_status (inet_pton AF_INET host) = 1) = True"
      by simp
    ultimately have "numeric_entry hs AF_INET family a ais = Inr ais'"
      using one unfolding search_one_def Let_def prod.case c4 if_True
      by (simp only: pton_result.case) (erule keep_asked)
    then show thesis by (rule that(1))
  next
    case no4: False
    then have c4: "(isdigit (hd host) \<and> pton_status (inet_pton AF_INET host) = 1) = False" by simp
    show thesis
    proof (cases "(hex_digit (hd host) \<noteq> None \<or> hd host = colon) \<and> colon \<in> set host
                 \<and> pton_status (inet_pton AF_INET6 host) = 1")
      case True
      then obtain a where "inet_pton AF_INET6 host = Valid a"
        by (auto simp: pton_status_def split: pton_result.splits)
      moreover from True have c6: "((hex_digit (hd host) \<noteq> None \<or> hd host = colon) \<and> colon \<in> set host
                 \<and> pton_status (inet_pton AF_INET6 host) = 1) = True" by simp
      ultimately have "numeric_entry hs AF_INET6 family a ais = Inr ais'"
        using one unfolding search_one_def Let_def prod.case c4 c6 if_True if_False
        by (simp only: pton_result.case) (erule keep_asked)
      then show thesis by (rule that(2))
    next
      case False
      then have c6: "((hex_digit (hd host) \<noteq> None \<or> hd host = colon) \<and> colon \<in> set host
                 \<and> pton_status (inet_pton AF_INET6 host) = 1) = False" by simp
      let ?look = "if n = 2 then gethostbyname2 rs host family else gethostbyname rs (family = AF_INET6) host"
      show thesis
      proof (cases ?look)
        case (Inl e)
        with one have "ais' = ais"
          unfolding search_one_def Let_def prod.case c4 c6 if_False
          by (simp split: if_splits)
        then show thesis by (rule that(3))
      next
        case (Inr hptr)
        with one have "\<not> (h_family hs \<noteq> AF_UNSPEC \<and> h_family hs \<noteq> he_addrtype hptr)"
          "add_entries hs (he_addrtype hptr) (he_addr_list hptr) ais = Inr ais'"
          unfolding search_one_def Let_def prod.case c4 c6 if_False
          by (simp_all split: if_splits sum.splits)
        then show thesis using that(4) [of "he_addrtype hptr" "he_addr_list hptr"] by auto
      qed
    qed
  qed
  then show ?thesis
    by cases (use ais numeric_entry_asked add_entries_asked in \<open>blast+\<close>)
qed

lemma search_all_asked:
  "search_all rs hostname hs n sptrs (ais, canon) = Inr (ais', canon') \<Longrightarrow>
     \<forall>ai\<in>set ais. asked_for hs ai \<Longrightarrow> \<forall>ai\<in>set ais'. asked_for hs ai"
proof (induction sptrs arbitrary: ais canon)
  case (Cons sptr sptrs)
  obtain host family where sp: "sptr = (host, family)" by (cases sptr)
  with Cons.prems obtain ais1 canon1 where
    "search_one rs hostname hs n (host, family) (ais, canon) = Inr (ais1, canon1)"
    and "search_all rs hostname hs n sptrs (ais1, canon1) = Inr (ais', canon')"
    by (auto split: sum.splits)
  with Cons search_one_asked show ?case by blast
qed simp

lemma fill_port_asked:
  "asked_for hs ai \<Longrightarrow> h_socktype hs = 0 \<or> socktype = h_socktype hs \<Longrightarrow>
     asked_for hs (fill_port ai port socktype) \<and> asked_for hs (fill_port (ga_clone ai) port socktype)"
  by (auto simp: asked_for_def fill_port_def set_ai_port_def ga_clone_def Let_def)

lemma ga_port_asked:
  "ga_port ais port socktype = (n, ais') \<Longrightarrow> \<forall>ai\<in>set ais. asked_for hs ai \<Longrightarrow>
     h_socktype hs = 0 \<or> socktype = h_socktype hs \<Longrightarrow> \<forall>ai\<in>set ais'. asked_for hs ai"
proof (induction ais arbitrary: n ais')
  case (Cons ai ais)
  obtain m rest where "ga_port ais port socktype = (m, rest)" by (cases "ga_port ais port socktype")
  with Cons fill_port_asked [of hs ai socktype port] show ?case
    by (auto simp: Let_def split: if_splits)
qed simp

lemma ga_port_empty: "ga_port ais port socktype = (n, ais') \<Longrightarrow> ais' = [] \<longleftrightarrow> ais = []"
  by (cases ais) (auto simp: Let_def split: if_splits prod.splits)

text \<open>A list that is still all asked for, and empty only if it was.\<close>

definition kept :: "hints \<Rightarrow> addrinfo list \<Rightarrow> nat \<times> addrinfo list \<Rightarrow> bool" where
  "kept hs ais st \<longleftrightarrow> (\<forall>ai\<in>set (snd st). asked_for hs ai) \<and> (snd st = [] \<longleftrightarrow> ais = [])"

lemma kept_try_port:
  assumes "kept hs ais st" and "h_socktype hs = 0 \<or> socktype = h_socktype hs"
  shows "kept hs ais (try_port port socktype st)"
proof (cases port)
  case (Some p)
  obtain n ais1 where "ga_port (snd st) p socktype = (n, ais1)" by (cases "ga_port (snd st) p socktype")
  with Some assms ga_port_asked [of "snd st" p socktype n ais1 hs] ga_port_empty [of "snd st" p socktype n ais1]
  show ?thesis by (simp add: try_port_def kept_def)
qed (use assms in \<open>simp add: try_port_def\<close>)

lemma ga_serv_asked:
  assumes "ga_serv gs ais hs serv = Inr ais'" and "\<forall>ai\<in>set ais. asked_for hs ai"
  shows "(\<forall>ai\<in>set ais'. asked_for hs ai) \<and> (ais' = [] \<longleftrightarrow> ais = [])"
proof -
  let ?port = "Some (htons (word_of_int (atoi serv)))"
  let ?st1 = "if h_socktype hs = 0 \<or> h_socktype hs = SOCK_STREAM
                      then try_port (gs serv ''tcp'') SOCK_STREAM (0, ais) else (0, ais)"
  let ?X = "if isdigit (hd serv) then
           if h_socktype hs \<noteq> 0 then try_port ?port (h_socktype hs) (0, ais)
           else try_port ?port SOCK_DGRAM (try_port ?port SOCK_STREAM (0, ais))
         else if h_socktype hs = 0 \<or> h_socktype hs = SOCK_DGRAM
              then try_port (gs serv ''udp'') SOCK_DGRAM ?st1 else ?st1"
  have 0: "kept hs ais (0, ais)" using assms(2) by (simp add: kept_def)
  have st1: "kept hs ais ?st1"
    using kept_try_port [OF 0, of SOCK_STREAM] 0 by auto
  have "kept hs ais ?X"
    using kept_try_port [OF 0, of "h_socktype hs"] kept_try_port [OF st1, of SOCK_DGRAM] st1
      kept_try_port [OF kept_try_port [OF 0, of SOCK_STREAM ?port], of SOCK_DGRAM] by auto
  moreover obtain n ais1 where X: "?X = (n, ais1)" by (cases ?X)
  moreover have "ais1 = ais'"
    using assms(1) X unfolding ga_serv_def Let_def by (simp split: if_splits)
  ultimately show ?thesis by (simp add: kept_def)
qed

lemma ga_unix_asked:
  assumes "ga_unix u path hs = (Found ais, un)"
  shows "ais \<noteq> [] \<and> (\<forall>ai\<in>set ais. asked_for hs ai)"
  using assms
  by (auto simp: ga_unix_def ga_aistruct_def asked_for_def set_canon_def Let_def
      split: if_splits sum.splits option.splits list.splits)

lemma set_canon_asked: "\<forall>ai\<in>set ais. asked_for hs ai \<Longrightarrow> \<forall>ai\<in>set (set_canon c ais). asked_for hs ai"
  by (cases ais) (auto simp: set_canon_def asked_for_def)

lemma set_canon_empty [simp]: "set_canon c ais = [] \<longleftrightarrow> ais = []"
  by (cases ais) (auto simp: set_canon_def)

section \<open>Numeric hosts\<close>

lemma valid_status [simp]: "pton_status (Valid a) = 1" "pton_status Invalid = 0"
  by (simp_all add: pton_status_def)

lemma pton_quad: "length a = 4 \<Longrightarrow> inet_pton AF_INET (quad_text a) = Valid a"
  by (simp add: inet_pton_def quad.parse_print)

lemma hd_quad_text: "isdigit (hd (quad_text a))"
proof -
  have q: "quad_text a = dec (unat (a ! 0)) @ dot # join dot (map (\<lambda>i. dec (unat (a ! i))) [1..<4])"
    by (simp add: quad_text_def upt_rec)
  have "hd (dec (unat (a ! 0))) \<in> set (dec (unat (a ! 0)))" by simp
  then show ?thesis unfolding q using dec_chars by (metis dec_not_Nil hd_append2)
qed

lemma pton_v6: "length a = 16 \<Longrightarrow> inet_pton AF_INET6 (ipv6_text a) = Valid a"
  by (simp add: inet_pton_def v6.parse_print)

lemma colon_in_ipv6: "colon \<in> set (ipv6_text a)"
proof -
  have "colon \<in> set (join colon (map hex (words_of a)))"
    using length_words_of [of a] by (elim length8E) (simp add: join_Cons)
  then show ?thesis by (auto simp: ipv6_text_def run_text_def Let_def split: option.splits)
qed

lemma hd_ipv6_text: "hex_digit (hd (ipv6_text a)) \<noteq> None \<or> hd (ipv6_text a) = colon"
proof -
  have j: "hex_digit (hd (join colon (map hex ns) @ s)) \<noteq> None" if ns: "ns \<noteq> []" for ns s
  proof -
    obtain n ms where "ns = n # ms" using ns by (cases ns) auto
    then have "hd (join colon (map hex ns) @ s) = hd (hex n)" by (cases ms) simp_all
    moreover have "hd (hex n) \<in> set (hex n)" by simp
    ultimately show ?thesis using hex_chars by metis
  qed
  have "words_of a \<noteq> []" using length_words_of [of a] by (metis length_0_conv zero_neq_numeral)
  have r: "hex_digit (hd (join colon (map hex ns) @ colon # t)) \<noteq> None
      \<or> hd (join colon (map hex ns) @ colon # t) = colon" for ns t
    using j [of ns "colon # t"] by (cases "ns = []") auto
  show ?thesis
    using j [OF \<open>words_of a \<noteq> []\<close>, of "[]"] r
    by (simp add: ipv6_text_def run_text_def Let_def split: option.split)
qed

lemma pton4_ipv6_text: "inet_pton AF_INET (ipv6_text a) = Invalid"
proof -
  have "isdigit x \<Longrightarrow> x \<noteq> colon" for x by (auto simp: isdigit_def)
  moreover have "\<forall>x\<in>set p. isdigit x" if "octet p v" for p v
  proof -
    have "\<forall>x\<in>set s. isdigit x" if "horner dec_digit 10 m s = Some w" for s m w
      using that by (induction s arbitrary: m) (auto simp: dec_digit_def split: option.splits if_splits)
    with that show ?thesis by (auto simp: octet_def)
  qed
  ultimately have "inet_pton4 (ipv6_text a) = None"
    using colon_in_ipv6 [of a] pton4_quad_only [of "ipv6_text a"]
    by (cases "inet_pton4 (ipv6_text a)") fastforce+
  then show ?thesis by (simp add: inet_pton_def)
qed

lemma isdigit_hd_dec: "isdigit (hd (dec n))"
proof -
  have "hd (dec n) \<in> set (dec n)" by simp
  then show ?thesis by (rule dec_chars)
qed

lemma quad_not_local: "quad_text a \<noteq> CHR ''/'' # s" "ipv6_text a \<noteq> CHR ''/'' # s"
  using hd_quad_text [of a] hd_ipv6_text [of a] by (auto simp: isdigit_def hex_digit_def)

lemma texts_not_Nil: "quad_text a \<noteq> []" "ipv6_text a \<noteq> []"
  using colon_in_ipv6 [of a] by (auto simp: quad_text_def upt_rec)

lemma numeric_flags [simp]:
  "has (or NI_NUMERICHOST NI_NUMERICSERV) NI_NUMERICHOST"
  "has (or NI_NUMERICHOST NI_NUMERICSERV) NI_NUMERICSERV" "\<not> has 0 f"
  by (simp_all add: has_def NI_NUMERICHOST_def NI_NUMERICSERV_def)

abbreviation plain_hints :: "int \<Rightarrow> int \<Rightarrow> int \<Rightarrow> hints" where
  "plain_hints family socktype proto \<equiv>
     \<lparr>h_flags = 0, h_family = family, h_socktype = socktype, h_protocol = proto\<rparr>"

lemma getnameinfo_v4:
  "length a = 4 \<Longrightarrow> getnameinfo rs (Sin p a) 46 6 (or NI_NUMERICHOST NI_NUMERICSERV)
     = Ok (0, Some (quad_text a), Some (dec (unat (ntohs p))))"
  using length_dec_u16 [of "unat (ntohs p)"]
  by (simp add: getnameinfo_def gn_ipv46_def inet_ntop_v4 Let_def)

lemma getnameinfo_v6:
  "length a = 16 \<Longrightarrow> getnameinfo rs (Sin6 p a) 46 6 (or NI_NUMERICHOST NI_NUMERICSERV)
     = Ok (0, Some (ipv6_text a), Some (dec (unat (ntohs p))))"
  using length_dec_u16 [of "unat (ntohs p)"]
  by (simp add: getnameinfo_def gn_ipv46_def inet_ntop_v6 Let_def)

text \<open>A search for a numeric host finds one entry, its service sets the port.\<close>

lemma serv_numeric:
  assumes "ai_socktype ai = socktype" "h_socktype hs = socktype" "socktype \<noteq> 0"
    "\<not> has (ai_flags ai) AI_CLONE" "inet_family ai"
  shows "ga_serv gs [ai] hs (dec (unat (ntohs p))) = Inr [set_ai_port ai p]"
  using assms
  by (simp add: ga_serv_def isdigit_hd_dec try_port_def fill_port_def set_ai_port_def inet_family_def)

lemma getaddrinfo_v4:
  assumes "length a = 4" "family = AF_UNSPEC \<or> family = AF_INET"
    and "socktype = SOCK_STREAM \<or> socktype = SOCK_DGRAM"
  shows "getaddrinfo rs (Some (quad_text a)) (Some (dec (unat (ntohs p))))
      (Some (plain_hints family socktype proto))
    = (Found [\<lparr>ai_flags = 0, ai_family = AF_INET, ai_socktype = socktype, ai_protocol = proto,
        ai_addrlen = 16, ai_canonname = None, ai_addr = Some (Sin p a)\<rparr>], [])"
proof -
  have st: "socktype \<noteq> 0" using assms(3) by (auto simp: SOCK_STREAM_def SOCK_DGRAM_def)
  have e: "ga_echeck (Some (quad_text a)) (Some (dec (unat (ntohs p)))) 0 family socktype = None"
    using assms by (auto simp: ga_echeck_def texts_not_Nil)
  obtain search where n: "ga_nsearch (Some (quad_text a)) (plain_hints family socktype proto) = Some search"
    using assms(2) by (auto simp: ga_nsearch_def searches_for_def texts_not_Nil)
  let ?ai = "\<lparr>ai_flags = 0, ai_family = AF_INET, ai_socktype = socktype, ai_protocol = proto,
      ai_addrlen = 16, ai_canonname = None, ai_addr = Some (Sin 0 a)\<rparr>"
  have "search_all rs (Some (quad_text a)) (plain_hints family socktype proto) (length search) search ([], None)
      = Inr ([?ai], None)"
    using n assms(1,2) st
    by (auto simp: ga_nsearch_def searches_for_def texts_not_Nil search_one_def hd_quad_text pton_quad
        numeric_entry_def ga_aistruct_def)
  then show ?thesis
    using e st serv_numeric [of ?ai socktype]
    by (simp add: getaddrinfo_def n quad_not_local inet_family_def set_ai_port_def)
qed

lemma getaddrinfo_v6:
  assumes "length a = 16" "family = AF_UNSPEC \<or> family = AF_INET6"
    and "socktype = SOCK_STREAM \<or> socktype = SOCK_DGRAM"
  shows "getaddrinfo rs (Some (ipv6_text a)) (Some (dec (unat (ntohs p))))
      (Some (plain_hints family socktype proto))
    = (Found [\<lparr>ai_flags = 0, ai_family = AF_INET6, ai_socktype = socktype, ai_protocol = proto,
        ai_addrlen = 28, ai_canonname = None, ai_addr = Some (Sin6 p a)\<rparr>], [])"
proof -
  have st: "socktype \<noteq> 0" using assms(3) by (auto simp: SOCK_STREAM_def SOCK_DGRAM_def)
  have e: "ga_echeck (Some (ipv6_text a)) (Some (dec (unat (ntohs p)))) 0 family socktype = None"
    using assms by (auto simp: ga_echeck_def texts_not_Nil)
  obtain search where n: "ga_nsearch (Some (ipv6_text a)) (plain_hints family socktype proto) = Some search"
    using assms(2) by (auto simp: ga_nsearch_def searches_for_def texts_not_Nil)
  let ?ai = "\<lparr>ai_flags = 0, ai_family = AF_INET6, ai_socktype = socktype, ai_protocol = proto,
      ai_addrlen = 28, ai_canonname = None, ai_addr = Some (Sin6 0 a)\<rparr>"
  have h6: "(hex_digit (hd (ipv6_text a)) \<noteq> None \<or> hd (ipv6_text a) = colon) = True"
    using hd_ipv6_text [of a] by simp
  have "search_all rs (Some (ipv6_text a)) (plain_hints family socktype proto) (length search) search ([], None)
      = Inr ([?ai], None)"
    using n assms(1,2) st hd_ipv6_text [of a]
    by (auto simp: ga_nsearch_def searches_for_def texts_not_Nil search_one_def h6 colon_in_ipv6 pton_v6
        pton4_ipv6_text numeric_entry_def ga_aistruct_def)
  then show ?thesis
    using e st serv_numeric [of ?ai socktype]
    by (simp add: getaddrinfo_def n quad_not_local inet_family_def set_ai_port_def)
qed

section \<open>Properties\<close>

text \<open>
  Printing an Internet socket address with \<open>getnameinfo\<close> (numeric host and service) and looking
  the two texts up with \<open>getaddrinfo\<close> gives the address back: exactly one entry, with that address
  and port and the socket type asked for, and whatever the resolver would say, it is not asked.
\<close>

theorem numeric_lookup_roundtrip:
  assumes "sa_valid sa" "sa_family sa = AF_INET \<or> sa_family sa = AF_INET6"
    and "family = AF_UNSPEC \<or> family = sa_family sa"
    and "socktype = SOCK_STREAM \<or> socktype = SOCK_DGRAM"
  shows "\<exists>host serv ai. getnameinfo rs sa 46 6 (or NI_NUMERICHOST NI_NUMERICSERV) = Ok (0, Some host, Some serv)
    \<and> getaddrinfo rs' (Some host) (Some serv)
        (Some \<lparr>h_flags = 0, h_family = family, h_socktype = socktype, h_protocol = proto\<rparr>)
        = (Found [ai], [])
    \<and> ai_addr ai = Some sa \<and> ai_family ai = sa_family sa \<and> ai_socktype ai = socktype
    \<and> ai_protocol ai = proto \<and> ai_flags ai = 0"
proof -
  consider p a where "sa = Sin p a" "length a = 4" "family = AF_UNSPEC \<or> family = AF_INET"
    | p a where "sa = Sin6 p a" "length a = 16" "family = AF_UNSPEC \<or> family = AF_INET6"
    using assms(1-3) by (cases sa) (auto simp: AF_UNIX_def AF_LINK_def AF_INET_def AF_INET6_def)
  then show ?thesis
  proof cases
    case (1 p a)
    with getnameinfo_v4 [of a rs p] getaddrinfo_v4 [OF 1(2,3) assms(4), of rs' p proto]
    show ?thesis by auto
  next
    case (2 p a)
    with getnameinfo_v6 [of a rs p] getaddrinfo_v6 [OF 2(2,3) assms(4), of rs' p proto]
    show ?thesis by auto
  qed
qed

definition no_resolver :: resolver where
  "no_resolver = \<lparr>gethostbyname = (\<lambda>_ _. Inl HOST_NOT_FOUND), gethostbyname2 = (\<lambda>_ _. Inl HOST_NOT_FOUND),
     getservbyname = (\<lambda>s p. if s = ''daytime'' then Some (htons 13) else None),
     gethostbyaddr = (\<lambda>_ _. None), getservbyport = (\<lambda>_ _. None), nodename = None\<rparr>"

theorem numeric_lookup_roundtrip_witness:
  "\<exists>host serv ai. getnameinfo no_resolver (Sin (htons 80) [192, 0, 2, 1]) 46 6
        (or NI_NUMERICHOST NI_NUMERICSERV) = Ok (0, Some host, Some serv)
    \<and> getaddrinfo no_resolver (Some host) (Some serv)
        (Some \<lparr>h_flags = 0, h_family = AF_UNSPEC, h_socktype = SOCK_STREAM, h_protocol = 6\<rparr>)
        = (Found [ai], [])
    \<and> ai_addr ai = Some (Sin (htons 80) [192, 0, 2, 1])"
  using numeric_lookup_roundtrip [of "Sin (htons 80) [192, 0, 2, 1]" AF_UNSPEC SOCK_STREAM no_resolver no_resolver 6]
  by auto

text \<open>What a list that \<open>getaddrinfo\<close> returns is like.\<close>

lemma getaddrinfo_asked:
  assumes "getaddrinfo rs hostname servname (Some hs) = (Found ais, unlinked)"
  shows "ais \<noteq> [] \<and> (\<forall>ai\<in>set ais. asked_for hs ai)"
proof (cases "(hostname = Some ''/local'' \<or> hostname = Some ''/unix'')
           \<and> \<not> empty servname \<and> hd (the servname) = CHR ''/''")
  case True
  with assms have "ga_unix (nodename rs) (the servname) hs = (Found ais, unlinked)"
    by (simp add: getaddrinfo_def split: option.splits)
  then show ?thesis by (rule ga_unix_asked)
next
  case False
  then have nolocal: "((hostname = Some ''/local'' \<or> hostname = Some ''/unix'')
           \<and> \<not> empty servname \<and> hd (the servname) = CHR ''/'') = False" by simp
  note res = assms [unfolded getaddrinfo_def Let_def nolocal if_False option.case]
  have ec: "ga_echeck hostname servname (h_flags hs) (h_family hs) (h_socktype hs) = None"
    using res by (simp split: option.splits)
  note res = res [unfolded ec option.case]
  obtain search where ns: "ga_nsearch hostname hs = Some search"
    using res by (cases "ga_nsearch hostname hs") simp_all
  note res = res [unfolded ns option.case]
  obtain ais0 canon where found:
    "search_all rs hostname hs (length search) search ([], None) = Inr (ais0, canon)"
    using res by (cases "search_all rs hostname hs (length search) search ([], None)") auto
  note res = res [unfolded found sum.case prod.case]
  have ne: "ais0 \<noteq> []" using res by auto
  have 0: "\<forall>ai\<in>set ais0. asked_for hs ai" by (rule search_all_asked [OF found]) simp
  let ?c = "if canon \<noteq> None then canon else Some (fst (hd search))"
  define ais1 where "ais1 = (if \<not> empty hostname \<and> has (h_flags hs) AI_CANONNAME
    then set_canon ?c ais0 else ais0)"
  have 1: "\<forall>ai\<in>set ais1. asked_for hs ai" "ais1 \<noteq> []"
    using 0 ne set_canon_asked [OF 0] by (simp_all add: ais1_def)
  show ?thesis
  proof (cases "empty servname")
    case True
    then have "ais = ais1" using res [folded ais1_def] ne by simp
    with 1 show ?thesis by simp
  next
    case False
    then have "ga_serv (getservbyname rs) ais1 hs (the servname) = Inr ais"
      using res [folded ais1_def] ne by (simp split: sum.splits)
    from ga_serv_asked [OF this 1(1)] 1(2) show ?thesis by simp
  qed
qed

text \<open>
  C6: Whatever the resolver answers, a list that \<open>getaddrinfo\<close> returns is not empty, and every
  entry in it has the address family and the socket type of the hints, where they name one.
\<close>

theorem getaddrinfo_as_asked:
  assumes "getaddrinfo rs hostname servname (Some hs) = (Found ais, unlinked)"
  shows "ais \<noteq> [] \<and> (\<forall>ai\<in>set ais. (h_family hs \<noteq> AF_UNSPEC \<longrightarrow> ai_family ai = h_family hs)
     \<and> (h_socktype hs \<noteq> 0 \<longrightarrow> ai_socktype ai = h_socktype hs))"
  using getaddrinfo_asked [OF assms] by (simp add: asked_for_def)

theorem getaddrinfo_as_asked_witness:
  "\<exists>ais un. getaddrinfo no_resolver (Some ''/local'') (Some ''/tmp/sock'')
       (Some \<lparr>h_flags = 0, h_family = AF_UNSPEC, h_socktype = 0, h_protocol = 0\<rparr>) = (Found ais, un)
     \<and> ais \<noteq> []"
proof -
  have "(case fst (getaddrinfo no_resolver (Some ''/local'') (Some ''/tmp/sock'')
       (Some \<lparr>h_flags = 0, h_family = AF_UNSPEC, h_socktype = 0, h_protocol = 0\<rparr>)) of Found _ \<Rightarrow> True | _ \<Rightarrow> False)"
    by code_simp
  then obtain ais un where r: "getaddrinfo no_resolver (Some ''/local'') (Some ''/tmp/sock'')
       (Some \<lparr>h_flags = 0, h_family = AF_UNSPEC, h_socktype = 0, h_protocol = 0\<rparr>) = (Found ais, un)"
    by (cases "getaddrinfo no_resolver (Some ''/local'') (Some ''/tmp/sock'')
       (Some \<lparr>h_flags = 0, h_family = AF_UNSPEC, h_socktype = 0, h_protocol = 0\<rparr>)")
      (auto split: gai_result.splits)
  from getaddrinfo_as_asked [OF r] r show ?thesis by blast
qed

text \<open>
  For a service known for TCP and for UDP and a caller that names no socket type, every address
  found gives two entries in the order the comment in \<open>ga_port\<close> promises: stream with the TCP port,
  then datagram with the UDP port, before those of the next address. A port number serves as both.
\<close>

theorem service_for_both_types:
  assumes "ais \<noteq> []" and "h_socktype hs = 0"
    and "\<forall>ai\<in>set ais. has (ai_flags ai) AI_CLONE \<and> ai_socktype ai = 0 \<and> inet_family ai"
    and "if isdigit (hd serv) then tcp = htons (word_of_int (atoi serv)) \<and> udp = tcp
         else gs serv ''tcp'' = Some tcp \<and> gs serv ''udp'' = Some udp"
  shows "\<exists>out. ga_serv gs ais hs serv = Inr out
    \<and> map (\<lambda>e. (ai_addr e, ai_socktype e)) out =
        concat (map (\<lambda>ai. [(map_option (\<lambda>sa. sock_set_port sa (uint tcp)) (ai_addr ai), SOCK_STREAM),
                          (map_option (\<lambda>sa. sock_set_port sa (uint udp)) (ai_addr ai), SOCK_DGRAM)]) ais)"
proof -
  let ?s = "\<lambda>ai. fill_port ai tcp SOCK_STREAM"
  let ?d = "\<lambda>ai. fill_port (ga_clone (?s ai)) udp SOCK_DGRAM"
  have twice: "sock_set_port (sock_set_port sa p) q = sock_set_port sa q" for sa p q
    by (cases sa) simp_all
  have first: "ga_port xs tcp SOCK_STREAM = (length xs, map ?s xs)"
    if "\<forall>ai\<in>set xs. has (ai_flags ai) AI_CLONE \<and> ai_socktype ai = 0 \<and> inet_family ai" for xs
    using that by (induction xs) auto
  have f: "has (ai_flags (?s ai)) AI_CLONE = has (ai_flags ai) AI_CLONE" "ai_socktype (?s ai) = SOCK_STREAM"
    "inet_family (?s ai) = inet_family ai" for ai
    by (simp_all add: fill_port_def set_ai_port_def inet_family_def Let_def)
  have second: "ga_port (map ?s xs) udp SOCK_DGRAM = (length xs, concat (map (\<lambda>ai. [?s ai, ?d ai]) xs))"
    if "\<forall>ai\<in>set xs. has (ai_flags ai) AI_CLONE \<and> ai_socktype ai = 0 \<and> inet_family ai" for xs
    using that
  proof (induction xs)
    case (Cons ai xs)
    have "ai_socktype (?s ai) \<noteq> 0" unfolding f by (simp add: SOCK_STREAM_def)
    moreover have "inet_family (?s ai)" "has (ai_flags (?s ai)) AI_CLONE" using Cons.prems by (simp_all add: f)
    ultimately show ?case using Cons by simp
  qed simp
  have "try_port (Some udp) SOCK_DGRAM (try_port (Some tcp) SOCK_STREAM (0, ais))
      = (length ais + length ais, concat (map (\<lambda>ai. [?s ai, ?d ai]) ais))"
    using first [OF assms(3)] second [OF assms(3)] by (simp add: try_port_def)
  then have "ga_serv gs ais hs serv = Inr (concat (map (\<lambda>ai. [?s ai, ?d ai]) ais))"
    using assms(1,2,4) by (auto simp: ga_serv_def Let_def split: if_splits)
  moreover have "map (\<lambda>e. (ai_addr e, ai_socktype e)) (concat (map (\<lambda>ai. [?s ai, ?d ai]) xs)) =
        concat (map (\<lambda>ai. [(map_option (\<lambda>sa. sock_set_port sa (uint tcp)) (ai_addr ai), SOCK_STREAM),
                          (map_option (\<lambda>sa. sock_set_port sa (uint udp)) (ai_addr ai), SOCK_DGRAM)]) xs)"
    if "\<forall>ai\<in>set xs. has (ai_flags ai) AI_CLONE \<and> ai_socktype ai = 0 \<and> inet_family ai" for xs
    using that
    by (induction xs) (auto simp: fill_port_def set_ai_port_def inet_family_def ga_clone_def Let_def
        option.map_comp twice comp_def)
  ultimately show ?thesis using assms(3) by blast
qed

definition two_homes :: "addrinfo list" where
  "two_homes = map (\<lambda>a. \<lparr>ai_flags = AI_CLONE, ai_family = AF_INET, ai_socktype = 0, ai_protocol = 0,
     ai_addrlen = 16, ai_canonname = None, ai_addr = Some (Sin 0 a)\<rparr>) [[10, 0, 0, 1], [10, 0, 0, 2]]"

theorem service_for_both_types_witness:
  "\<exists>out. ga_serv (\<lambda>s p. Some (if p = ''tcp'' then htons 13 else htons 14)) two_homes no_hints ''daytime'' = Inr out
    \<and> length out = 4"
proof -
  have "\<forall>ai\<in>set two_homes. has (ai_flags ai) AI_CLONE \<and> ai_socktype ai = 0 \<and> inet_family ai"
    by (simp add: two_homes_def has_def AI_CLONE_def inet_family_def)
  moreover have "two_homes \<noteq> []" "h_socktype no_hints = 0" by (simp_all add: two_homes_def no_hints_def)
  ultimately obtain out where
    "ga_serv (\<lambda>s p. Some (if p = ''tcp'' then htons 13 else htons 14)) two_homes no_hints ''daytime'' = Inr out"
    and E: "map (\<lambda>e. (ai_addr e, ai_socktype e)) out =
        concat (map (\<lambda>ai. [(map_option (\<lambda>sa. sock_set_port sa (uint (htons 13))) (ai_addr ai), SOCK_STREAM),
                          (map_option (\<lambda>sa. sock_set_port sa (uint (htons 14))) (ai_addr ai), SOCK_DGRAM)]) two_homes)"
    using service_for_both_types [of two_homes no_hints "''daytime''" "htons 13" "htons 14"
        "\<lambda>s p. Some (if p = ''tcp'' then htons 13 else htons 14)"]
    by (auto simp: isdigit_def)
  moreover have "length out = 4" using arg_cong [OF E, of length] by (simp add: two_homes_def)
  ultimately show ?thesis by auto
qed

text \<open>
  Asked for the Unix domain family together with a host name other than \<open>/local\<close> and \<open>/unix\<close>,
  \<open>getaddrinfo\<close> returns no error code: its check of the arguments accepts the family, then no
  search is set up and \<open>ga_nsearch\<close> ends the calling process.
\<close>

theorem unix_family_kills_process:
  assumes "hostname \<noteq> Some ''/local''" "hostname \<noteq> Some ''/unix''" "\<not> (empty hostname \<and> empty servname)"
    and "h_family hs = AF_UNIX" "and (h_flags hs) (not (or AI_PASSIVE AI_CANONNAME)) = 0"
    and "h_socktype hs = 0 \<or> h_socktype hs = SOCK_STREAM \<or> h_socktype hs = SOCK_DGRAM"
  shows "getaddrinfo rs hostname servname (Some hs) = (Exits, [])"
proof -
  have "ga_echeck hostname servname (h_flags hs) (h_family hs) (h_socktype hs) = None"
    using assms by (auto simp: ga_echeck_def SOCK_STREAM_def SOCK_DGRAM_def)
  moreover have "ga_nsearch hostname hs = None"
    using assms by (simp add: ga_nsearch_def searches_for_def)
  ultimately show ?thesis using assms(1,2) by (simp add: getaddrinfo_def)
qed

theorem unix_family_kills_process_witness:
  "getaddrinfo no_resolver (Some ''www'') (Some ''80'')
     (Some \<lparr>h_flags = 0, h_family = AF_UNIX, h_socktype = SOCK_STREAM, h_protocol = 0\<rparr>) = (Exits, [])"
  by (rule unix_family_kills_process) simp_all

end
