(* ===== verification/RttTimer.thy ===== *)
theory RttTimer
  imports Complex_Main Prelude
begin

text \<open>
  The retransmission timer \<^verbatim>\<open>unpv13e/lib/rtt.c\<close> and the reliable request over UDP that uses it,
  \<^verbatim>\<open>unpv13e/rtt/dg_send_recv.c\<close>.

  The \<open>float\<close> fields hold rational numbers; every store to one goes through the rounding function
  \<open>rnd\<close> of the floating-point format, a parameter. The clock is a parameter too: \<open>clock i\<close> is the
  \<open>struct timeval\<close> of the call number \<open>i\<close> of \<open>gettimeofday\<close>. The output of \<open>rtt_debug\<close> is not
  modelled.
\<close>

section \<open>The timer\<close>

definition RTT_RXTMIN :: rat where "RTT_RXTMIN = 2"
definition RTT_RXTMAX :: rat where "RTT_RXTMAX = 60"
definition RTT_MAXNREXMT :: nat where "RTT_MAXNREXMT = 3"

record rtt_info =
  rtt_rtt :: rat
  rtt_srtt :: rat
  rtt_rttvar :: rat
  rtt_rto :: rat
  rtt_nrexmt :: nat
  rtt_base :: int

type_synonym rounding = "rat \<Rightarrow> rat"
type_synonym timeval = "int \<times> int"

definition rtt_rtocalc :: "rtt_info \<Rightarrow> rat" where
  "rtt_rtocalc p = rtt_srtt p + 4 * rtt_rttvar p"

definition rtt_minmax :: "rounding \<Rightarrow> rat \<Rightarrow> rat" where
  "rtt_minmax rnd rto0 =
     (let rto = rnd rto0 in
      if rto < RTT_RXTMIN then RTT_RXTMIN else if rto > RTT_RXTMAX then RTT_RXTMAX else rto)"

definition rtt_init :: "rounding \<Rightarrow> timeval \<Rightarrow> rtt_info \<Rightarrow> rtt_info" where
  "rtt_init rnd tv p =
     (let p1 = p\<lparr>rtt_base := fst tv mod 2 ^ 32, rtt_rtt := 0, rtt_srtt := 0, rtt_rttvar := 3 / 4\<rparr>
      in p1\<lparr>rtt_rto := rtt_minmax rnd (rtt_rtocalc p1)\<rparr>)"

definition rtt_ts :: "timeval \<Rightarrow> rtt_info \<Rightarrow> 32 word" where
  "rtt_ts tv p = word_of_int ((fst tv - rtt_base p) * 1000 + snd tv div 1000)"

definition rtt_newpack :: "rtt_info \<Rightarrow> rtt_info" where
  "rtt_newpack p = p\<lparr>rtt_nrexmt := 0\<rparr>"

definition rtt_start :: "rtt_info \<Rightarrow> int" where
  "rtt_start p = \<lfloor>rtt_rto p + 1 / 2\<rfloor>"

definition rtt_stop :: "rounding \<Rightarrow> 32 word \<Rightarrow> rtt_info \<Rightarrow> rtt_info" where
  "rtt_stop rnd ms p =
     (let rtt = rnd (of_nat (unat ms) / 1000);
          delta = rtt - rtt_srtt p;
          srtt = rnd (rtt_srtt p + delta / 8);
          rttvar = rnd (rtt_rttvar p + (\<bar>delta\<bar> - rtt_rttvar p) / 4);
          p1 = p\<lparr>rtt_rtt := rtt, rtt_srtt := srtt, rtt_rttvar := rttvar\<rparr>
      in p1\<lparr>rtt_rto := rtt_minmax rnd (rtt_rtocalc p1)\<rparr>)"

text \<open>\<open>rtt_timeout\<close>: whether it is time to give up, and the timer with its next timeout.\<close>

definition rtt_timeout :: "rounding \<Rightarrow> rtt_info \<Rightarrow> bool \<times> rtt_info" where
  "rtt_timeout rnd p =
     (let p1 = p\<lparr>rtt_rto := rnd (rtt_rto p * 2), rtt_nrexmt := rtt_nrexmt p + 1\<rparr>
      in (rtt_nrexmt p1 > RTT_MAXNREXMT, p1))"

section \<open>A request and its answer\<close>

text \<open>
  What happens while the client waits: the alarm goes off, or a datagram of so many bytes arrives
  whose header (when it has one) holds a sequence number and an echoed time stamp.
\<close>

datatype wait_event = Alarm | Arrives nat "32 word" "32 word"

record client =
  rttinfo :: rtt_info
  rttinit :: bool
  seq :: "32 word"
  tick :: nat

text \<open>A datagram sent: its sequence number, its time stamp, and the timer started with it.\<close>

type_synonym sent = "32 word \<times> 32 word \<times> int"

datatype reply = Received nat | TimedOut | Waiting

definition send_packet :: "(nat \<Rightarrow> timeval) \<Rightarrow> client \<Rightarrow> sent \<times> client" where
  "send_packet clock c =
     ((seq c, rtt_ts (clock (tick c)) (rttinfo c), rtt_start (rttinfo c)), c\<lparr>tick := tick c + 1\<rparr>)"

text \<open>
  From the label \<open>sendagain\<close> on, after the packet is sent: the events until the function returns
  (\<open>Waiting\<close>: the script is used up while it still waits).
\<close>

fun await_reply ::
    "rounding \<Rightarrow> (nat \<Rightarrow> timeval) \<Rightarrow> client \<Rightarrow> wait_event list \<Rightarrow> sent list \<times> reply \<times> client" where
  "await_reply rnd clock c [] = ([], Waiting, c)"
| "await_reply rnd clock c (Alarm # es) =
     (let (giveup, info) = rtt_timeout rnd (rttinfo c); c1 = c\<lparr>rttinfo := info\<rparr> in
      if giveup then ([], TimedOut, c1\<lparr>rttinit := False\<rparr>)
      else let (pkt, c2) = send_packet clock c1;
               (out, r) = await_reply rnd clock c2 es
           in (pkt # out, r))"
| "await_reply rnd clock c (Arrives n rseq rts # es) =
     (if n < 8 \<or> rseq \<noteq> seq c then await_reply rnd clock c es
      else ([], Received (n - 8),
            c\<lparr>rttinfo := rtt_stop rnd (rtt_ts (clock (tick c)) (rttinfo c) - rts) (rttinfo c),
              tick := tick c + 1\<rparr>))"

definition dg_send_recv ::
    "rounding \<Rightarrow> (nat \<Rightarrow> timeval) \<Rightarrow> client \<Rightarrow> wait_event list \<Rightarrow> sent list \<times> reply \<times> client" where
  "dg_send_recv rnd clock c es =
     (let c1 = (if \<not> rttinit c
                then c\<lparr>rttinfo := rtt_init rnd (clock (tick c)) (rttinfo c), rttinit := True,
                       tick := tick c + 1\<rparr> else c);
          c2 = c1\<lparr>seq := seq c1 + 1, rttinfo := rtt_newpack (rttinfo c1)\<rparr>;
          (pkt, c3) = send_packet clock c2;
          (out, r) = await_reply rnd clock c3 es
      in (pkt # out, r))"

section \<open>Bounds\<close>

definition rto_ok :: "rtt_info \<Rightarrow> bool" where
  "rto_ok p \<longleftrightarrow> RTT_RXTMIN \<le> rtt_rto p \<and> rtt_rto p \<le> RTT_RXTMAX"

lemma rtt_minmax_bounds: "RTT_RXTMIN \<le> rtt_minmax rnd r \<and> rtt_minmax rnd r \<le> RTT_RXTMAX"
  by (simp add: rtt_minmax_def RTT_RXTMIN_def RTT_RXTMAX_def Let_def)

lemma rto_ok_init: "rto_ok (rtt_init rnd tv p)"
  using rtt_minmax_bounds by (simp add: rto_ok_def rtt_init_def Let_def)

lemma rto_ok_stop: "rto_ok (rtt_stop rnd ms p)"
  using rtt_minmax_bounds by (simp add: rto_ok_def rtt_stop_def Let_def)

lemma rto_ok_newpack [simp]: "rto_ok (rtt_newpack p) = rto_ok p"
  by (simp add: rto_ok_def rtt_newpack_def)

text \<open>An answer that ends the wait, and the alarms before the first one.\<close>

fun valid_reply :: "32 word \<Rightarrow> wait_event \<Rightarrow> bool" where
  "valid_reply s Alarm = False"
| "valid_reply s (Arrives n rseq _) = (8 \<le> n \<and> rseq = s)"

definition early_alarms :: "32 word \<Rightarrow> wait_event list \<Rightarrow> nat" where
  "early_alarms s es = length (filter (\<lambda>e. e = Alarm) (takeWhile (\<lambda>e. \<not> valid_reply s e) es))"

lemma early_alarms_simps [simp]:
  "early_alarms s [] = 0" "early_alarms s (Alarm # es) = Suc (early_alarms s es)"
  "early_alarms s (Arrives n q ts # es) = (if 8 \<le> n \<and> q = s then 0 else early_alarms s es)"
  by (simp_all add: early_alarms_def)

text \<open>
  Waiting after \<open>k\<close> retransmissions: at most \<open>3 - k\<close> packets follow, one per alarm, and each
  doubles the timer once more.
\<close>

definition waited :: "nat \<Rightarrow> rat \<Rightarrow> 32 word \<Rightarrow> wait_event list \<Rightarrow> sent list \<times> reply \<times> client \<Rightarrow> bool" where
  "waited k rto s es res \<longleftrightarrow> (case res of (out, r, c') \<Rightarrow>
     length out = min (early_alarms s es) (3 - k)
     \<and> (\<forall>i<length out. fst (out ! i) = s \<and> snd (snd (out ! i)) = \<lfloor>rto * 2 ^ (i + 1) + 1 / 2\<rfloor>)
     \<and> (r = TimedOut \<longleftrightarrow> 4 - k \<le> early_alarms s es)
     \<and> (\<forall>n. r = Received n \<longrightarrow> (\<exists>ts. Arrives (n + 8) s ts \<in> set es) \<and> rto_ok (rttinfo c') \<and> rttinit c')
     \<and> seq c' = s \<and> (r = TimedOut \<longrightarrow> \<not> rttinit c'))"

lemma await_reply_waited:
  assumes scale: "\<And>x. rnd x = x \<Longrightarrow> rnd (x * 2) = x * 2"
    and "rtt_nrexmt (rttinfo c) = k" "k \<le> 3" "rnd (rtt_rto (rttinfo c)) = rtt_rto (rttinfo c)" "rttinit c"
  shows "waited k (rtt_rto (rttinfo c)) (seq c) es (await_reply rnd clock c es)"
  using assms(2-)
proof (induction es arbitrary: c k)
  case Nil
  then show ?case by (simp add: waited_def)
next
  case (Cons e es)
  show ?case
  proof (cases e)
    case (Arrives n q ts)
    show ?thesis
    proof (cases "n < 8 \<or> q \<noteq> seq c")
      case True
      then have "await_reply rnd clock c (e # es) = await_reply rnd clock c es"
        "early_alarms (seq c) (e # es) = early_alarms (seq c) es" using Arrives by auto
      with Cons.IH [OF Cons.prems] show ?thesis by (fastforce simp: waited_def)
    next
      case False
      then have "n = (n - 8) + 8" by simp
      with False Arrives Cons.prems show ?thesis by (auto simp: waited_def rto_ok_stop)
    qed
  next
    case Alarm
    obtain giveup info where to: "rtt_timeout rnd (rttinfo c) = (giveup, info)"
      by (cases "rtt_timeout rnd (rttinfo c)")
    have info: "rtt_nrexmt info = k + 1" "rtt_rto info = rtt_rto (rttinfo c) * 2" "giveup \<longleftrightarrow> k = 3"
      using to Cons.prems scale [of "rtt_rto (rttinfo c)"]
      by (auto simp: rtt_timeout_def Let_def RTT_MAXNREXMT_def)
    show ?thesis
    proof (cases giveup)
      case True
      with Alarm to info show ?thesis by (simp add: waited_def)
    next
      case False
      let ?c2 = "c\<lparr>rttinfo := info, tick := tick c + 1\<rparr>"
      have k: "k < 3" using False info Cons.prems by simp
      obtain out r c' where IH: "await_reply rnd clock ?c2 es = (out, r, c')" by (cases "await_reply rnd clock ?c2 es")
      have w: "waited (k + 1) (rtt_rto (rttinfo c) * 2) (seq c) es (out, r, c')"
        using Cons.IH [of ?c2 "k + 1"] k info Cons.prems scale [of "rtt_rto (rttinfo c)"] IH by simp
      let ?pkt = "(seq c, rtt_ts (clock (tick c)) info, rtt_start info)"
      have "await_reply rnd clock c (e # es) = (?pkt # out, r, c')"
        using Alarm to False IH by (simp add: send_packet_def)
      moreover have "snd (snd ((?pkt # out) ! i)) = \<lfloor>rtt_rto (rttinfo c) * 2 ^ (i + 1) + 1 / 2\<rfloor>
          \<and> fst ((?pkt # out) ! i) = seq c" if "i < Suc (length out)" for i
        using that w info(2) by (cases i) (auto simp: waited_def rtt_start_def mult.assoc)
      ultimately show ?thesis using w k Alarm by (auto simp: waited_def)
    qed
  qed
qed

section \<open>Properties\<close>

text \<open>
  C32: A request is sent at most four times, always under the same new sequence number; it is given
  up exactly when four alarms come before the first answer with at least a header and that
  sequence number, and no other answer is accepted. The timeout the estimators give always lies
  between 2 and 60 seconds, but the back-off is not limited: the timer of the \<open>i\<close>-th copy is the first
  one times \<open>2 ^ i\<close>, up to 480 seconds. (\<open>scale\<close>: doubling a representable number is exact.)
\<close>

theorem dg_send_recv_bounded:
  assumes "rttinit c \<longrightarrow> rto_ok (rttinfo c) \<and> rnd (rtt_rto (rttinfo c)) = rtt_rto (rttinfo c)"
    and scale: "\<And>x. rnd x = x \<Longrightarrow> rnd (x * 2) = x * 2"
    and idem: "\<And>x. rnd (rnd x) = rnd x" and exact: "rnd 2 = 2" "rnd 60 = 60"
    and "dg_send_recv rnd clock c es = (out, r, c')"
  shows "\<exists>rto::rat. 2 \<le> rto \<and> rto \<le> 60
    \<and> length out = Suc (min (early_alarms (seq c + 1) es) 3)
    \<and> (\<forall>i<length out. fst (out ! i) = seq c + 1 \<and> snd (snd (out ! i)) = \<lfloor>rto * 2 ^ i + 1 / 2\<rfloor>)
    \<and> (r = TimedOut \<longleftrightarrow> 4 \<le> early_alarms (seq c + 1) es)
    \<and> (\<forall>n. r = Received n \<longrightarrow> (\<exists>ts. Arrives (n + 8) (seq c + 1) ts \<in> set es) \<and> rto_ok (rttinfo c'))"
proof -
  define c1 where "c1 = (if \<not> rttinit c
                then c\<lparr>rttinfo := rtt_init rnd (clock (tick c)) (rttinfo c), rttinit := True,
                       tick := tick c + 1\<rparr> else c)"
  define c2 where "c2 = c1\<lparr>seq := seq c1 + 1, rttinfo := rtt_newpack (rttinfo c1)\<rparr>"
  let ?rto = "rtt_rto (rttinfo c2)"
  have fix_minmax: "rnd (rtt_minmax rnd x) = rtt_minmax rnd x" for x
    by (simp add: rtt_minmax_def Let_def RTT_RXTMIN_def RTT_RXTMAX_def idem exact)
  have c1: "rto_ok (rttinfo c1)" "rnd (rtt_rto (rttinfo c1)) = rtt_rto (rttinfo c1)" "rttinit c1" "seq c1 = seq c"
    using assms(1) by (simp_all add: c1_def rto_ok_init) (simp add: rtt_init_def Let_def fix_minmax)
  have c2: "rto_ok (rttinfo c2)" "rnd ?rto = ?rto" "rttinit c2" "seq c2 = seq c + 1"
    "rtt_nrexmt (rttinfo c2) = 0"
    using c1 by (simp_all add: c2_def) (simp_all add: rtt_newpack_def)
  let ?c3 = "c2\<lparr>tick := tick c2 + 1\<rparr>"
  obtain out1 where res: "await_reply rnd clock ?c3 es = (out1, r, c')"
    and out: "out = (seq c2, rtt_ts (clock (tick c2)) (rttinfo c2), rtt_start (rttinfo c2)) # out1"
    using assms(6) unfolding dg_send_recv_def c1_def [symmetric] Let_def c2_def [symmetric]
    by (auto simp: send_packet_def split: prod.splits)
  have w: "waited 0 ?rto (seq c + 1) es (out1, r, c')"
    using await_reply_waited [OF scale, of ?c3 0 es clock] c2 res by simp
  have "fst (out ! i) = seq c + 1 \<and> snd (snd (out ! i)) = \<lfloor>?rto * 2 ^ i + 1 / 2\<rfloor>"
    if "i < length out" for i
    using that w c2 by (cases i) (auto simp: out waited_def rtt_start_def)
  moreover have "2 \<le> ?rto" "?rto \<le> 60"
    using c2(1) by (simp_all add: rto_ok_def RTT_RXTMIN_def RTT_RXTMAX_def)
  ultimately show ?thesis using w by (intro exI [of _ ?rto]) (auto simp: waited_def out)
qed

definition grid :: rounding where
  "grid x = of_int \<lfloor>x * 2 ^ 20\<rfloor> / 2 ^ 20"

theorem dg_send_recv_bounded_witness:
  "\<exists>out r c'. dg_send_recv grid (\<lambda>i. (int i, 0))
      \<lparr>rttinfo = \<lparr>rtt_rtt = 0, rtt_srtt = 0, rtt_rttvar = 0, rtt_rto = 0, rtt_nrexmt = 0, rtt_base = 0\<rparr>,
       rttinit = False, seq = 6, tick = 0\<rparr> [Alarm, Arrives 20 6 0, Arrives 20 7 1] = (out, r, c')
    \<and> length out = 2 \<and> r \<noteq> TimedOut"
proof -
  let ?c = "\<lparr>rttinfo = \<lparr>rtt_rtt = 0, rtt_srtt = 0, rtt_rttvar = 0, rtt_rto = 0, rtt_nrexmt = 0, rtt_base = 0\<rparr>,
       rttinit = False, seq = 6, tick = 0\<rparr>"
  obtain out r c' where res: "dg_send_recv grid (\<lambda>i. (int i, 0)) ?c [Alarm, Arrives 20 6 0, Arrives 20 7 1] = (out, r, c')"
    by (cases "dg_send_recv grid (\<lambda>i. (int i, 0)) ?c [Alarm, Arrives 20 6 0, Arrives 20 7 1]")
  have idem: "grid (grid x) = grid x" for x by (simp add: grid_def)
  have scale: "grid (x * 2) = x * 2" if "grid x = x" for x
  proof -
    have "x * 2 ^ 20 = of_int \<lfloor>x * 2 ^ 20\<rfloor>" using that unfolding grid_def by (metis eq_divide_eq_numeral nonzero_eq_divide_eq power_not_zero zero_neq_numeral)
    then have h: "x * 2 * 2 ^ 20 = of_int (2 * \<lfloor>x * 2 ^ 20\<rfloor>)" by simp
    have "grid (x * 2) = of_int (2 * \<lfloor>x * 2 ^ 20\<rfloor>) / 2 ^ 20"
      unfolding grid_def h by (simp only: floor_of_int)
    also have "\<dots> = x * 2" unfolding h [symmetric] by simp
    finally show ?thesis .
  qed
  have "grid 2 = 2" "grid 60 = 60" by (simp_all add: grid_def)
  from dg_send_recv_bounded [of ?c grid, OF _ scale idem this res]
  show ?thesis using res by auto
qed

end
