(* ===== verification/Ring.thy ===== *)
theory Ring
  imports Prelude
begin

text \<open>
  What the two programs with a circular buffer share (\<^verbatim>\<open>unpv13e/sigio/dgecho01.c\<close> and
  \<^verbatim>\<open>unpv13e/server/serv08.c\<close>): the contract of a queue as the locale \<open>fifo\<close>, and the arithmetic of
  slots modulo the size of an array.
\<close>

section \<open>The contract of a queue\<close>

locale fifo =
  fixes items :: "'q \<Rightarrow> 'a list"
    and put :: "'a \<Rightarrow> 'q \<Rightarrow> 'q"
    and front :: "'q \<Rightarrow> 'a"
    and next_one :: "'q \<Rightarrow> 'q"
    and room :: "'q \<Rightarrow> bool"
    and nonempty :: "'q \<Rightarrow> bool"
  assumes items_put: "room q \<Longrightarrow> items (put x q) = items q @ [x]"
    and items_next: "nonempty q \<Longrightarrow> items q = front q # items (next_one q)"
begin

lemma front_is_oldest: "nonempty q \<Longrightarrow> items q \<noteq> [] \<and> front q = hd (items q)"
  by (simp add: items_next)

lemma put_behind: "nonempty q \<Longrightarrow> room q \<Longrightarrow> items (put x q) = front q # items (next_one q) @ [x]"
  by (simp add: items_put items_next)

lemma items_tl: "nonempty q \<Longrightarrow> items (next_one q) = tl (items q)"
  by (simp add: items_next)

end

section \<open>Slots of an array taken modulo its size\<close>

text \<open>\<open>if (++i >= n) i = 0;\<close>\<close>

definition next_slot :: "nat \<Rightarrow> nat \<Rightarrow> nat" where
  "next_slot n i = (if i + 1 \<ge> n then 0 else i + 1)"

lemma next_slot_mod: "i < n \<Longrightarrow> next_slot n i = (i + 1) mod n"
  by (cases "i + 1 = n") (auto simp: next_slot_def)

lemma next_slot_less [simp]: "0 < n \<Longrightarrow> next_slot n i < n"
  by (simp add: next_slot_def)

text \<open>\<open>k\<close> slots from \<open>g\<close> on.\<close>

definition ring_seg :: "nat \<Rightarrow> 'a list \<Rightarrow> nat \<Rightarrow> nat \<Rightarrow> 'a list" where
  "ring_seg n xs g k = map (\<lambda>i. xs ! ((g + i) mod n)) [0..<k]"

lemma ring_seg_0 [simp]: "ring_seg n xs g 0 = []"
  by (simp add: ring_seg_def)

lemma length_ring_seg [simp]: "length (ring_seg n xs g k) = k"
  by (simp add: ring_seg_def)

lemma ring_seg_eq_Nil [simp]: "ring_seg n xs g k = [] \<longleftrightarrow> k = 0"
  by (simp add: ring_seg_def)

lemma ring_slots_differ:
  assumes "i < k" "k < n"
  shows "(g + k) mod n \<noteq> (g + i) mod (n::nat)"
proof
  assume "(g + k) mod n = (g + i) mod n"
  then have "n dvd (g + k) - (g + i)" using assms(1) by (subst (asm) mod_eq_dvd_iff_nat) simp_all
  then have "n dvd k - i" by simp
  then have "n \<le> k - i" using assms(1) by (intro dvd_imp_le) simp_all
  with assms show False by simp
qed

lemma ring_seg_store:
  assumes "k < n"
  shows "ring_seg n (xs[(g + k) mod n := x]) g k = ring_seg n xs g k"
proof -
  have "xs[(g + k) mod n := x] ! ((g + i) mod n) = xs ! ((g + i) mod n)" if "i < k" for i
    by (rule nth_list_update_neq) (rule ring_slots_differ [OF that assms])
  then show ?thesis by (simp add: ring_seg_def)
qed

lemma ring_seg_put:
  assumes "k < n" "length xs = n"
  shows "ring_seg n (xs[(g + k) mod n := x]) g (Suc k) = ring_seg n xs g k @ [x]"
proof -
  let ?ys = "xs[(g + k) mod n := x]"
  have "ring_seg n ?ys g (Suc k) = ring_seg n ?ys g k @ [?ys ! ((g + k) mod n)]"
    by (simp add: ring_seg_def)
  then show ?thesis using assms by (simp add: ring_seg_store)
qed

lemma ring_seg_get:
  assumes "0 < k" "g < n"
  shows "ring_seg n xs g k = xs ! g # ring_seg n xs (next_slot n g) (k - 1)"
proof -
  have "[0..<k] = 0 # map Suc [0..<k - 1]"
    using assms(1) by (cases k) (simp_all add: upt_conv_Cons map_Suc_upt)
  moreover have "(next_slot n g + i) mod n = (g + Suc i) mod n" for i
    using assms(2) by (simp add: next_slot_mod mod_simps)
  ultimately show ?thesis using assms(2) by (simp add: ring_seg_def comp_def)
qed

end
