(* ===== verification/SigioQueue.thy ===== *)
theory SigioQueue
  imports Ring
begin

text \<open>
  The signal-driven UDP echo server \<^verbatim>\<open>unpv13e/sigio/dgecho01.c\<close>: a ring of eight datagrams that
  the handler of \<open>SIGIO\<close> fills and the main loop empties. The main loop is a step relation with one
  step per access to the shared variables; the handler, during which \<open>SIGIO\<close> is blocked, is one
  step. The ring keeps the contract \<open>fifo\<close>.
\<close>

section \<open>The ring\<close>

abbreviation QSIZE :: nat where
  "QSIZE \<equiv> 8"

type_synonym datagram = "string \<times> byte list"

text \<open>
  Where the main loop is: at the test of \<open>nqueue\<close> with \<open>SIGIO\<close> blocked, before \<open>Sendto\<close>, before
  the increment of \<open>iget\<close>, and before \<open>SIGIO\<close> is blocked again and \<open>nqueue\<close> decremented. The last
  two fields record what was sent and what was received.
\<close>

datatype phase = Waiting | Unblocked | Sent | Advanced

record ring =
  dg :: "datagram list"
  iget :: nat
  iput :: nat
  nqueue :: nat
  cntread :: "nat list"
  phase :: phase
  sent :: "datagram list"
  received :: "datagram list"

definition ring_init :: ring where
  "ring_init = \<lparr>dg = replicate QSIZE ([], []), iget = 0, iput = 0, nqueue = 0,
     cntread = replicate (QSIZE + 1) 0, phase = Waiting, sent = [], received = []\<rparr>"

text \<open>
  A \<open>recvfrom\<close> of the handler gets a datagram, of which 4096 bytes are kept, or fails; when the
  list of results is used up it fails with \<open>EWOULDBLOCK\<close>.
\<close>

datatype rx = Datagram string "byte list" | RecvFails

definition enqueue :: "datagram \<Rightarrow> ring \<Rightarrow> ring" where
  "enqueue d q = q\<lparr>dg := (dg q)[iput q := d], nqueue := nqueue q + 1, iput := next_slot QSIZE (iput q),
                   received := received q @ [d]\<rparr>"

text \<open>The handler; \<open>None\<close> is the end of the process (\<open>err_quit\<close> or \<open>err_sys\<close>).\<close>

fun sig_io :: "nat \<Rightarrow> rx list \<Rightarrow> ring \<Rightarrow> ring option" where
  "sig_io nread rxs q =
     (if nqueue q \<ge> QSIZE then None
      else case rxs of
             [] \<Rightarrow> Some (q\<lparr>cntread := (cntread q)[nread := cntread q ! nread + 1]\<rparr>)
           | Datagram sa d # rxs' \<Rightarrow> sig_io (nread + 1) rxs' (enqueue (sa, take 4096 d) q)
           | RecvFails # rxs' \<Rightarrow> None)"

declare sig_io.simps [simp del]

inductive dg_step :: "ring \<Rightarrow> ring option \<Rightarrow> bool" where
  suspend: "phase q = Waiting \<Longrightarrow> nqueue q = 0 \<Longrightarrow> dg_step q (sig_io 0 rxs q)"
| unblock: "phase q = Waiting \<Longrightarrow> nqueue q \<noteq> 0 \<Longrightarrow> dg_step q (Some (q\<lparr>phase := Unblocked\<rparr>))"
| interrupt: "phase q \<noteq> Waiting \<Longrightarrow> dg_step q (sig_io 0 rxs q)"
| send: "phase q = Unblocked \<Longrightarrow> dg_step q (Some (q\<lparr>sent := sent q @ [dg q ! iget q], phase := Sent\<rparr>))"
| advance: "phase q = Sent \<Longrightarrow> dg_step q (Some (q\<lparr>iget := next_slot QSIZE (iget q), phase := Advanced\<rparr>))"
| decrement: "phase q = Advanced \<Longrightarrow> dg_step q (Some (q\<lparr>nqueue := nqueue q - 1, phase := Waiting\<rparr>))"

inductive_cases dg_stepE: "dg_step q r"

inductive dg_reachable :: "ring \<Rightarrow> bool" where
  start: "dg_reachable ring_init"
| step: "dg_reachable q \<Longrightarrow> dg_step q (Some q') \<Longrightarrow> dg_reachable q'"

section \<open>The ring is a queue\<close>

text \<open>How many slots from \<open>iget\<close> on hold datagrams, and which.\<close>

definition held :: "ring \<Rightarrow> nat" where
  "held q = (if phase q = Advanced then nqueue q - 1 else nqueue q)"

definition ring_items :: "ring \<Rightarrow> datagram list" where
  "ring_items q = ring_seg QSIZE (dg q) (iget q) (held q)"

definition ring_ok :: "ring \<Rightarrow> bool" where
  "ring_ok q \<longleftrightarrow> length (dg q) = QSIZE \<and> iget q < QSIZE \<and> iput q = (iget q + held q) mod QSIZE
     \<and> (phase q \<noteq> Waiting \<longrightarrow> 0 < nqueue q)"

definition ring_room :: "ring \<Rightarrow> bool" where
  "ring_room q \<longleftrightarrow> ring_ok q \<and> nqueue q < QSIZE"

definition ring_front :: "ring \<Rightarrow> datagram" where
  "ring_front q = dg q ! iget q"

definition ring_next :: "ring \<Rightarrow> ring" where
  "ring_next q = q\<lparr>iget := next_slot QSIZE (iget q), phase := Advanced\<rparr>"

lemma held_enqueue: "ring_ok q \<Longrightarrow> held (enqueue d q) = held q + 1"
  by (auto simp: held_def enqueue_def ring_ok_def)

lemma ring_items_enqueue:
  assumes "ring_room q"
  shows "ring_items (enqueue d q) = ring_items q @ [d]"
proof -
  have ok: "ring_ok q" and h: "held q < QSIZE"
    using assms by (auto simp: ring_room_def held_def)
  have "dg (enqueue d q) = (dg q)[(iget q + held q) mod QSIZE := d]" "iget (enqueue d q) = iget q"
    "length (dg q) = QSIZE" using ok by (simp_all add: enqueue_def ring_ok_def)
  then show ?thesis
    using ring_seg_put [OF h, of "dg q" "iget q" d] held_enqueue [OF ok, of d] by (simp add: ring_items_def)
qed

lemma ring_items_next:
  assumes "ring_ok q" "phase q = Sent"
  shows "ring_items q = ring_front q # ring_items (ring_next q)"
  using ring_seg_get [of "held q" "iget q" QSIZE "dg q"] assms
  by (auto simp: ring_items_def held_def ring_front_def ring_next_def ring_ok_def)

interpretation ring: fifo ring_items enqueue ring_front ring_next ring_room "\<lambda>q. ring_ok q \<and> phase q = Sent"
  by unfold_locales (simp_all add: ring_items_enqueue ring_items_next)

section \<open>The invariant\<close>

text \<open>
  Everything received has been sent, in order, or is in the ring; between \<open>Sendto\<close> and the
  increment of \<open>iget\<close> the front of the ring is what was just sent.
\<close>

definition unsent :: "ring \<Rightarrow> datagram list" where
  "unsent q = (if phase q = Sent then tl (ring_items q) else ring_items q)"

definition dg_inv :: "ring \<Rightarrow> bool" where
  "dg_inv q \<longleftrightarrow> ring_ok q \<and> nqueue q < QSIZE \<and> received q = sent q @ unsent q"

lemma ring_ok_enqueue:
  assumes "ring_ok q" "nqueue q < QSIZE"
  shows "ring_ok (enqueue d q)"
proof -
  have "iput q < QSIZE" using assms(1) by (simp add: ring_ok_def)
  then have "next_slot QSIZE (iput q) = (iget q + (held q + 1)) mod QSIZE"
    using assms(1) by (simp add: next_slot_mod ring_ok_def mod_simps)
  then show ?thesis
    using assms held_enqueue [OF assms(1), of d] by (simp add: ring_ok_def) (simp add: enqueue_def)
qed

lemma enqueue_fields [simp]:
  "phase (enqueue d q) = phase q" "sent (enqueue d q) = sent q" "nqueue (enqueue d q) = nqueue q + 1"
  "received (enqueue d q) = received q @ [d]"
  by (simp_all add: enqueue_def)

lemma unsent_enqueue:
  assumes "ring_ok q" "nqueue q < QSIZE"
  shows "unsent (enqueue d q) = unsent q @ [d]"
proof -
  have "ring_room q" using assms by (simp add: ring_room_def)
  then have "ring_items (enqueue d q) = ring_items q @ [d]" by (rule ring.items_put)
  moreover have "ring_items q \<noteq> []" if "phase q = Sent"
    using assms(1) that by (simp add: ring_ok_def ring_items_def held_def)
  ultimately show ?thesis by (auto simp: unsent_def)
qed

lemma sig_io_inv:
  "sig_io nread rxs q = Some q' \<Longrightarrow> ring_ok q \<Longrightarrow> received q = sent q @ unsent q \<Longrightarrow>
     dg_inv q' \<and> sent q' = sent q \<and> phase q' = phase q
     \<and> nqueue q' = nqueue q + length rxs \<and> RecvFails \<notin> set rxs"
proof (induction rxs arbitrary: nread q)
  case Nil
  then have "nqueue q < QSIZE" "q' = q\<lparr>cntread := (cntread q)[nread := cntread q ! nread + 1]\<rparr>"
    by (auto simp: sig_io.simps [of nread] split: if_splits)
  with Nil show ?case by (simp add: dg_inv_def ring_ok_def unsent_def ring_items_def held_def)
next
  case (Cons r rxs)
  then obtain sa d where r: "r = Datagram sa d" and lt: "nqueue q < QSIZE"
    and rest: "sig_io (nread + 1) rxs (enqueue (sa, take 4096 d) q) = Some q'"
    by (cases r) (auto simp: sig_io.simps [of nread] split: if_splits)
  have "ring_ok (enqueue (sa, take 4096 d) q)"
    "received (enqueue (sa, take 4096 d) q) = sent (enqueue (sa, take 4096 d) q) @ unsent (enqueue (sa, take 4096 d) q)"
    using Cons.prems lt ring_ok_enqueue unsent_enqueue by simp_all
  from Cons.IH [OF rest this] r show ?case by auto
qed

lemma dg_step_inv:
  assumes "dg_step q (Some q')" and inv: "dg_inv q"
  shows "dg_inv q'"
  using assms(1)
proof (cases rule: dg_step.cases)
  case (suspend rxs)
  with sig_io_inv [of 0 rxs q q'] inv show ?thesis by (simp add: dg_inv_def)
next
  case unblock
  then show ?thesis using inv by (auto simp: dg_inv_def ring_ok_def unsent_def ring_items_def held_def)
next
  case (interrupt rxs)
  with sig_io_inv [of 0 rxs q q'] inv show ?thesis by (simp add: dg_inv_def)
next
  case send
  then have "0 < nqueue q" "iget q < QSIZE" using inv by (auto simp: dg_inv_def ring_ok_def)
  then have "ring_items q = dg q ! iget q # tl (ring_items q)"
    using send ring_seg_get [of "nqueue q" "iget q" QSIZE "dg q"] by (simp add: ring_items_def held_def)
  then show ?thesis
    using send inv by (auto simp: dg_inv_def ring_ok_def unsent_def ring_items_def held_def)
next
  case advance
  then have ok: "ring_ok q" using inv by (simp add: dg_inv_def)
  have q': "q' = ring_next q" using advance by (simp add: ring_next_def)
  have "ring_items q = ring_front q # ring_items q'"
    using ring.items_next [of q] ok advance q' by simp
  moreover have "ring_ok q'"
  proof -
    obtain m where m: "nqueue q = Suc m" using ok advance by (cases "nqueue q") (auto simp: ring_ok_def)
    have "(next_slot QSIZE (iget q) + m) mod QSIZE = (iget q + nqueue q) mod QSIZE" "next_slot QSIZE (iget q) < QSIZE"
      using ok by (simp_all add: m next_slot_mod ring_ok_def mod_simps)
    then show ?thesis
      using ok advance by (simp add: q' ring_ok_def ring_next_def held_def m)
  qed
  ultimately show ?thesis
    using inv advance by (simp add: dg_inv_def unsent_def)
next
  case decrement
  then show ?thesis using inv by (auto simp: dg_inv_def ring_ok_def unsent_def ring_items_def held_def)
qed

lemma dg_reachable_inv: "dg_reachable q \<Longrightarrow> dg_inv q"
proof (induction rule: dg_reachable.induct)
  case start
  then show ?case
    by (simp add: dg_inv_def ring_ok_def unsent_def ring_items_def held_def ring_init_def)
next
  case (step q q')
  then show ?case using dg_step_inv by blast
qed

section \<open>Properties\<close>

text \<open>
  C31: However signals interrupt the main loop, at every moment the datagrams sent so far are
  exactly the first ones received, in the order they came and each to its sender, and the others
  are in the ring, in order: none is lost, repeated or overwritten while it waits. The process
  ends rather than overwrite one; but it already ends when the eighth slot gets filled, whether or
  not another datagram is there, so only seven of the eight can ever be used.
\<close>

theorem dg_echo_fifo:
  assumes "dg_reachable q"
  shows "received q = sent q @ unsent q \<and> nqueue q \<le> 7
    \<and> (phase q = Waiting \<longrightarrow> (\<forall>nread rxs. length rxs + nqueue q \<ge> 8 \<longrightarrow> sig_io nread rxs q = None))"
proof -
  have inv: "dg_inv q" using assms by (rule dg_reachable_inv)
  moreover have "sig_io nread rxs q = None" if "length rxs + nqueue q \<ge> 8" for nread rxs
  proof (cases "sig_io nread rxs q")
    case (Some q')
    with sig_io_inv [of nread rxs q q'] inv have "dg_inv q'" "nqueue q' = nqueue q + length rxs"
      by (simp_all add: dg_inv_def)
    with that show ?thesis by (simp add: dg_inv_def)
  qed
  ultimately show ?thesis by (auto simp: dg_inv_def)
qed

theorem dg_echo_fifo_witness:
  "\<exists>q. dg_reachable q \<and> sent q = [(''a'', [1])] \<and> received q = [(''a'', [1]), (''b'', [2])]
     \<and> unsent q = [(''b'', [2])]"
proof -
  let ?rxs = "[Datagram ''a'' [1], Datagram ''b'' [2]]"
  obtain q1 where q1: "sig_io 0 ?rxs ring_init = Some q1" "q1 = the (sig_io 0 ?rxs ring_init)"
    by (simp add: sig_io.simps ring_init_def enqueue_def)
  then have f: "phase q1 = Waiting" "nqueue q1 = 2" "dg q1 ! iget q1 = (''a'', [1])" "sent q1 = []"
    "received q1 = [(''a'', [1]), (''b'', [2])]"
    by (simp_all add: sig_io.simps ring_init_def enqueue_def next_slot_def)
  have "dg_step ring_init (sig_io 0 ?rxs ring_init)"
    by (rule suspend) (simp_all add: ring_init_def)
  then have r1: "dg_reachable q1" using q1 start step by metis
  let ?q2 = "q1\<lparr>phase := Unblocked\<rparr>"
  have r2: "dg_reachable ?q2" using unblock [of q1] f step [OF r1] by simp
  let ?q3 = "?q2\<lparr>sent := sent ?q2 @ [dg ?q2 ! iget ?q2], phase := Sent\<rparr>"
  have r3: "dg_reachable ?q3" using send [of ?q2] step [OF r2] by simp
  have "received ?q3 = sent ?q3 @ unsent ?q3" using dg_echo_fifo [OF r3] by simp
  with f r3 show ?thesis by (intro exI [of _ ?q3]) simp
qed

end
