(* ===== verification/NonblockCli.thy ===== *)
theory NonblockCli
  imports Prelude
begin

text \<open>
  The nonblocking stream client \<^verbatim>\<open>unpv13e/nonblock/strclinonb.c\<close>: \<open>str_cli\<close> copies standard input to
  the socket and the socket to standard output through two buffers with two pointers each. One
  iteration of its loop is the composition of its four parts; what \<open>select\<close>, \<open>read\<close> and \<open>write\<close> do
  in it is an input. The two buffers keep the same law, the locale \<open>copier\<close>.
\<close>

section \<open>The contract of a copying buffer\<close>

locale copier =
  fixes ok :: "'b \<Rightarrow> bool"
    and came :: "'b \<Rightarrow> 'x list"
    and went :: "'b \<Rightarrow> 'x list"
    and waits :: "'b \<Rightarrow> 'x list"
    and put :: "'x list \<Rightarrow> 'b \<Rightarrow> 'b"
    and get :: "nat \<Rightarrow> 'b \<Rightarrow> 'b"
    and space :: "'b \<Rightarrow> nat"
  assumes came_eq: "ok b \<Longrightarrow> came b = went b @ waits b"
    and put_ok: "ok b \<Longrightarrow> d \<noteq> [] \<Longrightarrow> length d \<le> space b \<Longrightarrow> ok (put d b)"
    and put_came: "came (put d b) = came b @ d"
    and put_went: "went (put d b) = went b"
    and get_ok: "ok b \<Longrightarrow> k \<le> length (waits b) \<Longrightarrow> ok (get k b)"
    and get_came: "came (get k b) = came b"
    and get_went: "ok b \<Longrightarrow> k \<le> length (waits b) \<Longrightarrow> went (get k b) = went b @ take k (waits b)"
begin

lemma put_waits: "ok b \<Longrightarrow> d \<noteq> [] \<Longrightarrow> length d \<le> space b \<Longrightarrow> waits (put d b) = waits b @ d"
  using came_eq [of b] came_eq [of "put d b"] put_ok [of b d] by (simp add: put_came put_went)

lemma get_waits:
  assumes "ok b" "k \<le> length (waits b)"
  shows "waits (get k b) = drop k (waits b)"
proof -
  have "went b @ waits b = (went b @ take k (waits b)) @ waits (get k b)"
    using came_eq [OF assms(1)] came_eq [OF get_ok [OF assms]] get_went [OF assms] by (simp add: get_came)
  then have "take k (waits b) @ drop k (waits b) = take k (waits b) @ waits (get k b)" by simp
  then show ?thesis by (simp only: same_append_eq)
qed

end

section \<open>State\<close>

abbreviation MAXLINE :: nat where
  "MAXLINE \<equiv> 4096"

text \<open>
  A buffer (\<open>to\<close> or \<open>fr\<close>) with the offsets of its two pointers (\<open>toiptr\<close>, \<open>tooptr\<close> or \<open>friptr\<close>,
  \<open>froptr\<close>). The last two fields record all bytes read into it and written from it.
\<close>

record nbuf =
  cells :: "byte list"
  iptr :: nat
  optr :: nat
  came :: "byte list"
  went :: "byte list"

record cli =
  to_buf :: nbuf
  fr_buf :: nbuf
  stdineof :: bool
  fins :: nat

definition nbuf_init :: nbuf where
  "nbuf_init = \<lparr>cells = replicate MAXLINE 0, iptr = 0, optr = 0, came = [], went = []\<rparr>"

definition cli_init :: cli where
  "cli_init = \<lparr>to_buf = nbuf_init, fr_buf = nbuf_init, stdineof = False, fins = 0\<rparr>"

text \<open>
  A \<open>read\<close> yields bytes (none: end of file), of which it stores at most what was asked for; a
  \<open>write\<close> takes some of the bytes offered; either may fail with \<open>EWOULDBLOCK\<close> or otherwise.
\<close>

datatype 'a io = Done 'a | WouldBlock | Fails

text \<open>What happens in one iteration: which requested descriptors \<open>Select\<close> leaves set, and the I/O.\<close>

record event =
  ev_stdin :: bool
  ev_sock_in :: bool
  ev_stdout :: bool
  ev_sock_out :: bool
  rd_stdin :: "byte list io"
  rd_sock :: "byte list io"
  wr_stdout :: "nat io"
  wr_sock :: "nat io"

text \<open>The iteration goes on, \<open>str_cli\<close> returns, or the process ends (\<open>err_sys\<close>, \<open>err_quit\<close>).\<close>

datatype 's run = Running 's | Returned 's | Died 's

fun bind_run :: "'s run \<Rightarrow> ('s \<Rightarrow> 's run) \<Rightarrow> 's run" where
  "bind_run (Running s) f = f s"
| "bind_run (Returned s) f = Returned s"
| "bind_run (Died s) f = Died s"

section \<open>The loop\<close>

text \<open>\<open>read\<close> at \<open>iptr\<close> and the advance of \<open>iptr\<close>; \<open>write\<close> from \<open>optr\<close>, its advance and the reset.\<close>

definition fill_buf :: "byte list \<Rightarrow> nbuf \<Rightarrow> nbuf" where
  "fill_buf d b =
     b\<lparr>cells := take (iptr b) (cells b) @ d @ drop (iptr b + length d) (cells b),
       iptr := iptr b + length d, came := came b @ d\<rparr>"

definition drain_buf :: "nat \<Rightarrow> nbuf \<Rightarrow> nbuf" where
  "drain_buf k b =
     (let b1 = b\<lparr>optr := optr b + k, went := went b @ take k (drop (optr b) (cells b))\<rparr>
      in if optr b1 = iptr b1 then b1\<lparr>iptr := 0, optr := 0\<rparr> else b1)"

definition buf_space :: "nbuf \<Rightarrow> nat" where
  "buf_space b = MAXLINE - iptr b"

definition want_stdin :: "cli \<Rightarrow> bool" where
  "want_stdin s \<longleftrightarrow> \<not> stdineof s \<and> iptr (to_buf s) < MAXLINE"

definition want_sock_in :: "cli \<Rightarrow> bool" where
  "want_sock_in s \<longleftrightarrow> iptr (fr_buf s) < MAXLINE"

definition want_sock_out :: "cli \<Rightarrow> bool" where
  "want_sock_out s \<longleftrightarrow> optr (to_buf s) \<noteq> iptr (to_buf s)"

definition want_stdout :: "cli \<Rightarrow> bool" where
  "want_stdout s \<longleftrightarrow> optr (fr_buf s) \<noteq> iptr (fr_buf s)"

text \<open>The first two parts also return whether they set the descriptor to write to.\<close>

definition stdin_part :: "event \<Rightarrow> cli \<Rightarrow> cli run \<times> bool" where
  "stdin_part e s =
     (if ev_stdin e \<and> want_stdin s then
        case rd_stdin e of
          Fails \<Rightarrow> (Died s, False)
        | WouldBlock \<Rightarrow> (Running s, False)
        | Done d0 \<Rightarrow>
            let d = take (buf_space (to_buf s)) d0
            in if d = [] then
                 (Running (s\<lparr>stdineof := True,
                    fins := (if optr (to_buf s) = iptr (to_buf s) then fins s + 1 else fins s)\<rparr>), False)
               else (Running (s\<lparr>to_buf := fill_buf d (to_buf s)\<rparr>), True)
      else (Running s, False))"

definition sock_in_part :: "bool \<Rightarrow> event \<Rightarrow> cli \<Rightarrow> cli run \<times> bool" where
  "sock_in_part sel e s =
     (if sel then
        case rd_sock e of
          Fails \<Rightarrow> (Died s, False)
        | WouldBlock \<Rightarrow> (Running s, False)
        | Done d0 \<Rightarrow>
            let d = take (buf_space (fr_buf s)) d0
            in if d = [] then (if stdineof s then Returned s else Died s, False)
               else (Running (s\<lparr>fr_buf := fill_buf d (fr_buf s)\<rparr>), True)
      else (Running s, False))"

definition stdout_part :: "bool \<Rightarrow> event \<Rightarrow> cli \<Rightarrow> cli run" where
  "stdout_part sel e s =
     (let n = iptr (fr_buf s) - optr (fr_buf s)
      in if sel \<and> n > 0 then
           case wr_stdout e of
             Fails \<Rightarrow> Died s
           | WouldBlock \<Rightarrow> Running s
           | Done k \<Rightarrow> Running (s\<lparr>fr_buf := drain_buf (min k n) (fr_buf s)\<rparr>)
         else Running s)"

definition sock_out_part :: "bool \<Rightarrow> event \<Rightarrow> cli \<Rightarrow> cli run" where
  "sock_out_part sel e s =
     (let n = iptr (to_buf s) - optr (to_buf s)
      in if sel \<and> n > 0 then
           case wr_sock e of
             Fails \<Rightarrow> Died s
           | WouldBlock \<Rightarrow> Running s
           | Done k \<Rightarrow>
               Running (s\<lparr>to_buf := drain_buf (min k n) (to_buf s),
                          fins := (if min k n = n \<and> stdineof s then fins s + 1 else fins s)\<rparr>)
         else Running s)"

text \<open>One iteration: the descriptor sets are computed from the state at its beginning.\<close>

definition str_cli_step :: "event \<Rightarrow> cli \<Rightarrow> cli run" where
  "str_cli_step e s =
     (let (r1, sock_set) = stdin_part e s
      in bind_run r1 (\<lambda>s1.
         let (r2, stdout_set) = sock_in_part (ev_sock_in e \<and> want_sock_in s) e s1
         in bind_run r2 (\<lambda>s2.
            bind_run (stdout_part (ev_stdout e \<and> want_stdout s \<or> stdout_set) e s2)
              (sock_out_part (ev_sock_out e \<and> want_sock_out s \<or> sock_set) e))))"

fun str_cli :: "event list \<Rightarrow> cli \<Rightarrow> cli run" where
  "str_cli [] s = Running s"
| "str_cli (e # es) s = bind_run (str_cli_step e s) (str_cli es)"

section \<open>The buffers copy\<close>

definition waits :: "nbuf \<Rightarrow> byte list" where
  "waits b = take (iptr b - optr b) (drop (optr b) (cells b))"

definition nbuf_ok :: "nbuf \<Rightarrow> bool" where
  "nbuf_ok b \<longleftrightarrow> length (cells b) = MAXLINE \<and> optr b \<le> iptr b \<and> iptr b \<le> MAXLINE
     \<and> (iptr b = MAXLINE \<longrightarrow> optr b < iptr b) \<and> came b = went b @ waits b"

lemma length_waits: "nbuf_ok b \<Longrightarrow> length (waits b) = iptr b - optr b"
  by (auto simp: nbuf_ok_def waits_def)

lemma nbuf_init_ok: "nbuf_ok nbuf_init"
  by (simp add: nbuf_ok_def nbuf_init_def waits_def)

lemma waits_fill:
  assumes "nbuf_ok b" "length d \<le> buf_space b"
  shows "waits (fill_buf d b) = waits b @ d"
proof -
  have b: "optr b \<le> iptr b" "iptr b \<le> length (cells b)" using assms(1) by (simp_all add: nbuf_ok_def)
  have "drop (optr b) (cells (fill_buf d b)) = waits b @ d @ drop (iptr b + length d) (cells b)"
    using b by (simp add: waits_def fill_buf_def drop_take)
  moreover have "iptr (fill_buf d b) - optr (fill_buf d b) = length (waits b) + length d"
    using b length_waits [OF assms(1)] by (simp add: fill_buf_def)
  moreover have "optr (fill_buf d b) = optr b" by (simp add: fill_buf_def)
  ultimately show ?thesis unfolding waits_def [of "fill_buf d b"] by simp
qed

lemma fill_buf_ok:
  assumes "nbuf_ok b" "d \<noteq> []" "length d \<le> buf_space b"
  shows "nbuf_ok (fill_buf d b)"
proof -
  have "waits (fill_buf d b) = waits b @ d" using assms(1,3) by (rule waits_fill)
  moreover have "0 < length d" using assms(2) by simp
  ultimately show ?thesis
    using assms(1,3) unfolding nbuf_ok_def by (auto simp: fill_buf_def buf_space_def)
qed

lemma take_waits:
  "k \<le> iptr b - optr b \<Longrightarrow> take k (drop (optr b) (cells b)) = take k (waits b)"
  by (simp add: waits_def min_def)

lemma waits_drain:
  assumes "nbuf_ok b" "k \<le> iptr b - optr b"
  shows "waits (drain_buf k b) = drop k (waits b)"
  using assms by (auto simp: nbuf_ok_def waits_def drain_buf_def Let_def drop_take add.commute)

lemma drain_buf_ok:
  assumes "nbuf_ok b" "k \<le> length (waits b)"
  shows "nbuf_ok (drain_buf k b)"
proof -
  have k: "k \<le> iptr b - optr b" using assms by (simp add: length_waits)
  have w: "waits (drain_buf k b) = drop k (waits b)" using assms(1) k by (rule waits_drain)
  have "went (drain_buf k b) @ waits (drain_buf k b) = went b @ waits b"
    by (simp add: w) (simp add: drain_buf_def Let_def take_waits [OF k])
  moreover have "came (drain_buf k b) = came b" by (simp add: drain_buf_def Let_def)
  ultimately show ?thesis
    using assms(1) k unfolding nbuf_ok_def by (auto simp: drain_buf_def Let_def)
qed

interpretation nb: copier nbuf_ok came went waits fill_buf drain_buf buf_space
proof unfold_locales
  fix b :: nbuf and k
  assume "nbuf_ok b" "k \<le> length (waits b)"
  then have "k \<le> iptr b - optr b" by (simp add: length_waits)
  then show "went (drain_buf k b) = went b @ take k (waits b)"
    by (simp add: drain_buf_def Let_def take_waits)
qed (simp_all add: nbuf_ok_def [THEN iffD1] fill_buf_ok drain_buf_ok,
     simp_all add: nbuf_ok_def fill_buf_def drain_buf_def Let_def)

section \<open>The invariant of the loop\<close>

text \<open>
  FIN is sent exactly once, as soon as standard input has ended and the socket was given all of it.
\<close>

definition cli_inv :: "cli \<Rightarrow> bool" where
  "cli_inv s \<longleftrightarrow> nbuf_ok (to_buf s) \<and> nbuf_ok (fr_buf s)
     \<and> fins s = (if stdineof s \<and> optr (to_buf s) = iptr (to_buf s) then 1 else 0)"

fun state_of :: "'s run \<Rightarrow> 's" where
  "state_of (Running s) = s"
| "state_of (Returned s) = s"
| "state_of (Died s) = s"

lemma state_of_bind:
  "P (state_of r) \<Longrightarrow> (\<And>s. r = Running s \<Longrightarrow> P s \<Longrightarrow> P (state_of (f s))) \<Longrightarrow> P (state_of (bind_run r f))"
  by (cases r) auto

lemma iptr_fill: "d \<noteq> [] \<Longrightarrow> optr b \<le> iptr b \<Longrightarrow> optr (fill_buf d b) \<noteq> iptr (fill_buf d b)"
  by (cases d) (simp_all add: fill_buf_def)

lemma empty_drain:
  "k \<le> iptr b - optr b \<Longrightarrow> optr b < iptr b \<Longrightarrow>
     optr (drain_buf k b) = iptr (drain_buf k b) \<longleftrightarrow> k = iptr b - optr b"
  by (auto simp: drain_buf_def Let_def)

lemma cli_init_inv: "cli_inv cli_init"
  by (simp add: cli_inv_def cli_init_def nbuf_init_ok)

lemma stdin_part_inv:
  assumes "cli_inv s"
  shows "cli_inv (state_of (fst (stdin_part e s)))"
proof (cases "ev_stdin e \<and> want_stdin s")
  case True
  then have open_in: "\<not> stdineof s" by (simp add: want_stdin_def)
  show ?thesis
  proof (cases "rd_stdin e")
    case (Done d0)
    let ?d = "take (buf_space (to_buf s)) d0"
    have len: "length ?d \<le> buf_space (to_buf s)" by simp
    show ?thesis
    proof (cases "?d = []")
      case empty: True
      then show ?thesis using assms True Done open_in by (auto simp: stdin_part_def cli_inv_def)
    next
      case False
      then have "nbuf_ok (fill_buf ?d (to_buf s))"
        using assms len by (intro nb.put_ok) (simp_all add: cli_inv_def)
      then show ?thesis using assms True Done False open_in
        by (simp add: stdin_part_def Let_def cli_inv_def)
    qed
  qed (use assms True in \<open>simp_all add: stdin_part_def\<close>)
next
  case False
  then show ?thesis unfolding stdin_part_def if_not_P [OF False] using assms by simp
qed

lemma sock_in_part_inv:
  assumes "cli_inv s"
  shows "cli_inv (state_of (fst (sock_in_part sel e s)))"
proof (cases "rd_sock e")
  case (Done d0)
  let ?d = "take (buf_space (fr_buf s)) d0"
  have len: "length ?d \<le> buf_space (fr_buf s)" by simp
  show ?thesis
  proof (cases "sel \<and> ?d \<noteq> []")
    case True
    then have "nbuf_ok (fill_buf ?d (fr_buf s))"
      using assms len by (intro nb.put_ok) (simp_all add: cli_inv_def)
    then show ?thesis using assms True Done
      by (simp add: sock_in_part_def Let_def cli_inv_def)
  next
    case False
    then show ?thesis using assms Done by (auto simp: sock_in_part_def Let_def)
  qed
qed (use assms in \<open>simp_all add: sock_in_part_def\<close>)

lemma stdout_part_inv: "cli_inv s \<Longrightarrow> cli_inv (state_of (stdout_part sel e s))"
  using nb.get_ok [of "fr_buf s"]
  by (auto simp: stdout_part_def cli_inv_def Let_def length_waits split: io.splits)

lemma sock_out_part_inv: "cli_inv s \<Longrightarrow> cli_inv (state_of (sock_out_part sel e s))"
  using nb.get_ok [of "to_buf s"]
  by (auto simp: sock_out_part_def cli_inv_def Let_def length_waits empty_drain split: io.splits)

lemma str_cli_step_inv: "cli_inv s \<Longrightarrow> cli_inv (state_of (str_cli_step e s))"
  unfolding str_cli_step_def Let_def split_def
  by (intro state_of_bind [where P = cli_inv] stdin_part_inv sock_in_part_inv stdout_part_inv
      sock_out_part_inv)

lemma str_cli_inv: "cli_inv s \<Longrightarrow> cli_inv (state_of (str_cli es s))"
proof (induction es arbitrary: s)
  case (Cons e es)
  show ?case unfolding str_cli.simps
    by (rule state_of_bind [where P = cli_inv]) (use Cons str_cli_step_inv in auto)
qed simp

text \<open>\<open>str_cli\<close> only returns from its second part, after the end of standard input.\<close>

lemma bind_run_Returned:
  "bind_run r f = Returned t \<longleftrightarrow> r = Returned t \<or> (\<exists>s. r = Running s \<and> f s = Returned t)"
  by (cases r) auto

lemma stdin_part_goes_on: "fst (stdin_part e s) \<noteq> Returned t"
  by (auto simp: stdin_part_def Let_def split: io.splits)

lemma sock_in_part_Returned: "fst (sock_in_part sel e s) = Returned t \<Longrightarrow> stdineof t"
  by (auto simp: sock_in_part_def Let_def split: io.splits if_splits)

lemma write_parts_go_on:
  "stdout_part sel e s \<noteq> Returned t" "sock_out_part sel e s \<noteq> Returned t"
  by (auto simp: stdout_part_def sock_out_part_def Let_def split: io.splits)

lemma str_cli_step_Returned: "str_cli_step e s = Returned t \<Longrightarrow> stdineof t"
  unfolding str_cli_step_def Let_def split_def bind_run_Returned
  using stdin_part_goes_on sock_in_part_Returned write_parts_go_on by blast

lemma str_cli_Returned: "str_cli es s = Returned t \<Longrightarrow> stdineof t"
  by (induction es arbitrary: s) (auto simp: bind_run_Returned dest: str_cli_step_Returned)

lemma waits_Nil_iff: "nbuf_ok b \<Longrightarrow> waits b = [] \<longleftrightarrow> optr b = iptr b"
  using length_waits [of b] by (auto simp: nbuf_ok_def)

lemma nbuf_not_stuck: "nbuf_ok b \<Longrightarrow> iptr b < MAXLINE \<or> optr b \<noteq> iptr b"
  by (auto simp: nbuf_ok_def)

text \<open>A run that ends while standard output would block.\<close>

definition lost_1 :: event where
  "lost_1 = \<lparr>ev_stdin = True, ev_sock_in = True, ev_stdout = False, ev_sock_out = False,
     rd_stdin = Done [], rd_sock = Done [7], wr_stdout = WouldBlock, wr_sock = WouldBlock\<rparr>"

definition lost_2 :: event where
  "lost_2 = lost_1\<lparr>rd_sock := Done []\<rparr>"

lemma lost_step_1:
  "str_cli_step lost_1 cli_init =
     Running (cli_init\<lparr>stdineof := True, fins := 1, fr_buf := fill_buf [7] nbuf_init\<rparr>)"
  by (simp add: str_cli_step_def stdin_part_def sock_in_part_def stdout_part_def sock_out_part_def
      lost_1_def want_stdin_def want_sock_in_def want_stdout_def want_sock_out_def cli_init_def
      buf_space_def Let_def) (simp add: nbuf_init_def fill_buf_def)

lemma lost_step_2:
  "str_cli_step lost_2 (cli_init\<lparr>stdineof := True, fins := 1, fr_buf := fill_buf [7] nbuf_init\<rparr>) =
     Returned (cli_init\<lparr>stdineof := True, fins := 1, fr_buf := fill_buf [7] nbuf_init\<rparr>)"
  by (simp add: str_cli_step_def stdin_part_def sock_in_part_def
      lost_1_def lost_2_def want_stdin_def want_sock_in_def Let_def)
    (simp add: nbuf_init_def fill_buf_def)

lemma lost_run:
  "str_cli [lost_1, lost_2] cli_init = Returned (state_of (str_cli [lost_1, lost_2] cli_init))
     \<and> waits (fr_buf (state_of (str_cli [lost_1, lost_2] cli_init))) = [7]"
proof -
  have "str_cli [lost_1, lost_2] cli_init =
      Returned (cli_init\<lparr>stdineof := True, fins := 1, fr_buf := fill_buf [7] nbuf_init\<rparr>)"
    unfolding str_cli.simps lost_step_1 bind_run.simps lost_step_2 by (rule refl)
  moreover have "waits (fill_buf [7] nbuf_init) = [7]"
    using waits_fill [OF nbuf_init_ok, of "[7]"] by (simp add: buf_space_def waits_def nbuf_init_def)
  ultimately show ?thesis by simp
qed

section \<open>Properties\<close>

text \<open>
  C30: Whatever \<open>select\<close>, \<open>read\<close> and \<open>write\<close> do and however short the counts they return, after any
  number of iterations the socket was given exactly what was read from standard input less the
  bytes still in the buffer, in order, and standard output exactly what was read from the socket
  less what is in the other buffer; the pointers stay in the buffers. FIN is sent exactly once and
  only when standard input has ended and all of it was written. The call of \<open>select\<close> always waits
  for something in each direction, so neither buffer can wedge. \<open>str_cli\<close> only returns after the
  end of standard input; but it returns at once at the end of the socket, even with bytes from the
  server still waiting for standard output, which are lost.
\<close>

theorem str_cli_copies:
  assumes "str_cli es cli_init = r" "s = state_of r"
  shows "came (to_buf s) = went (to_buf s) @ waits (to_buf s)
    \<and> came (fr_buf s) = went (fr_buf s) @ waits (fr_buf s)
    \<and> optr (to_buf s) \<le> iptr (to_buf s) \<and> iptr (to_buf s) \<le> MAXLINE
    \<and> optr (fr_buf s) \<le> iptr (fr_buf s) \<and> iptr (fr_buf s) \<le> MAXLINE
    \<and> fins s = (if stdineof s \<and> went (to_buf s) = came (to_buf s) then 1 else 0)
    \<and> (want_sock_in s \<or> want_stdout s) \<and> (stdineof s \<or> want_stdin s \<or> want_sock_out s)
    \<and> (r = Returned s \<longrightarrow> stdineof s)
    \<and> (\<exists>es' t. str_cli es' cli_init = Returned t \<and> waits (fr_buf t) = [7])"
proof -
  have inv: "cli_inv s" using str_cli_inv [OF cli_init_inv, of es] assms by simp
  then have ok: "nbuf_ok (to_buf s)" "nbuf_ok (fr_buf s)" by (simp_all add: cli_inv_def)
  have eqs: "came (to_buf s) = went (to_buf s) @ waits (to_buf s)"
    "came (fr_buf s) = went (fr_buf s) @ waits (fr_buf s)"
    using nb.came_eq [OF ok(1)] nb.came_eq [OF ok(2)] by simp_all
  have "fins s = (if stdineof s \<and> waits (to_buf s) = [] then 1 else 0)"
    using inv by (simp add: cli_inv_def waits_Nil_iff [OF ok(1)])
  moreover have "(want_sock_in s \<or> want_stdout s) \<and> (stdineof s \<or> want_stdin s \<or> want_sock_out s)"
    using nbuf_not_stuck [OF ok(1)] nbuf_not_stuck [OF ok(2)]
    by (auto simp: want_sock_in_def want_stdout_def want_stdin_def want_sock_out_def)
  moreover have "r = Returned s \<longrightarrow> stdineof s" using assms(1) str_cli_Returned by blast
  moreover have "\<exists>es' t. str_cli es' cli_init = Returned t \<and> waits (fr_buf t) = [7]"
    by (rule exI [of _ "[lost_1, lost_2]"], rule exI [of _ "state_of (str_cli [lost_1, lost_2] cli_init)"])
      (rule lost_run)
  ultimately show ?thesis using eqs ok by (simp add: nbuf_ok_def)
qed

theorem str_cli_copies_witness:
  "\<exists>s. str_cli [lost_1] cli_init = Running s \<and> came (fr_buf s) = went (fr_buf s) @ waits (fr_buf s)
     \<and> fins s = 1"
proof -
  have r: "str_cli [lost_1] cli_init =
      Running (cli_init\<lparr>stdineof := True, fins := 1, fr_buf := fill_buf [7] nbuf_init\<rparr>)"
    by (simp only: str_cli.simps lost_step_1 bind_run.simps)
  show ?thesis using str_cli_copies [OF r refl] r by simp
qed

end
