(* ===== verification/SelectServer.thy ===== *)
theory SelectServer
  imports Prelude
begin

text \<open>
  The single-process TCP echo server \<^verbatim>\<open>unpv13e/tcpcliserv/tcpservselect01.c\<close>: the table of clients,
  the descriptor set, and one round of the loop around \<open>Select\<close>. Descriptors are integers, \<open>-1\<close>
  an available entry, as in the code; what is ready, what \<open>Accept\<close> returns and what is read in a
  round is an input.
\<close>

section \<open>State\<close>

abbreviation FD_SETSIZE :: nat where
  "FD_SETSIZE \<equiv> 1024"

text \<open>What the server does to its clients, recorded in order.\<close>

datatype act = Accepted int | Echoed int "byte list" | Closed int

record srv =
  client :: "int list"
  maxi :: int
  maxfd :: int
  allset :: "int set"
  acts :: "act list"

text \<open>
  One round: the descriptors with something to read, the result of \<open>Accept\<close> (\<open>None\<close>: the wrapper
  ends the process), what \<open>Read\<close> gets from each descriptor (\<open>None\<close>: an error, which the wrapper
  ends the process for; no bytes: closed by the client), and whether \<open>Writen\<close> succeeds.
\<close>

record round_ev =
  ready :: "int set"
  accepts :: "int option"
  reads :: "int \<Rightarrow> byte list option"
  writes :: "int \<Rightarrow> bool"

text \<open>The loop goes on, the process ends, or \<open>FD_SET\<close> writes outside a descriptor set.\<close>

datatype 's round = Goes_on 's | Exits | Overruns

definition srv_init :: "int \<Rightarrow> srv" where
  "srv_init listenfd = \<lparr>client = replicate FD_SETSIZE (- 1), maxi = - 1, maxfd = listenfd,
     allset = {listenfd}, acts = []\<rparr>"

section \<open>A round\<close>

definition readable :: "round_ev \<Rightarrow> srv \<Rightarrow> int set" where
  "readable e s = {fd \<in> allset s. fd \<le> maxfd s \<and> fd \<in> ready e}"

fun first_avail :: "int list \<Rightarrow> nat" where
  "first_avail [] = 0"
| "first_avail (c # cs) = (if c < 0 then 0 else first_avail cs + 1)"

definition accept_part :: "round_ev \<Rightarrow> srv \<Rightarrow> srv round" where
  "accept_part e s =
     (case accepts e of
        None \<Rightarrow> Exits
      | Some connfd \<Rightarrow>
          let i = first_avail (client s)
          in if i = FD_SETSIZE then Exits
             else if connfd \<ge> int FD_SETSIZE then Overruns
             else Goes_on (s\<lparr>client := (client s)[i := connfd], allset := insert connfd (allset s),
                             maxfd := (if connfd > maxfd s then connfd else maxfd s),
                             maxi := (if int i > maxi s then int i else maxi s),
                             acts := acts s @ [Accepted connfd]\<rparr>))"

definition close_client :: "nat \<Rightarrow> srv \<Rightarrow> srv" where
  "close_client i s = s\<lparr>client := (client s)[i := - 1], allset := allset s - {client s ! i},
                        acts := acts s @ [Closed (client s ! i)]\<rparr>"

fun clients_part :: "int set \<Rightarrow> round_ev \<Rightarrow> nat list \<Rightarrow> int \<Rightarrow> srv \<Rightarrow> srv round" where
  "clients_part rset e [] nready s = Goes_on s"
| "clients_part rset e (i # is) nready s =
     (let sockfd = client s ! i
      in if sockfd < 0 \<or> sockfd \<notin> rset then clients_part rset e is nready s
         else case reads e sockfd of
                None \<Rightarrow> Exits
              | Some d0 \<Rightarrow>
                  let d = take 4096 d0
                  in if d \<noteq> [] \<and> \<not> writes e sockfd then Exits
                     else let s1 = (if d = [] then close_client i s
                                    else s\<lparr>acts := acts s @ [Echoed sockfd d]\<rparr>)
                          in if nready - 1 \<le> 0 then Goes_on s1
                             else clients_part rset e is (nready - 1) s1)"

definition select_round :: "int \<Rightarrow> round_ev \<Rightarrow> srv \<Rightarrow> srv round" where
  "select_round listenfd e s =
     (let rset = readable e s; nready = int (card rset)
      in if listenfd \<in> rset then
           case accept_part e s of
             Goes_on s1 \<Rightarrow>
               if nready - 1 \<le> 0 then Goes_on s1
               else clients_part rset e [0..<nat (maxi s1 + 1)] (nready - 1) s1
           | r \<Rightarrow> r
         else clients_part rset e [0..<nat (maxi s + 1)] nready s)"

text \<open>
  What the server relies on: \<open>Accept\<close> returns a descriptor that is not open. (\<open>Select\<close> blocks
  until something is ready, so every round has a readable descriptor.)
\<close>

definition round_possible :: "round_ev \<Rightarrow> srv \<Rightarrow> bool" where
  "round_possible e s \<longleftrightarrow> readable e s \<noteq> {} \<and> (case accepts e of None \<Rightarrow> True | Some c \<Rightarrow> 0 \<le> c \<and> c \<notin> allset s)"

inductive srv_reachable :: "int \<Rightarrow> srv \<Rightarrow> bool" for listenfd where
  start: "0 \<le> listenfd \<Longrightarrow> listenfd < int FD_SETSIZE \<Longrightarrow> srv_reachable listenfd (srv_init listenfd)"
| round: "srv_reachable listenfd s \<Longrightarrow> round_possible e s \<Longrightarrow> select_round listenfd e s = Goes_on s' \<Longrightarrow>
            srv_reachable listenfd s'"

inductive_simps srv_reachable_simps: "srv_reachable listenfd s"

section \<open>The invariant\<close>

text \<open>The clients connected, in the order of their entries.\<close>

definition connected :: "srv \<Rightarrow> int list" where
  "connected s = filter (\<lambda>c. 0 \<le> c) (client s)"

definition srv_inv :: "int \<Rightarrow> srv \<Rightarrow> bool" where
  "srv_inv listenfd s \<longleftrightarrow> length (client s) = FD_SETSIZE \<and> distinct (connected s)
     \<and> allset s = insert listenfd (set (connected s)) \<and> listenfd \<notin> set (connected s)
     \<and> (\<forall>fd \<in> allset s. 0 \<le> fd \<and> fd \<le> maxfd s \<and> fd < int FD_SETSIZE)
     \<and> maxi s < int FD_SETSIZE \<and> (\<forall>i < FD_SETSIZE. 0 \<le> client s ! i \<longrightarrow> int i \<le> maxi s)"

lemma first_avail_le: "first_avail cs \<le> length cs"
  by (induction cs) auto

lemma first_avail_free: "first_avail cs < length cs \<Longrightarrow> cs ! first_avail cs < 0"
  by (induction cs) auto

lemma first_avail_full: "first_avail cs = length cs \<Longrightarrow> filter (\<lambda>c. 0 \<le> c) cs = cs"
  by (induction cs) (auto split: if_splits)

lemma filter_update_free:
  "i < length cs \<Longrightarrow> cs ! i < 0 \<Longrightarrow> 0 \<le> c \<Longrightarrow>
     filter (\<lambda>c. 0 \<le> c) (cs[i := c]) = filter (\<lambda>c. 0 \<le> c) (take i cs) @ c # filter (\<lambda>c. 0 \<le> c) (drop (Suc i) cs)
   \<and> filter (\<lambda>c. 0 \<le> c) cs = filter (\<lambda>c. 0 \<le> c) (take i cs) @ filter (\<lambda>c. 0 \<le> (c::int)) (drop (Suc i) cs)"
  by (subst (2) id_take_nth_drop [of i cs]) (simp_all add: upd_conv_take_nth_drop)

lemma filter_update_close:
  "i < length cs \<Longrightarrow> 0 \<le> cs ! i \<Longrightarrow>
     filter (\<lambda>c. 0 \<le> c) (cs[i := - 1]) = filter (\<lambda>c. 0 \<le> c) (take i cs) @ filter (\<lambda>c. 0 \<le> c) (drop (Suc i) cs)
   \<and> filter (\<lambda>c. 0 \<le> c) cs = filter (\<lambda>c. 0 \<le> c) (take i cs) @ cs ! i # filter (\<lambda>c. 0 \<le> (c::int)) (drop (Suc i) cs)"
  by (subst (2) id_take_nth_drop [of i cs]) (simp_all add: upd_conv_take_nth_drop)

lemma drop_elem: "c \<notin> set xs \<Longrightarrow> filter (\<lambda>x. x \<noteq> c) xs = xs"
  by (rule filter_True) auto

lemma srv_init_inv: "0 \<le> l \<Longrightarrow> l < int FD_SETSIZE \<Longrightarrow> srv_inv l (srv_init l)"
  by (simp add: srv_inv_def srv_init_def connected_def)

lemma table_never_full:
  assumes "srv_inv l s"
  shows "first_avail (client s) < FD_SETSIZE"
proof (rule ccontr)
  assume "\<not> first_avail (client s) < FD_SETSIZE"
  then have "first_avail (client s) = length (client s)"
    using first_avail_le [of "client s"] assms by (simp add: srv_inv_def)
  then have "connected s = client s" by (simp add: first_avail_full connected_def)
  then have "distinct (l # connected s)" "length (l # connected s) = FD_SETSIZE + 1"
    using assms by (simp_all add: srv_inv_def)
  then have "card (set (l # connected s)) = FD_SETSIZE + 1" by (metis distinct_card)
  moreover have "set (l # connected s) \<subseteq> {0..<int FD_SETSIZE}"
    using assms by (auto simp: srv_inv_def)
  then have "card (set (l # connected s)) \<le> card {0..<int FD_SETSIZE}" by (intro card_mono) simp_all
  ultimately show False by simp
qed

lemma accept_part_inv:
  assumes inv: "srv_inv l s" and c: "accepts e = Some c" "0 \<le> c" "c \<notin> allset s"
    and r: "accept_part e s = Goes_on s'"
  shows "srv_inv l s'" "acts s' = acts s @ [Accepted c]" "allset s' = insert c (allset s)"
    "filter (\<lambda>fd. fd \<noteq> c) (connected s') = connected s"
proof -
  let ?i = "first_avail (client s)"
  have i: "?i < FD_SETSIZE" and len: "length (client s) = FD_SETSIZE"
    using table_never_full [OF inv] inv by (simp_all add: srv_inv_def)
  have free: "client s ! ?i < 0" using i len by (intro first_avail_free) simp
  have c': "c < int FD_SETSIZE" and s': "s' = s\<lparr>client := (client s)[?i := c], allset := insert c (allset s),
      maxfd := (if c > maxfd s then c else maxfd s), maxi := (if int ?i > maxi s then int ?i else maxi s),
      acts := acts s @ [Accepted c]\<rparr>"
    using r i c(1) by (auto simp: accept_part_def Let_def split: if_splits)
  define xs where "xs = filter (\<lambda>c. 0 \<le> c) (take ?i (client s))"
  define ys where "ys = filter (\<lambda>c. 0 \<le> c) (drop (Suc ?i) (client s))"
  have conn: "connected s' = xs @ c # ys" "connected s = xs @ ys"
    using filter_update_free [of ?i "client s" c] i len free c(2)
    by (simp_all add: connected_def s' xs_def ys_def)
  have new: "c \<noteq> l" "c \<notin> set xs" "c \<notin> set ys" using inv c(3) conn(2) by (auto simp: srv_inv_def)
  show "acts s' = acts s @ [Accepted c]" and all: "allset s' = insert c (allset s)" by (simp_all add: s')
  show "filter (\<lambda>fd. fd \<noteq> c) (connected s') = connected s"
    using drop_elem [OF new(2)] drop_elem [OF new(3)] by (simp add: conn)
  have "maxi s' < int FD_SETSIZE" using inv i by (simp add: s' srv_inv_def)
  moreover have "\<forall>j < FD_SETSIZE. 0 \<le> client s' ! j \<longrightarrow> int j \<le> maxi s'"
    using inv len i by (auto simp: s' srv_inv_def nth_list_update split: if_splits)
  moreover have "\<forall>fd \<in> allset s'. 0 \<le> fd \<and> fd \<le> maxfd s' \<and> fd < int FD_SETSIZE"
  proof -
    have "maxfd s \<le> maxfd s'" "c \<le> maxfd s'" by (simp_all add: s')
    then have "\<forall>fd \<in> allset s. fd \<le> maxfd s'" "c \<le> maxfd s'"
      using inv unfolding srv_inv_def by (blast intro: order_trans)+
    then show ?thesis using inv c(2) c' by (auto simp: all srv_inv_def)
  qed
  moreover have "length (client s') = FD_SETSIZE" using len by (simp add: s')
  moreover have "allset s' = insert l (set (connected s'))" "l \<notin> set (connected s')" "distinct (connected s')"
    using inv new by (auto simp: srv_inv_def conn all)
  ultimately show "srv_inv l s'" unfolding srv_inv_def by blast
qed

lemma close_client_inv:
  assumes inv: "srv_inv l s" and i: "i < FD_SETSIZE" "0 \<le> client s ! i"
  shows "srv_inv l (close_client i s)"
proof -
  let ?c = "client s ! i" and ?s = "close_client i s"
  have len: "length (client s) = FD_SETSIZE" using inv by (simp add: srv_inv_def)
  define xs where "xs = filter (\<lambda>c. 0 \<le> c) (take i (client s))"
  define ys where "ys = filter (\<lambda>c. 0 \<le> c) (drop (Suc i) (client s))"
  have conn: "connected ?s = xs @ ys" "connected s = xs @ ?c # ys"
    using filter_update_close [of i "client s"] i len
    by (simp_all add: connected_def close_client_def xs_def ys_def)
  have "allset ?s = insert l (set (connected ?s))" "l \<notin> set (connected ?s)" "distinct (connected ?s)"
    using inv by (auto simp: srv_inv_def conn) (auto simp: close_client_def conn srv_inv_def)
  moreover have "\<forall>j < FD_SETSIZE. 0 \<le> client ?s ! j \<longrightarrow> int j \<le> maxi ?s"
    using inv len i by (auto simp: close_client_def srv_inv_def nth_list_update split: if_splits)
  moreover have "\<forall>fd \<in> allset ?s. 0 \<le> fd \<and> fd \<le> maxfd ?s \<and> fd < int FD_SETSIZE"
    "length (client ?s) = FD_SETSIZE" "maxi ?s < int FD_SETSIZE"
    using inv len by (auto simp: close_client_def srv_inv_def)
  ultimately show ?thesis unfolding srv_inv_def by blast
qed

lemma acts_inv: "srv_inv l (s\<lparr>acts := as\<rparr>) \<longleftrightarrow> srv_inv l s"
  by (simp add: srv_inv_def connected_def)

text \<open>What a readable client gets: what it sent, or its end.\<close>

definition reaction :: "round_ev \<Rightarrow> int \<Rightarrow> act" where
  "reaction e fd = (case reads e fd of Some d0 \<Rightarrow> if d0 = [] then Closed fd else Echoed fd (take 4096 d0)
                                     | None \<Rightarrow> Closed fd)"

lemma clients_part_serves:
  "clients_part rset e is nready s = Goes_on s' \<Longrightarrow> srv_inv l s \<Longrightarrow> distinct is \<Longrightarrow>
   (\<And>i. i \<in> set is \<Longrightarrow> i < FD_SETSIZE) \<Longrightarrow> (\<And>fd. fd \<in> rset \<Longrightarrow> 0 \<le> fd) \<Longrightarrow>
   nready = int (length (filter (\<lambda>fd. fd \<in> rset) (map ((!) (client s)) is))) \<Longrightarrow>
   srv_inv l s' \<and> acts s' = acts s @ map (reaction e) (filter (\<lambda>fd. fd \<in> rset) (map ((!) (client s)) is))"
proof (induction "is" arbitrary: nready s)
  case (Cons i "is")
  let ?c = "client s ! i"
  show ?case
  proof (cases "?c \<in> rset")
    case False
    then show ?thesis using Cons.IH [of nready s] Cons.prems by simp
  next
    case True
    with Cons.prems(5) have c: "0 \<le> ?c" by simp
    obtain d0 where d0: "reads e ?c = Some d0" using Cons.prems(1) True c
      by (cases "reads e ?c") simp_all
    let ?s1 = "if d0 = [] then close_client i s else s\<lparr>acts := acts s @ [Echoed ?c (take 4096 d0)]\<rparr>"
    have goes: "(if nready - 1 \<le> 0 then Goes_on ?s1 else clients_part rset e is (nready - 1) ?s1) = Goes_on s'"
      using Cons.prems(1) True c d0 by (simp add: Let_def split: if_splits)
    have i: "i < FD_SETSIZE" using Cons.prems(4) by simp
    have inv: "srv_inv l ?s1"
      using close_client_inv [OF Cons.prems(2) i c] Cons.prems(2) by (simp add: acts_inv)
    have acts1: "acts ?s1 = acts s @ [reaction e ?c]"
      by (simp add: reaction_def d0 close_client_def)
    have rest: "map ((!) (client ?s1)) is = map ((!) (client s)) is"
      using Cons.prems(3) by (auto simp: close_client_def intro: nth_list_update_neq)
    have n: "nready - 1 = int (length (filter (\<lambda>fd. fd \<in> rset) (map ((!) (client ?s1)) is)))"
      unfolding rest using Cons.prems(6) True by simp
    show ?thesis
    proof (cases "nready - 1 \<le> 0")
      case True
      then have "filter (\<lambda>fd. fd \<in> rset) (map ((!) (client s)) is) = []"
        using n unfolding rest by (simp del: length_filter_map)
      then have fl: "filter (\<lambda>fd. fd \<in> rset) (map ((!) (client s)) (i # is)) = [?c]"
        using \<open>?c \<in> rset\<close> by (simp only: list.map filter.simps if_True)
      have "s' = ?s1" using goes True by simp
      then show ?thesis unfolding fl using inv acts1 by simp
    next
      case False
      then have "clients_part rset e is (nready - 1) ?s1 = Goes_on s'" using goes by simp
      from Cons.IH [OF this inv _ _ _ n] Cons.prems(3,4,5)
      show ?thesis using acts1 rest \<open>?c \<in> rset\<close> by simp
    qed
  qed
qed simp

text \<open>The wrappers end the process when reading from a client or writing to it fails.\<close>

definition fails :: "round_ev \<Rightarrow> int \<Rightarrow> bool" where
  "fails e fd \<longleftrightarrow> (case reads e fd of None \<Rightarrow> True | Some d0 \<Rightarrow> d0 \<noteq> [] \<and> \<not> writes e fd)"

lemma clients_part_exits:
  "distinct is \<Longrightarrow> (\<And>fd. fd \<in> rset \<Longrightarrow> 0 \<le> fd) \<Longrightarrow>
   nready = int (length (filter (\<lambda>fd. fd \<in> rset) (map ((!) (client s)) is))) \<Longrightarrow>
   clients_part rset e is nready s = Exits \<longleftrightarrow> (\<exists>fd \<in> rset. fd \<in> (!) (client s) ` set is \<and> fails e fd)"
proof (induction "is" arbitrary: nready s)
  case (Cons i "is")
  let ?c = "client s ! i"
  show ?case
  proof (cases "?c \<in> rset")
    case False
    then show ?thesis using Cons.IH [of nready s] Cons.prems by auto
  next
    case True
    with Cons.prems(2) have c: "0 \<le> ?c" by simp
    show ?thesis
    proof (cases "fails e ?c")
      case fail: True
      then show ?thesis using True c by (auto simp: fails_def Let_def split: option.splits)
    next
      case no_fail: False
      then obtain d0 where d0: "reads e ?c = Some d0" "\<not> (take 4096 d0 \<noteq> [] \<and> \<not> writes e ?c)"
        by (auto simp: fails_def split: option.splits)
      let ?s1 = "if take 4096 d0 = [] then close_client i s else s\<lparr>acts := acts s @ [Echoed ?c (take 4096 d0)]\<rparr>"
      have eq: "clients_part rset e (i # is) nready s =
          (if nready - 1 \<le> 0 then Goes_on ?s1 else clients_part rset e is (nready - 1) ?s1)"
        using True c d0(2) by (cases "d0 = []") (simp_all add: Let_def d0(1))
      have rest: "client ?s1 ! j = client s ! j" if "j \<in> set is" for j
        using Cons.prems(1) that by (auto simp: close_client_def intro: nth_list_update_neq)
      then have maps: "map ((!) (client ?s1)) is = map ((!) (client s)) is"
        "(!) (client ?s1) ` set is = (!) (client s) ` set is" by simp_all
      have n: "nready - 1 = int (length (filter (\<lambda>fd. fd \<in> rset) (map ((!) (client ?s1)) is)))"
        unfolding maps using Cons.prems(3) True by simp
      have IH: "clients_part rset e is (nready - 1) ?s1 = Exits \<longleftrightarrow>
          (\<exists>fd \<in> rset. fd \<in> (!) (client s) ` set is \<and> fails e fd)"
        using Cons.IH [OF _ _ n] Cons.prems(1,2) unfolding maps by simp
      have none: "filter (\<lambda>fd. fd \<in> rset) (map ((!) (client s)) is) = []" if "nready - 1 \<le> 0"
        using n that unfolding maps by (simp del: length_filter_map)
      have "(!) (client s) ` set is \<inter> rset = {}" if "nready - 1 \<le> 0"
        using none [OF that] by (auto simp: filter_empty_conv)
      then show ?thesis unfolding eq using IH no_fail by (auto split: if_splits)
    qed
  qed
qed simp

lemma clients_part_in_bounds: "clients_part rset e is nready s \<noteq> Overruns"
  by (induction "is" arbitrary: nready s) (auto simp: Let_def split: option.splits)

text \<open>The entries up to \<open>maxi\<close> hold all clients.\<close>

lemma Int_set_filter: "R \<inter> set xs = set (filter (\<lambda>x. x \<in> R) xs)"
  by auto

lemma table_scan:
  assumes inv: "srv_inv l s" and R: "\<And>fd. fd \<in> R \<Longrightarrow> 0 \<le> fd"
  shows "filter (\<lambda>fd. fd \<in> R) (map ((!) (client s)) [0..<nat (maxi s + 1)]) = filter (\<lambda>fd. fd \<in> R) (connected s)"
    and "R \<inter> (!) (client s) ` set [0..<nat (maxi s + 1)] = R \<inter> set (connected s)"
proof -
  let ?m = "nat (maxi s + 1)"
  have len: "length (client s) = FD_SETSIZE" and m: "?m \<le> FD_SETSIZE"
    using inv by (auto simp: srv_inv_def)
  then have scan: "map ((!) (client s)) [0..<?m] = take ?m (client s)"
    by (intro nth_equalityI) simp_all
  have neg: "c < 0" if c: "c \<in> set (drop ?m (client s))" for c
  proof -
    obtain k where "k < length (drop ?m (client s))" "drop ?m (client s) ! k = c"
      using c unfolding in_set_conv_nth by blast
    then have k: "?m + k < FD_SETSIZE" "client s ! (?m + k) = c" using len m by auto
    have "maxi s < int (?m + k)" by linarith
    moreover have "0 \<le> c \<Longrightarrow> int (?m + k) \<le> maxi s" using inv k unfolding srv_inv_def by blast
    ultimately show ?thesis by linarith
  qed
  have "filter (\<lambda>fd. fd \<in> R) (drop ?m (client s)) = []"
    unfolding filter_empty_conv using neg R by (meson not_less)
  then have "filter (\<lambda>fd. fd \<in> R) (take ?m (client s)) = filter (\<lambda>fd. fd \<in> R) (client s)"
    using filter_append [of "\<lambda>fd. fd \<in> R" "take ?m (client s)" "drop ?m (client s)"] by simp
  also have "\<dots> = filter (\<lambda>fd. fd \<in> R) (connected s)"
    unfolding connected_def filter_filter by (rule filter_cong) (auto dest: R)
  finally show 1: "filter (\<lambda>fd. fd \<in> R) (map ((!) (client s)) [0..<?m]) = filter (\<lambda>fd. fd \<in> R) (connected s)"
    by (simp only: scan)
  show "R \<inter> (!) (client s) ` set [0..<?m] = R \<inter> set (connected s)"
    using Int_set_filter [of R "map ((!) (client s)) [0..<?m]"] Int_set_filter [of R "connected s"] 1 by simp
qed

section \<open>A round from a reachable state\<close>

lemma readable_facts:
  assumes "srv_inv l s"
  shows "readable e s = allset s \<inter> ready e" "\<And>fd. fd \<in> readable e s \<Longrightarrow> 0 \<le> fd"
    and "int (card (readable e s)) =
      (if l \<in> readable e s then 1 else 0) + int (length (filter (\<lambda>fd. fd \<in> readable e s) (connected s)))"
proof -
  let ?R = "readable e s" and ?F = "filter (\<lambda>fd. fd \<in> readable e s) (connected s)"
  show "?R = allset s \<inter> ready e" using assms by (auto simp: readable_def srv_inv_def)
  show "\<And>fd. fd \<in> ?R \<Longrightarrow> 0 \<le> fd" using assms by (auto simp: readable_def srv_inv_def)
  have "?R \<subseteq> insert l (set (connected s))" using assms by (auto simp: readable_def srv_inv_def)
  then have R: "?R = (if l \<in> ?R then insert l (set ?F) else set ?F)" by auto
  have "distinct ?F" "l \<notin> set ?F" using assms by (simp_all add: srv_inv_def)
  moreover from this(1) have "card (set ?F) = length ?F" by (rule distinct_card)
  ultimately have "card (insert l (set ?F)) = Suc (length ?F)" "card (set ?F) = length ?F"
    by (simp_all del: set_filter)
  then show "int (card ?R) = (if l \<in> ?R then 1 else 0) + int (length ?F)"
    using R by (cases "l \<in> ?R") (simp_all del: set_filter)
qed

text \<open>The second part of a round, from the state \<open>s1\<close> the first part leaves.\<close>

lemma scan_effect:
  assumes inv: "srv_inv l s1" and R: "\<And>fd. fd \<in> R \<Longrightarrow> 0 \<le> fd"
    and n: "n = int (length (filter (\<lambda>fd. fd \<in> R) (connected s1)))"
  shows "clients_part R e [0..<nat (maxi s1 + 1)] n s1 = Goes_on s' \<Longrightarrow>
      srv_inv l s' \<and> acts s' = acts s1 @ map (reaction e) (filter (\<lambda>fd. fd \<in> R) (connected s1))"
    and "clients_part R e [0..<nat (maxi s1 + 1)] n s1 = Exits \<longleftrightarrow> (\<exists>fd \<in> R. fd \<in> set (connected s1) \<and> fails e fd)"
proof -
  note scan = table_scan [OF inv R]
  have n': "n = int (length (filter (\<lambda>fd. fd \<in> R) (map ((!) (client s1)) [0..<nat (maxi s1 + 1)])))"
    by (simp only: n scan(1))
  have bound: "i < FD_SETSIZE" if "i \<in> set [0..<nat (maxi s1 + 1)]" for i
    using that inv by (auto simp: srv_inv_def)
  {
    assume run: "clients_part R e [0..<nat (maxi s1 + 1)] n s1 = Goes_on s'"
    have "srv_inv l s' \<and> acts s' = acts s1 @ map (reaction e)
        (filter (\<lambda>fd. fd \<in> R) (map ((!) (client s1)) [0..<nat (maxi s1 + 1)]))"
      by (rule clients_part_serves [OF run inv distinct_upt _ _ n']) (erule bound, erule R)
    then show "srv_inv l s' \<and> acts s' = acts s1 @ map (reaction e) (filter (\<lambda>fd. fd \<in> R) (connected s1))"
      by (simp only: scan(1))
  }
  have "clients_part R e [0..<nat (maxi s1 + 1)] n s1 = Exits \<longleftrightarrow>
      (\<exists>fd \<in> R. fd \<in> (!) (client s1) ` set [0..<nat (maxi s1 + 1)] \<and> fails e fd)"
    by (rule clients_part_exits [OF distinct_upt _ n']) (erule R)
  then show "clients_part R e [0..<nat (maxi s1 + 1)] n s1 = Exits \<longleftrightarrow>
      (\<exists>fd \<in> R. fd \<in> set (connected s1) \<and> fails e fd)"
    using scan(2) by blast
qed

lemma round_effect:
  assumes inv: "srv_inv l s" and poss: "round_possible e s"
    and r: "select_round l e s = Goes_on s'"
  shows "srv_inv l s' \<and> acts s' = acts s @ (if l \<in> readable e s then [Accepted (the (accepts e))] else [])
    @ map (reaction e) (filter (\<lambda>fd. fd \<in> readable e s) (connected s))"
proof (cases "l \<in> readable e s")
  case False
  let ?R = "readable e s"
  have n: "int (card ?R) = int (length (filter (\<lambda>fd. fd \<in> ?R) (connected s)))"
    using readable_facts(3) [OF inv, of e] False by simp
  have "clients_part ?R e [0..<nat (maxi s + 1)] (int (card ?R)) s = Goes_on s'"
    using r False by (simp add: select_round_def Let_def)
  from scan_effect(1) [OF inv readable_facts(2) [OF inv, where e = e] n this] False show ?thesis by simp
next
  case True
  let ?R = "readable e s"
  obtain s1 where s1: "accept_part e s = Goes_on s1"
    using r True by (cases "accept_part e s") (simp_all add: select_round_def)
  then obtain c where c: "accepts e = Some c" by (cases "accepts e") (simp_all add: accept_part_def)
  with poss have c': "0 \<le> c" "c \<notin> allset s" by (simp_all add: round_possible_def)
  note acc = accept_part_inv [OF inv c c' s1]
  have "filter (\<lambda>fd. fd \<in> ?R) (connected s) = filter (\<lambda>fd. fd \<in> ?R) (connected s1)"
    using c'(2) by (auto simp: acc(4) [symmetric] readable_def intro!: filter_cong)
  then have same: "filter (\<lambda>fd. fd \<in> ?R) (connected s1) = filter (\<lambda>fd. fd \<in> ?R) (connected s)" ..
  have n: "int (card ?R) - 1 = int (length (filter (\<lambda>fd. fd \<in> ?R) (connected s1)))"
    using readable_facts(3) [OF inv, of e] True by (simp add: same)
  show ?thesis
  proof (cases "int (card ?R) - 1 \<le> 0")
    case no_more: True
    then have "s' = s1" using r True s1 by (simp add: select_round_def)
    moreover have "filter (\<lambda>fd. fd \<in> ?R) (connected s) = []" using n no_more unfolding same by simp
    ultimately show ?thesis using acc(1,2) True c by simp
  next
    case False
    then have "clients_part ?R e [0..<nat (maxi s1 + 1)] (int (card ?R) - 1) s1 = Goes_on s'"
      using r True s1 by (simp add: select_round_def Let_def)
    from scan_effect(1) [OF acc(1) readable_facts(2) [OF inv, where e = e] n this]
    show ?thesis using acc(2) True c unfolding same by simp
  qed
qed

lemma srv_reachable_inv: "srv_reachable l s \<Longrightarrow> srv_inv l s"
proof (induction rule: srv_reachable.induct)
  case start
  then show ?case by (rule srv_init_inv)
next
  case (round s e s')
  then show ?case using round_effect [OF round.IH round.hyps(2,3)] by blast
qed

text \<open>When a round does not go on.\<close>

lemma accept_part_cases:
  assumes "srv_inv l s"
  shows "accept_part e s = Exits \<longleftrightarrow> accepts e = None"
    and "accept_part e s = Overruns \<longleftrightarrow> (\<exists>c. accepts e = Some c \<and> int FD_SETSIZE \<le> c)"
  using table_never_full [OF assms] by (auto simp: accept_part_def Let_def split: option.splits)

lemma round_overruns:
  assumes inv: "srv_inv l s"
  shows "select_round l e s = Overruns \<longleftrightarrow>
    l \<in> readable e s \<and> (\<exists>c. accepts e = Some c \<and> int FD_SETSIZE \<le> c)"
proof (cases "l \<in> readable e s \<and> accept_part e s \<noteq> Overruns")
  case True
  then show ?thesis
    using clients_part_in_bounds accept_part_cases(2) [OF inv, of e]
    by (cases "accept_part e s") (simp_all add: select_round_def Let_def)
next
  case False
  then show ?thesis
    using clients_part_in_bounds accept_part_cases(2) [OF inv, of e]
    by (auto simp: select_round_def Let_def)
qed

lemma round_exits:
  assumes inv: "srv_inv l s" and poss: "round_possible e s"
  shows "select_round l e s = Exits \<longleftrightarrow> select_round l e s \<noteq> Overruns \<and>
    (l \<in> readable e s \<and> accepts e = None \<or> (\<exists>fd \<in> readable e s. fd \<in> set (connected s) \<and> fails e fd))"
proof (cases "l \<in> readable e s")
  case False
  let ?R = "readable e s"
  have n: "int (card ?R) = int (length (filter (\<lambda>fd. fd \<in> ?R) (connected s)))"
    using readable_facts(3) [OF inv, of e] False by simp
  have "select_round l e s = clients_part ?R e [0..<nat (maxi s + 1)] (int (card ?R)) s"
    using False by (simp add: select_round_def Let_def)
  then show ?thesis
    using scan_effect(2) [OF inv readable_facts(2) [OF inv, where e = e] n] clients_part_in_bounds False by simp
next
  case True
  let ?R = "readable e s"
  show ?thesis
  proof (cases "accept_part e s")
    case (Goes_on s1)
    then obtain c where c: "accepts e = Some c" by (cases "accepts e") (simp_all add: accept_part_def)
    with poss have c': "0 \<le> c" "c \<notin> allset s" by (simp_all add: round_possible_def)
    note acc = accept_part_inv [OF inv c c' Goes_on]
    have same: "filter (\<lambda>fd. fd \<in> ?R) (connected s1) = filter (\<lambda>fd. fd \<in> ?R) (connected s)"
      using c'(2) by (auto simp: acc(4) [symmetric] readable_def intro!: filter_cong)
    then have mem: "?R \<inter> set (connected s1) = ?R \<inter> set (connected s)" by (simp only: Int_set_filter)
    have n: "int (card ?R) - 1 = int (length (filter (\<lambda>fd. fd \<in> ?R) (connected s1)))"
      using readable_facts(3) [OF inv, of e] True by (simp add: same)
    have none: "filter (\<lambda>fd. fd \<in> ?R) (connected s) = []" if "int (card ?R) - 1 \<le> 0"
      using n that unfolding same by simp
    have "select_round l e s = (if int (card ?R) - 1 \<le> 0 then Goes_on s1
        else clients_part ?R e [0..<nat (maxi s1 + 1)] (int (card ?R) - 1) s1)"
      using True Goes_on by (simp add: select_round_def Let_def)
    then show ?thesis
      using scan_effect(2) [OF acc(1) readable_facts(2) [OF inv, where e = e] n, of e] clients_part_in_bounds c mem none
      by (auto simp: filter_empty_conv)
  qed (use True accept_part_cases [OF inv, of e] in \<open>auto simp: select_round_def Let_def\<close>)
qed

section \<open>Properties\<close>

text \<open>
  C9: In every reachable state the table \<open>client\<close>, \<open>maxi\<close>, \<open>maxfd\<close> and \<open>allset\<close> agree: the set holds
  the listening socket and exactly the clients of the table, each in one entry. So \<open>Select\<close> misses
  none, and counting \<open>nready\<close> down never skips one: a round that goes on accepts the new connection,
  if there is one, and then serves exactly the readable clients, each once, in the order of their
  entries. "too many clients" is never reached: a descriptor beyond \<open>FD_SETSIZE\<close> makes \<open>FD_SET\<close>
  write outside the set instead. The process ends for all clients as soon as the exchange with one
  of them fails, for example when it resets its connection.
\<close>

theorem select_server_serves:
  assumes "srv_reachable l s" "round_possible e s"
  shows "allset s = insert l (set (connected s)) \<and> distinct (connected s) \<and> readable e s = allset s \<inter> ready e
    \<and> (\<forall>s'. select_round l e s = Goes_on s' \<longrightarrow>
          acts s' = acts s @ (if l \<in> readable e s then [Accepted (the (accepts e))] else [])
            @ map (reaction e) (filter (\<lambda>fd. fd \<in> readable e s) (connected s)))
    \<and> first_avail (client s) < FD_SETSIZE
    \<and> (select_round l e s = Overruns \<longleftrightarrow>
          l \<in> readable e s \<and> (\<exists>c. accepts e = Some c \<and> int FD_SETSIZE \<le> c))
    \<and> (select_round l e s = Exits \<longleftrightarrow> select_round l e s \<noteq> Overruns \<and>
          (l \<in> readable e s \<and> accepts e = None
           \<or> (\<exists>fd \<in> readable e s. fd \<in> set (connected s) \<and> fails e fd)))"
proof -
  have inv: "srv_inv l s" using assms(1) by (rule srv_reachable_inv)
  show ?thesis
    using inv readable_facts(1) [OF inv, of e] round_effect [OF inv assms(2)] table_never_full [OF inv]
      round_overruns [OF inv, of e] round_exits [OF inv assms(2)]
    unfolding srv_inv_def by blast
qed

text \<open>The first two rounds: a client connects; it sends something and a second one connects.\<close>

definition first_round :: round_ev where
  "first_round = \<lparr>ready = {3}, accepts = Some 4, reads = (\<lambda>_. Some []), writes = (\<lambda>_. True)\<rparr>"

definition second_round :: round_ev where
  "second_round = \<lparr>ready = {3, 4}, accepts = Some 5, reads = (\<lambda>_. Some [65]), writes = (\<lambda>_. True)\<rparr>"

theorem select_server_serves_witness:
  "\<exists>s. srv_reachable 3 s \<and> round_possible second_round s \<and> connected s = [4]
     \<and> (\<forall>s'. select_round 3 second_round s = Goes_on s' \<longrightarrow> acts s' = [Accepted 4, Accepted 5, Echoed 4 [65]])"
proof -
  have init: "srv_reachable 3 (srv_init 3)" by (rule srv_reachable.start) simp_all
  let ?s = "(srv_init 3)\<lparr>client := (client (srv_init 3))[0 := 4], allset := {4, 3}, maxfd := 4, maxi := 0,
    acts := [Accepted 4]\<rparr>"
  have "readable first_round (srv_init 3) = {3}" by (auto simp: readable_def srv_init_def first_round_def)
  moreover have "first_avail (client (srv_init 3)) = 0" by (simp add: srv_init_def numeral_eq_Suc)
  ultimately have "select_round 3 first_round (srv_init 3) = Goes_on ?s" "round_possible first_round (srv_init 3)"
    by (simp_all add: select_round_def accept_part_def round_possible_def Let_def)
      (simp_all add: srv_init_def first_round_def)
  from srv_reachable.round [OF init this(2,1)] have r: "srv_reachable 3 ?s" .
  have conn: "connected ?s = [4]" by (simp add: connected_def srv_init_def numeral_eq_Suc)
  have rd: "readable second_round ?s = {3, 4}" by (auto simp: readable_def srv_init_def second_round_def)
  have p: "round_possible second_round ?s" by (simp add: round_possible_def rd) (simp add: second_round_def)
  have "acts s' = [Accepted 4, Accepted 5, Echoed 4 [65]]"
    if "select_round 3 second_round ?s = Goes_on s'" for s'
  proof -
    have "acts s' = acts ?s @ (if 3 \<in> readable second_round ?s then [Accepted (the (accepts second_round))] else [])
        @ map (reaction second_round) (filter (\<lambda>fd. fd \<in> readable second_round ?s) (connected ?s))"
      using select_server_serves [OF r p] that by blast
    then show ?thesis unfolding rd conn by (simp add: reaction_def second_round_def)
  qed
  with r p conn show ?thesis by blast
qed

end
