(* ===== verification/Connectors.thy ===== *)
theory Connectors
  imports AddrInfo
begin

text \<open>
  The functions of \<^verbatim>\<open>unpv13e/lib\<close> that turn a host and a service into a socket: \<open>tcp_connect\<close>,
  \<open>tcp_listen\<close>, \<open>udp_client\<close>, \<open>udp_connect\<close>, \<open>udp_server\<close> and \<open>host_serv\<close>, on top of
  \<open>getaddrinfo\<close>, and the two connects with a time limit, \<open>connect_nonb\<close> and \<open>connect_timeo\<close>. Their
  system calls are recorded in order. The wrappers with a capital letter (\<open>Setsockopt\<close>, \<open>Close\<close>,
  \<open>Listen\<close>, \<open>Fcntl\<close>) are taken to succeed; else they end the process.
\<close>

section \<open>System calls\<close>

datatype syscall =
    SocketCall int int int int
  | ConnectCall int "sockaddr option"
  | BindCall int "sockaddr option"
  | ReuseCall int
  | CloseCall int
  | ListenCall int

text \<open>
  What the kernel answers for the \<open>i\<close>-th entry of the address list: the result of \<open>socket\<close>, and
  whether the \<open>connect\<close> or \<open>bind\<close> that follows succeeds.
\<close>

record kern =
  socket_result :: "nat \<Rightarrow> int"
  accepts_addr :: "nat \<Rightarrow> bool"

text \<open>The function returns a descriptor (with the entry in use), or the process ends.\<close>

datatype conn_result = Ready int addrinfo | Ends

fun open_after :: "int list \<Rightarrow> syscall list \<Rightarrow> int list" where
  "open_after os [] = os"
| "open_after os (SocketCall _ _ _ fd # cs) = open_after (if fd < 0 then os else fd # os) cs"
| "open_after os (CloseCall fd # cs) = open_after (remove1 fd os) cs"
| "open_after os (_ # cs) = open_after os cs"

lemma open_after_append: "open_after os (cs @ ds) = open_after (open_after os cs) ds"
  by (induction os cs rule: open_after.induct) simp_all

section \<open>The loop over the addresses\<close>

definition socket_call :: "addrinfo \<Rightarrow> int \<Rightarrow> syscall" where
  "socket_call ai fd = SocketCall (ai_family ai) (ai_socktype ai) (ai_protocol ai) fd"

text \<open>
  The loop that four of the functions share; \<open>use\<close> is what they do with a socket for an address,
  the last call of it deciding. \<open>None\<close>: the end of the list is reached.
\<close>

fun try_addrs ::
    "(int \<Rightarrow> addrinfo \<Rightarrow> syscall list) \<Rightarrow> kern \<Rightarrow> nat \<Rightarrow> addrinfo list \<Rightarrow> syscall list \<times> (int \<times> addrinfo) option" where
  "try_addrs use k i [] = ([], None)"
| "try_addrs use k i (ai # ais) =
     (let sockfd = socket_result k i; sc = socket_call ai sockfd;
          (cs, r) = try_addrs use k (i + 1) ais
      in if sockfd < 0 then (sc # cs, r)
         else if accepts_addr k i then (sc # use sockfd ai, Some (sockfd, ai))
         else (sc # use sockfd ai @ CloseCall sockfd # cs, r))"

text \<open>The loop of \<open>udp_client\<close>, which only makes a socket.\<close>

fun first_socket :: "kern \<Rightarrow> nat \<Rightarrow> addrinfo list \<Rightarrow> syscall list \<times> (int \<times> addrinfo) option" where
  "first_socket k i [] = ([], None)"
| "first_socket k i (ai # ais) =
     (let sockfd = socket_result k i; sc = socket_call ai sockfd in
      if sockfd \<ge> 0 then ([sc], Some (sockfd, ai))
      else let (cs, r) = first_socket k (i + 1) ais in (sc # cs, r))"

text \<open>
  The frame of the functions: look up, take the loop over the list, finish. An error of
  \<open>getaddrinfo\<close> ends the process. A list without entries would be a null pointer.
\<close>

definition over_addrs ::
    "(addrinfo list \<Rightarrow> syscall list \<times> (int \<times> addrinfo) option) \<Rightarrow> (int \<Rightarrow> syscall list) \<Rightarrow>
     resolver \<Rightarrow> hints \<Rightarrow> string option \<Rightarrow> string option \<Rightarrow> (syscall list \<times> conn_result) outcome" where
  "over_addrs loop finish rs hs host serv =
     (case fst (getaddrinfo rs host serv (Some hs)) of
        Failed_with _ \<Rightarrow> Ok ([], Ends)
      | Exits \<Rightarrow> Ok ([], Ends)
      | Found res \<Rightarrow>
          if res = [] then Undefined
          else (case loop res of
                  (cs, None) \<Rightarrow> Ok (cs, Ends)
                | (cs, Some (fd, ai)) \<Rightarrow> Ok (cs @ finish fd, Ready fd ai)))"

definition hints_for :: "flags \<Rightarrow> int \<Rightarrow> hints" where
  "hints_for fs socktype = \<lparr>h_flags = fs, h_family = AF_UNSPEC, h_socktype = socktype, h_protocol = 0\<rparr>"

definition tcp_connect where
  "tcp_connect rs k host serv =
     over_addrs (try_addrs (\<lambda>fd ai. [ConnectCall fd (ai_addr ai)]) k 0) (\<lambda>fd. [])
       rs (hints_for 0 SOCK_STREAM) host serv"

definition tcp_listen where
  "tcp_listen rs k host serv =
     over_addrs (try_addrs (\<lambda>fd ai. [ReuseCall fd, BindCall fd (ai_addr ai)]) k 0) (\<lambda>fd. [ListenCall fd])
       rs (hints_for AI_PASSIVE SOCK_STREAM) host serv"

definition udp_client where
  "udp_client rs k host serv =
     over_addrs (first_socket k 0) (\<lambda>fd. []) rs (hints_for 0 SOCK_DGRAM) host serv"

definition udp_connect where
  "udp_connect rs k host serv =
     over_addrs (try_addrs (\<lambda>fd ai. [ConnectCall fd (ai_addr ai)]) k 0) (\<lambda>fd. [])
       rs (hints_for 0 SOCK_DGRAM) host serv"

definition udp_server where
  "udp_server rs k host serv =
     over_addrs (try_addrs (\<lambda>fd ai. [BindCall fd (ai_addr ai)]) k 0) (\<lambda>fd. [])
       rs (hints_for AI_PASSIVE SOCK_DGRAM) host serv"

text \<open>\<open>host_serv\<close>: the list, or the null pointer (or the end of the process inside \<open>getaddrinfo\<close>).\<close>

definition host_serv ::
    "resolver \<Rightarrow> string option \<Rightarrow> string option \<Rightarrow> int \<Rightarrow> int \<Rightarrow> addrinfo list option option" where
  "host_serv rs host serv family socktype =
     (case fst (getaddrinfo rs host serv (Some \<lparr>h_flags = AI_CANONNAME, h_family = family,
                                               h_socktype = socktype, h_protocol = 0\<rparr>)) of
        Failed_with _ \<Rightarrow> Some None
      | Exits \<Rightarrow> None
      | Found res \<Rightarrow> Some (Some res))"

section \<open>What the loop does\<close>

definition works :: "kern \<Rightarrow> nat \<Rightarrow> bool" where
  "works k i \<longleftrightarrow> 0 \<le> socket_result k i \<and> accepts_addr k i"

lemma try_addrs_result:
  "snd (try_addrs use k i ais) =
     (case find (\<lambda>j. works k (i + j)) [0..<length ais] of
        None \<Rightarrow> None | Some j \<Rightarrow> Some (socket_result k (i + j), ais ! j))"
proof (induction ais arbitrary: i)
  case (Cons ai ais)
  have upt: "[0..<length (ai # ais)] = 0 # map Suc [0..<length ais]"
    by (simp add: upt_conv_Cons map_Suc_upt del: upt_Suc)
  have "find P (map Suc xs) = map_option Suc (find (P \<circ> Suc) xs)" for P xs
    by (induction xs) auto
  with Cons.IH [of "Suc i"] show ?case
    unfolding upt by (auto simp: works_def Let_def comp_def split: prod.splits option.splits)
qed simp

text \<open>Every socket made on the way is closed again, except the one that is returned.\<close>

lemma try_addrs_open:
  assumes "\<And>fd ai os. open_after os (use fd ai) = os"
  shows "open_after os (fst (try_addrs use k i ais)) =
     (case snd (try_addrs use k i ais) of None \<Rightarrow> os | Some (fd, ai) \<Rightarrow> fd # os)"
proof (induction ais arbitrary: i os)
  case (Cons ai ais)
  obtain cs r where t: "try_addrs use k (i + 1) ais = (cs, r)" by fastforce
  have "open_after os cs = (case r of None \<Rightarrow> os | Some (fd, ai) \<Rightarrow> fd # os)" for os
    using Cons.IH [of os "i + 1"] t by simp
  then show ?case using t
    by (auto simp: Let_def socket_call_def open_after_append assms split: option.splits)
qed simp

text \<open>The calls end with the use of the socket that is returned.\<close>

lemma try_addrs_last:
  "snd (try_addrs use k i ais) = Some (fd, ai) \<Longrightarrow>
     \<exists>pre. fst (try_addrs use k i ais) = pre @ use fd ai"
proof (induction ais arbitrary: i)
  case (Cons a ais)
  obtain cs r where t: "try_addrs use k (i + 1) ais = (cs, r)" by fastforce
  have IH: "\<exists>pre. cs = pre @ use fd ai" if "r = Some (fd, ai)"
    using Cons.IH [of "i + 1"] t that by simp
  let ?fd = "socket_result k i" and ?sc = "socket_call a (socket_result k i)"
  have eq: "try_addrs use k i (a # ais) = (if ?fd < 0 then (?sc # cs, r)
      else if accepts_addr k i then (?sc # use ?fd a, Some (?fd, a))
      else (?sc # use ?fd a @ CloseCall ?fd # cs, r))"
    using t by (simp add: Let_def)
  show ?case
  proof (cases "0 \<le> ?fd \<and> accepts_addr k i")
    case True
    then show ?thesis using Cons.prems unfolding eq by (intro exI [of _ "[?sc]"]) simp
  next
    case False
    with Cons.prems have "r = Some (fd, ai)" unfolding eq by (simp split: if_splits)
    then obtain pre where pre: "cs = pre @ use fd ai" using IH by blast
    show ?thesis
    proof (cases "?fd < 0")
      case True
      then show ?thesis unfolding eq using pre by (intro exI [of _ "?sc # pre"]) simp
    next
      case neg: False
      then show ?thesis unfolding eq using False pre
        by (intro exI [of _ "?sc # use ?fd a @ CloseCall ?fd # pre"]) simp
    qed
  qed
qed simp

text \<open>
  The result for a list of addresses: the first socket that works, all others closed; or the end
  of the process, with none left open.
\<close>

definition first_choice ::
    "kern \<Rightarrow> addrinfo list \<Rightarrow> (int \<Rightarrow> addrinfo \<Rightarrow> syscall list) \<Rightarrow> syscall list \<times> conn_result \<Rightarrow> bool" where
  "first_choice k ais use r \<longleftrightarrow>
     (case find (works k) [0..<length ais] of
        None \<Rightarrow> snd r = Ends \<and> open_after [] (fst r) = []
      | Some j \<Rightarrow> let fd = socket_result k j; ai = ais ! j in
          snd r = Ready fd ai \<and> open_after [] (fst r) = [fd] \<and> (\<exists>pre. fst r = pre @ use fd ai))"

lemma over_addrs_first_choice:
  assumes found: "getaddrinfo rs host serv (Some hs) = (Found ais, un)"
    and quiet: "\<And>fd ai os. open_after os (use fd ai) = os" "\<And>fd os. open_after os (finish fd) = os"
  shows "\<exists>r. over_addrs (try_addrs use k 0) finish rs hs host serv = Ok r
    \<and> first_choice k ais (\<lambda>fd ai. use fd ai @ finish fd) r"
proof -
  have ne: "ais \<noteq> []" using getaddrinfo_asked [OF found] by simp
  obtain cs c where t: "try_addrs use k 0 ais = (cs, c)" by fastforce
  have c: "c = (case find (works k) [0..<length ais] of
      None \<Rightarrow> None | Some j \<Rightarrow> Some (socket_result k j, ais ! j))"
    using try_addrs_result [of use k 0 ais] t unfolding add_0 by simp
  have o: "open_after [] cs = (case c of None \<Rightarrow> [] | Some (fd, ai) \<Rightarrow> [fd])"
    using try_addrs_open [where use = use and k = k and i = 0 and ais = ais and os = "[]"] quiet(1) t by simp
  have l: "\<exists>pre. cs = pre @ use fd ai" if "c = Some (fd, ai)" for fd ai
    using try_addrs_last [of use k 0 ais fd ai] t that by simp
  show ?thesis
  proof (cases "find (works k) [0..<length ais]")
    case None
    then show ?thesis using found ne t c o by (simp add: over_addrs_def first_choice_def)
  next
    case (Some j)
    then have c': "c = Some (socket_result k j, ais ! j)" using c by simp
    from l [OF this] obtain pre where "cs = pre @ use (socket_result k j) (ais ! j)" ..
    then show ?thesis using found ne t c' o Some quiet(2)
      by (simp add: over_addrs_def first_choice_def Let_def open_after_append)
  qed
qed

lemma over_addrs_ok: "is_ok (over_addrs loop finish rs hs host serv)"
proof (cases "getaddrinfo rs host serv (Some hs)")
  case (Pair r un)
  then show ?thesis
    using getaddrinfo_asked [of rs host serv hs]
    by (cases r) (auto simp: over_addrs_def split: prod.splits option.splits)
qed

section \<open>Connecting within a time limit\<close>

text \<open>
  \<open>connect_nonb\<close>. What \<open>connect\<close> says on the nonblocking socket, what \<open>Select\<close> says (nothing
  within the limit, or the socket is ready), and the pending error, \<open>None\<close> when \<open>getsockopt\<close> itself
  fails. The outcome is the value, \<open>errno\<close> (with the value -1), the descriptor's flags and whether
  it is still open. With no limit (\<open>nsec\<close> zero) \<open>Select\<close> waits for ever: \<open>Hangs\<close>.
\<close>

datatype nb_connect = Completed | InProgress | Failed_at_once int

record nb_out =
  nb_value :: int
  nb_errno :: int
  nb_flags :: flags
  nb_open :: bool

definition O_NONBLOCK :: flags where "O_NONBLOCK = 4"
definition EINTR :: int where "EINTR = 4"
definition ETIMEDOUT :: int where "ETIMEDOUT = 60"

definition connect_nonb ::
    "flags \<Rightarrow> nb_connect \<Rightarrow> bool \<Rightarrow> int + int \<Rightarrow> nat \<Rightarrow> nb_out outcome" where
  "connect_nonb fs con is_ready so_error nsec =
     (let nb = or fs O_NONBLOCK;
          fin = (\<lambda>error. if error \<noteq> 0
                    then \<lparr>nb_value = -1, nb_errno = error, nb_flags = fs, nb_open = False\<rparr>
                    else \<lparr>nb_value = 0, nb_errno = 0, nb_flags = fs, nb_open = True\<rparr>)
      in case con of
           Failed_at_once e \<Rightarrow> Ok \<lparr>nb_value = -1, nb_errno = e, nb_flags = nb, nb_open = True\<rparr>
         | Completed \<Rightarrow> Ok (fin 0)
         | InProgress \<Rightarrow>
             if \<not> is_ready then
               (if nsec = 0 then Hangs
                else Ok \<lparr>nb_value = -1, nb_errno = ETIMEDOUT, nb_flags = nb, nb_open = False\<rparr>)
             else case so_error of
                    Inl e \<Rightarrow> Ok \<lparr>nb_value = -1, nb_errno = e, nb_flags = nb, nb_open = True\<rparr>
                  | Inr error \<Rightarrow> Ok (fin error))"

text \<open>
  \<open>connect_timeo\<close>: \<open>connect\<close> yields 0 or an error, \<open>close\<close> may set \<open>errno\<close> as well, and the handler
  of \<open>SIGALRM\<close> and the alarm that was running before are part of the state.
\<close>

record timeo_out =
  to_value :: int
  to_errno :: int
  to_open :: bool
  to_alarm :: nat
  to_handler :: string

definition connect_timeo ::
    "nat \<Rightarrow> string \<Rightarrow> int \<Rightarrow> int option \<Rightarrow> timeo_out" where
  "connect_timeo old_alarm old_handler con_errno close_errno =
     (if con_errno \<noteq> 0 then
        (let e = (case close_errno of None \<Rightarrow> con_errno | Some e' \<Rightarrow> e') in
         \<lparr>to_value = -1, to_errno = (if e = EINTR then ETIMEDOUT else e), to_open = False,
          to_alarm = 0, to_handler = old_handler\<rparr>)
      else \<lparr>to_value = 0, to_errno = 0, to_open = True, to_alarm = 0, to_handler = old_handler\<rparr>)"

section \<open>Properties\<close>

text \<open>
  Whatever addresses \<open>getaddrinfo\<close> finds, \<open>tcp_connect\<close>, \<open>tcp_listen\<close>, \<open>udp_connect\<close> and
  \<open>udp_server\<close> return the socket for the first address in the order of the list that a socket can be
  made for and then connected or bound, with that as the last calls made; every other socket made
  on the way is closed again. When none works they end the process, with all of them closed. They
  never touch an empty list.
\<close>

theorem connectors_first_working:
  assumes "getaddrinfo rs host serv (Some (hints_for fs st)) = (Found ais, un)"
  shows "(fs = 0 \<and> st = SOCK_STREAM \<longrightarrow> (\<exists>r. tcp_connect rs k host serv = Ok r
            \<and> first_choice k ais (\<lambda>fd ai. [ConnectCall fd (ai_addr ai)]) r))
    \<and> (fs = AI_PASSIVE \<and> st = SOCK_STREAM \<longrightarrow> (\<exists>r. tcp_listen rs k host serv = Ok r
            \<and> first_choice k ais (\<lambda>fd ai. [ReuseCall fd, BindCall fd (ai_addr ai), ListenCall fd]) r))
    \<and> (fs = 0 \<and> st = SOCK_DGRAM \<longrightarrow> (\<exists>r. udp_connect rs k host serv = Ok r
            \<and> first_choice k ais (\<lambda>fd ai. [ConnectCall fd (ai_addr ai)]) r))
    \<and> (fs = AI_PASSIVE \<and> st = SOCK_DGRAM \<longrightarrow> (\<exists>r. udp_server rs k host serv = Ok r
            \<and> first_choice k ais (\<lambda>fd ai. [BindCall fd (ai_addr ai)]) r))
    \<and> (\<forall>rs' h s. is_ok (tcp_connect rs' k h s) \<and> is_ok (tcp_listen rs' k h s)
          \<and> is_ok (udp_connect rs' k h s) \<and> is_ok (udp_server rs' k h s))"
proof -
  have con: "\<exists>r. over_addrs (try_addrs (\<lambda>fd ai. [ConnectCall fd (ai_addr ai)]) k 0) (\<lambda>fd. [])
      rs (hints_for fs st) host serv = Ok r \<and> first_choice k ais (\<lambda>fd ai. [ConnectCall fd (ai_addr ai)]) r"
    using over_addrs_first_choice [OF assms, of "\<lambda>fd ai. [ConnectCall fd (ai_addr ai)]" "\<lambda>fd. []" k] by simp
  have lis: "\<exists>r. over_addrs (try_addrs (\<lambda>fd ai. [ReuseCall fd, BindCall fd (ai_addr ai)]) k 0)
      (\<lambda>fd. [ListenCall fd]) rs (hints_for fs st) host serv = Ok r
      \<and> first_choice k ais (\<lambda>fd ai. [ReuseCall fd, BindCall fd (ai_addr ai), ListenCall fd]) r"
    using over_addrs_first_choice [OF assms, of "\<lambda>fd ai. [ReuseCall fd, BindCall fd (ai_addr ai)]"
      "\<lambda>fd. [ListenCall fd]" k] by simp
  have bnd: "\<exists>r. over_addrs (try_addrs (\<lambda>fd ai. [BindCall fd (ai_addr ai)]) k 0) (\<lambda>fd. [])
      rs (hints_for fs st) host serv = Ok r \<and> first_choice k ais (\<lambda>fd ai. [BindCall fd (ai_addr ai)]) r"
    using over_addrs_first_choice [OF assms, of "\<lambda>fd ai. [BindCall fd (ai_addr ai)]" "\<lambda>fd. []" k] by simp
  show ?thesis unfolding tcp_connect_def tcp_listen_def udp_connect_def udp_server_def
  proof (intro conjI impI allI over_addrs_ok)
    assume "fs = 0 \<and> st = SOCK_STREAM"
    with con show "\<exists>r. over_addrs (try_addrs (\<lambda>fd ai. [ConnectCall fd (ai_addr ai)]) k 0) (\<lambda>fd. [])
        rs (hints_for 0 SOCK_STREAM) host serv = Ok r
        \<and> first_choice k ais (\<lambda>fd ai. [ConnectCall fd (ai_addr ai)]) r" by simp
  next
    assume "fs = AI_PASSIVE \<and> st = SOCK_STREAM"
    with lis show "\<exists>r. over_addrs (try_addrs (\<lambda>fd ai. [ReuseCall fd, BindCall fd (ai_addr ai)]) k 0)
        (\<lambda>fd. [ListenCall fd]) rs (hints_for AI_PASSIVE SOCK_STREAM) host serv = Ok r
        \<and> first_choice k ais (\<lambda>fd ai. [ReuseCall fd, BindCall fd (ai_addr ai), ListenCall fd]) r" by simp
  next
    assume "fs = 0 \<and> st = SOCK_DGRAM"
    with con show "\<exists>r. over_addrs (try_addrs (\<lambda>fd ai. [ConnectCall fd (ai_addr ai)]) k 0) (\<lambda>fd. [])
        rs (hints_for 0 SOCK_DGRAM) host serv = Ok r
        \<and> first_choice k ais (\<lambda>fd ai. [ConnectCall fd (ai_addr ai)]) r" by simp
  next
    assume "fs = AI_PASSIVE \<and> st = SOCK_DGRAM"
    with bnd show "\<exists>r. over_addrs (try_addrs (\<lambda>fd ai. [BindCall fd (ai_addr ai)]) k 0) (\<lambda>fd. [])
        rs (hints_for AI_PASSIVE SOCK_DGRAM) host serv = Ok r
        \<and> first_choice k ais (\<lambda>fd ai. [BindCall fd (ai_addr ai)]) r" by simp
  qed
qed

theorem connectors_first_working_witness:
  "\<exists>r. tcp_connect no_resolver \<lparr>socket_result = \<lambda>i. 5, accepts_addr = \<lambda>i. i = 0\<rparr>
        (Some (quad_text [10, 0, 0, 2])) (Some (dec (unat (ntohs (htons 80))))) = Ok r
     \<and> snd r = Ready 5 \<lparr>ai_flags = 0, ai_family = AF_INET, ai_socktype = SOCK_STREAM, ai_protocol = 0,
         ai_addrlen = 16, ai_canonname = None, ai_addr = Some (Sin (htons 80) [10, 0, 0, 2])\<rparr>
     \<and> open_after [] (fst r) = [5]"
proof -
  have f: "getaddrinfo no_resolver (Some (quad_text [10, 0, 0, 2])) (Some (dec (unat (ntohs (htons 80)))))
      (Some (hints_for 0 SOCK_STREAM))
    = (Found [\<lparr>ai_flags = 0, ai_family = AF_INET, ai_socktype = SOCK_STREAM, ai_protocol = 0,
         ai_addrlen = 16, ai_canonname = None, ai_addr = Some (Sin (htons 80) [10, 0, 0, 2])\<rparr>], [])"
    unfolding hints_for_def by (rule getaddrinfo_v4) simp_all
  let ?k = "\<lparr>socket_result = \<lambda>i::nat. 5::int, accepts_addr = \<lambda>i::nat. i = 0\<rparr>"
  have "works ?k 0" by (simp add: works_def)
  then have w: "find (works ?k) [0..<1] = Some 0" by simp
  from connectors_first_working [OF f, of ?k]
  obtain r where "tcp_connect no_resolver ?k (Some (quad_text [10, 0, 0, 2]))
      (Some (dec (unat (ntohs (htons 80))))) = Ok r"
    "first_choice ?k [\<lparr>ai_flags = 0, ai_family = AF_INET, ai_socktype = SOCK_STREAM, ai_protocol = 0,
         ai_addrlen = 16, ai_canonname = None, ai_addr = Some (Sin (htons 80) [10, 0, 0, 2])\<rparr>]
      (\<lambda>fd ai. [ConnectCall fd (ai_addr ai)]) r"
    by blast
  with w show ?thesis by (intro exI [of _ r]) (simp add: first_choice_def Let_def)
qed

end
