(* ===== verification/ThreadPool.thy ===== *)
theory ThreadPool
  imports Ring
begin

text \<open>
  The prethreaded server whose main thread accepts: \<^verbatim>\<open>unpv13e/server/serv08.c\<close>,
  \<^verbatim>\<open>unpv13e/server/pthread08.c\<close> and \<^verbatim>\<open>unpv13e/server/pthread08.h\<close>. Connections go to the workers through
  an array of 32 descriptors, under a mutex and with a condition variable. A step is one access of
  one thread to what they share; any thread may make the next one.
\<close>

section \<open>State\<close>

abbreviation MAXNCLI :: nat where
  "MAXNCLI \<equiv> 32"

text \<open>
  Where the main thread is: at \<open>Accept\<close>, at \<open>Pthread_mutex_lock\<close> with a connection, before the store,
  before the increment of \<open>iput\<close>, at \<open>Pthread_cond_signal\<close>, at \<open>Pthread_mutex_unlock\<close>.
\<close>

datatype main_pc = AtAccept | AtLock int | AtStore int | AtBump | AtSignal | AtUnlock

text \<open>
  Where a worker is: at the lock, inside \<open>Pthread_cond_wait\<close>, woken and waiting for the mutex, at the
  test \<open>iget == iput\<close>, before the read of \<open>clifd\<close>, before the increment of \<open>iget\<close>, at the unlock,
  before \<open>thread_count++\<close>, serving its connection.
\<close>

datatype worker_pc =
    WLock | WWaiting | WWoken | WTest | WTake | WBump int | WUnlock int | WCount int | WServe int

datatype holder = Main | Worker nat

record pool =
  clifd :: "int list"
  iget :: nat
  iput :: nat
  mutex :: "holder option"
  main_at :: main_pc
  workers :: "worker_pc list"
  thread_count :: "nat list"
  queued :: "int list"
  taken :: "(nat \<times> int) list"

definition pool_init :: "nat \<Rightarrow> pool" where
  "pool_init nthreads = \<lparr>clifd = replicate MAXNCLI 0, iget = 0, iput = 0, mutex = None, main_at = AtAccept,
     workers = replicate nthreads WLock, thread_count = replicate nthreads 0, queued = [], taken = []\<rparr>"

definition go :: "nat \<Rightarrow> worker_pc \<Rightarrow> pool \<Rightarrow> pool" where
  "go i pc s = s\<lparr>workers := (workers s)[i := pc]\<rparr>"

section \<open>Steps\<close>

text \<open>The result \<open>None\<close> is the end of the process (\<open>err_quit\<close>).\<close>

inductive pool_step :: "pool \<Rightarrow> pool option \<Rightarrow> bool" where
  accept: "main_at s = AtAccept \<Longrightarrow> pool_step s (Some (s\<lparr>main_at := AtLock connfd\<rparr>))"
| main_lock: "main_at s = AtLock c \<Longrightarrow> mutex s = None \<Longrightarrow>
     pool_step s (Some (s\<lparr>mutex := Some Main, main_at := AtStore c\<rparr>))"
| store: "main_at s = AtStore c \<Longrightarrow>
     pool_step s (Some (s\<lparr>clifd := (clifd s)[iput s := c], queued := queued s @ [c], main_at := AtBump\<rparr>))"
| bump: "main_at s = AtBump \<Longrightarrow> next_slot MAXNCLI (iput s) \<noteq> iget s \<Longrightarrow>
     pool_step s (Some (s\<lparr>iput := next_slot MAXNCLI (iput s), main_at := AtSignal\<rparr>))"
| quit: "main_at s = AtBump \<Longrightarrow> next_slot MAXNCLI (iput s) = iget s \<Longrightarrow> pool_step s None"
| signal: "main_at s = AtSignal \<Longrightarrow> i < length (workers s) \<Longrightarrow> workers s ! i = WWaiting \<Longrightarrow>
     pool_step s (Some (go i WWoken (s\<lparr>main_at := AtUnlock\<rparr>)))"
| signal_none: "main_at s = AtSignal \<Longrightarrow> WWaiting \<notin> set (workers s) \<Longrightarrow>
     pool_step s (Some (s\<lparr>main_at := AtUnlock\<rparr>))"
| main_unlock: "main_at s = AtUnlock \<Longrightarrow> pool_step s (Some (s\<lparr>mutex := None, main_at := AtAccept\<rparr>))"
| lock: "i < length (workers s) \<Longrightarrow> workers s ! i = WLock \<or> workers s ! i = WWoken \<Longrightarrow> mutex s = None \<Longrightarrow>
     pool_step s (Some (go i WTest (s\<lparr>mutex := Some (Worker i)\<rparr>)))"
| wait: "i < length (workers s) \<Longrightarrow> workers s ! i = WTest \<Longrightarrow> iget s = iput s \<Longrightarrow>
     pool_step s (Some (go i WWaiting (s\<lparr>mutex := None\<rparr>)))"
| wake: "i < length (workers s) \<Longrightarrow> workers s ! i = WWaiting \<Longrightarrow> pool_step s (Some (go i WWoken s))"
| found: "i < length (workers s) \<Longrightarrow> workers s ! i = WTest \<Longrightarrow> iget s \<noteq> iput s \<Longrightarrow>
     pool_step s (Some (go i WTake s))"
| take_fd: "i < length (workers s) \<Longrightarrow> workers s ! i = WTake \<Longrightarrow>
     pool_step s (Some (go i (WBump (clifd s ! iget s)) (s\<lparr>taken := taken s @ [(i, clifd s ! iget s)]\<rparr>)))"
| bump_get: "i < length (workers s) \<Longrightarrow> workers s ! i = WBump c \<Longrightarrow>
     pool_step s (Some (go i (WUnlock c) (s\<lparr>iget := next_slot MAXNCLI (iget s)\<rparr>)))"
| unlock: "i < length (workers s) \<Longrightarrow> workers s ! i = WUnlock c \<Longrightarrow>
     pool_step s (Some (go i (WCount c) (s\<lparr>mutex := None\<rparr>)))"
| count: "i < length (workers s) \<Longrightarrow> workers s ! i = WCount c \<Longrightarrow>
     pool_step s (Some (go i (WServe c) (s\<lparr>thread_count := (thread_count s)[i := thread_count s ! i + 1]\<rparr>)))"
| served: "i < length (workers s) \<Longrightarrow> workers s ! i = WServe c \<Longrightarrow> pool_step s (Some (go i WLock s))"

inductive_cases pool_stepE: "pool_step s (Some s')"

inductive pool_reachable :: "nat \<Rightarrow> pool \<Rightarrow> bool" for nthreads where
  start: "pool_reachable nthreads (pool_init nthreads)"
| step: "pool_reachable nthreads s \<Longrightarrow> pool_step s (Some s') \<Longrightarrow> pool_reachable nthreads s'"

section \<open>Mutual exclusion\<close>

fun main_inside :: "main_pc \<Rightarrow> bool" where
  "main_inside AtAccept = False"
| "main_inside (AtLock c) = False"
| "main_inside _ = True"

fun inside :: "worker_pc \<Rightarrow> bool" where
  "inside WTest = True"
| "inside WTake = True"
| "inside (WBump c) = True"
| "inside (WUnlock c) = True"
| "inside _ = False"

text \<open>The mutex is held exactly by the thread that is in a critical section.\<close>

definition exclusive :: "pool \<Rightarrow> bool" where
  "exclusive s \<longleftrightarrow> (main_inside (main_at s) \<longleftrightarrow> mutex s = Some Main)
     \<and> (\<forall>i < length (workers s). inside (workers s ! i) \<longleftrightarrow> mutex s = Some (Worker i))"

lemma workers_go [simp]: "workers (go i pc s) = (workers s)[i := pc]"
  by (simp add: go_def)

lemma go_other [simp]:
  "clifd (go i pc s) = clifd s" "iget (go i pc s) = iget s" "iput (go i pc s) = iput s"
  "mutex (go i pc s) = mutex s" "main_at (go i pc s) = main_at s" "queued (go i pc s) = queued s"
  "taken (go i pc s) = taken s" "thread_count (go i pc s) = thread_count s"
  by (simp_all add: go_def)

lemma exclusive_init: "exclusive (pool_init n)"
  by (simp add: exclusive_def pool_init_def)

lemma exclusive_step: "pool_step s (Some s') \<Longrightarrow> exclusive s \<Longrightarrow> exclusive s'"
  by (erule pool_stepE) (auto simp: exclusive_def nth_list_update split: if_splits)

section \<open>The array is a queue\<close>

definition held :: "pool \<Rightarrow> nat" where
  "held s = (if iget s \<le> iput s then iput s - iget s else iput s + MAXNCLI - iget s)"

definition pool_items :: "pool \<Rightarrow> int list" where
  "pool_items s = ring_seg MAXNCLI (clifd s) (iget s) (held s)"

definition pool_ok :: "pool \<Rightarrow> bool" where
  "pool_ok s \<longleftrightarrow> length (clifd s) = MAXNCLI \<and> iget s < MAXNCLI \<and> iput s < MAXNCLI"

definition pool_put :: "int \<Rightarrow> pool \<Rightarrow> pool" where
  "pool_put c s = s\<lparr>clifd := (clifd s)[iput s := c], iput := next_slot MAXNCLI (iput s)\<rparr>"

definition pool_get :: "pool \<Rightarrow> pool" where
  "pool_get s = s\<lparr>iget := next_slot MAXNCLI (iget s)\<rparr>"

definition pool_room :: "pool \<Rightarrow> bool" where
  "pool_room s \<longleftrightarrow> pool_ok s \<and> next_slot MAXNCLI (iput s) \<noteq> iget s"

definition pool_nonempty :: "pool \<Rightarrow> bool" where
  "pool_nonempty s \<longleftrightarrow> pool_ok s \<and> iget s \<noteq> iput s"

lemma held_cong: "iget s = iget t \<Longrightarrow> iput s = iput t \<Longrightarrow> held s = held t"
  by (simp add: held_def)

lemma held_less: "pool_ok s \<Longrightarrow> held s < MAXNCLI"
  by (auto simp: pool_ok_def held_def)

lemma held_pos_iff: "pool_ok s \<Longrightarrow> 0 < held s \<longleftrightarrow> iget s \<noteq> iput s"
  by (auto simp: pool_ok_def held_def)

lemma iput_held: "pool_ok s \<Longrightarrow> (iget s + held s) mod MAXNCLI = iput s"
  by (auto simp: pool_ok_def held_def)

lemma held_put: "pool_room s \<Longrightarrow> held (pool_put c s) = Suc (held s)"
  by (auto simp: pool_room_def pool_ok_def held_def pool_put_def next_slot_def split: if_splits)

lemma held_get: "pool_nonempty s \<Longrightarrow> held (pool_get s) = held s - 1"
  by (auto simp: pool_nonempty_def pool_ok_def held_def pool_get_def next_slot_def split: if_splits)

interpretation conns: fifo pool_items pool_put "\<lambda>s. clifd s ! iget s" pool_get pool_room pool_nonempty
proof unfold_locales
  fix s c
  assume room: "pool_room s"
  then have ok: "pool_ok s" by (simp add: pool_room_def)
  then have "length (clifd s) = MAXNCLI" by (simp add: pool_ok_def)
  from ring_seg_put [OF held_less [OF ok] this, of "iget s" c]
  have "ring_seg MAXNCLI ((clifd s)[iput s := c]) (iget s) (Suc (held s)) = pool_items s @ [c]"
    by (simp only: iput_held [OF ok] pool_items_def)
  then show "pool_items (pool_put c s) = pool_items s @ [c]"
    using held_put [OF room, of c] by (simp add: pool_items_def) (simp add: pool_put_def)
next
  fix s
  assume ne: "pool_nonempty s"
  then have "0 < held s" "iget s < MAXNCLI" using held_pos_iff [of s] by (auto simp: pool_nonempty_def pool_ok_def)
  from ring_seg_get [OF this, of "clifd s"]
  show "pool_items s = clifd s ! iget s # pool_items (pool_get s)"
    using held_get [OF ne] by (simp add: pool_items_def) (simp add: pool_get_def)
qed

section \<open>The invariant\<close>

text \<open>The worker that has the mutex, past its test: it has found a connection, and may have read it.\<close>

fun found_pc :: "worker_pc \<Rightarrow> bool" where
  "found_pc WTake = True"
| "found_pc (WBump c) = True"
| "found_pc _ = False"

fun read_pc :: "worker_pc \<Rightarrow> bool" where
  "read_pc (WBump c) = True"
| "read_pc _ = False"

definition has_found :: "pool \<Rightarrow> bool" where
  "has_found s \<longleftrightarrow> (\<exists>i. mutex s = Some (Worker i) \<and> found_pc (workers s ! i))"

definition has_read :: "pool \<Rightarrow> bool" where
  "has_read s \<longleftrightarrow> (\<exists>i. mutex s = Some (Worker i) \<and> read_pc (workers s ! i))"

text \<open>The connections that no worker has read yet.\<close>

definition pending :: "pool \<Rightarrow> int list" where
  "pending s = (if has_read s then tl (pool_items s) else pool_items s)
     @ (if main_at s = AtBump then [clifd s ! iput s] else [])"

definition pool_inv :: "pool \<Rightarrow> bool" where
  "pool_inv s \<longleftrightarrow> pool_ok s \<and> exclusive s \<and> (has_found s \<longrightarrow> iget s \<noteq> iput s)
     \<and> (\<forall>i. mutex s = Some (Worker i) \<longrightarrow> i < length (workers s))
     \<and> queued s = map snd (taken s) @ pending s"

lemma pool_inv_init: "pool_inv (pool_init n)"
  using exclusive_init [of n]
  by (simp add: pool_inv_def) (simp add: pool_ok_def pool_init_def has_found_def pending_def has_read_def
      pool_items_def held_def)

lemma pool_ok_step: "pool_step s (Some s') \<Longrightarrow> pool_ok s \<Longrightarrow> pool_ok s'"
  by (erule pool_stepE) (auto simp: pool_ok_def)

text \<open>A worker outside the critical section can move without the others noticing.\<close>

lemma outside_moves:
  assumes "exclusive s" "i < length (workers s)" "\<not> inside (workers s ! i)"
    and "\<forall>j. mutex s = Some (Worker j) \<longrightarrow> j < length (workers s)"
  shows "has_found (go i pc s) = has_found s" "has_read (go i pc s) = has_read s"
  using assms by (auto simp: has_found_def has_read_def exclusive_def nth_list_update)

lemma pool_items_go [simp]: "pool_items (go i pc s) = pool_items s"
  by (simp add: pool_items_def held_def)

lemma holder_facts:
  assumes "exclusive s"
  shows "main_inside (main_at s) \<Longrightarrow> mutex s = Some Main"
    and "i < length (workers s) \<Longrightarrow> inside (workers s ! i) \<Longrightarrow> mutex s = Some (Worker i) \<and> \<not> main_inside (main_at s)"
  using assms by (auto simp: exclusive_def)

lemma has_Main [simp]:
  "mutex s = Some Main \<Longrightarrow> \<not> has_found s" "mutex s = Some Main \<Longrightarrow> \<not> has_read s"
  "mutex s = None \<Longrightarrow> \<not> has_found s" "mutex s = None \<Longrightarrow> \<not> has_read s"
  by (simp_all add: has_found_def has_read_def)

lemma pool_items_store:
  assumes "pool_ok s"
  shows "pool_items (s\<lparr>clifd := (clifd s)[iput s := c]\<rparr>) = pool_items s"
proof -
  have "held (s\<lparr>clifd := (clifd s)[iput s := c]\<rparr>) = held s" by (simp add: held_def)
  then show ?thesis
    using ring_seg_store [OF held_less [OF assms], of "clifd s" "iget s" c]
    by (simp add: pool_items_def iput_held [OF assms])
qed

lemma held_other [simp]:
  "held (s\<lparr>clifd := a\<rparr>) = held s" "held (s\<lparr>mutex := b\<rparr>) = held s" "held (s\<lparr>main_at := c\<rparr>) = held s"
  "held (go i pc s) = held s" "held (s\<lparr>thread_count := d\<rparr>) = held s" "held (s\<lparr>queued := e\<rparr>) = held s" "held (s\<lparr>taken := f\<rparr>) = held s"
  by (simp_all add: held_def)

lemma pool_items_other [simp]:
  "pool_items (s\<lparr>mutex := b\<rparr>) = pool_items s" "pool_items (s\<lparr>main_at := c\<rparr>) = pool_items s"
  "pool_items (s\<lparr>thread_count := d\<rparr>) = pool_items s" "pool_items (s\<lparr>queued := e\<rparr>) = pool_items s"
  "pool_items (s\<lparr>taken := f\<rparr>) = pool_items s"
  by (simp_all add: pool_items_def)

text \<open>Each step keeps the account of the connections.\<close>

definition accounted :: "pool \<Rightarrow> bool" where
  "accounted s \<longleftrightarrow> (has_found s \<longrightarrow> iget s \<noteq> iput s)
     \<and> (\<forall>i. mutex s = Some (Worker i) \<longrightarrow> i < length (workers s))
     \<and> queued s = map snd (taken s) @ pending s"

lemma pool_inv_accounted: "pool_inv s \<longleftrightarrow> pool_ok s \<and> exclusive s \<and> accounted s"
  by (auto simp: pool_inv_def accounted_def)

lemma main_step_accounted:
  assumes inv: "pool_inv s" and m: "mutex s' = Some Main \<or> mutex s' = None"
    and f: "\<not> has_read s" "taken s' = taken s"
    and q: "queued s' = map snd (taken s) @ pool_items s' @ (if main_at s' = AtBump then [clifd s' ! iput s'] else [])"
  shows "accounted s'"
proof -
  have "\<not> has_found s'" "\<not> has_read s'" using m by auto
  then show ?thesis using m f q by (auto simp: accounted_def pending_def)
qed

lemma pool_step_accounted:
  assumes step: "pool_step s (Some s')" and inv: "pool_inv s"
  shows "accounted s'"
proof -
  have ok: "pool_ok s" and ex: "exclusive s" and acc: "accounted s" using inv by (simp_all add: pool_inv_accounted)
  have q: "queued s = map snd (taken s) @ pending s" using acc by (simp add: accounted_def)
  note hold = holder_facts [OF ex]
  have nonempty: "pool_nonempty s" if "has_found s" using that acc ok by (simp add: accounted_def pool_nonempty_def)
  from step show ?thesis
  proof (cases rule: pool_step.cases)
    case (accept connfd)
    then have "has_found s' = has_found s" "has_read s' = has_read s"
      by (simp_all add: has_found_def has_read_def)
    then show ?thesis using accept acc by (simp add: accounted_def pending_def)
  next
    case (main_lock c)
    then show ?thesis using q
      by (intro main_step_accounted [OF inv]) (simp_all add: pending_def)
  next
    case (store c)
    then have "mutex s = Some Main" by (intro hold(1)) simp
    then have m: "mutex s' = Some Main" "\<not> has_read s" using store by auto
    have "pool_items s' = pool_items s" using pool_items_store [OF ok, of c] store by simp
    moreover have "clifd s' ! iput s' = c" using store ok by (simp add: pool_ok_def)
    moreover have "queued s = map snd (taken s) @ pool_items s" using q m store by (simp add: pending_def)
    ultimately show ?thesis using m store by (intro main_step_accounted [OF inv]) simp_all
  next
    case bump
    then have m: "mutex s = Some Main" by (intro hold(1)) simp
    have "pool_room s" using bump ok by (simp add: pool_room_def)
    then have put: "pool_items (pool_put (clifd s ! iput s) s) = pool_items s @ [clifd s ! iput s]"
      by (rule conns.items_put)
    have "held s' = held (pool_put (clifd s ! iput s) s)"
      by (rule held_cong) (simp_all add: bump pool_put_def)
    then have "pool_items s' = pool_items (pool_put (clifd s ! iput s) s)"
      using bump by (simp add: pool_items_def) (simp add: pool_put_def)
    with put have "pool_items s' = pool_items s @ [clifd s ! iput s]" by simp
    then show ?thesis using bump q m
      by (intro main_step_accounted [OF inv]) (simp_all add: pending_def)
  next
    case (signal i)
    then have "mutex s = Some Main" by (intro hold(1)) simp
    then show ?thesis using signal q
      by (intro main_step_accounted [OF inv]) (simp_all add: pending_def)
  next
    case signal_none
    then have "mutex s = Some Main" by (intro hold(1)) simp
    then show ?thesis using signal_none q
      by (intro main_step_accounted [OF inv]) (simp_all add: pending_def)
  next
    case main_unlock
    then have "mutex s = Some Main" by (intro hold(1)) simp
    then show ?thesis using main_unlock q
      by (intro main_step_accounted [OF inv]) (simp_all add: pending_def)
  next
    case (lock i)
    then show ?thesis using acc
      by (auto simp: accounted_def pending_def has_found_def has_read_def)
  next
    case (wait i)
    then have "mutex s = Some (Worker i) \<and> \<not> main_inside (main_at s)" by (intro hold(2)) simp_all
    then have "\<not> has_read s" "main_at s \<noteq> AtBump" using wait by (auto simp: has_read_def)
    then show ?thesis using wait q by (simp add: accounted_def pending_def)
  next
    case (wake i)
    then have "\<not> inside (workers s ! i)" by simp
    from outside_moves [OF ex _ this] wake acc show ?thesis
      by (simp add: accounted_def pending_def)
  next
    case (found i)
    then have "mutex s = Some (Worker i) \<and> \<not> main_inside (main_at s)" by (intro hold(2)) simp_all
    then have "\<not> has_read s" "\<not> has_read s'" "main_at s \<noteq> AtBump" using found by (auto simp: has_read_def)
    then show ?thesis using found q acc by (simp add: accounted_def pending_def)
  next
    case (take_fd i)
    then have m: "mutex s = Some (Worker i) \<and> \<not> main_inside (main_at s)" by (intro hold(2)) simp_all
    then have "\<not> has_read s" "has_read s'" "has_found s" "main_at s \<noteq> AtBump"
      using take_fd by (auto simp: has_read_def has_found_def)
    moreover from nonempty [OF this(3)] have "pool_items s = clifd s ! iget s # tl (pool_items s)"
      using conns.front_is_oldest by (metis list.collapse)
    ultimately show ?thesis using take_fd q acc by (simp add: accounted_def pending_def)
  next
    case (bump_get i c)
    then have m: "mutex s = Some (Worker i) \<and> \<not> main_inside (main_at s)" by (intro hold(2)) simp_all
    then have f: "has_read s" "\<not> has_read s'" "\<not> has_found s'" "has_found s" "main_at s \<noteq> AtBump"
      using bump_get by (auto simp: has_read_def has_found_def)
    have "pool_items s' = tl (pool_items s)"
      using conns.items_tl [OF nonempty [OF f(4)]] bump_get by (simp add: pool_get_def)
    with f show ?thesis using bump_get q acc by (simp add: accounted_def pending_def)
  next
    case (unlock i c)
    then have m: "mutex s = Some (Worker i) \<and> \<not> main_inside (main_at s)" by (intro hold(2)) simp_all
    then have "\<not> has_read s" "main_at s \<noteq> AtBump" using unlock by (auto simp: has_read_def)
    then show ?thesis using unlock q by (simp add: accounted_def pending_def)
  next
    case (count i c)
    then have "\<not> inside (workers s ! i)" by simp
    from outside_moves [OF ex _ this, of "WServe c"] count acc
    have "has_found (go i (WServe c) s) = has_found s" "has_read (go i (WServe c) s) = has_read s"
      by (simp_all add: accounted_def)
    moreover have "has_found s' = has_found (go i (WServe c) s)" "has_read s' = has_read (go i (WServe c) s)"
      using count by (simp_all add: has_found_def has_read_def)
    ultimately show ?thesis using count acc by (simp add: accounted_def pending_def)
  next
    case (served i c)
    then have "\<not> inside (workers s ! i)" by simp
    from outside_moves [OF ex _ this] served acc show ?thesis
      by (simp add: accounted_def pending_def)
  qed
qed

lemma pool_inv_step: "pool_step s (Some s') \<Longrightarrow> pool_inv s \<Longrightarrow> pool_inv s'"
  using pool_step_accounted [of s s'] pool_ok_step [of s s'] exclusive_step [of s s']
  by (simp add: pool_inv_accounted)

lemma pool_reachable_inv: "pool_reachable n s \<Longrightarrow> pool_inv s"
  by (induction rule: pool_reachable.induct) (auto intro: pool_inv_init pool_inv_step)

section \<open>No wake-up is lost\<close>

text \<open>
  While a worker waits, there are at least as many workers on their way to the array (woken,
  or inside before the increment) as there are connections in it, one more being about to be
  woken when the main thread is at its signal.
\<close>

fun on_the_way :: "worker_pc \<Rightarrow> bool" where
  "on_the_way WWoken = True"
| "on_the_way WTest = True"
| "on_the_way WTake = True"
| "on_the_way (WBump c) = True"
| "on_the_way _ = False"

definition wakeups :: "pool \<Rightarrow> nat" where
  "wakeups s = length (filter on_the_way (workers s)) + (if main_at s = AtSignal then 1 else 0)"

definition awake_enough :: "pool \<Rightarrow> bool" where
  "awake_enough s \<longleftrightarrow> (WWaiting \<in> set (workers s) \<longrightarrow> held s \<le> wakeups s)"

lemma filter_go:
  assumes "i < length ws"
  shows "length (filter P (ws[i := x])) + (if P (ws ! i) then 1 else 0) =
    length (filter P ws) + (if P x then 1 else 0)"
proof -
  have "filter P (ws[i := x]) = filter P (take i ws) @ (if P x then [x] else []) @ filter P (drop (Suc i) ws)"
    "filter P ws = filter P (take i ws) @ (if P (ws ! i) then [ws ! i] else []) @ filter P (drop (Suc i) ws)"
    using assms arg_cong [OF id_take_nth_drop [OF assms], of "filter P"]
    by (simp_all add: upd_conv_take_nth_drop)
  then show ?thesis by simp
qed

lemma waiting_go: "WWaiting \<in> set (ws[i := x]) \<Longrightarrow> x \<noteq> WWaiting \<Longrightarrow> WWaiting \<in> set ws"
  using set_update_subset_insert [of ws i x] by auto

lemma awake_enough_step:
  assumes step: "pool_step s (Some s')" and aw: "awake_enough s" and inv: "pool_inv s"
  shows "awake_enough s'"
proof -
  have ok: "pool_ok s" and ex: "exclusive s" using inv by (simp_all add: pool_inv_accounted)
  have acc: "accounted s" using inv by (simp add: pool_inv_accounted)
  note count_go = filter_go [of _ "workers s" on_the_way]
  from step show ?thesis
  proof (cases rule: pool_step.cases)
    case bump
    then have "pool_room s" using ok by (simp add: pool_room_def)
    moreover have "held s' = held (pool_put (clifd s ! iput s) s)"
      by (rule held_cong) (simp_all add: bump pool_put_def)
    ultimately have "held s' = Suc (held s)" by (simp add: held_put)
    then show ?thesis using bump aw by (simp add: awake_enough_def wakeups_def)
  next
    case (signal i)
    then show ?thesis using aw count_go [of i WWoken] nth_mem [of i "workers s"]
      by (simp add: awake_enough_def wakeups_def)
  next
    case (wait i)
    then show ?thesis by (simp add: awake_enough_def held_def)
  next
    case (bump_get i c)
    then have "mutex s = Some (Worker i)" using holder_facts(2) [OF ex, of i] by simp
    then have "has_found s" using bump_get by (auto simp: has_found_def)
    then have ne: "pool_nonempty s" using acc ok by (simp add: accounted_def pool_nonempty_def)
    have "held s' = held s - 1" using held_get [OF ne] bump_get by (simp add: pool_get_def)
    then show ?thesis using bump_get aw count_go [of i "WUnlock c"] waiting_go [of "workers s" i "WUnlock c"]
      by (auto simp: awake_enough_def wakeups_def)
  next
    case (lock i)
    then show ?thesis using aw count_go [of i WTest] waiting_go [of "workers s" i WTest]
      by (auto simp: awake_enough_def wakeups_def)
  next
    case (wake i)
    then show ?thesis using aw count_go [of i WWoken] waiting_go [of "workers s" i WWoken]
      by (auto simp: awake_enough_def wakeups_def)
  next
    case (found i)
    then show ?thesis using aw count_go [of i WTake] waiting_go [of "workers s" i WTake]
      by (auto simp: awake_enough_def wakeups_def)
  next
    case (take_fd i)
    then show ?thesis using aw count_go [of i "WBump (clifd s ! iget s)"]
        waiting_go [of "workers s" i "WBump (clifd s ! iget s)"]
      by (auto simp: awake_enough_def wakeups_def)
  next
    case (unlock i c)
    then show ?thesis using aw count_go [of i "WCount c"] waiting_go [of "workers s" i "WCount c"]
      by (auto simp: awake_enough_def wakeups_def)
  next
    case (count i c)
    then show ?thesis using aw count_go [of i "WServe c"] waiting_go [of "workers s" i "WServe c"]
      by (auto simp: awake_enough_def wakeups_def)
  next
    case (served i c)
    then show ?thesis using aw count_go [of i WLock] waiting_go [of "workers s" i WLock]
      by (auto simp: awake_enough_def wakeups_def)
  qed (use aw in \<open>auto simp: awake_enough_def wakeups_def\<close>)
qed

lemma pool_reachable_awake: "pool_reachable n s \<Longrightarrow> awake_enough s"
proof (induction rule: pool_reachable.induct)
  case start
  show ?case by (simp add: awake_enough_def pool_init_def held_def)
next
  case (step s s')
  then show ?case using awake_enough_step [OF step.hyps(2) step.IH] pool_reachable_inv by blast
qed

section \<open>Properties\<close>

text \<open>
  C29: However the threads interleave, every connection the main thread puts into the array is
  handed to exactly one worker, and in the order of acceptance: those read so far followed by those
  still in the array are the ones accepted, with never more than 31 waiting. The mutex excludes:
  no two threads are ever in their critical sections. No wake-up is lost: with connections in the
  array and the main thread not at its signal, there is a worker on its way to the array or none
  is waiting. The main thread ends the process instead of filling the 32nd slot.
\<close>

theorem pool_serves_each_once:
  assumes "pool_reachable n s"
  shows "queued s = map snd (taken s) @ pending s \<and> held s \<le> 31
    \<and> (\<forall>i < length (workers s). \<forall>j < length (workers s).
         inside (workers s ! i) \<and> inside (workers s ! j) \<longrightarrow> i = j)
    \<and> (\<forall>i < length (workers s). inside (workers s ! i) \<longrightarrow> \<not> main_inside (main_at s))
    \<and> (0 < held s \<and> main_at s \<noteq> AtSignal \<and> WWaiting \<in> set (workers s)
         \<longrightarrow> (\<exists>w \<in> set (workers s). on_the_way w))
    \<and> (main_at s = AtBump \<and> held s = 31 \<longleftrightarrow> pool_step s None)"
proof -
  have inv: "pool_inv s" and aw: "awake_enough s"
    using assms by (rule pool_reachable_inv, intro pool_reachable_awake)
  then have ok: "pool_ok s" and ex: "exclusive s" by (simp_all add: pool_inv_def)
  have "queued s = map snd (taken s) @ pending s" using inv by (simp add: pool_inv_def)
  moreover have "held s \<le> 31" using held_less [OF ok] by simp
  moreover have "\<exists>w \<in> set (workers s). on_the_way w"
    if "0 < held s" "main_at s \<noteq> AtSignal" "WWaiting \<in> set (workers s)"
  proof -
    have "filter on_the_way (workers s) \<noteq> []" using aw that by (auto simp: awake_enough_def wakeups_def)
    then show ?thesis by (auto simp: filter_empty_conv)
  qed
  moreover have "next_slot MAXNCLI (iput s) = iget s \<longleftrightarrow> held s = 31"
    using ok by (auto simp: pool_ok_def held_def next_slot_def)
  then have "main_at s = AtBump \<and> held s = 31 \<longleftrightarrow> pool_step s None"
    by (auto intro: pool_step.quit elim: pool_step.cases)
  ultimately show ?thesis using ex by (auto simp: exclusive_def)
qed

text \<open>A run: a worker finds nothing and waits, a connection comes, the worker is woken.\<close>

theorem pool_serves_each_once_witness:
  "\<exists>s. pool_reachable 1 s \<and> held s = 1 \<and> queued s = [7] \<and> pending s = [7] \<and> workers s = [WWoken]"
proof -
  note go_on = pool_reachable.step
  let ?s0 = "pool_init 1"
  let ?s1 = "go 0 WTest (?s0\<lparr>mutex := Some (Worker 0)\<rparr>)"
  let ?s2 = "go 0 WWaiting (?s1\<lparr>mutex := None\<rparr>)"
  let ?s3 = "?s2\<lparr>main_at := AtLock 7\<rparr>"
  let ?s4 = "?s3\<lparr>mutex := Some Main, main_at := AtStore 7\<rparr>"
  let ?s5 = "?s4\<lparr>clifd := (clifd ?s4)[iput ?s4 := 7], queued := queued ?s4 @ [7], main_at := AtBump\<rparr>"
  let ?s6 = "?s5\<lparr>iput := next_slot MAXNCLI (iput ?s5), main_at := AtSignal\<rparr>"
  let ?s7 = "go 0 WWoken (?s6\<lparr>main_at := AtUnlock\<rparr>)"
  have r0: "pool_reachable 1 ?s0" by (rule pool_reachable.start)
  have r1: "pool_reachable 1 ?s1" by (rule go_on [OF r0], rule pool_step.lock) (simp_all add: pool_init_def)
  have r2: "pool_reachable 1 ?s2" by (rule go_on [OF r1], rule pool_step.wait) (simp_all add: pool_init_def go_def)
  have r3: "pool_reachable 1 ?s3" by (rule go_on [OF r2], rule pool_step.accept) (simp add: pool_init_def go_def)
  have r4: "pool_reachable 1 ?s4" by (rule go_on [OF r3], rule pool_step.main_lock) (simp_all add: go_def)
  have r5: "pool_reachable 1 ?s5" by (rule go_on [OF r4], rule pool_step.store) simp
  have r6: "pool_reachable 1 ?s6" by (rule go_on [OF r5], rule pool_step.bump) (simp_all add: pool_init_def go_def next_slot_def)
  have r7: "pool_reachable 1 ?s7" by (rule go_on [OF r6], rule pool_step.signal) (simp_all add: pool_init_def go_def)
  have f: "held ?s7 = 1" "queued ?s7 = [7]" "taken ?s7 = []" "workers ?s7 = [WWoken]"
    by (simp_all add: held_def pool_init_def go_def next_slot_def)
  have "queued ?s7 = map snd (taken ?s7) @ pending ?s7" using pool_serves_each_once [OF r7] by blast
  then have "pending ?s7 = [7]" using f(2,3) by simp
  with r7 f(1,2,4) show ?thesis by blast
qed

end
