(* ===== verification/Icmp.thy ===== *)
theory Icmp
  imports InCksum
begin

unbundle bit_operations_syntax

text \<open>
  What \<open>ping\<close> and \<open>traceroute\<close> share: times and their difference (\<^verbatim>\<open>unpv13e/ping/tv_sub.c\<close>, the
  same text as \<^verbatim>\<open>unpv13e/traceroute/tv_sub.c\<close>), and the fields of IP and ICMP headers in a receive
  buffer of 1500 bytes. Numbers of more than a byte that the programs store without conversion are
  those of a little-endian machine with a 64-bit \<open>long\<close>.
\<close>

section \<open>Times\<close>

datatype timeval = TV (tv_sec: int) (tv_usec: int)

text \<open>Times are ordered by seconds, then microseconds.\<close>

instantiation timeval :: linorder
begin

definition less_eq_timeval :: "timeval \<Rightarrow> timeval \<Rightarrow> bool" where
  "s \<le> t \<longleftrightarrow> tv_sec s < tv_sec t \<or> tv_sec s = tv_sec t \<and> tv_usec s \<le> tv_usec t"

definition less_timeval :: "timeval \<Rightarrow> timeval \<Rightarrow> bool" where
  "s < t \<longleftrightarrow> s \<le> t \<and> \<not> t \<le> (s :: timeval)"

instance
  by standard (auto simp: less_eq_timeval_def less_timeval_def timeval.expand)

end

text \<open>Arithmetic on \<open>long\<close>: a result outside of its range is undefined behaviour.\<close>

definition as_long :: "int \<Rightarrow> int outcome" where
  "as_long x = (if - (2 ^ 63) \<le> x \<and> x < 2 ^ 63 then Ok x else Undefined)"

definition tv_sub :: "timeval \<Rightarrow> timeval \<Rightarrow> timeval outcome" where
  "tv_sub out inn =
     bind_outcome (as_long (tv_usec out - tv_usec inn)) (\<lambda>usec.
       if usec < 0 then
         bind_outcome (as_long (tv_sec out - 1)) (\<lambda>sec.
         bind_outcome (as_long (usec + 1000000)) (\<lambda>usec'.
         bind_outcome (as_long (sec - tv_sec inn)) (\<lambda>sec'. Ok (TV sec' usec'))))
       else bind_outcome (as_long (tv_sec out - tv_sec inn)) (\<lambda>sec'. Ok (TV sec' usec)))"

definition tv_ok :: "timeval \<Rightarrow> bool" where
  "tv_ok t \<longleftrightarrow> 0 \<le> tv_sec t \<and> tv_sec t < 2 ^ 63 \<and> 0 \<le> tv_usec t \<and> tv_usec t < 1000000"

definition microseconds :: "timeval \<Rightarrow> int" where
  "microseconds t = 1000000 * tv_sec t + tv_usec t"

lemma microseconds_le: "tv_ok s \<Longrightarrow> tv_ok t \<Longrightarrow> microseconds s \<le> microseconds t \<longleftrightarrow> s \<le> t"
  by (auto simp: tv_ok_def microseconds_def less_eq_timeval_def)

text \<open>
  On proper times \<open>tv_sub\<close> is exact, whichever is the earlier; the microseconds of the result are
  proper, so its seconds are negative when the subtrahend is the later one.
\<close>

lemma tv_sub_exact:
  assumes "tv_ok s" and "tv_ok t"
  shows "\<exists>d. tv_sub t s = Ok d \<and> microseconds d = microseconds t - microseconds s
    \<and> 0 \<le> tv_usec d \<and> tv_usec d < 1000000 \<and> (s \<le> t \<longleftrightarrow> 0 \<le> tv_sec d)"
  using assms by (auto simp: tv_sub_def as_long_def tv_ok_def microseconds_def less_eq_timeval_def)

section \<open>Numbers in memory\<close>

fun le_bytes :: "nat \<Rightarrow> int \<Rightarrow> byte list" where
  "le_bytes 0 x = []"
| "le_bytes (Suc k) x = word_of_int x # le_bytes k (x div 256)"

definition of_le :: "byte list \<Rightarrow> int" where
  "of_le bs = horner_sum uint 256 bs"

lemma length_le_bytes [simp]: "length (le_bytes k x) = k"
  by (induction k x rule: le_bytes.induct) simp_all

lemma of_le_bytes: "of_le (le_bytes k x) = x mod 256 ^ k"
proof (induction k x rule: le_bytes.induct)
  case (2 k x)
  have "uint (word_of_int x :: byte) = x mod 256" by (simp add: uint_word_of_int take_bit_eq_mod)
  with 2 show ?case by (simp add: of_le_def zmod_zmult2_eq)
qed (simp add: of_le_def)

text \<open>A \<open>struct timeval\<close> in memory: two numbers of 64 bits.\<close>

definition tv_bytes :: "timeval \<Rightarrow> byte list" where
  "tv_bytes t = le_bytes 8 (tv_sec t) @ le_bytes 8 (tv_usec t)"

definition tv_at :: "byte list \<Rightarrow> nat \<Rightarrow> timeval" where
  "tv_at buf i = TV (signed_take_bit 63 (of_le (take 8 (drop i buf))))
                    (signed_take_bit 63 (of_le (take 8 (drop (i + 8) buf))))"

lemma length_tv_bytes [simp]: "length (tv_bytes t) = 16"
  by (simp add: tv_bytes_def)

lemma signed_of_le_bytes: "0 \<le> x \<Longrightarrow> x < 2 ^ 63 \<Longrightarrow> signed_take_bit 63 (of_le (le_bytes 8 x)) = x"
  by (simp add: of_le_bytes signed_take_bit_int_eq_self)

lemma tv_at_tv_bytes:
  assumes "tv_ok t"
  shows "tv_at (pre @ tv_bytes t @ post) (length pre) = t"
  using assms signed_of_le_bytes [of "tv_sec t"] signed_of_le_bytes [of "tv_usec t"]
  by (simp add: tv_at_def tv_bytes_def tv_ok_def)

section \<open>Headers\<close>

definition le16_at :: "byte list \<Rightarrow> nat \<Rightarrow> 16 word" where
  "le16_at buf i = word_of_nat (unat (buf ! i) + 256 * unat (buf ! (i + 1)))"

definition be16_at :: "byte list \<Rightarrow> nat \<Rightarrow> 16 word" where
  "be16_at buf i = rd16 (drop i buf)"

lemma le16_at_le16: "le16_at (pre @ le16 w @ post) (length pre) = w"
proof -
  have "unat w mod 256 + 256 * (unat w div 256) = unat w" by simp
  moreover have "unat w div 256 < 256" using unat_lt_65536 [of w] by (simp add: less_mult_imp_div_less)
  ultimately show ?thesis by (simp add: le16_at_def le16_def nth_append unat_byte_of_nat)
qed

text \<open>The header length \<open>ip_hl << 2\<close> of the IP header at \<open>i\<close>, and its protocol.\<close>

definition hdr_len :: "byte list \<Rightarrow> nat \<Rightarrow> nat" where
  "hdr_len buf i = 4 * (unat (buf ! i) mod 16)"

definition ip_p :: "byte list \<Rightarrow> nat \<Rightarrow> byte" where
  "ip_p buf i = buf ! (i + 9)"

definition IPPROTO_ICMP :: byte where "IPPROTO_ICMP = 1"
definition IPPROTO_UDP :: byte where "IPPROTO_UDP = 17"

lemma hdr_len_le: "hdr_len buf i \<le> 60"
  unfolding hdr_len_def using mod_less_divisor [of 16 "unat (buf ! i)"] by linarith

text \<open>What is read lies in the buffer, however the headers are filled: no offset is above 148.\<close>

definition BUFSIZE :: nat where "BUFSIZE = 1500"

text \<open>A datagram of \<open>recvfrom\<close> over the old contents of the buffer.\<close>

definition into_buf :: "byte list \<Rightarrow> byte list \<Rightarrow> byte list" where
  "into_buf buf d = take BUFSIZE d @ drop (length d) buf"

lemma length_into_buf [simp]: "length buf = BUFSIZE \<Longrightarrow> length (into_buf buf d) = BUFSIZE"
  by (simp add: into_buf_def)

section \<open>An ICMP error\<close>

text \<open>
  An ICMP error behind an IP header, quoting the header \<open>q\<close> and the ports of the datagram it is about;
  \<open>r\<close> is whatever follows.
\<close>

definition icmp_error ::
    "byte list \<Rightarrow> byte \<Rightarrow> byte \<Rightarrow> byte list \<Rightarrow> byte list \<Rightarrow> 16 word \<Rightarrow> 16 word \<Rightarrow> byte list \<Rightarrow> byte list" where
  "icmp_error iph type code rest q sp dp r = iph @ [type, code] @ rest @ q @ be16 sp @ be16 dp @ r"

lemma be16_at_be16: "be16_at (pre @ be16 w @ post) (length pre) = w"
  by (simp add: be16_at_def)

lemma nth_of_error:
  assumes "length rest = 6"
  shows "i < length iph \<Longrightarrow> icmp_error iph type code rest q sp dp r ! i = iph ! i"
    and "icmp_error iph type code rest q sp dp r ! length iph = type"
    and "icmp_error iph type code rest q sp dp r ! (length iph + 1) = code"
    and "i < length q \<Longrightarrow> icmp_error iph type code rest q sp dp r ! (length iph + 8 + i) = q ! i"
  using assms by (auto simp: icmp_error_def nth_append nth_Cons')

text \<open>The two headers are well formed, and the one quoted is that of a UDP datagram.\<close>

definition headers_ok :: "byte list \<Rightarrow> byte list \<Rightarrow> byte list \<Rightarrow> bool" where
  "headers_ok iph rest q \<longleftrightarrow> 20 \<le> length iph \<and> hdr_len iph 0 = length iph \<and> length rest = 6
     \<and> 20 \<le> length q \<and> hdr_len q 0 = length q \<and> ip_p q 0 = IPPROTO_UDP"
text \<open>An IP header for the examples.\<close>

definition demo_ip :: "byte \<Rightarrow> byte list" where
  "demo_ip proto = [0x45, 0, 0, 56, 0, 1, 0, 0, 60, proto, 0, 0, 10, 0, 0, 2, 10, 0, 0, 1]"

end
