(* ===== verification/Ping.thy ===== *)
theory Ping
  imports Icmp InCksum Connectors "HOL-Library.Sublist"
begin

text \<open>
  \<open>ping\<close>: \<^verbatim>\<open>unpv13e/ping/main.c\<close>, \<^verbatim>\<open>readloop.c\<close>, \<^verbatim>\<open>sig_alrm.c\<close>, \<^verbatim>\<open>send_v4.c\<close>, \<^verbatim>\<open>send_v6.c\<close>,
  \<^verbatim>\<open>proc_v4.c\<close> and \<^verbatim>\<open>proc_v6.c\<close>. What the socket delivers, the alarms and the clock are inputs;
  the packets sent and the lines printed are the output.
\<close>

section \<open>Sending\<close>

definition ICMP_ECHO :: byte where "ICMP_ECHO = 8"
definition ICMP_ECHOREPLY :: byte where "ICMP_ECHOREPLY = 0"
definition ICMP6_ECHO_REQUEST :: byte where "ICMP6_ECHO_REQUEST = 128"
definition ICMP6_ECHO_REPLY :: byte where "ICMP6_ECHO_REPLY = 129"

definition datalen :: nat where "datalen = 56"

definition echo_packet :: "byte \<Rightarrow> 16 word \<Rightarrow> 16 word \<Rightarrow> nat \<Rightarrow> timeval \<Rightarrow> byte list" where
  "echo_packet type cksum pid seq now =
     [type, 0] @ le16 cksum @ le16 pid @ le16 (word_of_nat seq)
     @ tv_bytes now @ replicate (datalen - length (tv_bytes now)) 0xa5"

text \<open>Both return the packet for \<open>Sendto\<close> and the new value of \<open>nsent\<close>.\<close>

definition send_v4 :: "16 word \<Rightarrow> timeval \<Rightarrow> nat \<Rightarrow> byte list \<times> nat" where
  "send_v4 pid now nsent =
     (let cksum = in_cksum (echo_packet ICMP_ECHO 0 pid nsent now)
      in (echo_packet ICMP_ECHO cksum pid nsent now, nsent + 1))"

definition send_v6 :: "16 word \<Rightarrow> timeval \<Rightarrow> nat \<Rightarrow> byte list \<times> nat" where
  "send_v6 pid now nsent = (echo_packet ICMP6_ECHO_REQUEST 0 pid nsent now, nsent + 1)"

section \<open>Receiving\<close>

text \<open>
  A line of output: a reply with its length, its sequence number, its hop count (for IPv6 \<open>None\<close>
  stands for the \<open>???\<close> of missing ancillary data) and the time it took; or, with the \<open>-v\<close> option,
  another message.
\<close>

datatype report = Ignored | Reply int nat "int option" timeval | Other int nat nat

definition proc_v4 :: "bool \<Rightarrow> 16 word \<Rightarrow> byte list \<Rightarrow> nat \<Rightarrow> (int \<times> int \<times> int) list \<Rightarrow> timeval \<Rightarrow> report outcome" where
  "proc_v4 verbose pid ptr len msg tvrecv =
     (let hlen1 = hdr_len ptr 0; icmplen = int len - int hlen1 in
      if ip_p ptr 0 \<noteq> IPPROTO_ICMP then Ok Ignored
      else if icmplen < 8 then Ok Ignored
      else if ptr ! hlen1 = ICMP_ECHOREPLY then
        (if le16_at ptr (hlen1 + 4) \<noteq> pid then Ok Ignored
         else if icmplen < 16 then Ok Ignored
         else bind_outcome (tv_sub tvrecv (tv_at ptr (hlen1 + 8))) (\<lambda>rtt.
           Ok (Reply icmplen (unat (le16_at ptr (hlen1 + 6))) (Some (int (unat (ptr ! 8)))) rtt)))
      else if verbose then Ok (Other icmplen (unat (ptr ! hlen1)) (unat (ptr ! (hlen1 + 1))))
      else Ok Ignored)"

definition IPPROTO_IPV6 :: int where "IPPROTO_IPV6 = 41"
definition IPV6_HOPLIMIT :: int where "IPV6_HOPLIMIT = 52"

text \<open>The ancillary data is a list of level, type and value.\<close>

fun hop_limit :: "(int \<times> int \<times> int) list \<Rightarrow> int" where
  "hop_limit [] = -1"
| "hop_limit ((level, type, v) # cmsgs) =
     (if level = IPPROTO_IPV6 \<and> type = IPV6_HOPLIMIT then v else hop_limit cmsgs)"

definition proc_v6 :: "bool \<Rightarrow> 16 word \<Rightarrow> byte list \<Rightarrow> nat \<Rightarrow> (int \<times> int \<times> int) list \<Rightarrow> timeval \<Rightarrow> report outcome" where
  "proc_v6 verbose pid ptr len msg tvrecv =
     (if len < 8 then Ok Ignored
      else if ptr ! 0 = ICMP6_ECHO_REPLY then
        (if le16_at ptr 4 \<noteq> pid then Ok Ignored
         else if len < 16 then Ok Ignored
         else bind_outcome (tv_sub tvrecv (tv_at ptr 8)) (\<lambda>rtt.
           let hlim = hop_limit msg in
           Ok (Reply (int len) (unat (le16_at ptr 6)) (if hlim = -1 then None else Some hlim) rtt)))
      else if verbose then Ok (Other (int len) (unat (ptr ! 0)) (unat (ptr ! 1)))
      else Ok Ignored)"

section \<open>The loop\<close>

record proto =
  fproc :: "bool \<Rightarrow> 16 word \<Rightarrow> byte list \<Rightarrow> nat \<Rightarrow> (int \<times> int \<times> int) list \<Rightarrow> timeval \<Rightarrow> report outcome"
  fsend :: "16 word \<Rightarrow> timeval \<Rightarrow> nat \<Rightarrow> byte list \<times> nat"

definition proto_v4 :: proto where "proto_v4 = \<lparr>fproc = proc_v4, fsend = send_v4\<rparr>"
definition proto_v6 :: proto where "proto_v6 = \<lparr>fproc = proc_v6, fsend = send_v6\<rparr>"

record ping =
  nsent :: nat
  recvbuf :: "byte list"
  outgoing :: "byte list list"
  reports :: "report list"

text \<open>
  The events in the order they happen: the alarm (with the time that \<open>gettimeofday\<close> gives),
  \<open>recvmsg\<close> interrupted, \<open>recvmsg\<close> failing, or a packet with its ancillary data and the time after it.
\<close>

datatype ping_event = Alarm timeval | Interrupt | Failure | Packet "byte list" "(int \<times> int \<times> int) list" timeval

definition sig_alrm :: "proto \<Rightarrow> 16 word \<Rightarrow> timeval \<Rightarrow> ping \<Rightarrow> ping" where
  "sig_alrm pr pid now s =
     (let (pkt, n) = fsend pr pid now (nsent s) in s\<lparr>nsent := n, outgoing := outgoing s @ [pkt]\<rparr>)"

text \<open>\<open>None\<close>: the process ends with \<open>err_sys\<close>. Else the state when the events are used up.\<close>

fun readloop :: "proto \<Rightarrow> bool \<Rightarrow> 16 word \<Rightarrow> ping_event list \<Rightarrow> ping \<Rightarrow> ping option outcome" where
  "readloop pr verbose pid [] s = Ok (Some s)"
| "readloop pr verbose pid (Alarm now # es) s = readloop pr verbose pid es (sig_alrm pr pid now s)"
| "readloop pr verbose pid (Interrupt # es) s = readloop pr verbose pid es s"
| "readloop pr verbose pid (Failure # es) s = Ok None"
| "readloop pr verbose pid (Packet d msg now # es) s =
     (let buf = into_buf (recvbuf s) d in
      bind_outcome (fproc pr verbose pid buf (min BUFSIZE (length d)) msg now) (\<lambda>r.
        readloop pr verbose pid es (s\<lparr>recvbuf := buf, reports := reports s @ [r]\<rparr>)))"

definition ping_init :: "byte list \<Rightarrow> ping" where
  "ping_init buf = \<lparr>nsent = 0, recvbuf = buf, outgoing = [], reports = []\<rparr>"

fun v4mapped :: "sockaddr \<Rightarrow> bool" where
  "v4mapped (Sin6 p a) = (take 12 a = replicate 10 0 @ [255, 255])"
| "v4mapped _ = False"

definition choose_proto :: "addrinfo \<Rightarrow> proto option" where
  "choose_proto ai =
     (if ai_family ai = AF_INET then Some proto_v4
      else if ai_family ai = AF_INET6 then
        (case ai_addr ai of
           Some sa \<Rightarrow> if v4mapped sa then None else Some proto_v6
         | None \<Rightarrow> Some proto_v6)
      else None)"

text \<open>
  \<open>main\<close> after the options: \<open>Host_serv\<close> and the choice of the protocol (\<open>None\<close>: the process ends),
  then the loop, with the first packet sent at once.
\<close>

definition ping_main :: "resolver \<Rightarrow> string \<Rightarrow> bool \<Rightarrow> 16 word \<Rightarrow> byte list \<Rightarrow> timeval \<Rightarrow> ping_event list
    \<Rightarrow> ping option outcome" where
  "ping_main rs host verbose pid buf now es =
     (case host_serv rs (Some host) None 0 0 of
        Some (Some (ai # ais)) \<Rightarrow>
          (case choose_proto ai of
             None \<Rightarrow> Ok None
           | Some pr \<Rightarrow> readloop pr verbose pid es (sig_alrm pr pid now (ping_init buf)))
      | Some (Some []) \<Rightarrow> Undefined
      | _ \<Rightarrow> Ok None)"

section \<open>Round trip\<close>

text \<open>The fields of an echo reply in the buffer, behind a header of \<open>length iph\<close> bytes.\<close>

lemma echo_fields:
  assumes "tv_ok now"
  shows "(iph @ echo_packet ty ck pid seq now @ r) ! length iph = ty"
    and "le16_at (iph @ echo_packet ty ck pid seq now @ r) (length iph + 4) = pid"
    and "le16_at (iph @ echo_packet ty ck pid seq now @ r) (length iph + 6) = word_of_nat seq"
    and "tv_at (iph @ echo_packet ty ck pid seq now @ r) (length iph + 8) = now"
proof -
  let ?f = "replicate (datalen - length (tv_bytes now)) 0xa5 @ r"
  have eq: "iph @ echo_packet ty ck pid seq now @ r =
      iph @ [ty, 0] @ le16 ck @ le16 pid @ le16 (word_of_nat seq) @ tv_bytes now @ ?f"
    by (simp add: echo_packet_def)
  show "(iph @ echo_packet ty ck pid seq now @ r) ! length iph = ty" unfolding eq by (simp add: nth_append)
  show "le16_at (iph @ echo_packet ty ck pid seq now @ r) (length iph + 4) = pid" unfolding eq
    using le16_at_le16 [of "iph @ [ty, 0] @ le16 ck" pid "le16 (word_of_nat seq) @ tv_bytes now @ ?f"] by simp
  show "le16_at (iph @ echo_packet ty ck pid seq now @ r) (length iph + 6) = word_of_nat seq" unfolding eq
    using le16_at_le16 [of "iph @ [ty, 0] @ le16 ck @ le16 pid" "word_of_nat seq" "tv_bytes now @ ?f"] by simp
  show "tv_at (iph @ echo_packet ty ck pid seq now @ r) (length iph + 8) = now" unfolding eq
    using tv_at_tv_bytes [OF assms, of "iph @ [ty, 0] @ le16 ck @ le16 pid @ le16 (word_of_nat seq)" ?f] by simp
qed

lemma length_echo_packet [simp]: "length (echo_packet ty ck pid seq now) = 64"
  by (simp add: echo_packet_def datalen_def)

lemma in_cksum_send_v4: "in_cksum (fst (send_v4 pid now n)) = 0"
proof -
  let ?post = "le16 pid @ le16 (word_of_nat n) @ tv_bytes now
    @ replicate (datalen - length (tv_bytes now)) 0xa5"
  have "le16 (0 :: 16 word) = [0, 0]" by (simp add: le16_def)
  then have "fst (send_v4 pid now n) =
      [ICMP_ECHO, 0] @ le16 (in_cksum ([ICMP_ECHO, 0] @ [0, 0] @ ?post)) @ ?post"
    by (simp add: send_v4_def echo_packet_def Let_def)
  then show ?thesis using in_cksum_filled_in [of "[ICMP_ECHO, 0]" ?post] by (simp add: datalen_def)
qed

section \<open>The loop and its trace\<close>

lemma readloop_append:
  "readloop pr verbose pid (es @ fs) s =
     bind_outcome (readloop pr verbose pid es s)
       (\<lambda>r. case r of None \<Rightarrow> Ok None | Some s1 \<Rightarrow> readloop pr verbose pid fs s1)"
proof (induction pr verbose pid es s rule: readloop.induct)
  case (5 pr verbose pid d msg now es s)
  then show ?case
    by (cases "fproc pr verbose pid (into_buf (recvbuf s) d) (min BUFSIZE (length d)) msg now")
      (simp_all add: Let_def)
qed simp_all

text \<open>Nothing that was sent is taken back, and the buffer keeps its size.\<close>

lemma readloop_keeps:
  "readloop pr verbose pid es s = Ok (Some s1) \<Longrightarrow>
     prefix (outgoing s) (outgoing s1) \<and> (length (recvbuf s) = BUFSIZE \<longrightarrow> length (recvbuf s1) = BUFSIZE)"
proof (induction pr verbose pid es s rule: readloop.induct)
  case (2 pr verbose pid now es s)
  have "prefix (outgoing s) (outgoing (sig_alrm pr pid now s))"
    "recvbuf (sig_alrm pr pid now s) = recvbuf s"
    by (simp_all add: sig_alrm_def split: prod.split)
  with 2 show ?case using prefix_order.trans by fastforce
next
  case (5 pr verbose pid d msg now es s)
  then obtain r where r: "fproc pr verbose pid (into_buf (recvbuf s) d) (min BUFSIZE (length d)) msg now = Ok r"
    by (auto simp: Let_def)
  with 5 show ?case by (simp add: Let_def)
qed auto

lemma readloop_outgoing_nth:
  assumes "readloop pr verbose pid (Alarm now # es) s = Ok (Some s1)"
  shows "outgoing s1 ! length (outgoing s) = fst (fsend pr pid now (nsent s))"
proof -
  have "prefix (outgoing (sig_alrm pr pid now s)) (outgoing s1)"
    using assms readloop_keeps [of pr verbose pid es "sig_alrm pr pid now s" s1] by simp
  then obtain out where "outgoing s1 = outgoing (sig_alrm pr pid now s) @ out" by (auto simp: prefix_def)
  then show ?thesis by (simp add: sig_alrm_def split: prod.split)
qed

text \<open>A reply to an own packet is always reported.\<close>

lemma proc_v4_reply:
  assumes "tv_ok t0" "tv_ok t1" and "20 \<le> length iph" "hdr_len iph 0 = length iph" "ip_p iph 0 = IPPROTO_ICMP"
  shows "\<exists>d. proc_v4 verbose pid (iph @ echo_packet ICMP_ECHOREPLY ck pid n t0 @ r) (length iph + 64) msg t1
      = Ok (Reply 64 (n mod 65536) (Some (int (unat (iph ! 8)))) d)
    \<and> microseconds d = microseconds t1 - microseconds t0"
proof -
  let ?b = "iph @ echo_packet ICMP_ECHOREPLY ck pid n t0 @ r"
  have h: "hdr_len ?b 0 = length iph" "ip_p ?b 0 = IPPROTO_ICMP" "?b ! 8 = iph ! 8"
  proof -
    have "?b ! i = iph ! i" if "i < 20" for i using that assms(3) by (intro nth_append_left) simp
    from this [of 0] this [of 8] this [of 9] assms(4,5)
    show "hdr_len ?b 0 = length iph" "ip_p ?b 0 = IPPROTO_ICMP" "?b ! 8 = iph ! 8"
      by (simp_all add: hdr_len_def ip_p_def)
  qed
  obtain d where "tv_sub t1 t0 = Ok d" "microseconds d = microseconds t1 - microseconds t0"
    using tv_sub_exact [OF assms(1,2)] by blast
  then show ?thesis using echo_fields [OF assms(1), of iph ICMP_ECHOREPLY ck pid n r]
    by (simp add: proc_v4_def h Let_def unat_of_nat)
qed

lemma proc_v6_reply:
  assumes "tv_ok t0" "tv_ok t1"
  shows "\<exists>d. proc_v6 verbose pid (echo_packet ICMP6_ECHO_REPLY ck pid n t0 @ r) 64 msg t1
      = Ok (Reply 64 (n mod 65536) (if hop_limit msg = -1 then None else Some (hop_limit msg)) d)
    \<and> microseconds d = microseconds t1 - microseconds t0"
proof -
  obtain d where "tv_sub t1 t0 = Ok d" "microseconds d = microseconds t1 - microseconds t0"
    using tv_sub_exact [OF assms] by blast
  then show ?thesis using echo_fields [OF assms(1), of "[]" ICMP6_ECHO_REPLY ck pid n r]
    by (simp add: proc_v6_def Let_def unat_of_nat)
qed

lemma into_buf_append: "length d \<le> BUFSIZE \<Longrightarrow> into_buf buf d = d @ drop (length d) buf"
  by (simp add: into_buf_def)

lemma drop_echo_packet: "[ty', 0] @ le16 ck' @ drop 4 (echo_packet ty ck pid n t) = echo_packet ty' ck' pid n t"
  by (simp add: echo_packet_def)

lemma readloop_last:
  assumes "readloop pr verbose pid es s = Ok (Some s1)"
    and "fproc pr verbose pid (into_buf (recvbuf s1) d) (min BUFSIZE (length d)) msg t = Ok rep"
  shows "\<exists>s2. readloop pr verbose pid (es @ [Packet d msg t]) s = Ok (Some s2)
    \<and> reports s2 = reports s1 @ [rep]"
  using assms by (simp add: readloop_append Let_def)

section \<open>Properties\<close>

text \<open>
  C8: A packet that \<open>ping\<close> sends has a correct checksum, and whenever the echo of it comes back,
  whatever else was sent and received in between, \<open>ping\<close> reports it, with its sequence number (modulo
  65536), the hop count of the answer, and as its time exactly the difference of the two readings
  of the clock. For IPv6 the same holds of the packet, whose checksum is left to the kernel.
\<close>

theorem ping_round_trip:
  assumes "tv_ok t0" "tv_ok t1"
    and "20 \<le> length iph" "hdr_len iph 0 = length iph" "ip_p iph 0 = IPPROTO_ICMP"
  shows "(readloop proto_v4 verbose pid (Alarm t0 # es) s = Ok (Some s1) \<longrightarrow>
      in_cksum (outgoing s1 ! length (outgoing s)) = 0
    \<and> (\<exists>s2 d. readloop proto_v4 verbose pid ((Alarm t0 # es) @
          [Packet (iph @ [ICMP_ECHOREPLY, 0] @ le16 ck @ drop 4 (outgoing s1 ! length (outgoing s))) msg t1]) s
          = Ok (Some s2)
        \<and> reports s2 = reports s1 @ [Reply 64 (nsent s mod 65536) (Some (int (unat (iph ! 8)))) d]
        \<and> microseconds d = microseconds t1 - microseconds t0))
    \<and> (readloop proto_v6 verbose pid (Alarm t0 # es) s = Ok (Some s1) \<longrightarrow>
      (\<exists>s2 d. readloop proto_v6 verbose pid ((Alarm t0 # es) @
          [Packet ([ICMP6_ECHO_REPLY, 0] @ le16 ck @ drop 4 (outgoing s1 ! length (outgoing s))) msg t1]) s
          = Ok (Some s2)
        \<and> reports s2 = reports s1 @ [Reply 64 (nsent s mod 65536)
              (if hop_limit msg = -1 then None else Some (hop_limit msg)) d]
        \<and> microseconds d = microseconds t1 - microseconds t0))"
proof (intro conjI [where P = "_ \<longrightarrow> _"] impI)
  assume run: "readloop proto_v4 verbose pid (Alarm t0 # es) s = Ok (Some s1)"
  have out: "outgoing s1 ! length (outgoing s) = fst (send_v4 pid t0 (nsent s))"
    using readloop_outgoing_nth [OF run] by (simp add: proto_v4_def)
  let ?d = "iph @ echo_packet ICMP_ECHOREPLY ck pid (nsent s) t0"
  have "length iph \<le> 60" using assms(4) hdr_len_le [of iph 0] by simp
  then have len: "length ?d \<le> BUFSIZE" "min BUFSIZE (length ?d) = length iph + 64" by (simp_all add: BUFSIZE_def)
  obtain d where d: "proc_v4 verbose pid (into_buf (recvbuf s1) ?d) (length iph + 64) msg t1
      = Ok (Reply 64 (nsent s mod 65536) (Some (int (unat (iph ! 8)))) d)"
    "microseconds d = microseconds t1 - microseconds t0"
    using proc_v4_reply [OF assms] into_buf_append [OF len(1)] by (metis append.assoc)
  have "fproc proto_v4 verbose pid (into_buf (recvbuf s1) ?d) (min BUFSIZE (length ?d)) msg t1
      = Ok (Reply 64 (nsent s mod 65536) (Some (int (unat (iph ! 8)))) d)"
    unfolding len(2) using d(1) by (simp add: proto_v4_def)
  from readloop_last [OF run this] d(2) in_cksum_send_v4 [of pid t0 "nsent s"] out
  show "in_cksum (outgoing s1 ! length (outgoing s)) = 0 \<and> (\<exists>s2 d. readloop proto_v4 verbose pid
        ((Alarm t0 # es) @ [Packet (iph @ [ICMP_ECHOREPLY, 0] @ le16 ck
          @ drop 4 (outgoing s1 ! length (outgoing s))) msg t1]) s = Ok (Some s2)
      \<and> reports s2 = reports s1 @ [Reply 64 (nsent s mod 65536) (Some (int (unat (iph ! 8)))) d]
      \<and> microseconds d = microseconds t1 - microseconds t0)"
    by (simp only: send_v4_def Let_def fst_conv drop_echo_packet) blast
next
  assume run: "readloop proto_v6 verbose pid (Alarm t0 # es) s = Ok (Some s1)"
  have out: "outgoing s1 ! length (outgoing s) = fst (send_v6 pid t0 (nsent s))"
    using readloop_outgoing_nth [OF run] by (simp add: proto_v6_def)
  let ?d = "echo_packet ICMP6_ECHO_REPLY ck pid (nsent s) t0"
  have len: "length ?d \<le> BUFSIZE" "min BUFSIZE (length ?d) = 64" by (simp_all add: BUFSIZE_def)
  obtain d where d: "proc_v6 verbose pid (into_buf (recvbuf s1) ?d) 64 msg t1
      = Ok (Reply 64 (nsent s mod 65536) (if hop_limit msg = -1 then None else Some (hop_limit msg)) d)"
    "microseconds d = microseconds t1 - microseconds t0"
    using proc_v6_reply [OF assms(1,2)] into_buf_append [OF len(1)] by metis
  have "fproc proto_v6 verbose pid (into_buf (recvbuf s1) ?d) (min BUFSIZE (length ?d)) msg t1
      = Ok (Reply 64 (nsent s mod 65536) (if hop_limit msg = -1 then None else Some (hop_limit msg)) d)"
    unfolding len(2) using d(1) by (simp add: proto_v6_def)
  from readloop_last [OF run this] d(2) out
  show "\<exists>s2 d. readloop proto_v6 verbose pid ((Alarm t0 # es) @
        [Packet ([ICMP6_ECHO_REPLY, 0] @ le16 ck @ drop 4 (outgoing s1 ! length (outgoing s))) msg t1]) s
        = Ok (Some s2)
      \<and> reports s2 = reports s1 @ [Reply 64 (nsent s mod 65536)
            (if hop_limit msg = -1 then None else Some (hop_limit msg)) d]
      \<and> microseconds d = microseconds t1 - microseconds t0"
    by (simp only: send_v6_def Let_def fst_conv drop_echo_packet) blast
qed

definition demo_header :: "byte list" where
  "demo_header = [0x45, 0, 0, 84, 0, 1, 0, 0, 57, 1, 0, 0, 10, 0, 0, 2, 10, 0, 0, 1]"

theorem ping_round_trip_witness:
  "\<exists>s1 s2 d. readloop proto_v4 False 77 [Alarm (TV 5 900000), Interrupt] (ping_init []) = Ok (Some s1)
     \<and> readloop proto_v4 False 77 [Alarm (TV 5 900000), Interrupt, Packet (demo_header @ [0, 0] @ le16 9
         @ drop 4 (outgoing s1 ! 0)) [] (TV 6 100000)] (ping_init []) = Ok (Some s2)
     \<and> reports s2 = reports s1 @ [Reply 64 0 (Some 57) d] \<and> microseconds d = 200000"
proof -
  obtain s1 where s1: "readloop proto_v4 False 77 [Alarm (TV 5 900000), Interrupt] (ping_init []) = Ok (Some s1)"
    by simp
  have ok: "tv_ok (TV 5 900000)" "tv_ok (TV 6 100000)" by (simp_all add: tv_ok_def)
  have h: "20 \<le> length demo_header" "hdr_len demo_header 0 = length demo_header" "ip_p demo_header 0 = IPPROTO_ICMP"
    by (simp_all add: demo_header_def hdr_len_def ip_p_def IPPROTO_ICMP_def)
  have "demo_header ! 8 = 57" by (simp add: demo_header_def)
  with s1 ping_round_trip [OF ok h, of False 77 "[Interrupt]" "ping_init []" s1 9 "[]"] show ?thesis
    by (simp only: append_Cons append_Nil ping_init_def ping.simps list.size ICMP_ECHOREPLY_def
        microseconds_def timeval.sel) auto
qed

end
