(* ===== verification/Traceroute.thy ===== *)
theory Traceroute
  imports Icmp SockAddr
begin

text \<open>
  \<open>traceroute\<close>: \<^verbatim>\<open>unpv13e/traceroute/recv_v4.c\<close>, \<^verbatim>\<open>recv_v6.c\<close>, \<^verbatim>\<open>traceloop.c\<close>, \<^verbatim>\<open>icmpcode_v4.c\<close> and
  \<^verbatim>\<open>sig_alrm.c\<close>. What the raw socket delivers and the clock are inputs; the probes sent and the
  results printed are the output.
\<close>

section \<open>Matching a reply\<close>

definition ICMP_UNREACH :: byte where "ICMP_UNREACH = 3"
definition ICMP_TIMXCEED :: byte where "ICMP_TIMXCEED = 11"
definition ICMP_UNREACH_PORT :: byte where "ICMP_UNREACH_PORT = 3"
definition ICMP6_DST_UNREACH :: byte where "ICMP6_DST_UNREACH = 1"
definition ICMP6_TIME_EXCEEDED :: byte where "ICMP6_TIME_EXCEEDED = 3"
definition ICMP6_DST_UNREACH_NOPORT :: byte where "ICMP6_DST_UNREACH_NOPORT = 4"

text \<open>
  What the code does with a packet: on with the loop, or leave it with a value of \<open>ret\<close>, which
  may be uninitialised.
\<close>

datatype verdict = Go_on | Leave int | Leave_garbage

text \<open>The UDP header at \<open>u\<close> has the ports of the probe.\<close>

definition our_ports :: "byte list \<Rightarrow> nat \<Rightarrow> 16 word \<Rightarrow> nat \<Rightarrow> nat \<Rightarrow> bool" where
  "our_ports buf u sport dport seq \<longleftrightarrow>
     be16_at buf u = sport \<and> be16_at buf (u + 2) = word_of_nat (dport + seq)"

definition check_v4 :: "16 word \<Rightarrow> nat \<Rightarrow> nat \<Rightarrow> byte list \<Rightarrow> nat \<Rightarrow> verdict" where
  "check_v4 sport dport seq buf n =
     (let hlen1 = hdr_len buf 0; icmplen = int n - int hlen1;
          type = buf ! hlen1; code = buf ! (hlen1 + 1);
          hlen2 = hdr_len buf (hlen1 + 8); udp = hlen1 + 8 + hlen2
      in if icmplen < 8 then Go_on
         else if type = ICMP_TIMXCEED \<and> code = 0 then
           (if icmplen < 8 + 20 then Go_on
            else if icmplen < 8 + int hlen2 + 4 then Go_on
            else if ip_p buf (hlen1 + 8) = IPPROTO_UDP \<and> our_ports buf udp sport dport seq
            then Leave (-2) else Go_on)
         else if type = ICMP_UNREACH then
           (if icmplen < 8 + 20 then Go_on
            else if icmplen < 8 + int hlen2 + 4 then Go_on
            else if ip_p buf (hlen1 + 8) = IPPROTO_UDP \<and> our_ports buf udp sport dport seq
            then (if code = ICMP_UNREACH_PORT then Leave (-1) else Leave (uint code))
            else Go_on)
         else Go_on)"

text \<open>
  In \<open>recv_v6\<close> the \<open>break\<close> after \<open>ret = -2\<close> is not part of the \<open>if\<close>, so any \<open>time exceeded\<close> that is
  long enough ends the loop.
\<close>

definition check_v6 :: "16 word \<Rightarrow> nat \<Rightarrow> nat \<Rightarrow> byte list \<Rightarrow> nat \<Rightarrow> verdict" where
  "check_v6 sport dport seq buf n =
     (let ours = (buf ! (8 + 6) = IPPROTO_UDP \<and> our_ports buf (8 + 40) sport dport seq) in
      if n < 8 then Go_on
      else if buf ! 0 = ICMP6_TIME_EXCEEDED \<and> buf ! 1 = 0 then
        (if n < 8 + 40 + 4 then Go_on else if ours then Leave (-2) else Leave_garbage)
      else if buf ! 0 = ICMP6_DST_UNREACH then
        (if n < 8 + 40 + 4 then Go_on
         else if ours then
           (if buf ! 1 = ICMP6_DST_UNREACH_NOPORT then Leave (-1) else Leave (uint (buf ! 1)))
         else Go_on)
      else Go_on)"

section \<open>Waiting for a reply\<close>

text \<open>
  An event: whether \<open>SIGALRM\<close> came before it (setting \<open>gotalarm\<close>), and how \<open>recvfrom\<close> returns:
  interrupted, failing, or with a packet and its sender.
\<close>

datatype rx = Interrupted | Rx_fails | Rx "byte list" sockaddr

type_synonym rx_event = "bool \<times> rx"

text \<open>
  The call returns a code with the buffer, the sender and the events that are left; or it blocks,
  when there are no more events; or \<open>err_sys\<close> ends the process; or the returned value is garbage.
\<close>

datatype 'a waited = Came int 'a | Blocks | Dies | Garbage

fun recv_loop :: "(byte list \<Rightarrow> nat \<Rightarrow> verdict) \<Rightarrow> bool \<Rightarrow> byte list \<Rightarrow> sockaddr \<Rightarrow> rx_event list
    \<Rightarrow> (byte list \<times> sockaddr \<times> rx_event list) waited" where
  "recv_loop check gotalarm buf sa [] = (if gotalarm then Came (-3) (buf, sa, []) else Blocks)"
| "recv_loop check gotalarm buf sa ((al, e) # es) =
     (if gotalarm then Came (-3) (buf, sa, (al, e) # es)
      else case e of
             Interrupted \<Rightarrow> recv_loop check al buf sa es
           | Rx_fails \<Rightarrow> Dies
           | Rx d src \<Rightarrow>
               (let buf' = into_buf buf d in
                case check buf' (min BUFSIZE (length d)) of
                  Go_on \<Rightarrow> recv_loop check al buf' src es
                | Leave ret \<Rightarrow> Came ret (buf', src, es)
                | Leave_garbage \<Rightarrow> Garbage))"

section \<open>The loop over the hops\<close>

text \<open>
  One result of a probe: a star, or the sender (when it differs from the last one shown), the time
  and, for an ICMP error other than those expected, its code.
\<close>

datatype shown = Star | Shown "sockaddr option" timeval "int option"

record trace =
  seq :: nat
  found :: nat
  buffer :: "byte list"
  sarecv :: sockaddr
  salast :: "sockaddr option"
  pending :: "rx_event list"
  tick :: nat
  probes_sent :: "(nat \<times> nat) list"
  results :: "shown list"
  codes :: "int list"

text \<open>The field \<open>codes\<close> records the values that \<open>recv\<close> returned. How the program goes on: with a state, or it blocks, ends, or is undefined.\<close>

datatype progress = Running trace | Blocked | Died | Wild

fun and_then :: "progress \<Rightarrow> (trace \<Rightarrow> progress) \<Rightarrow> progress" where
  "and_then (Running t) f = f t"
| "and_then p f = p"

fun_cases and_thenE: "and_then p f = Running t"

text \<open>
  A probe: the sequence number and the time to live go out, and its reply is awaited; \<open>clock\<close> gives
  the successive readings of the time.
\<close>

definition probe :: "(nat \<Rightarrow> byte list \<Rightarrow> nat \<Rightarrow> verdict) \<Rightarrow> (nat \<Rightarrow> timeval) \<Rightarrow> nat \<Rightarrow> trace \<Rightarrow> progress" where
  "probe check clock ttl t =
     (let sq = seq t + 1; sent = clock (tick t) in
      case recv_loop (check sq) False (buffer t) (sarecv t) (pending t) of
        Blocks \<Rightarrow> Blocked
      | Dies \<Rightarrow> Died
      | Garbage \<Rightarrow> Wild
      | Came code (buf, src, es) \<Rightarrow>
          let t1 = t\<lparr>seq := sq, buffer := buf, sarecv := src, pending := es,
                     probes_sent := probes_sent t @ [(ttl, sq)], codes := codes t @ [code]\<rparr> in
          if code = -3 then Running (t1\<lparr>results := results t @ [Star], tick := tick t + 1\<rparr>)
          else case tv_sub (clock (tick t + 1)) sent of
                 Ok rtt \<Rightarrow>
                   let new = (case salast t of None \<Rightarrow> True | Some a \<Rightarrow> sock_cmp_addr src a \<noteq> 0) in
                   Running (t1\<lparr>salast := (if new then Some src else salast t), tick := tick t + 2,
                      found := found t + (if code = -1 then 1 else 0),
                      results := results t @ [Shown (if new then Some src else None) rtt
                                                (if code \<ge> 0 then Some code else None)]\<rparr>)
               | _ \<Rightarrow> Wild)"

fun probes :: "(nat \<Rightarrow> byte list \<Rightarrow> nat \<Rightarrow> verdict) \<Rightarrow> (nat \<Rightarrow> timeval) \<Rightarrow> nat \<Rightarrow> nat \<Rightarrow> trace \<Rightarrow> progress" where
  "probes check clock ttl 0 t = Running t"
| "probes check clock ttl (Suc k) t = and_then (probe check clock ttl t) (probes check clock ttl k)"

text \<open>The loop over \<open>ttl\<close>; \<open>bzero\<close> makes \<open>salast\<close> no address at all.\<close>

function hops :: "(nat \<Rightarrow> byte list \<Rightarrow> nat \<Rightarrow> verdict) \<Rightarrow> (nat \<Rightarrow> timeval) \<Rightarrow> nat \<Rightarrow> nat \<Rightarrow> nat \<Rightarrow> trace \<Rightarrow> progress" where
  "hops check clock nprobes max_ttl ttl t =
     (if ttl \<le> max_ttl \<and> found t = 0 then
        and_then (probes check clock ttl nprobes (t\<lparr>salast := None\<rparr>)) (hops check clock nprobes max_ttl (ttl + 1))
      else Running t)"
  by pat_completeness auto
termination
  by (relation "measure (\<lambda>(_, _, _, max_ttl, ttl, _). Suc max_ttl - ttl)") auto

declare hops.simps [simp del]

definition trace_init :: "byte list \<Rightarrow> sockaddr \<Rightarrow> rx_event list \<Rightarrow> trace" where
  "trace_init buf sa es = \<lparr>seq = 0, found = 0, buffer = buf, sarecv = sa, salast = None, pending = es,
     tick = 0, probes_sent = [], results = [], codes = []\<rparr>"

definition source_port :: "nat \<Rightarrow> 16 word" where
  "source_port pid = word_of_nat pid OR 0x8000"

definition traceloop :: "(16 word \<Rightarrow> nat \<Rightarrow> nat \<Rightarrow> byte list \<Rightarrow> nat \<Rightarrow> verdict) \<Rightarrow> (nat \<Rightarrow> timeval) \<Rightarrow> nat \<Rightarrow> nat
    \<Rightarrow> byte list \<Rightarrow> sockaddr \<Rightarrow> rx_event list \<Rightarrow> progress" where
  "traceloop check clock pid max_ttl buf sa es =
     hops (check (source_port pid) (32768 + 666)) clock 3 max_ttl 1 (trace_init buf sa es)"

section \<open>Which packets match\<close>

lemma ports_of_error:
  assumes "length rest = 6"
  shows "our_ports (icmp_error iph type code rest q sp dp r) (length iph + 8 + length q) sport dport sq
    \<longleftrightarrow> sp = sport \<and> dp = word_of_nat (dport + sq)"
proof -
  let ?pre = "iph @ [type, code] @ rest @ q"
  have "length ?pre = length iph + 8 + length q" "length (?pre @ be16 sp) = length iph + 8 + length q + 2"
    using assms by simp_all
  with be16_at_be16 [of ?pre sp "be16 dp @ r"] be16_at_be16 [of "?pre @ be16 sp" dp r] show ?thesis
    by (simp add: our_ports_def icmp_error_def ac_simps)
qed

lemma check_v4_error:
  assumes ok: "headers_ok iph rest q" and n: "length iph + 8 + length q + 4 \<le> n"
  shows "check_v4 sport dport sq (icmp_error iph type code rest q sp dp r) n =
    (if sp = sport \<and> dp = word_of_nat (dport + sq) then
       (if type = ICMP_TIMXCEED \<and> code = 0 then Leave (-2)
        else if type = ICMP_UNREACH then Leave (if code = ICMP_UNREACH_PORT then -1 else uint code)
        else Go_on)
     else Go_on)"
proof -
  let ?b = "icmp_error iph type code rest q sp dp r"
  have rest: "length rest = 6" and len: "0 < length iph" "9 < length q" using ok by (auto simp: headers_ok_def)
  note nth = nth_of_error [OF rest]
  have h1: "hdr_len ?b 0 = length iph"
    using nth(1) [OF len(1)] ok by (simp add: hdr_len_def headers_ok_def)
  have q0: "0 < length q" using len(2) by linarith
  have h2: "hdr_len ?b (length iph + 8) = length q" "ip_p ?b (length iph + 8) = IPPROTO_UDP"
    using nth(4) [OF q0] nth(4) [OF len(2)] ok by (auto simp: hdr_len_def ip_p_def headers_ok_def add.assoc)
  have "20 \<le> length q" using ok by (simp add: headers_ok_def)
  then show ?thesis unfolding check_v4_def Let_def h1 h2 nth(2,3) ports_of_error [OF rest]
    using n by (simp add: ICMP_UNREACH_def ICMP_TIMXCEED_def)
qed

text \<open>What ends the wait for one probe does not end the wait for another.\<close>

lemma check_v4_ports:
  assumes "check_v4 sport dport sq buf n \<noteq> Go_on"
  shows "be16_at buf (hdr_len buf 0 + 8 + hdr_len buf (hdr_len buf 0 + 8) + 2) = word_of_nat (dport + sq)"
  using assms by (auto simp: check_v4_def Let_def our_ports_def split: if_splits)

lemma check_v4_one_probe:
  assumes "check_v4 sport dport sq buf n \<noteq> Go_on" "check_v4 sport' dport sq' buf n \<noteq> Go_on"
    and "sq < 65536" "sq' < 65536"
  shows "sq = sq'"
proof -
  have "(word_of_nat (dport + sq) :: 16 word) = word_of_nat (dport + sq')"
    using check_v4_ports [OF assms(1)] check_v4_ports [OF assms(2)] by simp
  then have "(word_of_nat sq :: 16 word) = word_of_nat sq'" by simp
  then show ?thesis using assms(3,4) unat_u16_of_nat by metis
qed

text \<open>The same for IPv6, where the quoted header has 40 bytes and the outer one is not delivered.\<close>

lemma check_v6_error:
  assumes "length rest = 6" "length q = 40" "q ! 6 = IPPROTO_UDP" and n: "52 \<le> n"
  shows "check_v6 sport dport sq (icmp_error [] type code rest q sp dp r) n =
    (let ours = (sp = sport \<and> dp = word_of_nat (dport + sq)) in
     if type = ICMP6_TIME_EXCEEDED \<and> code = 0 then (if ours then Leave (-2) else Leave_garbage)
     else if type = ICMP6_DST_UNREACH \<and> ours
     then Leave (if code = ICMP6_DST_UNREACH_NOPORT then -1 else uint code)
     else Go_on)"
proof -
  let ?b = "icmp_error [] type code rest q sp dp r"
  have b: "?b ! 0 = type" "?b ! 1 = code" "?b ! (8 + 6) = IPPROTO_UDP"
    using nth_of_error(2,3) [OF assms(1), of "[]"] nth_of_error(4) [OF assms(1), of 6 q "[]"] assms(2,3)
    by simp_all
  have o: "our_ports ?b (8 + 40) sport dport sq \<longleftrightarrow> sp = sport \<and> dp = word_of_nat (dport + sq)"
    using ports_of_error [OF assms(1), of "[]" type code q] assms(2) by simp
  show ?thesis unfolding check_v6_def Let_def b o using n by simp
qed

section \<open>The wait\<close>

text \<open>The values that a wait with \<open>check_v4\<close> can return.\<close>

lemma minus_two_le_uint: "-2 \<le> uint (w :: byte)"
  by (rule order_trans [of _ 0]) simp_all

lemma check_v4_codes: "check_v4 sport dport sq buf n = Leave c \<Longrightarrow> -2 \<le> c \<and> c \<le> 255"
  using uint_bounded [of "buf ! (hdr_len buf 0 + 1)"] minus_two_le_uint
  by (auto simp: check_v4_def Let_def split: if_splits)

lemma check_v4_no_garbage: "check_v4 sport dport sq buf n \<noteq> Leave_garbage"
  by (simp add: check_v4_def Let_def)

lemma recv_loop_codes:
  "recv_loop check gotalarm buf sa es = Came c r \<Longrightarrow> c = -3 \<or> (\<exists>b n. check b n = Leave c)"
  by (induction check gotalarm buf sa es rule: recv_loop.induct)
    (auto simp: Let_def split: if_splits rx.splits verdict.splits)

lemma recv_loop_garbage:
  "recv_loop check gotalarm buf sa es = Garbage \<Longrightarrow> \<exists>b n. check b n = Leave_garbage"
  by (induction check gotalarm buf sa es rule: recv_loop.induct)
    (auto simp: Let_def split: if_splits rx.splits verdict.splits)

text \<open>Packets that do not match are passed over, up to the first that does.\<close>

lemma recv_loop_skips:
  assumes "\<And>b. \<forall>(al, e) \<in> set pre. \<not> al \<and> (\<exists>d src. e = Rx d src
      \<and> check (into_buf b d) (min BUFSIZE (length d)) = Go_on)"
  shows "\<exists>b f. recv_loop check False buf sa (pre @ es) = recv_loop check False b f es"
  using assms
proof (induction pre arbitrary: buf sa)
  case (Cons x pre)
  from Cons.prems [of buf] obtain d src where x: "x = (False, Rx d src)"
    and go: "check (into_buf buf d) (min BUFSIZE (length d)) = Go_on" by auto
  have "\<And>b. \<forall>(al, e) \<in> set pre. \<not> al \<and> (\<exists>d src. e = Rx d src
      \<and> check (into_buf b d) (min BUFSIZE (length d)) = Go_on)" using Cons.prems by simp
  from Cons.IH [OF this, of "into_buf buf d" src] show ?case by (simp add: x go Let_def)
qed auto

section \<open>The loop\<close>

text \<open>
  What is known when the loop stands at \<open>ttl\<close> with \<open>m\<close> probes of it made: the probes went out in
  order, each was answered by a code, and only the present hop can have had an answer of the
  destination.
\<close>

definition trace_inv :: "nat \<Rightarrow> nat \<Rightarrow> nat \<Rightarrow> trace \<Rightarrow> bool" where
  "trace_inv nprobes h m t \<longleftrightarrow>
     seq t = h * nprobes + m \<and> length (codes t) = seq t \<and> length (results t) = seq t
     \<and> probes_sent t = concat (map (\<lambda>i. map (\<lambda>j. (i + 1, i * nprobes + j + 1)) [0..<nprobes]) [0..<h])
          @ map (\<lambda>j. (h + 1, h * nprobes + j + 1)) [0..<m]
     \<and> found t = count_list (codes t) (-1) \<and> -1 \<notin> set (take (h * nprobes) (codes t))"

lemma trace_inv_salast [simp]: "trace_inv nprobes h m (t\<lparr>salast := a\<rparr>) = trace_inv nprobes h m t"
  by (simp add: trace_inv_def)

lemma probe_keeps_inv:
  assumes "trace_inv nprobes h m t" and "probe check clock (h + 1) t = Running t'"
  shows "trace_inv nprobes h (Suc m) t'"
proof -
  obtain code buf src es where r: "recv_loop (check (seq t + 1)) False (buffer t) (sarecv t) (pending t)
      = Came code (buf, src, es)"
    using assms(2) by (auto simp: probe_def Let_def split: waited.splits)
  have "seq t' = seq t + 1" "codes t' = codes t @ [code]" "\<exists>x. results t' = results t @ [x]"
    "probes_sent t' = probes_sent t @ [(h + 1, seq t + 1)]" "found t' = found t + (if code = -1 then 1 else 0)"
    using assms(2) r by (auto simp: probe_def Let_def split: if_splits outcome.splits)
  then show ?thesis using assms(1) by (auto simp: trace_inv_def)
qed

lemma probes_inv:
  assumes "trace_inv nprobes h m t" and "probes check clock (h + 1) k t = Running t'"
  shows "trace_inv nprobes h (m + k) t'"
  using assms
proof (induction k arbitrary: m t)
  case (Suc k)
  then obtain t1 where "probe check clock (h + 1) t = Running t1" "probes check clock (h + 1) k t1 = Running t'"
    by (auto elim: and_thenE)
  with Suc.IH [of "Suc m" t1] probe_keeps_inv [OF Suc.prems(1)] show ?case by simp
qed simp

lemma trace_inv_next_hop: "trace_inv nprobes h nprobes t \<Longrightarrow> found t = 0 \<Longrightarrow> trace_inv nprobes (Suc h) 0 t"
  by (auto simp: trace_inv_def count_list_0_iff)

lemma hops_inv:
  assumes "trace_inv nprobes h 0 t" "found t = 0" "h \<le> max_ttl"
    and "hops check clock nprobes max_ttl (h + 1) t = Running t'"
  shows "\<exists>h'. trace_inv nprobes h' 0 t' \<and> h' = max_ttl \<and> found t' = 0
    \<or> h' < max_ttl \<and> trace_inv nprobes h' nprobes t' \<and> 0 < found t'"
  using assms
proof (induction "max_ttl - h" arbitrary: h t)
  case 0
  then show ?case by (subst (asm) hops.simps) (auto simp: not_le)
next
  case (Suc d)
  then have lt: "h < max_ttl" by simp
  let ?t0 = "t\<lparr>salast := None\<rparr>"
  obtain t1 where p: "probes check clock (h + 1) nprobes ?t0 = Running t1"
    and rest: "hops check clock nprobes max_ttl (h + 1 + 1) t1 = Running t'"
    using Suc.prems(2,4) lt by (subst (asm) hops.simps) (cases "probes check clock (h + 1) nprobes ?t0"; auto)
  have "trace_inv nprobes h 0 ?t0" using Suc.prems(1) by simp
  from probes_inv [OF this p] have inv: "trace_inv nprobes h nprobes t1" by simp
  show ?case
  proof (cases "found t1 = 0")
    case True
    from Suc.hyps(1) [of "Suc h" t1] Suc.hyps(2) trace_inv_next_hop [OF inv True] True lt rest
    show ?thesis by auto
  next
    case False
    then have "t' = t1" using rest by (subst (asm) hops.simps) simp
    with inv False lt show ?thesis by blast
  qed
qed

text \<open>What every probe keeps, the loop keeps.\<close>

lemma probes_keep:
  assumes "\<And>ttl t t'. P t \<Longrightarrow> probe check clock ttl t = Running t' \<Longrightarrow> P t'"
  shows "P t \<Longrightarrow> probes check clock ttl k t = Running t' \<Longrightarrow> P t'"
proof (induction k arbitrary: t)
  case (Suc k)
  then obtain t1 where "probe check clock ttl t = Running t1" "probes check clock ttl k t1 = Running t'"
    by (auto elim: and_thenE)
  with Suc show ?case using assms by blast
qed simp

lemma hops_step:
  "ttl \<le> max_ttl \<Longrightarrow> found t = 0 \<Longrightarrow> hops check clock nprobes max_ttl ttl t =
     and_then (probes check clock ttl nprobes (t\<lparr>salast := None\<rparr>)) (hops check clock nprobes max_ttl (ttl + 1))"
  by (simp add: hops.simps)

lemma hops_keep:
  assumes "\<And>ttl t t'. P t \<Longrightarrow> probe check clock ttl t = Running t' \<Longrightarrow> P t'"
    and "\<And>t. P t \<Longrightarrow> P (t\<lparr>salast := None\<rparr>)"
  shows "P t \<Longrightarrow> hops check clock nprobes max_ttl ttl t = Running t' \<Longrightarrow> P t'"
proof (induction "Suc max_ttl - ttl" arbitrary: ttl t)
  case 0
  then show ?case by (simp add: hops.simps)
next
  case (Suc d)
  show ?case
  proof (cases "found t = 0")
    case True
    have "ttl \<le> max_ttl" using Suc.hyps(2) by simp
    then obtain t1 where "probes check clock ttl nprobes (t\<lparr>salast := None\<rparr>) = Running t1"
      "hops check clock nprobes max_ttl (ttl + 1) t1 = Running t'"
      using Suc.prems(2) True by (auto simp: hops_step elim: and_thenE)
    moreover have "P t1"
      by (rule probes_keep [where P = P, OF _ assms(2) [OF Suc.prems(1)] calculation(1)]) (rule assms(1))
    ultimately show ?thesis using Suc.hyps(1) [of "ttl + 1" t1] Suc.hyps(2) by simp
  next
    case False
    then show ?thesis using Suc.prems by (simp add: hops.simps)
  qed
qed

lemma hops_not_wild:
  assumes "\<And>ttl t. probe check clock ttl t \<noteq> Wild"
  shows "hops check clock nprobes max_ttl ttl t \<noteq> Wild"
proof -
  have w: "and_then p f \<noteq> Wild" if "p \<noteq> Wild" "\<And>t. f t \<noteq> Wild" for p f
    using that by (cases p) auto
  have p: "probes check clock ttl k t \<noteq> Wild" for ttl k t
    by (induction k arbitrary: t) (simp_all add: w assms)
  show ?thesis
  proof (induction "Suc max_ttl - ttl" arbitrary: ttl t)
    case 0
    then show ?case by (simp add: hops.simps)
  next
    case (Suc d)
    then have "hops check clock nprobes max_ttl (ttl + 1) t1 \<noteq> Wild" for t1 by simp
    then show ?case by (subst hops.simps) (simp add: w p)
  qed
qed

lemma probe_codes:
  assumes "probe check clock ttl t = Running t'"
  shows "\<exists>c. codes t' = codes t @ [c] \<and> (c = -3 \<or> (\<exists>b n. check (seq t + 1) b n = Leave c))"
proof -
  obtain code r where "recv_loop (check (seq t + 1)) False (buffer t) (sarecv t) (pending t) = Came code r"
    using assms by (auto simp: probe_def Let_def split: waited.splits)
  moreover from this have "codes t' = codes t @ [code]"
    using assms by (auto simp: probe_def Let_def split: if_splits outcome.splits prod.splits)
  ultimately show ?thesis using recv_loop_codes by metis
qed

lemma probe_not_wild:
  assumes "\<And>sq b n. check sq b n \<noteq> Leave_garbage" and "\<And>i. tv_ok (clock i)"
  shows "probe check clock ttl t \<noteq> Wild"
proof -
  obtain d where "tv_sub (clock (tick t + 1)) (clock (tick t)) = Ok d"
    using tv_sub_exact [OF assms(2,2)] by blast
  moreover have "recv_loop (check (seq t + 1)) False (buffer t) (sarecv t) (pending t) \<noteq> Garbage"
    using recv_loop_garbage [of "check (seq t + 1)"] assms(1) by metis
  ultimately show ?thesis by (auto simp: probe_def Let_def split: waited.splits)
qed

section \<open>Properties\<close>

text \<open>
  \<open>recv_v4\<close> recognises the ICMP errors about its own probe and nothing else: \<open>time exceeded\<close> gives
  -2, \<open>port unreachable\<close> -1, any other \<open>unreachable\<close> its code, whatever IP options the two headers
  have, when the datagram quoted is UDP with the source port of this process and the destination
  port of this probe; with other ports the packet is passed over. And no packet, however
  malformed, is ever taken for the reply to two different probes.
\<close>

theorem traceroute_matches_probe:
  assumes "headers_ok iph rest q" and "length iph + 8 + length q + 4 \<le> n"
  shows "check_v4 sport dport sq (icmp_error iph type code rest q sp dp r) n =
      (if sp = sport \<and> dp = word_of_nat (dport + sq) then
         (if type = ICMP_TIMXCEED \<and> code = 0 then Leave (-2)
          else if type = ICMP_UNREACH then Leave (if code = ICMP_UNREACH_PORT then -1 else uint code)
          else Go_on)
       else Go_on)
    \<and> (\<forall>b m s s'. s < 65536 \<and> s' < 65536 \<and> check_v4 sport dport s b m \<noteq> Go_on
          \<and> check_v4 sport dport s' b m \<noteq> Go_on \<longrightarrow> s = s')"
  using check_v4_error [OF assms] check_v4_one_probe by blast

theorem traceroute_matches_probe_witness:
  "check_v4 40000 33434 7 (icmp_error (demo_ip 1) ICMP_UNREACH 3 [0, 0, 0, 0, 0, 0] (demo_ip 17) 40000 33441 []) 52
     = Leave (-1)"
proof -
  have "headers_ok (demo_ip 1) [0, 0, 0, 0, 0, 0] (demo_ip 17)"
    by (simp add: headers_ok_def demo_ip_def hdr_len_def ip_p_def IPPROTO_UDP_def)
  from traceroute_matches_probe [OF this, of 52] show ?thesis
    by (simp add: demo_ip_def ICMP_UNREACH_def ICMP_TIMXCEED_def ICMP_UNREACH_PORT_def)
qed

text \<open>
  C7: \<open>traceroute\<close> over IPv4 makes three probes for each hop, the time to live counting from 1 and the
  sequence numbers from 1 without a gap, and prints a result for each; it stops after the first hop
  with an answer of the destination, and else at the limit. Every run of the loop ends, blocks in
  \<open>recvfrom\<close> or ends the process; nothing in it is undefined.
\<close>

theorem traceroute_hops:
  assumes "\<forall>i. tv_ok (clock i)"
  shows "traceloop check_v4 clock pid max_ttl buf sa es \<noteq> Wild
    \<and> (\<forall>t. traceloop check_v4 clock pid max_ttl buf sa es = Running t \<longrightarrow>
        (\<exists>h \<le> max_ttl.
            probes_sent t = concat (map (\<lambda>i. map (\<lambda>j. (i + 1, i * 3 + j + 1)) [0..<3]) [0..<h])
          \<and> length (results t) = h * 3 \<and> length (codes t) = h * 3 \<and> set (codes t) \<subseteq> {-3..255}
          \<and> (h = max_ttl \<or> -1 \<in> set (codes t)) \<and> -1 \<notin> set (take ((h - 1) * 3) (codes t))))"
proof (intro conjI allI impI)
  have no_g: "check_v4 (source_port pid) (32768 + 666) sq b n \<noteq> Leave_garbage" for sq b n
    by (rule check_v4_no_garbage)
  show "traceloop check_v4 clock pid max_ttl buf sa es \<noteq> Wild"
    unfolding traceloop_def by (intro hops_not_wild probe_not_wild no_g) (use assms in simp)
next
  fix t
  assume "traceloop check_v4 clock pid max_ttl buf sa es = Running t"
  then have run: "hops (check_v4 (source_port pid) (32768 + 666)) clock 3 max_ttl (0 + 1)
      (trace_init buf sa es) = Running t" by (simp add: traceloop_def)
  have "set (codes t) \<subseteq> {-3..255}"
  proof (rule hops_keep [OF _ _ _ run])
    fix ttl t t'
    assume "set (codes t) \<subseteq> {-3..255}" and p: "probe (check_v4 (source_port pid) (32768 + 666)) clock ttl t = Running t'"
    then show "set (codes t') \<subseteq> {-3..255}"
      using probe_codes [OF p] check_v4_codes by fastforce
  qed (simp_all add: trace_init_def)
  moreover have "trace_inv 3 0 0 (trace_init buf sa es)" by (simp add: trace_inv_def trace_init_def)
  from hops_inv [OF this _ _ run] obtain h where
    h: "trace_inv 3 h 0 t \<and> h = max_ttl \<and> found t = 0 \<or> h < max_ttl \<and> trace_inv 3 h 3 t \<and> 0 < found t"
    by (auto simp: trace_init_def)
  have "\<exists>h \<le> max_ttl.
            probes_sent t = concat (map (\<lambda>i. map (\<lambda>j. (i + 1, i * 3 + j + 1)) [0..<3]) [0..<h])
          \<and> length (results t) = h * 3 \<and> length (codes t) = h * 3
          \<and> (h = max_ttl \<or> -1 \<in> set (codes t)) \<and> -1 \<notin> set (take ((h - 1) * 3) (codes t))"
    using h
  proof
    assume "trace_inv 3 h 0 t \<and> h = max_ttl \<and> found t = 0"
    then show ?thesis by (intro exI [of _ h]) (auto simp: trace_inv_def count_list_0_iff dest: in_set_takeD)
  next
    assume a: "h < max_ttl \<and> trace_inv 3 h 3 t \<and> 0 < found t"
    then have "-1 \<in> set (codes t)" using count_list_0_iff [of "codes t" "-1"] by (auto simp: trace_inv_def)
    with a show ?thesis by (intro exI [of _ "Suc h"]) (simp add: trace_inv_def)
  qed
  ultimately show "\<exists>h \<le> max_ttl.
            probes_sent t = concat (map (\<lambda>i. map (\<lambda>j. (i + 1, i * 3 + j + 1)) [0..<3]) [0..<h])
          \<and> length (results t) = h * 3 \<and> length (codes t) = h * 3 \<and> set (codes t) \<subseteq> {-3..255}
          \<and> (h = max_ttl \<or> -1 \<in> set (codes t)) \<and> -1 \<notin> set (take ((h - 1) * 3) (codes t))"
    by blast
qed

theorem traceroute_hops_witness:
  "\<exists>t. traceloop check_v4 (\<lambda>_. TV 1 0) 77 1 [] (Sin 0 [])
        [(True, Interrupted), (True, Interrupted), (True, Interrupted)] = Running t
     \<and> probes_sent t = [(1, 1), (1, 2), (1, 3)] \<and> length (results t) = 3"
proof -
  let ?run = "traceloop check_v4 (\<lambda>_. TV 1 0) 77 1 [] (Sin 0 [])
      [(True, Interrupted), (True, Interrupted), (True, Interrupted)]"
  obtain t where t: "?run = Running t" "probes_sent t \<noteq> []"
    by (simp add: traceloop_def hops.simps probe_def trace_init_def
        numeral_3_eq_3 Let_def)
  have "\<forall>i::nat. tv_ok (TV 1 0)" by (simp add: tv_ok_def)
  from conjunct2 [OF traceroute_hops [OF this]] t(1) obtain h where h: "h \<le> 1"
    "probes_sent t = concat (map (\<lambda>i. map (\<lambda>j. (i + 1, i * 3 + j + 1)) [0..<3]) [0..<h])"
    "length (results t) = h * 3" by blast
  with t(2) have "h = 1" by (cases h) auto
  with t(1) h(2,3) show ?thesis by (simp add: upt_rec)
qed

text \<open>
  \<open>recv_v6\<close>, after a \<open>time exceeded\<close> that is not about its own probe (the late answer to an
  earlier one, or to another process), leaves its loop and returns an uninitialised value; only a
  \<open>time exceeded\<close> about the probe gives -2.
\<close>

theorem recv_v6_confused:
  assumes "length rest = 6" "length q = 40" "q ! 6 = IPPROTO_UDP" and "length r \<le> 1448"
  shows "recv_loop (check_v6 sport dport sq) False buf sa
      ((False, Rx (icmp_error [] ICMP6_TIME_EXCEEDED 0 rest q sp dp r) src) # es) =
    (if sp = sport \<and> dp = word_of_nat (dport + sq)
     then Came (-2) (into_buf buf (icmp_error [] ICMP6_TIME_EXCEEDED 0 rest q sp dp r), src, es)
     else Garbage)"
proof -
  let ?d = "icmp_error [] ICMP6_TIME_EXCEEDED 0 rest q sp dp r"
  have len: "length ?d = 52 + length r" using assms(1,2) by (simp add: icmp_error_def)
  have "into_buf buf ?d = icmp_error [] ICMP6_TIME_EXCEEDED 0 rest q sp dp (r @ drop (length ?d) buf)"
    using len assms(4) by (simp add: into_buf_def BUFSIZE_def icmp_error_def)
  then have "check_v6 sport dport sq (into_buf buf ?d) (min BUFSIZE (length ?d)) =
      (if sp = sport \<and> dp = word_of_nat (dport + sq) then Leave (-2) else Leave_garbage)"
    using check_v6_error [OF assms(1-3), of "min BUFSIZE (length ?d)" sport dport sq ICMP6_TIME_EXCEEDED 0 sp dp]
      len by (simp add: BUFSIZE_def Let_def)
  then show ?thesis by (simp add: Let_def)
qed

theorem recv_v6_confused_witness:
  "recv_loop (check_v6 40000 33434 2) False [] (Sin6 0 [])
     [(False, Rx (icmp_error [] ICMP6_TIME_EXCEEDED 0 [0, 0, 0, 0, 0, 0]
        (replicate 6 0 @ 17 # replicate 33 0) 40000 33435 []) (Sin6 0 []))] = Garbage"
  using recv_v6_confused [of "[0, 0, 0, 0, 0, 0]" "replicate 6 0 @ 17 # replicate 33 0" "[]" 40000 33434 2]
  by (simp add: IPPROTO_UDP_def nth_append)

end
