(* ===== verification/Labs.thy ===== *)
theory Labs
  imports AddrInfo GuessWord
begin

text \<open>
  The small programs of the course: the threads that add (\<^verbatim>\<open>unpv13e/lab4.c\<close>), the lookup of a name
  (\<^verbatim>\<open>lab6.c\<close>) and the UDP server that reads its answers from standard input
  (\<^verbatim>\<open>unpv13e/lab3_server.c\<close>).
\<close>

section \<open>Addition by threads\<close>

text \<open>
  \<open>add\<close> counts \<open>a2\<close> down and adds 1 to the pointer that its recursive call returns; a negative
  \<open>a2\<close> has no end (short of overflow), written \<open>None\<close>.
\<close>

partial_function (option) add :: "64 word \<Rightarrow> int \<Rightarrow> 64 word option" where
  "add a1 a2 =
     (if a2 = 0 then Some a1
      else Option.bind (add a1 (a2 - 1)) (\<lambda>r. Some (r + 1)))"

text \<open>
  \<open>main\<close>: one thread for each \<open>i\<close> from 1 and each \<open>j\<close> from 0 below the argument, then their results
  in the same order, as \<open>int\<close>s. \<open>pthread_create\<close> yields 0 or a positive error number, which the
  test \<open>val < 0\<close> does not see, so after an error an uninitialised thread number is joined. Arrays of
  no element are undefined too. \<open>None\<close>: a thread does not return, and nor does \<open>pthread_join\<close>.
\<close>

definition as_int :: "64 word \<Rightarrow> int" where
  "as_int r = sint (ucast r :: 32 word)"

fun join_threads :: "(int \<times> int) list \<Rightarrow> (int \<times> int \<times> int) list option" where
  "join_threads [] = Some []"
| "join_threads ((i, j) # ts) =
     (case (add (word_of_int i) (j + 1), join_threads ts) of
        (Some r, Some rs) \<Rightarrow> Some ((i, j + 1, as_int r) # rs)
      | _ \<Rightarrow> None)"

definition lab4_main :: "(int \<Rightarrow> int \<Rightarrow> bool) \<Rightarrow> int \<Rightarrow> (int \<times> int \<times> int) list option outcome" where
  "lab4_main created num_child =
     (if num_child \<le> 0 then Undefined
      else let ts = [(i, j). i \<leftarrow> [1..num_child - 1], j \<leftarrow> [0..num_child - 1]] in
        if \<exists>(i, j) \<in> set ts. \<not> created i j then Undefined else Ok (join_threads ts))"

lemma add_nonneg: "0 \<le> a2 \<Longrightarrow> add a1 a2 = Some (a1 + word_of_int a2)"
proof (induction "nat a2" arbitrary: a2)
  case 0
  then show ?case by (subst add.simps) simp
next
  case (Suc k)
  then have "add a1 (a2 - 1) = Some (a1 + word_of_int (a2 - 1))" by simp
  then show ?case using Suc by (subst add.simps) (simp add: algebra_simps)
qed

lemma add_returns:
  assumes "add a1 a2 = Some r"
  shows "0 \<le> a2"
proof (rule add.raw_induct [OF _ assms, of "\<lambda>a1 a2 r. 0 \<le> a2"])
  fix f :: "64 word \<Rightarrow> int \<Rightarrow> 64 word option" and a1 a2 r
  assume IH: "\<And>a1 a2 r. f a1 a2 = Some r \<Longrightarrow> 0 \<le> a2"
    and eq: "(if a2 = 0 then Some a1 else Option.bind (f a1 (a2 - 1)) (\<lambda>r. Some (r + 1))) = Some r"
  show "0 \<le> a2"
  proof (cases "a2 = 0")
    case False
    with eq obtain r' where "f a1 (a2 - 1) = Some r'" by (auto simp: bind_eq_Some_conv)
    from IH [OF this] show ?thesis by simp
  qed simp
qed

lemma as_int_small:
  assumes "- (2 ^ 31) \<le> x" "x < 2 ^ 31"
  shows "as_int (word_of_int x) = x"
proof -
  have "(ucast (word_of_int x :: 64 word) :: 32 word) = word_of_int x"
    by (rule bit_word_eqI) (simp add: bit_simps)
  then show ?thesis unfolding as_int_def using assms by (simp add: signed_of_int signed_take_bit_int_eq_self)
qed

lemma join_threads_sums:
  assumes "\<forall>(i, j) \<in> set ts. 0 \<le> i \<and> 0 \<le> j \<and> i + j < 2 ^ 30"
  shows "join_threads ts = Some (map (\<lambda>(i, j). (i, j + 1, i + j + 1)) ts)"
  using assms
proof (induction ts rule: join_threads.induct)
  case (2 i j ts)
  then have "add (word_of_int i) (j + 1) = Some (word_of_int (i + (j + 1)))"
    by (simp add: add_nonneg)
  moreover have "as_int (word_of_int (i + (j + 1))) = i + (j + 1)"
    using 2 by (intro as_int_small) auto
  ultimately show ?case using 2 by (simp add: algebra_simps)
qed simp

section \<open>Looking up a name\<close>

text \<open>
  The loop over the IPv4 addresses; \<open>prev\<close> is what \<open>ip_addr\<close> holds, \<open>None\<close> at first. Its result
  is not tested: after a failing \<open>getnameinfo\<close> the old contents are printed.
\<close>

fun print_names :: "resolver \<Rightarrow> string option \<Rightarrow> addrinfo list \<Rightarrow> string list outcome" where
  "print_names rs prev [] = Ok []"
| "print_names rs prev (ai # ais) =
     (case ai_addr ai of
        None \<Rightarrow> Undefined
      | Some sa \<Rightarrow>
          bind_outcome (getnameinfo rs sa 256 0 NI_NUMERICHOST) (\<lambda>(_, host, _).
            case (case host of Some h \<Rightarrow> Some h | None \<Rightarrow> prev) of
              None \<Rightarrow> Undefined
            | Some text \<Rightarrow> bind_outcome (print_names rs (Some text) ais) (\<lambda>ls. Ok (text # ls))))"

definition lab6_hints :: "int \<Rightarrow> hints" where
  "lab6_hints family = \<lparr>h_flags = 0, h_family = family, h_socktype = SOCK_STREAM, h_protocol = 0\<rparr>"

text \<open>
  The lines on standard output. For an IPv6 address the program converts 16 bytes from the address
  of its pointer variable, of which only 8 belong to it.
\<close>

definition lab6 :: "resolver \<Rightarrow> string option \<Rightarrow> string list outcome" where
  "lab6 rs arg =
     (if arg = None then Ok [''Arguments invalid'']
      else case fst (getaddrinfo rs arg None (Some (lab6_hints AF_INET))) of
             Found results \<Rightarrow>
               bind_outcome (print_names rs None results) (\<lambda>ls.
                 case fst (getaddrinfo rs arg None (Some (lab6_hints AF_INET6))) of
                   Found results6 \<Rightarrow> if results6 = [] then Ok ls else Undefined
                 | _ \<Rightarrow> Ok ls)
           | _ \<Rightarrow> Ok [])"

lemma getnameinfo_numeric_v4:
  "length a = 4 \<Longrightarrow> getnameinfo rs (Sin p a) 256 0 NI_NUMERICHOST = Ok (0, Some (quad_text a), None)"
  by (simp add: getnameinfo_def gn_ipv46_def inet_ntop_v4 Let_def has_def NI_NUMERICHOST_def)

lemma print_names_v4:
  assumes "\<forall>ai \<in> set ais. \<exists>p a. ai_addr ai = Some (Sin p a) \<and> length a = 4"
  shows "print_names rs prev ais =
    Ok (map (\<lambda>ai. case ai_addr ai of Some (Sin p a) \<Rightarrow> quad_text a | _ \<Rightarrow> []) ais)"
  using assms by (induction rs prev ais rule: print_names.induct) (auto simp: getnameinfo_numeric_v4)

lemma getaddrinfo_v4_host:
  assumes "length a = 4"
  shows "getaddrinfo rs (Some (quad_text a)) None (Some (lab6_hints AF_INET))
    = (Found [\<lparr>ai_flags = 0, ai_family = AF_INET, ai_socktype = SOCK_STREAM, ai_protocol = 0,
        ai_addrlen = 16, ai_canonname = None, ai_addr = Some (Sin 0 a)\<rparr>], [])"
proof -
  have "ga_echeck (Some (quad_text a)) None 0 AF_INET SOCK_STREAM = None"
    using assms by (auto simp: ga_echeck_def texts_not_Nil)
  moreover have "ga_nsearch (Some (quad_text a)) (lab6_hints AF_INET) = Some [(quad_text a, AF_INET)]"
    by (simp add: ga_nsearch_def searches_for_def texts_not_Nil lab6_hints_def)
  moreover have "search_all rs (Some (quad_text a)) (lab6_hints AF_INET) 1 [(quad_text a, AF_INET)] ([], None)
      = Inr ([\<lparr>ai_flags = 0, ai_family = AF_INET, ai_socktype = SOCK_STREAM, ai_protocol = 0,
        ai_addrlen = 16, ai_canonname = None, ai_addr = Some (Sin 0 a)\<rparr>], None)"
    using assms by (simp add: search_one_def hd_quad_text pton_quad numeric_entry_def ga_aistruct_def
        lab6_hints_def SOCK_STREAM_def)
  ultimately show ?thesis by (simp add: getaddrinfo_def lab6_hints_def quad_not_local)
qed

lemma getaddrinfo_v4_host6:
  assumes "length a = 4"
  shows "getaddrinfo rs (Some (quad_text a)) None (Some (lab6_hints AF_INET6)) = (Failed_with EAI_ADDRFAMILY, [])"
proof -
  have "ga_echeck (Some (quad_text a)) None 0 AF_INET6 SOCK_STREAM = None"
    using assms by (auto simp: ga_echeck_def texts_not_Nil)
  moreover have "ga_nsearch (Some (quad_text a)) (lab6_hints AF_INET6) = Some [(quad_text a, AF_INET6)]"
    by (simp add: ga_nsearch_def searches_for_def texts_not_Nil lab6_hints_def)
  moreover have "search_all rs (Some (quad_text a)) (lab6_hints AF_INET6) 1 [(quad_text a, AF_INET6)] ([], None)
      = Inl EAI_ADDRFAMILY"
    using assms by (simp add: search_one_def hd_quad_text pton_quad numeric_entry_def lab6_hints_def)
  ultimately show ?thesis by (simp add: getaddrinfo_def lab6_hints_def quad_not_local)
qed

section \<open>Answers from standard input\<close>

text \<open>
  \<open>dg_server\<close>: what each \<open>recvfrom\<close> gives is the sender, or \<open>None\<close> when it fails, which leaves the
  old one; the first failing one leaves an address that was never set. The result is what was sent;
  the flag says that the function has returned, else it waits in \<open>recvfrom\<close>.
\<close>

definition sender :: "'a option \<Rightarrow> 'a option \<Rightarrow> 'a option" where
  "sender old got = (case got of None \<Rightarrow> old | Some p \<Rightarrow> Some p)"

function answers :: "'a option \<Rightarrow> 'a option list \<Rightarrow> string \<Rightarrow> ('a option \<times> string) list \<times> bool" where
  "answers peer got inp =
     (if inp = [] then ([(peer, [char_of (255 :: nat)])], True)
      else let (l, rest) = fgets 4095 inp; out = (peer, cstr l) in
        case got of
          [] \<Rightarrow> ([out], False)
        | r # rs \<Rightarrow> let (sent, fin) = answers (sender peer r) rs rest in (out # sent, fin))"
  by pat_completeness auto
termination
  by (relation "measure (\<lambda>(_, got, _). length got)") auto

declare answers.simps [simp del]

definition dg_server :: "'a option list \<Rightarrow> string \<Rightarrow> ('a option \<times> string) list \<times> bool" where
  "dg_server got inp = (case got of [] \<Rightarrow> ([], False) | r # rs \<Rightarrow> answers (sender None r) rs inp)"

definition text_line :: "string \<Rightarrow> bool" where
  "text_line l \<longleftrightarrow> (\<exists>t. l = t @ [newline] \<and> newline \<notin> set t \<and> nul \<notin> set t \<and> length t < 4095)"

lemma answers_lines:
  assumes "\<forall>l \<in> set ls. text_line l" and "length ls = length ps"
  shows "answers (Some p) (map Some ps) (concat ls) =
    (zip (map Some (p # ps)) (ls @ [[char_of (255 :: nat)]]), True)"
  using assms(2,1)
proof (induction ls ps arbitrary: p rule: list_induct2)
  case Nil
  then show ?case by (subst answers.simps) simp
next
  case (Cons l ls p' ps)
  then obtain t where l: "l = t @ [newline]" and t: "newline \<notin> set t" "nul \<notin> set t" "length t < 4095"
    by (auto simp: text_line_def)
  have f: "fgets 4095 (t @ newline # concat ls) = (t @ [newline], concat ls)"
    using fgets_whole_line [OF t(1,3)] .
  have "cstr (t @ [newline]) = t @ [newline]" using t(2) by simp
  then show ?case using Cons.IH [of p'] Cons.prems f l by (subst answers.simps) (simp add: sender_def)
qed

section \<open>Properties\<close>

text \<open>
  The program of the adding threads prints, for each \<open>i\<close> below its argument and each \<open>j\<close> up to it,
  in order, the sum of \<open>i\<close> and \<open>j\<close>, when all its threads can be made: every thread returns, though
  the addition counts by recursion and does its sums in pointers and results are cut to \<open>int\<close>. The
  recursion returns exactly for second operands that are not negative.
\<close>

theorem lab4_prints_sums:
  assumes "1 \<le> n" "n \<le> 2 ^ 28" and "\<forall>i j. created i j"
  shows "lab4_main created n = Ok (Some [(i, j + 1, i + j + 1). i \<leftarrow> [1..n - 1], j \<leftarrow> [0..n - 1]])
    \<and> (\<forall>a1 a2. add a1 a2 \<noteq> None \<longleftrightarrow> 0 \<le> a2)"
proof
  let ?ts = "[(i, j). i \<leftarrow> [1..n - 1], j \<leftarrow> [0..n - 1]]"
  have "join_threads ?ts = Some (map (\<lambda>(i, j). (i, j + 1, i + j + 1)) ?ts)"
    using assms(2) by (intro join_threads_sums) auto
  also have "map (\<lambda>(i, j). (i, j + 1, i + j + 1)) ?ts
      = [(i, j + 1, i + j + 1). i \<leftarrow> [1..n - 1], j \<leftarrow> [0..n - 1]]"
    by (simp add: map_concat comp_def)
  finally show "lab4_main created n = Ok (Some [(i, j + 1, i + j + 1). i \<leftarrow> [1..n - 1], j \<leftarrow> [0..n - 1]])"
    using assms by (auto simp: lab4_main_def)
  show "\<forall>a1 a2. add a1 a2 \<noteq> None \<longleftrightarrow> 0 \<le> a2" using add_nonneg add_returns by fastforce
qed

theorem lab4_prints_sums_witness:
  "lab4_main (\<lambda>_ _. True) 3 = Ok (Some [(1, 1, 2), (1, 2, 3), (1, 3, 4), (2, 1, 3), (2, 2, 4), (2, 3, 5)])"
  using lab4_prints_sums [of 3 "\<lambda>_ _. True"] by (simp add: upto.simps)

text \<open>
  The lookup program prints the numeric text of every IPv4 address found, in order; but as soon as
  the name has an IPv6 address as well its behaviour is undefined, so it never prints one.
\<close>

theorem lab6_prints_v4:
  assumes "getaddrinfo rs (Some name) None (Some (lab6_hints AF_INET)) = (Found ais, un)"
    and "\<forall>ai \<in> set ais. \<exists>p a. ai_addr ai = Some (Sin p a) \<and> length a = 4"
  shows "lab6 rs (Some name) =
    (if \<exists>ais6 un6. getaddrinfo rs (Some name) None (Some (lab6_hints AF_INET6)) = (Found ais6, un6)
     then Undefined
     else Ok (map (\<lambda>ai. case ai_addr ai of Some (Sin p a) \<Rightarrow> quad_text a | _ \<Rightarrow> []) ais))"
proof -
  have ne: "ais6 \<noteq> []" if "getaddrinfo rs (Some name) None (Some (lab6_hints AF_INET6)) = (Found ais6, un6)" for ais6 un6
    using getaddrinfo_asked [OF that] by simp
  show ?thesis using ne
    by (cases "getaddrinfo rs (Some name) None (Some (lab6_hints AF_INET6))")
      (auto simp: lab6_def assms(1) print_names_v4 [OF assms(2)] split: gai_result.splits)
qed

theorem lab6_prints_v4_witness:
  "lab6 no_resolver (Some (quad_text [10, 0, 0, 2])) = Ok [''10.0.0.2'']"
proof -
  have q: "quad_text [10, 0, 0, 2] = ''10.0.0.2''" by code_simp
  show ?thesis
    using lab6_prints_v4 [OF getaddrinfo_v4_host [of "[10, 0, 0, 2]" no_resolver]]
      getaddrinfo_v4_host6 [of "[10, 0, 0, 2]" no_resolver] q by simp
qed

text \<open>
  The UDP server sends each line of standard input as one datagram, to the sender of the datagram
  it received last, one line for each; at the end of its input it sends the byte 255 and returns.
\<close>

theorem dg_server_answers:
  assumes "\<forall>l \<in> set ls. text_line l" and "length ps = length ls + 1"
  shows "dg_server (map Some ps) (concat ls) = (zip (map Some ps) (ls @ [[char_of (255 :: nat)]]), True)"
proof -
  obtain p ps' where "ps = p # ps'" using assms(2) by (cases ps) auto
  with answers_lines [OF assms(1), of ps' p] assms(2) show ?thesis by (simp add: dg_server_def sender_def)
qed

theorem dg_server_answers_witness:
  "dg_server [Some 7, Some (9 :: nat)] [CHR ''h'', CHR ''i'', newline] =
     ([(Some 7, [CHR ''h'', CHR ''i'', newline]), (Some 9, [char_of (255 :: nat)])], True)"
  using dg_server_answers [of "[[CHR ''h'', CHR ''i'', newline]]" "[7, 9 :: nat]"]
  by (auto simp: text_line_def intro!: exI [of _ "''hi''"])

end
