(* ===== verification/WebClient.thy ===== *)
theory WebClient
  imports Prelude
begin

text \<open>
  The threaded web client \<^verbatim>\<open>unpv13e/threads/web03.c\<close>: \<open>main\<close> keeps at most \<open>maxnconn\<close> threads at work,
  each fetching one file with \<open>do_get_read\<close>, and waits for finished ones with a condition variable. A
  step is one access of one thread to what the threads share.
\<close>

section \<open>State\<close>

definition F_CONNECTING :: nat where "F_CONNECTING = 1"
definition F_READING :: nat where "F_READING = 2"
definition F_DONE :: nat where "F_DONE = 4"
definition F_JOINED :: nat where "F_JOINED = 8"

text \<open>
  Where the thread of a file is: not made, in \<open>Tcp_connect\<close>, before the end of \<open>write_get_cmd\<close>, in
  the loop of \<open>Read\<close>, before the store of \<open>F_DONE\<close>, at the lock, before \<open>ndone++\<close>, before the
  signal, before the unlock, returned.
\<close>

datatype thread_pc =
    NoThread | TConnect | TWrite | TRead | TFlag | TLock | TIncr | TSignal | TUnlock | TEnded

text \<open>
  Where \<open>main\<close> is: at the outer and the inner \<open>while\<close>, at the lock, at the test of \<open>ndone\<close>, inside
  \<open>Pthread_cond_wait\<close>, woken and waiting for the mutex, in the scan at file \<open>i\<close>, in \<open>Pthread_join\<close>
  for file \<open>i\<close>, at the unlock, past the loop.
\<close>

datatype web_pc =
    MOuter | MInner | MLock | MTest | MWait | MWoken | MScan nat | MJoin nat | MUnlock | MExit

datatype owner = MainThread | FileThread nat

text \<open>Of a file its \<open>f_flags\<close> and its thread.\<close>

record web =
  files :: "(nat \<times> thread_pc) list"
  nconn :: int
  nlefttoconn :: int
  nlefttoread :: int
  ndone :: int
  lock :: "owner option"
  main_pc :: web_pc

definition web_init :: "nat \<Rightarrow> web" where
  "web_init nfiles = \<lparr>files = replicate nfiles (0, NoThread), nconn = 0, nlefttoconn = int nfiles,
     nlefttoread = int nfiles, ndone = 0, lock = None, main_pc = MOuter\<rparr>"

definition set_file :: "nat \<Rightarrow> nat \<Rightarrow> thread_pc \<Rightarrow> web \<Rightarrow> web" where
  "set_file i f t s = s\<lparr>files := (files s)[i := (f, t)]\<rparr>"

fun first_new :: "(nat \<times> thread_pc) list \<Rightarrow> nat option" where
  "first_new [] = None"
| "first_new ((f, t) # fs) = (if f = 0 then Some 0 else map_option Suc (first_new fs))"

section \<open>Steps\<close>

text \<open>
  \<open>f_flags\<close> only ever has one of the values 0, 1, 2, 4 and 8, so its test with \<open>& F_DONE\<close> is a
  comparison. The result \<open>None\<close> is the end of the process by \<open>err_quit\<close> or \<open>err_sys\<close>: no file found, or an error
  of \<open>Tcp_connect\<close>, \<open>Writen\<close> or \<open>Read\<close> in any thread.
\<close>

inductive web_step :: "int \<Rightarrow> web \<Rightarrow> web option \<Rightarrow> bool" for maxnconn where
  outer: "main_pc s = MOuter \<Longrightarrow>
     web_step maxnconn s (Some (s\<lparr>main_pc := (if nlefttoread s > 0 then MInner else MExit)\<rparr>))"
| start: "main_pc s = MInner \<Longrightarrow> nconn s < maxnconn \<Longrightarrow> nlefttoconn s > 0 \<Longrightarrow> first_new (files s) = Some i \<Longrightarrow>
     web_step maxnconn s (Some (set_file i F_CONNECTING TConnect
       (s\<lparr>nconn := nconn s + 1, nlefttoconn := nlefttoconn s - 1\<rparr>)))"
| start_none: "main_pc s = MInner \<Longrightarrow> nconn s < maxnconn \<Longrightarrow> nlefttoconn s > 0 \<Longrightarrow>
     first_new (files s) = None \<Longrightarrow> web_step maxnconn s None"
| full: "main_pc s = MInner \<Longrightarrow> \<not> (nconn s < maxnconn \<and> nlefttoconn s > 0) \<Longrightarrow>
     web_step maxnconn s (Some (s\<lparr>main_pc := MLock\<rparr>))"
| main_lock: "main_pc s = MLock \<or> main_pc s = MWoken \<Longrightarrow> lock s = None \<Longrightarrow>
     web_step maxnconn s (Some (s\<lparr>lock := Some MainThread, main_pc := MTest\<rparr>))"
| wait: "main_pc s = MTest \<Longrightarrow> ndone s = 0 \<Longrightarrow>
     web_step maxnconn s (Some (s\<lparr>lock := None, main_pc := MWait\<rparr>))"
| wake: "main_pc s = MWait \<Longrightarrow> web_step maxnconn s (Some (s\<lparr>main_pc := MWoken\<rparr>))"
| some_done: "main_pc s = MTest \<Longrightarrow> ndone s \<noteq> 0 \<Longrightarrow>
     web_step maxnconn s (Some (s\<lparr>main_pc := MScan 0\<rparr>))"
| scan: "main_pc s = MScan i \<Longrightarrow> i < length (files s) \<Longrightarrow>
     web_step maxnconn s (Some (s\<lparr>main_pc := (if fst (files s ! i) = F_DONE then MJoin i else MScan (i + 1))\<rparr>))"
| scan_end: "main_pc s = MScan i \<Longrightarrow> i \<ge> length (files s) \<Longrightarrow>
     web_step maxnconn s (Some (s\<lparr>main_pc := MUnlock\<rparr>))"
| join: "main_pc s = MJoin i \<Longrightarrow> snd (files s ! i) = TEnded \<Longrightarrow>
     web_step maxnconn s (Some (set_file i F_JOINED TEnded (s\<lparr>ndone := ndone s - 1, nconn := nconn s - 1,
       nlefttoread := nlefttoread s - 1, main_pc := MScan (i + 1)\<rparr>)))"
| main_unlock: "main_pc s = MUnlock \<Longrightarrow> web_step maxnconn s (Some (s\<lparr>lock := None, main_pc := MOuter\<rparr>))"
| connect: "i < length (files s) \<Longrightarrow> files s ! i = (f, TConnect) \<Longrightarrow> web_step maxnconn s (Some (set_file i f TWrite s))"
| written: "i < length (files s) \<Longrightarrow> files s ! i = (f, TWrite) \<Longrightarrow>
     web_step maxnconn s (Some (set_file i F_READING TRead s))"
| eof: "i < length (files s) \<Longrightarrow> files s ! i = (f, TRead) \<Longrightarrow> web_step maxnconn s (Some (set_file i f TFlag s))"
| fails: "i < length (files s) \<Longrightarrow> snd (files s ! i) \<in> {TConnect, TWrite, TRead} \<Longrightarrow> web_step maxnconn s None"
| flag: "i < length (files s) \<Longrightarrow> files s ! i = (f, TFlag) \<Longrightarrow> web_step maxnconn s (Some (set_file i F_DONE TLock s))"
| thr_lock: "i < length (files s) \<Longrightarrow> files s ! i = (f, TLock) \<Longrightarrow> lock s = None \<Longrightarrow>
     web_step maxnconn s (Some (set_file i f TIncr (s\<lparr>lock := Some (FileThread i)\<rparr>)))"
| incr: "i < length (files s) \<Longrightarrow> files s ! i = (f, TIncr) \<Longrightarrow>
     web_step maxnconn s (Some (set_file i f TSignal (s\<lparr>ndone := ndone s + 1\<rparr>)))"
| signal: "i < length (files s) \<Longrightarrow> files s ! i = (f, TSignal) \<Longrightarrow>
     web_step maxnconn s (Some (set_file i f TUnlock
       (s\<lparr>main_pc := (if main_pc s = MWait then MWoken else main_pc s)\<rparr>)))"
| thr_unlock: "i < length (files s) \<Longrightarrow> files s ! i = (f, TUnlock) \<Longrightarrow>
     web_step maxnconn s (Some (set_file i f TEnded (s\<lparr>lock := None\<rparr>)))"

inductive web_reachable :: "nat \<Rightarrow> int \<Rightarrow> web \<Rightarrow> bool" for nfiles maxnconn where
  start: "web_reachable nfiles maxnconn (web_init nfiles)"
| step: "web_reachable nfiles maxnconn s \<Longrightarrow> web_step maxnconn s (Some s') \<Longrightarrow> web_reachable nfiles maxnconn s'"

section \<open>Counting files\<close>

definition cnt :: "(nat \<times> thread_pc \<Rightarrow> bool) \<Rightarrow> (nat \<times> thread_pc) list \<Rightarrow> int" where
  "cnt P fs = int (length (filter P fs))"

lemma cnt_update:
  "i < length fs \<Longrightarrow> cnt P (fs[i := x]) = cnt P fs - (if P (fs ! i) then 1 else 0) + (if P x then 1 else 0)"
  using length_filter_update [of i fs P x] by (auto simp: cnt_def)

lemma cnt_replicate: "cnt P (replicate n x) = (if P x then int n else 0)"
  by (simp add: cnt_def)

lemma cnt_nonneg [simp]: "0 \<le> cnt P fs"
  by (simp add: cnt_def)

lemma cnt_pos: "i < length fs \<Longrightarrow> P (fs ! i) \<Longrightarrow> 0 < cnt P fs"
  by (simp add: cnt_def filter_empty_conv) (use nth_mem in blast)

lemma cnt_zero: "cnt P fs = 0 \<longleftrightarrow> (\<forall>x \<in> set fs. \<not> P x)"
  by (auto simp: cnt_def filter_empty_conv)

lemma first_new_Some: "first_new fs = Some i \<Longrightarrow> i < length fs \<and> fst (fs ! i) = 0"
proof (induction fs arbitrary: i rule: first_new.induct)
  case (2 f t fs)
  then show ?case by (cases i) (auto split: if_splits)
qed simp

lemma first_new_None: "first_new fs = None \<longleftrightarrow> cnt (\<lambda>(f, t). f = 0) fs = 0"
  by (induction fs rule: first_new.induct) (auto simp: cnt_def)

section \<open>The invariant\<close>

fun file_ok :: "nat \<times> thread_pc \<Rightarrow> bool" where
  "file_ok (f, NoThread) = (f = 0)"
| "file_ok (f, TConnect) = (f = F_CONNECTING)"
| "file_ok (f, TWrite) = (f = F_CONNECTING)"
| "file_ok (f, TRead) = (f = F_READING)"
| "file_ok (f, TFlag) = (f = F_READING)"
| "file_ok (f, TEnded) = (f = F_DONE \<or> f = F_JOINED)"
| "file_ok (f, _) = (f = F_DONE)"

abbreviation is_new :: "nat \<times> thread_pc \<Rightarrow> bool" where
  "is_new x \<equiv> (case x of (f, t) \<Rightarrow> f = 0)"

abbreviation is_left :: "nat \<times> thread_pc \<Rightarrow> bool" where
  "is_left x \<equiv> fst x \<noteq> F_JOINED"

abbreviation is_active :: "nat \<times> thread_pc \<Rightarrow> bool" where
  "is_active x \<equiv> fst x \<noteq> 0 \<and> fst x \<noteq> F_JOINED"

abbreviation is_counted :: "nat \<times> thread_pc \<Rightarrow> bool" where
  "is_counted x \<equiv> fst x \<noteq> F_JOINED \<and> snd x \<in> {TSignal, TUnlock, TEnded}"

definition counts_ok :: "web \<Rightarrow> bool" where
  "counts_ok s \<longleftrightarrow> nlefttoconn s = cnt is_new (files s) \<and> nlefttoread s = cnt is_left (files s)
     \<and> nconn s = cnt is_active (files s) \<and> ndone s = cnt is_counted (files s)"

fun main_holds :: "web_pc \<Rightarrow> bool" where
  "main_holds MTest = True"
| "main_holds (MScan i) = True"
| "main_holds (MJoin i) = True"
| "main_holds MUnlock = True"
| "main_holds _ = False"

definition lock_ok :: "web \<Rightarrow> bool" where
  "lock_ok s \<longleftrightarrow> (main_holds (main_pc s) \<longrightarrow> lock s = Some MainThread)
     \<and> (\<forall>i < length (files s). snd (files s ! i) \<in> {TIncr, TSignal, TUnlock} \<longrightarrow> lock s = Some (FileThread i))"

definition main_ok :: "web \<Rightarrow> bool" where
  "main_ok s \<longleftrightarrow> (\<forall>i. main_pc s = MJoin i \<longrightarrow> i < length (files s) \<and> fst (files s ! i) = F_DONE)
     \<and> (main_pc s = MExit \<longrightarrow> nlefttoread s \<le> 0)"

definition web_inv :: "nat \<Rightarrow> int \<Rightarrow> web \<Rightarrow> bool" where
  "web_inv n m s \<longleftrightarrow> length (files s) = n \<and> (\<forall>x \<in> set (files s). file_ok x) \<and> counts_ok s \<and> lock_ok s
     \<and> main_ok s \<and> nconn s \<le> max 0 m"

lemmas flag_defs = F_CONNECTING_def F_READING_def F_DONE_def F_JOINED_def

lemma web_inv_init: "web_inv n m (web_init n)"
  by (auto simp: web_inv_def web_init_def counts_ok_def lock_ok_def main_ok_def cnt_replicate F_JOINED_def)

lemma all_update: "\<forall>x \<in> set xs. P x \<Longrightarrow> P x' \<Longrightarrow> \<forall>x \<in> set (xs[i := x']). P x"
  using set_update_subset_insert [of xs i x'] by auto

text \<open>
  A thread's own step: its file changes from one consistent state to another, it stays started and
  not joined, and what it does to the counters and the lock fits.
\<close>

lemma web_inv_thread:
  assumes inv: "web_inv n m s" and i: "i < length (files s)" and old: "files s ! i = (f, t)"
    and new: "file_ok (f', t')" "0 < f" "0 < f'" "f \<noteq> F_JOINED" "f' \<noteq> F_JOINED"
    and s': "files s' = (files s)[i := (f', t')]" "nconn s' = nconn s" "nlefttoconn s' = nlefttoconn s"
      "nlefttoread s' = nlefttoread s"
      "ndone s' = ndone s - (if is_counted (f, t) then 1 else 0) + (if is_counted (f', t') then 1 else 0)"
    and pc: "\<And>j. main_pc s' = MJoin j \<longleftrightarrow> main_pc s = MJoin j" "main_pc s' = MExit \<longleftrightarrow> main_pc s = MExit"
    and keep: "f = F_DONE \<longrightarrow> f' = F_DONE" and lock: "lock_ok s'"
  shows "web_inv n m s'"
proof -
  have c: "counts_ok s'"
    using inv i old new s' unfolding web_inv_def counts_ok_def by (simp add: cnt_update)
  have mo: "main_ok s'"
    using inv i old s' pc keep unfolding web_inv_def main_ok_def by (auto simp: nth_list_update)
  show ?thesis using inv c mo lock all_update [of "files s" file_ok "(f', t')" i] new(1) s'
    unfolding web_inv_def by simp
qed

lemma lock_free:
  assumes "lock_ok s" "lock s = None"
  shows "\<not> main_holds (main_pc s)" "i < length (files s) \<Longrightarrow> snd (files s ! i) \<notin> {TIncr, TSignal, TUnlock}"
  using assms by (auto simp: lock_ok_def)

lemma lock_held:
  assumes "lock_ok s" "i < length (files s)" "snd (files s ! i) \<in> {TIncr, TSignal, TUnlock}"
  shows "lock s = Some (FileThread i)" "\<not> main_holds (main_pc s)"
    "j < length (files s) \<Longrightarrow> j \<noteq> i \<Longrightarrow> snd (files s ! j) \<notin> {TIncr, TSignal, TUnlock}"
proof -
  show l: "lock s = Some (FileThread i)" using assms by (auto simp: lock_ok_def)
  then show "\<not> main_holds (main_pc s)" using assms(1) by (auto simp: lock_ok_def)
  show "snd (files s ! j) \<notin> {TIncr, TSignal, TUnlock}" if "j < length (files s)" "j \<noteq> i"
    using l assms(1) that unfolding lock_ok_def by force
qed

lemma web_inv_main:
  assumes inv: "web_inv n m s" and s': "files s' = files s" "nconn s' = nconn s"
    "nlefttoconn s' = nlefttoconn s" "nlefttoread s' = nlefttoread s" "ndone s' = ndone s"
    and "lock_ok s'" "main_ok s'"
  shows "web_inv n m s'"
  using assms unfolding web_inv_def counts_ok_def by simp

lemma web_inv_step:
  assumes "web_step m s (Some s')" and inv: "web_inv n m s"
  shows "web_inv n m s'"
proof -
  have lk: "lock_ok s" and mk: "main_ok s" and ct: "counts_ok s" using inv by (simp_all add: web_inv_def)
  have ok: "file_ok (files s ! i)" if "i < length (files s)" for i
    using inv that by (simp add: web_inv_def)
  show ?thesis using assms(1)
  proof cases
    case outer
    show ?thesis by (rule web_inv_main [OF inv])
      (use outer lk mk in \<open>auto simp: lock_ok_def main_ok_def\<close>)
  next
    case (start i)
    have i: "i < length (files s)" "fst (files s ! i) = 0" using first_new_Some start by auto
    then have t: "files s ! i = (0, NoThread)"
      using ok [OF i(1)] by (cases "files s ! i"; cases "snd (files s ! i)") (auto simp: flag_defs)
    have c: "counts_ok s'" using ct i(1) t start
      by (auto simp: counts_ok_def set_file_def cnt_update flag_defs)
    have l: "lock_ok s'" using lk start i(1) by (auto simp: lock_ok_def set_file_def nth_list_update)
    have mo: "main_ok s'" using start by (simp add: main_ok_def set_file_def)
    have a: "\<forall>x \<in> set (files s'). file_ok x" using inv start
      by (simp add: web_inv_def set_file_def) (intro all_update, auto)
    show ?thesis using inv c l mo a start by (simp add: web_inv_def set_file_def)
  next
    case full
    show ?thesis by (rule web_inv_main [OF inv]) (use full lk mk in \<open>auto simp: lock_ok_def main_ok_def\<close>)
  next
    case main_lock
    show ?thesis by (rule web_inv_main [OF inv])
      (use main_lock lock_free [OF lk] in \<open>auto simp: lock_ok_def main_ok_def\<close>)
  next
    case wait
    show ?thesis by (rule web_inv_main [OF inv]) (use wait lk in \<open>auto simp: lock_ok_def main_ok_def\<close>)
  next
    case wake
    show ?thesis by (rule web_inv_main [OF inv]) (use wake lk in \<open>auto simp: lock_ok_def main_ok_def\<close>)
  next
    case some_done
    show ?thesis by (rule web_inv_main [OF inv]) (use some_done lk in \<open>auto simp: lock_ok_def main_ok_def\<close>)
  next
    case (scan i)
    show ?thesis by (rule web_inv_main [OF inv]) (use scan lk in \<open>auto simp: lock_ok_def main_ok_def\<close>)
  next
    case (scan_end i)
    show ?thesis by (rule web_inv_main [OF inv]) (use scan_end lk in \<open>auto simp: lock_ok_def main_ok_def\<close>)
  next
    case (join i)
    have i: "i < length (files s)" "files s ! i = (F_DONE, TEnded)"
      using mk join by (cases "files s ! i"; auto simp: main_ok_def)+
    have c: "counts_ok s'" using ct i join by (auto simp: counts_ok_def set_file_def cnt_update flag_defs)
    have l: "lock_ok s'" using lk join i by (auto simp: lock_ok_def set_file_def nth_list_update)
    have mo: "main_ok s'" using join by (simp add: main_ok_def set_file_def)
    have a: "\<forall>x \<in> set (files s'). file_ok x" using inv join
      by (simp add: web_inv_def set_file_def) (intro all_update, auto)
    show ?thesis using inv c l mo a join by (simp add: web_inv_def set_file_def)
  next
    case main_unlock
    show ?thesis by (rule web_inv_main [OF inv]) (use main_unlock lk in \<open>auto simp: lock_ok_def main_ok_def\<close>)
  next
    case (connect i f)
    show ?thesis by (rule web_inv_thread [OF inv connect(2,3)])
      (use connect ok [of i] lk in \<open>auto simp: set_file_def lock_ok_def nth_list_update flag_defs\<close>)
  next
    case (written i f)
    show ?thesis by (rule web_inv_thread [OF inv written(2,3)])
      (use written ok [of i] lk in \<open>auto simp: set_file_def lock_ok_def nth_list_update flag_defs\<close>)
  next
    case (eof i f)
    show ?thesis by (rule web_inv_thread [OF inv eof(2,3)])
      (use eof ok [of i] lk in \<open>auto simp: set_file_def lock_ok_def nth_list_update flag_defs\<close>)
  next
    case (flag i f)
    show ?thesis by (rule web_inv_thread [OF inv flag(2,3)])
      (use flag ok [of i] lk in \<open>auto simp: set_file_def lock_ok_def nth_list_update flag_defs\<close>)
  next
    case (thr_lock i f)
    show ?thesis by (rule web_inv_thread [OF inv thr_lock(2,3)])
      (use thr_lock ok [of i] lock_free [OF lk] in \<open>auto simp: set_file_def lock_ok_def nth_list_update flag_defs\<close>)
  next
    case (incr i f)
    show ?thesis by (rule web_inv_thread [OF inv incr(2,3)])
      (use incr ok [of i] lock_held [OF lk, of i] in \<open>auto simp: set_file_def lock_ok_def nth_list_update flag_defs\<close>)
  next
    case (signal i f)
    show ?thesis by (rule web_inv_thread [OF inv signal(2,3)])
      (use signal ok [of i] lock_held [OF lk, of i] in \<open>auto simp: set_file_def lock_ok_def nth_list_update flag_defs\<close>)
  next
    case (thr_unlock i f)
    show ?thesis by (rule web_inv_thread [OF inv thr_unlock(2,3)])
      (use thr_unlock ok [of i] lock_held [OF lk, of i] in \<open>auto simp: set_file_def lock_ok_def nth_list_update flag_defs\<close>)
  qed
qed

lemma web_reachable_inv: "web_reachable n m s \<Longrightarrow> web_inv n m s"
  by (induction rule: web_reachable.induct) (auto intro: web_inv_init web_inv_step)

section \<open>A run into a deadlock\<close>

lemma reach_next:
  "web_reachable n m s \<Longrightarrow> web_step m s (Some s') \<Longrightarrow> s'' = s' \<Longrightarrow> web_reachable n m s''"
  using web_reachable.step by blast

lemma web_stuck_reachable:
  "web_reachable 2 2 \<lparr>files = [(8, TEnded), (4, TLock)], nconn = 1, nlefttoconn = 0, nlefttoread = 1, ndone = 0,
     lock = Some MainThread, main_pc = MJoin 1\<rparr>"
proof -
  let ?w = "\<lambda>fs nc lc lr nd lk pc. \<lparr>files = fs, nconn = nc, nlefttoconn = lc, nlefttoread = lr, ndone = nd,
     lock = lk, main_pc = pc\<rparr>"
  note go = set_file_def flag_defs
  have r0: "web_reachable 2 2 (?w [(0, NoThread), (0, NoThread)] 0 2 2 0 None MOuter)"
    using web_reachable.start [of 2 2] by (simp add: web_init_def numeral_2_eq_2)
  have r1: "web_reachable 2 2 (?w [(0, NoThread), (0, NoThread)] 0 2 2 0 None MInner)"
    by (rule reach_next [OF r0 web_step.outer]) (simp_all add: go)
  have r2: "web_reachable 2 2 (?w [(1, TConnect), (0, NoThread)] 1 1 2 0 None MInner)"
    by (rule reach_next [OF r1 web_step.start [where i = 0]]) (simp_all add: go)
  have r3: "web_reachable 2 2 (?w [(1, TConnect), (1, TConnect)] 2 0 2 0 None MInner)"
    by (rule reach_next [OF r2 web_step.start [where i = 1]]) (simp_all add: go)
  have r4: "web_reachable 2 2 (?w [(1, TConnect), (1, TConnect)] 2 0 2 0 None MLock)"
    by (rule reach_next [OF r3 web_step.full]) (simp_all add: go)
  have r5: "web_reachable 2 2 (?w [(1, TConnect), (1, TConnect)] 2 0 2 0 (Some MainThread) MTest)"
    by (rule reach_next [OF r4 web_step.main_lock]) (simp_all add: go)
  have r6: "web_reachable 2 2 (?w [(1, TConnect), (1, TConnect)] 2 0 2 0 None MWait)"
    by (rule reach_next [OF r5 web_step.wait]) (simp_all add: go)
  have r7: "web_reachable 2 2 (?w [(1, TWrite), (1, TConnect)] 2 0 2 0 None MWait)"
    by (rule reach_next [OF r6 web_step.connect [where i = 0 and f = 1]]) (simp_all add: go)
  have r8: "web_reachable 2 2 (?w [(2, TRead), (1, TConnect)] 2 0 2 0 None MWait)"
    by (rule reach_next [OF r7 web_step.written [where i = 0 and f = 1]]) (simp_all add: go)
  have r9: "web_reachable 2 2 (?w [(2, TFlag), (1, TConnect)] 2 0 2 0 None MWait)"
    by (rule reach_next [OF r8 web_step.eof [where i = 0 and f = 2]]) (simp_all add: go)
  have r10: "web_reachable 2 2 (?w [(4, TLock), (1, TConnect)] 2 0 2 0 None MWait)"
    by (rule reach_next [OF r9 web_step.flag [where i = 0 and f = 2]]) (simp_all add: go)
  have r11: "web_reachable 2 2 (?w [(4, TIncr), (1, TConnect)] 2 0 2 0 (Some (FileThread 0)) MWait)"
    by (rule reach_next [OF r10 web_step.thr_lock [where i = 0 and f = 4]]) (simp_all add: go)
  have r12: "web_reachable 2 2 (?w [(4, TSignal), (1, TConnect)] 2 0 2 1 (Some (FileThread 0)) MWait)"
    by (rule reach_next [OF r11 web_step.incr [where i = 0 and f = 4]]) (simp_all add: go)
  have r13: "web_reachable 2 2 (?w [(4, TUnlock), (1, TConnect)] 2 0 2 1 (Some (FileThread 0)) MWoken)"
    by (rule reach_next [OF r12 web_step.signal [where i = 0 and f = 4]]) (simp_all add: go)
  have r14: "web_reachable 2 2 (?w [(4, TEnded), (1, TConnect)] 2 0 2 1 None MWoken)"
    by (rule reach_next [OF r13 web_step.thr_unlock [where i = 0 and f = 4]]) (simp_all add: go)
  have r15: "web_reachable 2 2 (?w [(4, TEnded), (1, TWrite)] 2 0 2 1 None MWoken)"
    by (rule reach_next [OF r14 web_step.connect [where i = 1 and f = 1]]) (simp_all add: go)
  have r16: "web_reachable 2 2 (?w [(4, TEnded), (2, TRead)] 2 0 2 1 None MWoken)"
    by (rule reach_next [OF r15 web_step.written [where i = 1 and f = 1]]) (simp_all add: go)
  have r17: "web_reachable 2 2 (?w [(4, TEnded), (2, TFlag)] 2 0 2 1 None MWoken)"
    by (rule reach_next [OF r16 web_step.eof [where i = 1 and f = 2]]) (simp_all add: go)
  have r18: "web_reachable 2 2 (?w [(4, TEnded), (4, TLock)] 2 0 2 1 None MWoken)"
    by (rule reach_next [OF r17 web_step.flag [where i = 1 and f = 2]]) (simp_all add: go)
  have r19: "web_reachable 2 2 (?w [(4, TEnded), (4, TLock)] 2 0 2 1 (Some MainThread) MTest)"
    by (rule reach_next [OF r18 web_step.main_lock]) (simp_all add: go)
  have r20: "web_reachable 2 2 (?w [(4, TEnded), (4, TLock)] 2 0 2 1 (Some MainThread) (MScan 0))"
    by (rule reach_next [OF r19 web_step.some_done]) (simp_all add: go)
  have r21: "web_reachable 2 2 (?w [(4, TEnded), (4, TLock)] 2 0 2 1 (Some MainThread) (MJoin 0))"
    by (rule reach_next [OF r20 web_step.scan [where i = 0]]) (simp_all add: go)
  have r22: "web_reachable 2 2 (?w [(8, TEnded), (4, TLock)] 1 0 1 0 (Some MainThread) (MScan 1))"
    by (rule reach_next [OF r21 web_step.join [where i = 0]]) (simp_all add: go)
  have r23: "web_reachable 2 2 (?w [(8, TEnded), (4, TLock)] 1 0 1 0 (Some MainThread) (MJoin 1))"
    by (rule reach_next [OF r22 web_step.scan [where i = 1]]) (simp_all add: go)
  show ?thesis by (rule r23)
qed

section \<open>Properties\<close>

text \<open>
  In every state that the threads of the web client can reach, at most \<open>maxnconn\<close> connections are
  in use, \<open>nlefttoread\<close> counts the files whose thread has not been joined, and \<open>ndone\<close> the threads that
  have announced their end and have not been joined; only one thread at a time is between its lock
  and its unlock; a file to read is always found when one is left; and past the loop every file has
  been read and its thread joined.
\<close>

theorem web_client_counts:
  assumes "web_reachable nfiles maxnconn s"
  shows "0 \<le> nconn s \<and> nconn s \<le> max 0 maxnconn
    \<and> nlefttoread s = int (length (filter (\<lambda>x. fst x \<noteq> F_JOINED) (files s)))
    \<and> ndone s = int (length (filter (\<lambda>x. fst x \<noteq> F_JOINED \<and> snd x \<in> {TSignal, TUnlock, TEnded}) (files s)))
    \<and> (\<forall>i < nfiles. \<forall>j < nfiles. snd (files s ! i) \<in> {TIncr, TSignal, TUnlock}
          \<and> snd (files s ! j) \<in> {TIncr, TSignal, TUnlock} \<longrightarrow> i = j)
    \<and> (nlefttoconn s > 0 \<longrightarrow> first_new (files s) \<noteq> None)
    \<and> (main_pc s = MExit \<longrightarrow> (\<forall>x \<in> set (files s). x = (F_JOINED, TEnded)))"
proof -
  have inv: "web_inv nfiles maxnconn s" by (rule web_reachable_inv [OF assms])
  then have ct: "counts_ok s" and lk: "lock_ok s" and mk: "main_ok s" and len: "length (files s) = nfiles"
    and fo: "\<forall>x \<in> set (files s). file_ok x" and nc: "nconn s \<le> max 0 maxnconn"
    by (simp_all add: web_inv_def)
  have excl: "i = j" if "i < nfiles" "j < nfiles" "snd (files s ! i) \<in> {TIncr, TSignal, TUnlock}"
      "snd (files s ! j) \<in> {TIncr, TSignal, TUnlock}" for i j
    using lock_held(1) [OF lk, of i] lock_held(1) [OF lk, of j] that len by simp
  have joined: "x = (F_JOINED, TEnded)" if "main_pc s = MExit" "x \<in> set (files s)" for x
  proof -
    have "cnt is_left (files s) \<le> 0" using that(1) mk ct by (simp add: main_ok_def counts_ok_def)
    then have "cnt is_left (files s) = 0" by (rule order_antisym) simp
    then have "fst x = F_JOINED" using that(2) by (auto simp: cnt_zero)
    then show ?thesis using fo that(2) by (cases x; cases "snd x") (auto simp: flag_defs)
  qed
  show ?thesis using ct nc excl joined first_new_None [of "files s"]
    by (auto simp: counts_ok_def cnt_def)
qed

theorem web_client_counts_witness:
  "\<exists>s. web_reachable 2 2 s \<and> nlefttoread s = 1 \<and> nlefttoread s = int (length (filter (\<lambda>x. fst x \<noteq> F_JOINED) (files s)))"
  using web_client_counts [OF web_stuck_reachable] web_stuck_reachable by (intro exI conjI) (assumption, simp, blast)

text \<open>
  C25: The client can deadlock. A thread sets \<open>F_DONE\<close> before it takes the mutex; when \<open>main\<close>, woken by
  another thread, finds that flag, it waits in \<open>Pthread_join\<close> for the thread while it holds the mutex
  that the thread needs to return. With two files the run can end there: no thread can make a step
  any more, and a file is left.
\<close>

theorem web_client_deadlock:
  "\<exists>s. web_reachable 2 2 s \<and> nlefttoread s = 1 \<and> main_pc s = MJoin 1 \<and> files s ! 1 = (F_DONE, TLock)
     \<and> (\<forall>r. \<not> web_step 2 s r)"
proof -
  let ?s = "\<lparr>files = [(8, TEnded), (4, TLock)], nconn = 1, nlefttoconn = 0, nlefttoread = 1, ndone = 0,
     lock = Some MainThread, main_pc = MJoin 1\<rparr>"
  have "\<not> web_step 2 ?s r" for r
  proof
    assume "web_step 2 ?s r"
    then show False by cases (auto simp: less_Suc_eq)
  qed
  with web_stuck_reachable show ?thesis by (intro exI [of _ ?s]) (simp add: flag_defs)
qed

end
