(* ===== verification/IcmpDaemon.thy ===== *)
theory IcmpDaemon
  imports SelectServer SockAddr Icmp
begin

text \<open>
  The daemon \<^verbatim>\<open>unpv13e/icmpd\<close> (\<^verbatim>\<open>icmpd.c\<close>, \<^verbatim>\<open>readable_listen.c\<close>, \<^verbatim>\<open>readable_conn.c\<close>, \<^verbatim>\<open>readable_v4.c\<close>,
  \<^verbatim>\<open>readable_v6.c\<close>): clients hand it their UDP sockets over a Unix domain connection, and it tells
  them of the ICMP errors for the ports of these. Its table of connections is kept the way the
  echo server of \<open>SelectServer\<close> keeps its own. What is ready, accepted, handed over and received in a
  round is an input; what it writes and closes is recorded.
\<close>

section \<open>State\<close>

record entry =
  connfd :: int
  family :: int
  lport :: int

datatype err = EHOSTUNREACH | ECONNREFUSED | EMSGSIZE

text \<open>A record \<open>icmpd_err\<close>: the error number, type and code of the message, and the destination.\<close>

datatype icmpd_err = Icmpd_err err byte byte sockaddr

datatype daemon_act = Status int char | Told int icmpd_err | Closes int

record icmpd =
  table :: "entry list"
  dmaxi :: int
  dmaxfd :: int
  dset :: "int set"
  nready :: int
  dacts :: "daemon_act list"

definition icmpd_init :: "int \<Rightarrow> int \<Rightarrow> int \<Rightarrow> icmpd" where
  "icmpd_init fd4 fd6 listenfd =
     \<lparr>table = replicate FD_SETSIZE \<lparr>connfd = -1, family = 0, lport = 0\<rparr>, dmaxi = -1,
      dmaxfd = max (max fd4 fd6) listenfd, dset = {fd4, fd6, listenfd}, nready = 0, dacts = []\<rparr>"

section \<open>Connections\<close>

definition readable_listen :: "int option \<Rightarrow> icmpd \<Rightarrow> icmpd round" where
  "readable_listen accepted s =
     (case accepted of
        None \<Rightarrow> Exits
      | Some c \<Rightarrow>
          let i = first_avail (map connfd (table s)) in
          if i = FD_SETSIZE then Goes_on (s\<lparr>dacts := dacts s @ [Closes c], nready := nready s - 1\<rparr>)
          else if c \<ge> int FD_SETSIZE then Overruns
          else Goes_on (s\<lparr>table := (table s)[i := (table s ! i)\<lparr>connfd := c\<rparr>], dset := insert c (dset s),
                          dmaxfd := (if c > dmaxfd s then c else dmaxfd s),
                          dmaxi := (if int i > dmaxi s then int i else dmaxi s), nready := nready s - 1\<rparr>))"

text \<open>
  What a client sends: \<open>Read_fd\<close> fails (\<open>None\<close>, the wrapper ends the process), or yields whether it
  is the end of the file, and a descriptor or -1. \<open>socket_name\<close> is the result of \<open>getsockname\<close> for
  it, \<open>binds\<close> and \<open>bound_name\<close> what \<open>sock_bind_wild\<close> needs.
\<close>

record handed =
  fd_read :: "(bool \<times> int) option"
  socket_name :: "sockaddr option"
  binds :: "int \<Rightarrow> sockaddr \<Rightarrow> (int \<Rightarrow> sockaddr option) option"

text \<open>The labels \<open>clienterr\<close> (with the write of \<open>"0"\<close>) and \<open>clientdone\<close>.\<close>

definition client_done :: "bool \<Rightarrow> nat \<Rightarrow> int \<Rightarrow> icmpd \<Rightarrow> icmpd" where
  "client_done err i recvfd s =
     (let unixfd = connfd (table s ! i) in
      s\<lparr>table := (table s)[i := (table s ! i)\<lparr>connfd := -1\<rparr>], dset := dset s - {unixfd},
        nready := nready s - 1,
        dacts := dacts s @ (if err then [Status unixfd CHR ''0''] else []) @ [Closes unixfd]
                  @ (if recvfd \<ge> 0 then [Closes recvfd] else [])\<rparr>)"

definition readable_conn :: "nat \<Rightarrow> handed \<Rightarrow> icmpd \<Rightarrow> icmpd round" where
  "readable_conn i h s =
     (case fd_read h of
        None \<Rightarrow> Exits
      | Some (eof, recvfd) \<Rightarrow>
          if eof then Goes_on (client_done False i recvfd s)
          else if recvfd < 0 then Goes_on (client_done True i recvfd s)
          else case socket_name h of
                 None \<Rightarrow> Goes_on (client_done True i recvfd s)
               | Some ss \<Rightarrow>
                   let port = sock_get_port ss;
                       port' = (if port = 0 then sock_bind_wild (binds h) recvfd (sa_family ss) else port);
                       s1 = s\<lparr>table := (table s)[i := (table s ! i)\<lparr>family := sa_family ss, lport := port'\<rparr>]\<rparr>
                   in if port = 0 \<and> port' \<le> 0 then Goes_on (client_done True i recvfd s1)
                      else Goes_on (s1\<lparr>nready := nready s1 - 1,
                             dacts := dacts s1 @ [Status (connfd (table s1 ! i)) CHR ''1'', Closes recvfd]\<rparr>))"

section \<open>ICMP messages\<close>

text \<open>The loop over the clients: each one registered for the port is told.\<close>

fun tell :: "int \<Rightarrow> int \<Rightarrow> icmpd_err \<Rightarrow> nat list \<Rightarrow> icmpd \<Rightarrow> icmpd" where
  "tell fam sport m [] s = s"
| "tell fam sport m (i # is) s =
     (let e = table s ! i in
      tell fam sport m is
        (if connfd e \<ge> 0 \<and> family e = fam \<and> lport e = sport
         then s\<lparr>dacts := dacts s @ [Told (connfd e) m]\<rparr> else s))"

definition entries_up_to :: "icmpd \<Rightarrow> nat list" where
  "entries_up_to s = [0..<nat (dmaxi s + 1)]"

definition raw16 :: "byte list \<Rightarrow> nat \<Rightarrow> int" where
  "raw16 buf i = uint (le16_at buf i)"

text \<open>
  A packet is the receive buffer and the number of bytes received; \<open>None\<close>: \<open>Recvfrom\<close> ends the
  process.
\<close>

definition readable_v4 :: "(byte list \<times> nat) option \<Rightarrow> icmpd \<Rightarrow> icmpd round" where
  "readable_v4 pkt s =
     (case pkt of
        None \<Rightarrow> Exits
      | Some (buf, n) \<Rightarrow>
          let hlen1 = hdr_len buf 0; icmplen = int n - int hlen1;
              type = buf ! hlen1; code = buf ! (hlen1 + 1); hip = hlen1 + 8;
              udp = hip + hdr_len buf hip;
              dest = Sin (le16_at buf (udp + 2)) (take 4 (drop (hip + 16) buf));
              errno = (if type = 3 \<and> code = 3 then ECONNREFUSED
                       else if type = 3 \<and> code = 4 then EMSGSIZE else EHOSTUNREACH);
              s' = s\<lparr>nready := nready s - 1\<rparr>
          in if icmplen < 8 then Exits
             else if type = 3 \<or> type = 11 \<or> type = 4 then
               (if icmplen < 8 + 20 + 8 then Exits
                else if ip_p buf hip = IPPROTO_UDP
                then Goes_on (tell AF_INET (raw16 buf udp) (Icmpd_err errno type code dest) (entries_up_to s) s')
                else Goes_on s')
             else Goes_on s')"

definition readable_v6 :: "(byte list \<times> nat) option \<Rightarrow> icmpd \<Rightarrow> icmpd round" where
  "readable_v6 pkt s =
     (case pkt of
        None \<Rightarrow> Exits
      | Some (buf, n) \<Rightarrow>
          let type = buf ! 0; code = buf ! 1; hip = 8; udp = hip + 40;
              dest = Sin6 (le16_at buf (udp + 2)) (take 16 (drop (hip + 24) buf));
              errno = (if type = 2 then EMSGSIZE else if type = 1 \<and> code = 4 then ECONNREFUSED
                       else EHOSTUNREACH);
              s' = s\<lparr>nready := nready s - 1\<rparr>
          in if n < 8 then Exits
             else if type = 1 \<or> type = 2 \<or> type = 3 then
               (if n < 8 + 8 then Exits
                else if buf ! (hip + 6) = IPPROTO_UDP
                then Goes_on (tell AF_INET6 (raw16 buf udp) (Icmpd_err errno type code dest) (entries_up_to s) s')
                else Goes_on s')
             else Goes_on s')"

section \<open>A round\<close>

record daemon_ev =
  dready :: "int set"
  accepted :: "int option"
  packet4 :: "(byte list \<times> nat) option"
  packet6 :: "(byte list \<times> nat) option"
  handed_by :: "int \<Rightarrow> handed"

text \<open>The next part of the round, unless \<open>nready\<close> is used up.\<close>

fun next_part :: "icmpd round \<Rightarrow> (icmpd \<Rightarrow> icmpd round) \<Rightarrow> icmpd round" where
  "next_part (Goes_on s) k = (if nready s \<le> 0 then Goes_on s else k s)"
| "next_part r k = r"

fun conns :: "int set \<Rightarrow> daemon_ev \<Rightarrow> nat list \<Rightarrow> icmpd \<Rightarrow> icmpd round" where
  "conns rset e [] s = Goes_on s"
| "conns rset e (i # is) s =
     (let sockfd = connfd (table s ! i) in
      if sockfd < 0 \<or> sockfd \<notin> rset then conns rset e is s
      else next_part (readable_conn i (handed_by e sockfd) s) (conns rset e is))"

definition daemon_readable :: "daemon_ev \<Rightarrow> icmpd \<Rightarrow> int set" where
  "daemon_readable e s = {fd \<in> dset s. fd \<le> dmaxfd s \<and> fd \<in> dready e}"

definition icmpd_round :: "int \<Rightarrow> int \<Rightarrow> int \<Rightarrow> daemon_ev \<Rightarrow> icmpd \<Rightarrow> icmpd round" where
  "icmpd_round fd4 fd6 listenfd e s =
     (let rset = daemon_readable e s;
          s0 = s\<lparr>nready := int (card rset)\<rparr>;
          at_clients = (\<lambda>s. conns rset e (entries_up_to s) s);
          at_v6 = (\<lambda>s. if fd6 \<in> rset then next_part (readable_v6 (packet6 e) s) at_clients else at_clients s);
          at_v4 = (\<lambda>s. if fd4 \<in> rset then next_part (readable_v4 (packet4 e) s) at_v6 else at_v6 s)
      in if listenfd \<in> rset then next_part (readable_listen (accepted e) s0) at_v4 else at_v4 s0)"

section \<open>The table is that of the echo server\<close>

text \<open>
  Forgetting ports, and the two ICMP sockets, the daemon's table, sets and maxima are those of
  \<open>SelectServer\<close>, and the two changes of the table are the same operations.
\<close>

definition as_srv :: "int \<Rightarrow> int \<Rightarrow> icmpd \<Rightarrow> srv" where
  "as_srv fd4 fd6 s = \<lparr>client = map connfd (table s), maxi = dmaxi s, maxfd = dmaxfd s,
     allset = dset s - {fd4, fd6}, acts = []\<rparr>"

definition icmpd_inv :: "int \<Rightarrow> int \<Rightarrow> int \<Rightarrow> icmpd \<Rightarrow> bool" where
  "icmpd_inv fd4 fd6 l s \<longleftrightarrow> srv_inv l (as_srv fd4 fd6 s) \<and> {fd4, fd6} \<subseteq> dset s
     \<and> (\<forall>fd \<in> {fd4, fd6}. 0 \<le> fd \<and> fd \<le> dmaxfd s \<and> fd < int FD_SETSIZE)"

lemma tell_eq:
  "tell fam sport m is s = s\<lparr>dacts := dacts s @ map (\<lambda>i. Told (connfd (table s ! i)) m)
     (filter (\<lambda>i. connfd (table s ! i) \<ge> 0 \<and> family (table s ! i) = fam \<and> lport (table s ! i) = sport) is)\<rparr>"
  by (induction fam sport m "is" s rule: tell.induct) (simp_all add: Let_def)

lemma as_srv_simps [simp]:
  "as_srv fd4 fd6 (s\<lparr>nready := n\<rparr>) = as_srv fd4 fd6 s" "as_srv fd4 fd6 (s\<lparr>dacts := as\<rparr>) = as_srv fd4 fd6 s"
  by (simp_all add: as_srv_def)

lemma icmpd_inv_simps [simp]:
  "icmpd_inv fd4 fd6 l (s\<lparr>nready := n\<rparr>) = icmpd_inv fd4 fd6 l s"
  "icmpd_inv fd4 fd6 l (s\<lparr>dacts := as\<rparr>) = icmpd_inv fd4 fd6 l s"
  by (simp_all add: icmpd_inv_def)

lemma icmpd_inv_tell [simp]: "icmpd_inv fd4 fd6 l (tell fam sport m is s) = icmpd_inv fd4 fd6 l s"
  by (simp add: tell_eq)

text \<open>An open connection of the table is neither of the two ICMP sockets nor the listening one.\<close>

lemma open_entry:
  assumes inv: "icmpd_inv fd4 fd6 l s" and i: "i < FD_SETSIZE" "0 \<le> connfd (table s ! i)"
  shows "connfd (table s ! i) \<in> dset s - {fd4, fd6, l}" "int i \<le> dmaxi s"
proof -
  let ?v = "as_srv fd4 fd6 s"
  have v: "srv_inv l ?v" using inv by (simp add: icmpd_inv_def)
  then have len: "length (table s) = FD_SETSIZE" by (simp add: srv_inv_def as_srv_def)
  then have "connfd (table s ! i) \<in> set (connected ?v)"
    using i by (auto simp: connected_def as_srv_def intro: nth_mem)
  with v show "connfd (table s ! i) \<in> dset s - {fd4, fd6, l}" by (auto simp: srv_inv_def as_srv_def)
  have "\<forall>j < FD_SETSIZE. 0 \<le> client ?v ! j \<longrightarrow> int j \<le> maxi ?v"
    using v unfolding srv_inv_def by blast
  then show "int i \<le> dmaxi s" using i len by (simp add: as_srv_def)
qed

lemma table_length: "icmpd_inv fd4 fd6 l s \<Longrightarrow> length (table s) = FD_SETSIZE"
  by (simp add: icmpd_inv_def srv_inv_def as_srv_def)

lemma dmaxi_bound: "icmpd_inv fd4 fd6 l s \<Longrightarrow> dmaxi s < int FD_SETSIZE"
  by (simp add: icmpd_inv_def srv_inv_def as_srv_def)

lemma client_done_srv:
  assumes inv: "icmpd_inv fd4 fd6 l s" and i: "i < FD_SETSIZE" "0 \<le> connfd (table s ! i)"
  shows "as_srv fd4 fd6 (client_done err i recvfd s) = (close_client i (as_srv fd4 fd6 s))\<lparr>acts := []\<rparr>"
  using open_entry [OF inv i] table_length [OF inv] i
  by (auto simp: as_srv_def client_done_def close_client_def map_update Let_def)

lemma client_done_inv:
  assumes inv: "icmpd_inv fd4 fd6 l s" and i: "i < FD_SETSIZE" "0 \<le> connfd (table s ! i)"
  shows "icmpd_inv fd4 fd6 l (client_done err i recvfd s)"
proof -
  have "srv_inv l (close_client i (as_srv fd4 fd6 s))"
    using close_client_inv [of l "as_srv fd4 fd6 s" i] inv i table_length [OF inv]
    by (simp add: icmpd_inv_def as_srv_def)
  then have "srv_inv l (as_srv fd4 fd6 (client_done err i recvfd s))"
    unfolding client_done_srv [OF assms] by (simp only: acts_inv)
  moreover have "dset (client_done err i recvfd s) = dset s - {connfd (table s ! i)}"
    "dmaxfd (client_done err i recvfd s) = dmaxfd s" by (simp_all add: client_done_def Let_def)
  ultimately show ?thesis using inv open_entry [OF inv i] by (auto simp: icmpd_inv_def)
qed

lemma registered_inv:
  assumes "icmpd_inv fd4 fd6 l s"
  shows "icmpd_inv fd4 fd6 l (s\<lparr>table := (table s)[i := (table s ! i)\<lparr>family := f, lport := p\<rparr>]\<rparr>)"
proof -
  have "map connfd ((table s)[i := (table s ! i)\<lparr>family := f, lport := p\<rparr>]) = map connfd (table s)"
    by (cases "i < length (table s)") (simp_all add: map_update list_update_same_conv list_update_beyond)
  then show ?thesis using assms by (simp add: icmpd_inv_def as_srv_def)
qed

lemma readable_conn_inv:
  assumes inv: "icmpd_inv fd4 fd6 l s" and i: "i < FD_SETSIZE" "0 \<le> connfd (table s ! i)"
    and r: "readable_conn i h s = Goes_on s'"
  shows "icmpd_inv fd4 fd6 l s'"
proof -
  have "icmpd_inv fd4 fd6 l (client_done err i recvfd
      (s\<lparr>table := (table s)[i := (table s ! i)\<lparr>family := f, lport := p\<rparr>]\<rparr>))" for err recvfd f p
    by (rule client_done_inv [OF registered_inv [OF inv] i(1)]) (use i table_length [OF inv] in simp)
  with r registered_inv [OF inv] client_done_inv [OF inv i] show ?thesis
    by (auto simp: readable_conn_def Let_def split: option.splits if_splits prod.splits)
qed

lemma readable_listen_srv:
  assumes "c \<notin> {fd4, fd6}" and "first_avail (map connfd (table s)) \<noteq> FD_SETSIZE"
    and "readable_listen (Some c) s = Goes_on s'" and "length (table s) = FD_SETSIZE"
  shows "accept_part \<lparr>ready = {}, accepts = Some c, reads = \<lambda>_. None, writes = \<lambda>_. True\<rparr> (as_srv fd4 fd6 s)
    = Goes_on ((as_srv fd4 fd6 s')\<lparr>acts := [Accepted c]\<rparr>)"
  using assms by (auto simp: readable_listen_def accept_part_def as_srv_def Let_def map_update split: if_splits)

lemma readable_listen_inv:
  assumes inv: "icmpd_inv fd4 fd6 l s" and c: "0 \<le> c" "c \<notin> dset s"
    and r: "readable_listen (Some c) s = Goes_on s'"
  shows "icmpd_inv fd4 fd6 l s'"
proof (cases "first_avail (map connfd (table s)) = FD_SETSIZE")
  case True
  with r inv show ?thesis by (auto simp: readable_listen_def Let_def)
next
  case False
  have c4: "c \<notin> {fd4, fd6}" using inv c by (auto simp: icmpd_inv_def)
  have "srv_inv l ((as_srv fd4 fd6 s')\<lparr>acts := [Accepted c]\<rparr>)"
    by (rule accept_part_inv(1) [OF _ _ c(1) _ readable_listen_srv [OF c4 False r table_length [OF inv]]])
      (use inv c(2) in \<open>simp_all add: icmpd_inv_def as_srv_def\<close>)
  then have "srv_inv l (as_srv fd4 fd6 s')" by (simp only: acts_inv)
  moreover have "dset s \<subseteq> dset s'" "dmaxfd s \<le> dmaxfd s'" using r False
    by (auto simp: readable_listen_def Let_def split: if_splits)
  ultimately show ?thesis using inv by (auto simp: icmpd_inv_def)
qed

text \<open>What the two packet handlers can do to the state.\<close>

lemma packet_cases:
  "(if A then Exits else if B then (if C then Exits else if D then Goes_on t else Goes_on u) else Goes_on u)
     = Goes_on s' \<Longrightarrow> s' = t \<or> s' = u"
  by (simp split: if_splits)

lemma readable_v4_result:
  assumes "readable_v4 p s = Goes_on s'"
  shows "\<exists>m sport is. s' = tell AF_INET sport m is (s\<lparr>nready := nready s - 1\<rparr>)"
proof -
  obtain buf n where p: "p = Some (buf, n)" using assms by (cases p) (auto simp: readable_v4_def)
  have "(\<exists>sport m is. s' = tell AF_INET sport m is (s\<lparr>nready := nready s - 1\<rparr>)) \<or> s' = s\<lparr>nready := nready s - 1\<rparr>"
    using assms [unfolded p readable_v4_def Let_def option.case prod.case, THEN packet_cases]
    by (elim disjE) ((intro disjI1 exI, assumption) | (intro disjI2, assumption))+
  then show ?thesis
    by (elim disjE exE) ((intro exI, assumption) | (intro exI [of _ "[]"] exI, simp))+
qed

lemma readable_v6_result:
  assumes "readable_v6 p s = Goes_on s'"
  shows "\<exists>m sport is. s' = tell AF_INET6 sport m is (s\<lparr>nready := nready s - 1\<rparr>)"
proof -
  obtain buf n where p: "p = Some (buf, n)" using assms by (cases p) (auto simp: readable_v6_def)
  have "(\<exists>sport m is. s' = tell AF_INET6 sport m is (s\<lparr>nready := nready s - 1\<rparr>)) \<or> s' = s\<lparr>nready := nready s - 1\<rparr>"
    using assms [unfolded p readable_v6_def Let_def option.case prod.case, THEN packet_cases]
    by (elim disjE) ((intro disjI1 exI, assumption) | (intro disjI2, assumption))+
  then show ?thesis
    by (elim disjE exE) ((intro exI, assumption) | (intro exI [of _ "[]"] exI, simp))+
qed

lemma readable_v46_inv:
  "readable_v4 p s = Goes_on s' \<Longrightarrow> icmpd_inv fd4 fd6 l s \<Longrightarrow> icmpd_inv fd4 fd6 l s'"
  "readable_v6 p s = Goes_on s' \<Longrightarrow> icmpd_inv fd4 fd6 l s \<Longrightarrow> icmpd_inv fd4 fd6 l s'"
  by (drule readable_v4_result, elim exE, simp) (drule readable_v6_result, elim exE, simp)

lemma next_part_inv:
  assumes "next_part r k = Goes_on s'" and "\<And>s. r = Goes_on s \<Longrightarrow> P s"
    and "\<And>s s'. r = Goes_on s \<Longrightarrow> P s \<Longrightarrow> k s = Goes_on s' \<Longrightarrow> P s'"
  shows "P s'"
proof (cases r)
  case (Goes_on s)
  then show ?thesis
  proof (cases "nready s \<le> 0")
    case True
    with assms(1) Goes_on have "s = s'" by simp
    with assms(2) Goes_on show ?thesis by simp
  next
    case False
    with assms(1) Goes_on have "k s = Goes_on s'" by simp
    with assms(2,3) Goes_on show ?thesis by blast
  qed
qed (use assms(1) in simp_all)

lemma conns_inv:
  "conns rset e is s = Goes_on s' \<Longrightarrow> icmpd_inv fd4 fd6 l s \<Longrightarrow> \<forall>i \<in> set is. i < FD_SETSIZE \<Longrightarrow>
     icmpd_inv fd4 fd6 l s'"
proof (induction "is" arbitrary: s s')
  case (Cons i "is")
  show ?case
  proof (cases "connfd (table s ! i) < 0 \<or> connfd (table s ! i) \<notin> rset")
    case True
    then show ?thesis using Cons by (simp add: Let_def)
  next
    case False
    then have "next_part (readable_conn i (handed_by e (connfd (table s ! i))) s) (conns rset e is) = Goes_on s'"
      using Cons.prems(1) by (simp add: Let_def)
    then show ?thesis
    proof (rule next_part_inv [where P = "icmpd_inv fd4 fd6 l"])
      show "icmpd_inv fd4 fd6 l s1" if "readable_conn i (handed_by e (connfd (table s ! i))) s = Goes_on s1" for s1
        using readable_conn_inv [OF Cons.prems(2) _ _ that] Cons.prems(3) False by simp
    next
      fix s1 s2
      assume "icmpd_inv fd4 fd6 l s1" "conns rset e is s1 = Goes_on s2"
      then show "icmpd_inv fd4 fd6 l s2" using Cons.IH [of s1] Cons.prems(3) by simp
    qed
  qed
qed simp

lemma icmpd_round_inv:
  assumes inv: "icmpd_inv fd4 fd6 l s" and c: "\<And>c. accepted e = Some c \<Longrightarrow> 0 \<le> c \<and> c \<notin> dset s"
    and r: "icmpd_round fd4 fd6 l e s = Goes_on s'"
  shows "icmpd_inv fd4 fd6 l s'"
proof -
  define R where "R = daemon_readable e s"
  define at_clients where "at_clients = (\<lambda>s. conns R e (entries_up_to s) s)"
  define at_v6 where "at_v6 = (\<lambda>s. if fd6 \<in> R then next_part (readable_v6 (packet6 e) s) at_clients else at_clients s)"
  define at_v4 where "at_v4 = (\<lambda>s. if fd4 \<in> R then next_part (readable_v4 (packet4 e) s) at_v6 else at_v6 s)"
  let ?s0 = "s\<lparr>nready := int (card R)\<rparr>"
  have 1: "at_clients s1 = Goes_on s2 \<Longrightarrow> icmpd_inv fd4 fd6 l s1 \<Longrightarrow> icmpd_inv fd4 fd6 l s2" for s1 s2
    unfolding at_clients_def
    by (erule conns_inv) (use dmaxi_bound [of fd4 fd6 l s1] in \<open>auto simp: entries_up_to_def\<close>)
  have 2: "at_v6 s1 = Goes_on s2 \<Longrightarrow> icmpd_inv fd4 fd6 l s1 \<Longrightarrow> icmpd_inv fd4 fd6 l s2" for s1 s2
    using next_part_inv [of "readable_v6 (packet6 e) s1" at_clients s2 "icmpd_inv fd4 fd6 l"] 1 readable_v46_inv(2)
    by (auto simp: at_v6_def split: if_splits)
  have 3: "at_v4 s1 = Goes_on s2 \<Longrightarrow> icmpd_inv fd4 fd6 l s1 \<Longrightarrow> icmpd_inv fd4 fd6 l s2" for s1 s2
    using next_part_inv [of "readable_v4 (packet4 e) s1" at_v6 s2 "icmpd_inv fd4 fd6 l"] 2 readable_v46_inv(1)
    by (auto simp: at_v4_def split: if_splits)
  have r': "(if l \<in> R then next_part (readable_listen (accepted e) ?s0) at_v4 else at_v4 ?s0) = Goes_on s'"
    using r by (simp only: icmpd_round_def Let_def at_v4_def at_v6_def at_clients_def R_def)
  have inv0: "icmpd_inv fd4 fd6 l ?s0" using inv by simp
  have li: "icmpd_inv fd4 fd6 l s1" if "readable_listen (accepted e) ?s0 = Goes_on s1" for s1
    using readable_listen_inv [OF inv0] c that by (cases "accepted e") (auto simp: readable_listen_def)
  show ?thesis
  proof (cases "l \<in> R")
    case True
    with r' have "next_part (readable_listen (accepted e) ?s0) at_v4 = Goes_on s'" by simp
    then show ?thesis by (rule next_part_inv [where P = "icmpd_inv fd4 fd6 l"]) (blast intro: li 3)+
  next
    case False
    with r' have "at_v4 ?s0 = Goes_on s'" by simp
    then show ?thesis by (rule 3 [OF _ inv0])
  qed
qed
text \<open>
  The rounds that can follow each other: \<open>Accept\<close> returns a descriptor that is not open.
\<close>

inductive icmpd_reachable :: "int \<Rightarrow> int \<Rightarrow> int \<Rightarrow> icmpd \<Rightarrow> bool" for fd4 fd6 l where
  start: "{fd4, fd6, l} \<subseteq> {0..<int FD_SETSIZE} \<Longrightarrow> l \<notin> {fd4, fd6} \<Longrightarrow>
            icmpd_reachable fd4 fd6 l (icmpd_init fd4 fd6 l)"
| round: "icmpd_reachable fd4 fd6 l s \<Longrightarrow> (\<And>c. accepted e = Some c \<Longrightarrow> 0 \<le> c \<and> c \<notin> dset s) \<Longrightarrow>
            icmpd_round fd4 fd6 l e s = Goes_on s' \<Longrightarrow> icmpd_reachable fd4 fd6 l s'"

definition open_fds :: "icmpd \<Rightarrow> int list" where
  "open_fds s = filter (\<lambda>c. 0 \<le> c) (map connfd (table s))"

lemma icmpd_init_inv:
  assumes "{fd4, fd6, l} \<subseteq> {0..<int FD_SETSIZE}" and "l \<notin> {fd4, fd6}"
  shows "icmpd_inv fd4 fd6 l (icmpd_init fd4 fd6 l)"
proof -
  have "filter (\<lambda>c. 0 \<le> c) (replicate FD_SETSIZE (- 1 :: int)) = []" by simp
  then show ?thesis using assms
    by (auto simp: icmpd_inv_def srv_inv_def icmpd_init_def as_srv_def connected_def)
qed

lemma icmpd_reachable_inv: "icmpd_reachable fd4 fd6 l s \<Longrightarrow> icmpd_inv fd4 fd6 l s"
proof (induction rule: icmpd_reachable.induct)
  case start
  then show ?case by (rule icmpd_init_inv)
next
  case (round s e s')
  then show ?case by (intro icmpd_round_inv [of fd4 fd6 l s e s']) auto
qed

lemma connected_as_srv: "connected (as_srv fd4 fd6 s) = open_fds s"
  by (simp add: connected_def as_srv_def open_fds_def)

section \<open>Errors for a port\<close>

text \<open>A port in memory, read without \<open>ntohs\<close>.\<close>

lemma le16_at_be16: "le16_at (pre @ be16 w @ post) (length pre) = htons w"
proof -
  have "unat w div 256 < 256" using unat_lt_65536 [of w] by (simp add: less_mult_imp_div_less)
  moreover have "unat w mod 256 < 256" by simp
  ultimately show ?thesis
    by (simp add: le16_at_def be16_def nth_append unat_byte_of_nat htons_def add.commute mult.commute)
qed

definition registered :: "int \<Rightarrow> int \<Rightarrow> icmpd \<Rightarrow> nat \<Rightarrow> bool" where
  "registered fam port s i \<longleftrightarrow>
     connfd (table s ! i) \<ge> 0 \<and> family (table s ! i) = fam \<and> lport (table s ! i) = port"

text \<open>The loop stops at \<open>maxi\<close>, which leaves no registered entry out.\<close>

lemma entries_suffice:
  assumes "icmpd_inv fd4 fd6 l s"
  shows "filter (registered fam port s) (entries_up_to s) = filter (registered fam port s) [0..<FD_SETSIZE]"
proof -
  let ?k = "nat (dmaxi s + 1)"
  have le: "?k \<le> FD_SETSIZE" using dmaxi_bound [OF assms] by linarith
  have "\<not> registered fam port s i" if "i \<in> set [?k..<FD_SETSIZE]" for i
  proof
    assume "registered fam port s i"
    then have "int i \<le> dmaxi s" using open_entry(2) [OF assms, of i] that by (simp add: registered_def)
    then show False using that by auto
  qed
  then have "filter (registered fam port s) [?k..<FD_SETSIZE] = []" by (simp add: filter_empty_conv)
  moreover have "[0..<FD_SETSIZE] = [0..<?k] @ [?k..<FD_SETSIZE]"
    using upt_add_eq_append [of 0 ?k "FD_SETSIZE - ?k"] le by simp
  ultimately show ?thesis by (simp add: entries_up_to_def del: upt_conv_Cons)
qed
section \<open>Properties\<close>

text \<open>
  C13: Whatever clients do and whatever packets come, the daemon's table stays well formed: 1024
  entries, no descriptor twice, the set for \<open>select\<close> exactly the two ICMP sockets, the listening
  socket and the open connections, none of them above \<open>maxfd\<close> or outside a descriptor set, and no
  open entry above \<open>maxi\<close>.
\<close>

theorem icmpd_well_formed:
  assumes "icmpd_reachable fd4 fd6 l s"
  shows "length (table s) = FD_SETSIZE \<and> distinct (open_fds s)
    \<and> dset s = {fd4, fd6, l} \<union> set (open_fds s) \<and> {fd4, fd6, l} \<inter> set (open_fds s) = {}
    \<and> (\<forall>fd \<in> dset s. 0 \<le> fd \<and> fd \<le> dmaxfd s \<and> fd < int FD_SETSIZE)
    \<and> (\<forall>i < FD_SETSIZE. 0 \<le> connfd (table s ! i) \<longrightarrow> int i \<le> dmaxi s)"
proof -
  have inv: "icmpd_inv fd4 fd6 l s" by (rule icmpd_reachable_inv [OF assms])
  then have v: "srv_inv l (as_srv fd4 fd6 s)" and fds: "{fd4, fd6} \<subseteq> dset s"
    "\<forall>fd \<in> {fd4, fd6}. 0 \<le> fd \<and> fd \<le> dmaxfd s \<and> fd < int FD_SETSIZE" by (simp_all add: icmpd_inv_def)
  then have all: "dset s - {fd4, fd6} = insert l (set (open_fds s))"
    unfolding srv_inv_def connected_as_srv by (simp add: as_srv_def)
  have bd: "\<forall>fd \<in> dset s - {fd4, fd6}. 0 \<le> fd \<and> fd \<le> dmaxfd s \<and> fd < int FD_SETSIZE"
    using v by (simp add: srv_inv_def as_srv_def)
  have "dset s = {fd4, fd6, l} \<union> set (open_fds s)" using all fds(1) by blast
  moreover have "l \<notin> set (open_fds s)" "distinct (open_fds s)"
    using v by (simp_all add: srv_inv_def connected_as_srv)
  moreover have "{fd4, fd6} \<inter> set (open_fds s) = {}" using all by blast
  ultimately show ?thesis using table_length [OF inv] open_entry(2) [OF inv] bd fds(2) by blast
qed

text \<open>A round in which a client connects.\<close>

definition demo_connect :: daemon_ev where
  "demo_connect = \<lparr>dready = {5}, accepted = Some 6, packet4 = None, packet6 = None,
     handed_by = \<lambda>_. \<lparr>fd_read = None, socket_name = None, binds = \<lambda>_ _. None\<rparr>\<rparr>"

lemma demo_connect_round:
  "\<exists>s. icmpd_round 3 4 5 demo_connect (icmpd_init 3 4 5) = Goes_on s \<and> connfd (table s ! 0) = 6"
proof -
  let ?s0 = "(icmpd_init 3 4 5)\<lparr>nready := 1\<rparr>"
  have "daemon_readable demo_connect (icmpd_init 3 4 5) = {5}"
    by (auto simp: daemon_readable_def demo_connect_def icmpd_init_def)
  moreover have "first_avail (map connfd (table ?s0)) = 0" by (simp add: icmpd_init_def numeral_eq_Suc)
  then have "\<exists>s. readable_listen (Some 6) ?s0 = Goes_on s \<and> nready s = 0 \<and> connfd (table s ! 0) = 6"
    unfolding readable_listen_def Let_def by (simp add: icmpd_init_def)
  ultimately show ?thesis by (auto simp: icmpd_round_def Let_def demo_connect_def)
qed

theorem icmpd_well_formed_witness:
  "\<exists>s. icmpd_round 3 4 5 demo_connect (icmpd_init 3 4 5) = Goes_on s
     \<and> 6 \<in> set (open_fds s) \<and> dset s = {3, 4, 5} \<union> set (open_fds s) \<and> 6 \<le> dmaxfd s \<and> 0 \<le> dmaxi s"
proof -
  obtain s where s: "icmpd_round 3 4 5 demo_connect (icmpd_init 3 4 5) = Goes_on s" "connfd (table s ! 0) = 6"
    using demo_connect_round by blast
  have "icmpd_reachable 3 4 5 (icmpd_init 3 4 5)" by (rule icmpd_reachable.start) simp_all
  then have r: "icmpd_reachable 3 4 5 s"
    by (rule icmpd_reachable.round [OF _ _ s(1)]) (simp add: demo_connect_def icmpd_init_def)
  note wf = icmpd_well_formed [OF r]
  then have "connfd (table s ! 0) \<in> set (map connfd (table s))" by (intro image_eqI [of _ _ "table s ! 0"] nth_mem | simp)+
  then have o: "6 \<in> set (open_fds s)" using s(2) by (simp add: open_fds_def)
  then have "6 \<in> dset s" using wf by blast
  then have "6 \<le> dmaxfd s" using wf by blast
  moreover have "0 \<le> dmaxi s" using wf s(2) by (auto dest: spec [of _ 0])
  ultimately show ?thesis using s(1) o wf by blast
qed

text \<open>A state for the examples: one client, descriptor 6, registered for port 53 over IPv4.\<close>

definition demo_icmpd :: icmpd where
  "demo_icmpd = (let s = icmpd_init 3 4 5; e = \<lparr>connfd = 6, family = AF_INET, lport = uint (htons 53)\<rparr> in
     s\<lparr>table := (table s)[0 := e], dset := {6, 3, 4, 5}, dmaxfd := 6, dmaxi := 0, nready := -1\<rparr>)"

lemma demo_icmpd_inv: "icmpd_inv 3 4 5 demo_icmpd"
proof -
  let ?i = "icmpd_init 3 4 5"
  let ?a = "?i\<lparr>table := (table ?i)[0 := (table ?i ! 0)\<lparr>connfd := 6\<rparr>], dset := insert 6 (dset ?i),
    dmaxfd := 6, dmaxi := 0, nready := -1\<rparr>"
  have fa: "first_avail (map connfd (table ?i)) = 0"
    by (simp add: icmpd_init_def numeral_eq_Suc)
  have "readable_listen (Some 6) ?i = Goes_on ?a"
    unfolding readable_listen_def Let_def fa option.case by (simp add: icmpd_init_def)
  then have "icmpd_inv 3 4 5 ?a"
    by (rule readable_listen_inv [rotated -1]) (simp_all add: icmpd_init_inv, simp add: icmpd_init_def)
  from registered_inv [OF this, of 0 "uint (htons 53)" AF_INET] show ?thesis
    by (simp add: demo_icmpd_def icmpd_init_def insert_commute)
qed

lemma demo_icmpd_registered: "filter (registered AF_INET (uint (htons 53)) demo_icmpd) [0..<FD_SETSIZE] = [0]"
proof -
  have "\<not> registered AF_INET (uint (htons 53)) demo_icmpd i" if "Suc 0 \<le> i" "i < FD_SETSIZE" for i
    using that by (simp add: registered_def demo_icmpd_def icmpd_init_def Let_def)
  then have "filter (registered AF_INET (uint (htons 53)) demo_icmpd) [Suc 0..<FD_SETSIZE] = []"
    by (auto simp: filter_empty_conv simp del: upt_rec_numeral)
  moreover have "registered AF_INET (uint (htons 53)) demo_icmpd 0"
    by (simp add: registered_def demo_icmpd_def icmpd_init_def)
  moreover have "[0..<FD_SETSIZE] = 0 # [Suc 0..<FD_SETSIZE]" by (rule upt_conv_Cons) simp
  ultimately show ?thesis by (simp only: filter.simps if_True)
qed

text \<open>
  C14: An ICMP error (destination unreachable, time exceeded or source quench) that quotes a UDP
  datagram over IPv4, with all of its UDP header, is passed on to exactly the clients registered for the datagram's source port,
  in the order of the table, with the type, the code, the address and port the datagram was for, and
  the error number for the type and code; nothing else changes.
\<close>

theorem icmp_error_told:
  assumes "icmpd_inv fd4 fd6 l s" and "headers_ok iph rest q" and "type = 3 \<or> type = 11 \<or> type = 4"
    and "4 \<le> length r"
  shows "readable_v4 (Some (icmp_error iph type code rest q sp dp r,
             length (icmp_error iph type code rest q sp dp r))) s =
    Goes_on (s\<lparr>nready := nready s - 1, dacts := dacts s @
      map (\<lambda>i. Told (connfd (table s ! i))
             (Icmpd_err (if type = 3 \<and> code = 3 then ECONNREFUSED
                         else if type = 3 \<and> code = 4 then EMSGSIZE else EHOSTUNREACH)
               type code (Sin (htons dp) (take 4 (drop 16 q)))))
        (filter (registered AF_INET (uint (htons sp)) s) [0..<FD_SETSIZE])\<rparr>)"
proof -
  let ?p = "icmp_error iph type code rest q sp dp r"
  have h: "hdr_len iph 0 = length iph" "20 \<le> length iph" "length rest = 6" "20 \<le> length q"
    "hdr_len q 0 = length q" "ip_p q 0 = IPPROTO_UDP" using assms(2) by (simp_all add: headers_ok_def)
  then have "iph \<noteq> []" "q \<noteq> []" by auto
  note nth = nth_of_error [OF h(3)]
  have h1: "hdr_len ?p 0 = length iph" using nth(1) [of 0 iph] h \<open>iph \<noteq> []\<close> by (simp add: hdr_len_def)
  have h2: "hdr_len ?p (length iph + 8) = length q" using nth(4) [of 0 q] h \<open>q \<noteq> []\<close> by (simp add: hdr_len_def)
  have pr: "ip_p ?p (length iph + 8) = IPPROTO_UDP" using nth(4) [of 9 q] h by (simp add: ip_p_def)
  have sp: "le16_at ?p (length iph + 8 + length q) = htons sp"
    using le16_at_be16 [of "iph @ [type, code] @ rest @ q" sp "be16 dp @ r"] h(3)
    by (simp add: icmp_error_def add.commute add.left_commute)
  have dp: "le16_at ?p (length iph + 8 + length q + 2) = htons dp"
    using le16_at_be16 [of "iph @ [type, code] @ rest @ q @ be16 sp" dp r] h(3)
    by (simp add: icmp_error_def add.commute add.left_commute)
  have dst: "take 4 (drop (length iph + 8 + 16) ?p) = take 4 (drop 16 q)"
    using h(3,4) by (simp add: icmp_error_def)
  have len: "length ?p = length iph + 8 + length q + 4 + length r" using h(3) by (simp add: icmp_error_def)
  have n: "\<not> int (length ?p) - int (length iph) < 8" "\<not> int (length ?p) - int (length iph) < 8 + 20 + 8"
    using h(4) assms(4) by (simp_all add: len)
  show ?thesis
    unfolding readable_v4_def Let_def option.case prod.case h1 h2 pr raw16_def sp dp dst nth(2,3) tell_eq
    using n assms(3) entries_suffice [OF assms(1), of AF_INET "uint (htons sp)"]
    by (simp add: registered_def [abs_def])
qed

theorem icmp_error_told_witness:
  "\<exists>s'. readable_v4 (Some (icmp_error (demo_ip 1) 3 3 [0, 0, 0, 0, 0, 0] (demo_ip 17) 53 7 [0, 8, 0, 0],
             length (icmp_error (demo_ip 1) 3 3 [0, 0, 0, 0, 0, 0] (demo_ip 17) 53 7 [0, 8, 0, 0])))
           demo_icmpd = Goes_on s'
     \<and> dacts s' = [Told 6 (Icmpd_err ECONNREFUSED 3 3 (Sin (htons 7) [10, 0, 0, 1]))]"
proof -
  have "headers_ok (demo_ip 1) [0, 0, 0, 0, 0, 0] (demo_ip 17)"
    by (simp add: headers_ok_def demo_ip_def hdr_len_def ip_p_def IPPROTO_UDP_def)
  moreover have "take 4 (drop 16 (demo_ip 17)) = [10, 0, 0, 1]" by (simp add: demo_ip_def)
  moreover have "dacts demo_icmpd = []" "connfd (table demo_icmpd ! 0) = 6"
    by (simp_all add: demo_icmpd_def icmpd_init_def)
  ultimately show ?thesis
    using icmp_error_told [OF demo_icmpd_inv, of "demo_ip 1" "[0, 0, 0, 0, 0, 0]" "demo_ip 17" 3 "[0, 8, 0, 0]" 3 53 7]
      demo_icmpd_registered
    by simp
qed

text \<open>
  A registration outlives its client. When a client that is registered for a port closes its
  connection and another one connects into the freed entry, the daemon tells it of the ICMP errors
  for the old port, though it never handed a socket over: \<open>family\<close> and \<open>lport\<close> are not reset.
\<close>

theorem stale_registration:
  assumes "icmpd_inv fd4 fd6 l s" and "i < FD_SETSIZE" and "registered fam port s i"
    and "\<forall>j < i. 0 \<le> connfd (table s ! j)" and "fd_read h = Some (True, -1)" and "0 \<le> c" and "c < int FD_SETSIZE"
  shows "\<exists>s1 s2. readable_conn i h s = Goes_on s1 \<and> \<not> registered fam port s1 i
    \<and> readable_listen (Some c) s1 = Goes_on s2 \<and> connfd (table s2 ! i) = c \<and> registered fam port s2 i
    \<and> Told c m \<in> set (dacts (tell fam port m (entries_up_to s2) s2))"
proof -
  let ?s1 = "client_done False i (-1) s"
  have len: "length (table s) = FD_SETSIZE" by (rule table_length [OF assms(1)])
  have t1: "table ?s1 = (table s)[i := (table s ! i)\<lparr>connfd := -1\<rparr>]" by (simp add: client_done_def Let_def)
  have av: "first_avail cs = k" if "k < length cs" "cs ! k < 0" "\<forall>j < k. 0 \<le> cs ! j" for cs k
    using that
  proof (induction cs arbitrary: k)
    case (Cons a cs)
    show ?case
    proof (cases k)
      case (Suc k')
      have "0 \<le> a" using Cons.prems(3) Suc by (metis nth_Cons_0 zero_less_Suc)
      moreover have "first_avail cs = k'" using Cons.prems Suc by (intro Cons.IH) force+
      ultimately show ?thesis using Suc by simp
    qed (use Cons.prems(2) in simp)
  qed simp
  have fi: "first_avail (map connfd (table ?s1)) = i"
    by (rule av) (use assms len in \<open>auto simp: t1 nth_list_update\<close>)
  define s2 where "s2 = ?s1\<lparr>table := (table ?s1)[i := (table ?s1 ! i)\<lparr>connfd := c\<rparr>], dset := insert c (dset ?s1),
    dmaxfd := (if c > dmaxfd ?s1 then c else dmaxfd ?s1), dmaxi := (if int i > dmaxi ?s1 then int i else dmaxi ?s1),
    nready := nready ?s1 - 1\<rparr>"
  have r1: "readable_conn i h s = Goes_on ?s1" using assms(5) by (simp add: readable_conn_def)
  have r2: "readable_listen (Some c) ?s1 = Goes_on s2"
    using fi assms(2,7) by (simp add: readable_listen_def s2_def)
  have reg: "connfd (table s2 ! i) = c" "registered fam port s2 i" "\<not> registered fam port ?s1 i"
    using assms(2,3,6) len by (simp_all add: s2_def t1 registered_def)
  have "int i \<le> dmaxi s2" by (simp add: s2_def)
  then have "i \<in> set (entries_up_to s2)" by (auto simp: entries_up_to_def)
  then have "Told c m \<in> set (dacts (tell fam port m (entries_up_to s2) s2))"
    using reg by (force simp: tell_eq registered_def)
  with r1 r2 reg show ?thesis by blast
qed
theorem stale_registration_witness:
  "\<exists>s1 s2. readable_conn 0 \<lparr>fd_read = Some (True, -1), socket_name = None, binds = \<lambda>_ _. None\<rparr> demo_icmpd = Goes_on s1
     \<and> readable_listen (Some 6) s1 = Goes_on s2
     \<and> Told 6 (Icmpd_err EMSGSIZE 3 4 (Sin 0 [10, 0, 0, 1]))
         \<in> set (dacts (tell AF_INET (uint (htons 53)) (Icmpd_err EMSGSIZE 3 4 (Sin 0 [10, 0, 0, 1])) (entries_up_to s2) s2))"
proof -
  have "registered AF_INET (uint (htons 53)) demo_icmpd 0"
    by (simp add: registered_def demo_icmpd_def icmpd_init_def)
  from stale_registration [OF demo_icmpd_inv _ this, of "\<lparr>fd_read = Some (True, -1), socket_name = None, binds = \<lambda>_ _. None\<rparr>"
      6 "Icmpd_err EMSGSIZE 3 4 (Sin 0 [10, 0, 0, 1])"]
  show ?thesis by auto
qed

end
