(* ===== verification/UdpCksum.thy ===== *)
theory UdpCksum
  imports Icmp
begin

text \<open>
  The program \<^verbatim>\<open>unpv13e/udpcksum\<close>, which asks a name server a question in a datagram it builds
  itself and looks at the captured answer to tell whether the server uses UDP checksums:
  \<open>send_dns_query\<close> (\<^verbatim>\<open>senddnsquery-raw.c\<close>), \<open>udp_write\<close> (\<^verbatim>\<open>udpwrite.c\<close>), \<open>udp_read\<close> and \<open>udp_check\<close>
  (\<^verbatim>\<open>udpread.c\<close>) and \<open>test_udp\<close> (\<^verbatim>\<open>udpcksum.c\<close>). Captured frames and alarms are inputs. The kernel the
  repository is configured for takes \<open>ip_len\<close> in host byte order (unlike those of Linux and OpenBSD),
  puts it into network byte order, and fills in the identification and the checksum of the IP header.
\<close>

section \<open>Sending\<close>

text \<open>A store of the bytes \<open>bs\<close> at offset \<open>i\<close> of a buffer.\<close>

definition store :: "nat \<Rightarrow> byte list \<Rightarrow> byte list \<Rightarrow> byte list" where
  "store i bs buf = take i buf @ bs @ drop (i + length bs) buf"

record endpoint =
  s_addr :: "byte list"
  port_no :: "16 word"

text \<open>
  \<open>buf\<close> is the empty header of 28 bytes and the user data. The first 20 bytes serve as the
  pseudoheader of the UDP checksum before they become the IP header.
\<close>

definition pseudo_header :: "endpoint \<Rightarrow> endpoint \<Rightarrow> byte list \<Rightarrow> nat \<Rightarrow> byte list" where
  "pseudo_header local dest buf userlen =
     (let ui_len = be16 (word_of_nat (8 + userlen));
          b0 = store 0 (replicate 28 0) buf;
          b1 = store 10 ui_len b0;
          b2 = store 9 [IPPROTO_UDP] b1;
          b3 = store 12 (s_addr local) b2;
          b4 = store 16 (s_addr dest) b3;
          b5 = store 20 (be16 (port_no local)) b4;
          b6 = store 22 (be16 (port_no dest)) b5
      in store 24 ui_len b6)"

definition udp_write :: "bool \<Rightarrow> endpoint \<Rightarrow> endpoint \<Rightarrow> byte list \<Rightarrow> nat \<Rightarrow> byte list" where
  "udp_write zerosum local dest buf userlen =
     (let ui = pseudo_header local dest buf userlen;
          len = userlen + 28;
          sum = in_cksum (take len ui);
          ui' = (if zerosum then ui else store 26 (le16 (if sum = 0 then 0xffff else sum)) ui);
          ip = store 0 [0x45, 0] ui';
          ip1 = store 2 (le16 (word_of_nat len)) ip;
          ip2 = store 4 [0, 0, 0, 0] ip1
      in take len (store 8 [64] ip2))"

definition dns_query :: "byte list" where
  "dns_query = be16 1234 @ be16 0x0100 @ be16 1 @ [0, 0] @ [0, 0] @ [0, 0]
     @ [1] @ map of_char ''a'' @ [12] @ map of_char ''root-servers'' @ [3] @ map of_char ''net'' @ [0]
     @ be16 1 @ be16 1"

text \<open>\<open>malloc\<close> leaves the header's 28 bytes, and those behind the query, undetermined: \<open>junk\<close>, \<open>tail\<close>.\<close>

definition send_dns_query :: "bool \<Rightarrow> endpoint \<Rightarrow> endpoint \<Rightarrow> byte list \<Rightarrow> byte list \<Rightarrow> byte list" where
  "send_dns_query zerosum local dest junk tail =
     udp_write zerosum local dest (take 28 junk @ dns_query @ tail) (length dns_query)"

section \<open>Receiving\<close>

datatype link = DLT_NULL | DLT_EN10MB | DLT_SLIP | DLT_PPP | DLT_OTHER int

datatype complaint = Ether_type "16 word" | Link_type int | Len int | Ip_v nat | Ip_hl nat | Len_hlen int nat
  | Ip_checksum | Not_udp

text \<open>What \<open>udp_check\<close> does: it ends the process with a complaint, or returns the packet.\<close>

datatype checked = Quits complaint | Packet "byte list"

definition as_size :: "int \<Rightarrow> nat" where
  "as_size n = nat (n mod 2 ^ 64)"

text \<open>
  \<open>mem\<close> is the memory from the captured frame on, \<open>ptr\<close> the offset of the packet in it, \<open>len\<close> what
  the caller takes for its length; it is compared as a \<open>size_t\<close>.
\<close>

definition udp_check :: "byte list \<Rightarrow> nat \<Rightarrow> int \<Rightarrow> checked outcome" where
  "udp_check mem ptr len =
     (let ip = drop ptr mem; hlen = hdr_len ip 0; sum = in_cksum (take hlen ip) in
      if as_size len < 20 + 8 then Ok (Quits (Len len))
      else if length ip < 20 then Undefined
      else if unat (ip ! 0) div 16 \<noteq> 4 then Ok (Quits (Ip_v (unat (ip ! 0) div 16)))
      else if hlen < 20 then Ok (Quits (Ip_hl (hlen div 4)))
      else if as_size len < hlen + 8 then Ok (Quits (Len_hlen len hlen))
      else if length ip < hlen then Undefined
      else if sum \<noteq> 0 then Ok (Quits Ip_checksum)
      else if ip_p ip 0 = IPPROTO_UDP then Ok (Packet (store 10 (le16 sum) ip))
      else Ok (Quits Not_udp))"

definition udp_read :: "link \<Rightarrow> byte list \<Rightarrow> int \<Rightarrow> checked outcome" where
  "udp_read datalink mem len =
     (case datalink of
        DLT_NULL \<Rightarrow> udp_check mem 4 (len - 4)
      | DLT_EN10MB \<Rightarrow>
          if length mem < 14 then Undefined
          else if be16_at mem 12 \<noteq> 0x0800 then Ok (Quits (Ether_type (be16_at mem 12)))
          else udp_check mem 14 (len - 14)
      | DLT_SLIP \<Rightarrow> udp_check mem 24 (len - 24)
      | DLT_PPP \<Rightarrow> udp_check mem 24 (len - 24)
      | DLT_OTHER d \<Rightarrow> Ok (Quits (Link_type d)))"

section \<open>The test\<close>

datatype waits = Alarm | Frame "byte list" int

datatype verdict = Checksums bool | No_response | Complains complaint | Waits

text \<open>The field \<open>ui_sum\<close> is that of a \<open>struct udpiphdr\<close>, at offset 26.\<close>

definition ui_sum :: "byte list \<Rightarrow> 16 word" where
  "ui_sum p = le16_at p 26"

text \<open>The timeouts of the queries sent so far, newest last, and what the program makes of the events.\<close>

fun test_udp :: "link \<Rightarrow> nat list \<Rightarrow> waits list \<Rightarrow> (nat list \<times> verdict) outcome" where
  "test_udp datalink ts [] = Ok (ts, Waits)"
| "test_udp datalink ts (Alarm # es) =
     (if length ts \<ge> 3 then Ok (ts, No_response) else test_udp datalink (ts @ [2 * last ts]) es)"
| "test_udp datalink ts (Frame mem len # es) =
     bind_outcome (udp_read datalink mem len) (\<lambda>r.
       case r of
         Quits c \<Rightarrow> Ok (ts, Complains c)
       | Packet ui \<Rightarrow> if length ui < 28 then Undefined else Ok (ts, Checksums (ui_sum ui \<noteq> 0)))"

section \<open>The datagram sent\<close>

lemma store_append: "length xs = i \<Longrightarrow> length ys = length bs \<Longrightarrow> store i bs (xs @ ys @ zs) = xs @ bs @ zs"
  by (simp add: store_def)

lemma length_store [simp]: "i + length bs \<le> length buf \<Longrightarrow> length (store i bs buf) = length buf"
  by (simp add: store_def)

text \<open>A buffer that is a concatenation of its fields: a store replaces one of them.\<close>

lemma store_skip: "length x \<le> i \<Longrightarrow> store i bs (x @ r) = x @ store (i - length x) bs r"
  by (simp add: store_def)

lemma store_here: "length y = length bs \<Longrightarrow> store 0 bs (y @ r) = bs @ r"
  by (simp add: store_def)

lemmas store_fields = store_skip store_here

definition pseudo :: "byte list \<Rightarrow> byte list \<Rightarrow> nat \<Rightarrow> byte list" where
  "pseudo src dst ulen = replicate 9 0 @ [IPPROTO_UDP] @ be16 (word_of_nat ulen) @ src @ dst"

definition udp_header :: "16 word \<Rightarrow> 16 word \<Rightarrow> nat \<Rightarrow> byte list" where
  "udp_header sp dp ulen = be16 sp @ be16 dp @ be16 (word_of_nat ulen)"

lemma length_udp_header [simp]: "length (udp_header sp dp n) = 6"
  by (simp add: udp_header_def)

lemma pseudo_header_eq:
  assumes "length hdr = 28" and "length (s_addr local) = 4" and "length (s_addr dest) = 4"
  shows "pseudo_header local dest (hdr @ rest) n =
    pseudo (s_addr local) (s_addr dest) (8 + n) @ udp_header (port_no local) (port_no dest) (8 + n) @ [0, 0] @ rest"
proof -
  have "(replicate 28 0 :: byte list) = replicate 9 0 @ replicate 1 0 @ replicate 2 0 @ replicate 4 0
      @ replicate 4 0 @ replicate 2 0 @ replicate 2 0 @ replicate 2 0 @ replicate 2 0"
    by (simp only: replicate_add [symmetric]) simp
  then have b0: "store 0 (replicate 28 0) (hdr @ rest) = replicate 9 0 @ replicate 1 0 @ replicate 2 0
      @ replicate 4 0 @ replicate 4 0 @ replicate 2 0 @ replicate 2 0 @ replicate 2 0 @ replicate 2 0 @ rest"
    using assms(1) by (simp add: store_here)
  have "replicate 2 0 = [0, 0 :: byte]" by (simp add: numeral_2_eq_2)
  then show ?thesis unfolding pseudo_header_def Let_def b0
    using assms(2,3)
    by (simp add: store_fields pseudo_def udp_header_def del: append_Cons append.simps)
qed

text \<open>What is handed to the kernel: the IP header with the length of the UDP datagram in the place
  of its checksum, the UDP header, and the data.\<close>

definition udp_sum :: "bool \<Rightarrow> byte list \<Rightarrow> 16 word" where
  "udp_sum zerosum bs = (if zerosum then 0 else if in_cksum bs = 0 then 0xffff else in_cksum bs)"

lemma udp_write_eq:
  assumes "length hdr = 28" and "length (s_addr local) = 4" and "length (s_addr dest) = 4" and "n = length data"
  shows "udp_write zerosum local dest (hdr @ data @ tail) n =
    [0x45, 0] @ le16 (word_of_nat (n + 28)) @ [0, 0, 0, 0] @ [64] @ [IPPROTO_UDP] @ be16 (word_of_nat (8 + n))
      @ s_addr local @ s_addr dest @ udp_header (port_no local) (port_no dest) (8 + n)
      @ le16 (udp_sum zerosum (pseudo (s_addr local) (s_addr dest) (8 + n)
                @ udp_header (port_no local) (port_no dest) (8 + n) @ [0, 0] @ data)) @ data"
proof -
  let ?u = "udp_header (port_no local) (port_no dest) (8 + n)"
  let ?p = "pseudo (s_addr local) (s_addr dest) (8 + n)"
  have [simp]: "length ?p = 20" using assms(2,3) by (simp add: pseudo_def)
  let ?ui = "?p @ ?u @ [0, 0] @ data @ tail"
  note ui = pseudo_header_eq [OF assms(1-3), of "data @ tail" n]
  have tk: "take (n + 28) ?ui = ?p @ ?u @ [0, 0] @ data" using assms(4) [symmetric] by simp
  have z: "le16 0 = [0, 0]" by (simp add: le16_def)
  have sum: "(if zerosum then ?ui
      else store 26 (le16 (if in_cksum (take (n + 28) ?ui) = 0 then 0xffff else in_cksum (take (n + 28) ?ui))) ?ui)
    = ?p @ ?u @ le16 (udp_sum zerosum (?p @ ?u @ [0, 0] @ data)) @ data @ tail"
    unfolding tk by (simp add: store_fields udp_sum_def z del: append_Cons append.simps)
  have "replicate 9 (0 :: byte) = replicate 2 0 @ replicate 2 0 @ replicate 4 0 @ replicate 1 0"
    by (simp only: replicate_add [symmetric]) simp
  then have "?p = replicate 2 0 @ replicate 2 0 @ replicate 4 0 @ replicate 1 0 @ [IPPROTO_UDP]
      @ be16 (word_of_nat (8 + n)) @ s_addr local @ s_addr dest" by (simp add: pseudo_def)
  then show ?thesis unfolding udp_write_def Let_def ui sum
    using assms(2,3) assms(4) [symmetric] by (simp add: store_fields del: append_Cons append.simps)
qed
section \<open>Its checksum\<close>

text \<open>A sum that is a multiple of 65535 stays one when \<open>0xffff\<close> replaces the zero of its checksum field.\<close>

lemma fold16_ffff:
  assumes "fold16 s = 65535" and "s + 65535 < 65536 * 65536"
  shows "fold16 (s + 65535) = 65535"
proof -
  define h where "h = s div 65536"
  define l where "l = s mod 65536"
  have s: "s = 65536 * h + l" and l: "l < 65536" by (simp_all add: h_def l_def)
  have f: "(h + l + (h + l) div 65536) mod 65536 = 65535"
    using assms(1) by (simp add: fold16_def h_def l_def Let_def)
  show ?thesis
  proof (cases "l = 0")
    case True
    then have "h = 65535" using f assms(2) s by simp
    then show ?thesis using s True by (simp add: fold16_def)
  next
    case False
    then have e: "s + 65535 = 65536 * (h + 1) + (l - 1)" using s l by simp
    have "l - 1 < 65536" using l by simp
    then have "(s + 65535) div 65536 = h + 1" "(s + 65535) mod 65536 = l - 1"
      unfolding e by (rule div_mod_65536)+
    moreover have "h + 1 + (l - 1) = h + l" using False by simp
    ultimately show ?thesis using f by (simp add: fold16_def Let_def)
  qed
qed

lemma in_cksum_zero_iff:
  assumes "word_sum bs < 2 ^ 32"
  shows "in_cksum bs = 0 \<longleftrightarrow> fold16 (word_sum bs) = 65535"
proof -
  have "fold16 (word_sum bs) \<le> 65535"
    by (simp add: fold16_def Let_def flip: less_Suc_eq_le)
  then show ?thesis using in_cksum_fold [OF assms] by (auto simp flip: unat_eq_0)
qed

lemma word_sum_lt: "length bs \<le> 131070 \<Longrightarrow> word_sum bs < 2 ^ 32"
proof -
  assume "length bs \<le> 131070"
  then have "65535 * ((length bs + 1) div 2) \<le> 65535 * 65535" by (intro mult_le_mono2) linarith
  with word_sum_bound [of bs] show ?thesis by simp
qed

lemma udp_sum_verifies:
  assumes "even (length pre)" and "length pre + 2 + length post \<le> 131000"
  shows "in_cksum (pre @ le16 (udp_sum False (pre @ [0, 0] @ post)) @ post) = 0"
proof (cases "in_cksum (pre @ [0, 0] @ post) = 0")
  case False
  then show ?thesis using in_cksum_filled_in [OF assms(1), of post] assms(2) by (simp add: udp_sum_def)
next
  case True
  let ?z = "pre @ [0, 0] @ post" and ?p = "pre @ le16 0xffff @ post"
  have z: "word_sum ?z = word_sum pre + word_sum post"
    using word_sum_append [OF assms(1), of "[0, 0] @ post"] by simp
  have p: "word_sum ?p = word_sum ?z + 65535"
    using word_sum_append [OF assms(1), of "le16 0xffff @ post"] word_sum_append [of "le16 0xffff" post]
    unfolding z by simp
  have lt: "word_sum ?p < 2 ^ 32" by (rule word_sum_lt) (use assms(2) in simp)
  have "fold16 (word_sum ?z) = 65535"
    using True in_cksum_zero_iff [OF word_sum_lt [of ?z]] assms(2) by simp
  then have "fold16 (word_sum ?p) = 65535" unfolding p by (rule fold16_ffff) (use lt p in simp)
  then have "in_cksum ?p = 0" using in_cksum_zero_iff [OF lt] by blast
  then show ?thesis using True by (simp add: udp_sum_def)
qed
section \<open>The datagram on its way back\<close>

text \<open>
  A header with its checksum; and what the kernel makes of the header of a raw socket with
  \<open>IP_HDRINCL\<close>: the length, given in host byte order, goes out in network byte order, an identification
  of 0 is replaced by one of the kernel's, and the checksum is filled in.
\<close>

definition with_ip_sum :: "byte list \<Rightarrow> byte list" where
  "with_ip_sum h = store 10 (le16 (in_cksum (store 10 [0, 0] h))) h"

definition kernel_header :: "16 word \<Rightarrow> byte list \<Rightarrow> byte list" where
  "kernel_header ident h =
     (let h1 = store 2 (be16 (le16_at h 2)) h;
          h2 = (if be16_at h 4 = 0 then store 4 (be16 ident) h1 else h1)
      in with_ip_sum h2)"

lemma kernel_header_eq:
  assumes "length src = 4" and "length dst = 4"
  shows "kernel_header ident ([0x45, 0] @ le16 w @ [0, 0, 0, 0] @ [64] @ [pr] @ be16 x @ src @ dst)
    = ([0x45, 0] @ be16 w @ be16 ident @ [0, 0] @ [64] @ [pr])
        @ le16 (in_cksum (([0x45, 0] @ be16 w @ be16 ident @ [0, 0] @ [64] @ [pr]) @ [0, 0] @ src @ dst)) @ src @ dst"
proof -
  let ?h = "[0x45, 0] @ le16 w @ [0, 0, 0, 0] @ [64] @ [pr] @ be16 x @ src @ dst"
  have l: "le16_at ?h 2 = w" using le16_at_le16 [of "[0x45, 0]" w] by (simp add: numeral_2_eq_2)
  have z: "be16_at ?h 4 = 0" by (simp add: be16_at_def le16_def)
  have split: "[0, 0, 0, 0] @ r = [0, 0] @ [0, 0 :: byte] @ r" for r by simp
  show ?thesis
    unfolding kernel_header_def Let_def l z if_P [OF refl] unfolding with_ip_sum_def split
    using assms by (simp add: store_fields del: append_Cons append.simps)
qed

text \<open>A frame: the link's header, whose type field is that of IP on an Ethernet, and the packet.\<close>

fun link_header :: "link \<Rightarrow> byte list \<Rightarrow> bool" where
  "link_header DLT_NULL lh = (length lh = 4)"
| "link_header DLT_EN10MB lh = (length lh = 14 \<and> be16_at lh 12 = 0x0800)"
| "link_header DLT_SLIP lh = (length lh = 24)"
| "link_header DLT_PPP lh = (length lh = 24)"
| "link_header (DLT_OTHER d) lh = False"

lemma be16_at_append: "i + 2 \<le> length xs \<Longrightarrow> be16_at (xs @ ys) i = be16_at xs i"
proof -
  assume "i + 2 \<le> length xs"
  then obtain a b r where "drop i xs = a # b # r"
    by (metis Cons_nth_drop_Suc Suc_le_lessD add_2_eq_Suc' less_Suc_eq_le linorder_not_le order.strict_trans2 Suc_lessD)
  moreover have "drop i (xs @ ys) = drop i xs @ ys" using \<open>i + 2 \<le> length xs\<close> by simp
  ultimately show ?thesis by (simp add: be16_at_def)
qed

lemma udp_read_frame:
  assumes "link_header dl lh"
  shows "udp_read dl (lh @ p) (int (length lh) + n) = udp_check (lh @ p) (length lh) n"
  using assms by (cases dl) (simp_all add: udp_read_def be16_at_append)

text \<open>An acceptable packet: an IP header \<open>h\<close>, and a UDP datagram \<open>u\<close>.\<close>

definition packet_ok :: "byte list \<Rightarrow> byte list \<Rightarrow> bool" where
  "packet_ok h u \<longleftrightarrow> 20 \<le> length h \<and> unat (h ! 0) div 16 = 4 \<and> hdr_len h 0 = length h
     \<and> in_cksum h = 0 \<and> ip_p h 0 = IPPROTO_UDP \<and> 8 \<le> length u"

lemma udp_check_accepts:
  assumes "packet_ok h u" and "int (length h + length u) < 2 ^ 64"
  shows "udp_check (lh @ h @ u) (length lh) (int (length h + length u)) = Ok (Packet (store 10 [0, 0] (h @ u)))"
proof -
  have h: "20 \<le> length h" "unat (h ! 0) div 16 = 4" "hdr_len h 0 = length h" "in_cksum h = 0"
    "ip_p h 0 = IPPROTO_UDP" "8 \<le> length u" using assms(1) by (simp_all add: packet_ok_def)
  have hd: "(h @ u) ! 0 = h ! 0" "(h @ u) ! 9 = h ! 9" using h(1) by (auto simp: nth_append)
  have hl: "hdr_len (h @ u) 0 = length h" using h(3) hd by (simp add: hdr_len_def)
  have pr: "ip_p (h @ u) 0 = IPPROTO_UDP" using h(5) hd by (simp add: ip_p_def)
  have sz: "as_size (int (length h + length u)) = length h + length u"
    using assms(2) by (simp add: as_size_def)
  show ?thesis
    unfolding udp_check_def Let_def sz using h hl pr hd by (simp add: le16_def)
qed

lemma ui_sum_store10: "28 \<le> length p \<Longrightarrow> ui_sum (store 10 [0, 0] p) = ui_sum p"
  by (simp add: ui_sum_def le16_at_def store_def nth_append)

lemma test_udp_alarms:
  "length ts + k \<le> 3 \<Longrightarrow> ts \<noteq> [] \<Longrightarrow>
     test_udp dl ts (replicate k Alarm @ es) = test_udp dl (ts @ map (\<lambda>i. 2 ^ (i + 1) * last ts) [0..<k]) es"
proof (induction k arbitrary: ts)
  case (Suc k)
  have "[0..<Suc k] = 0 # map Suc [0..<k]" by (simp add: map_Suc_upt upt_conv_Cons del: upt_Suc)
  then have "map (\<lambda>i. 2 ^ (i + 1) * last ts) [0..<Suc k] = 2 * last ts # map (\<lambda>i. 2 ^ (i + 2) * last ts) [0..<k]"
    by (simp add: comp_def del: upt_Suc)
  then show ?case using Suc.IH [of "ts @ [2 * last ts]"] Suc.prems by (simp add: mult.assoc del: upt_Suc)
qed simp

text \<open>An answer that comes after \<open>k\<close> timeouts.\<close>

lemma test_udp_answer:
  assumes "packet_ok h u" and "link_header dl lh" and "int (length h + length u) < 2 ^ 64" and "k < 3"
  shows "test_udp dl [3] (replicate k Alarm @ [Frame (lh @ h @ u) (int (length lh + length h + length u))])
    = Ok (take (k + 1) [3, 6, 12], Checksums (ui_sum (h @ u) \<noteq> 0))"
proof -
  have r: "udp_read dl (lh @ h @ u) (int (length lh + length h + length u)) = Ok (Packet (store 10 [0, 0] (h @ u)))"
    using udp_read_frame [OF assms(2), of "h @ u" "int (length h + length u)"] udp_check_accepts [OF assms(1,3)]
    by (simp add: add.assoc)
  have l: "28 \<le> length (h @ u)" using assms(1) by (simp add: packet_ok_def)
  have "k = 0 \<or> k = 1 \<or> k = 2" using assms(4) by auto
  then have "[3] @ map (\<lambda>i. 2 ^ (i + 1) * last [3]) [0..<k] = take (k + 1) [3, 6, 12 :: nat]"
    by (auto simp: upt_conv_Cons)
  then show ?thesis
    using test_udp_alarms [of "[3]" k dl "[Frame (lh @ h @ u) (int (length lh + length h + length u))]"]
      assms(4) r l by (simp add: ui_sum_store10)
qed
text \<open>The program's own datagram, as the kernel sends it.\<close>

lemma own_packet_ok:
  fixes z :: bool and ident :: "16 word" and tail :: "byte list"
  assumes "length hdr = 28" and "length (s_addr local) = 4" and "length (s_addr dest) = 4" and "n = length data"
  defines "d \<equiv> udp_write z local dest (hdr @ data @ tail) n"
  shows "packet_ok (kernel_header ident (take 20 d)) (drop 20 d)" and "length (kernel_header ident (take 20 d)) = 20"
    and "length d = n + 28"
    and "ui_sum (kernel_header ident (take 20 d) @ drop 20 d)
      = udp_sum z (pseudo (s_addr local) (s_addr dest) (8 + n)
          @ udp_header (port_no local) (port_no dest) (8 + n) @ [0, 0] @ data)"
proof -
  let ?u = "udp_header (port_no local) (port_no dest) (8 + n)"
  let ?s = "udp_sum z (pseudo (s_addr local) (s_addr dest) (8 + n) @ ?u @ [0, 0] @ data)"
  let ?h = "[0x45, 0] @ le16 (word_of_nat (n + 28)) @ [0, 0, 0, 0] @ [64] @ [IPPROTO_UDP]
      @ be16 (word_of_nat (8 + n)) @ s_addr local @ s_addr dest"
  let ?pre = "[0x45, 0] @ be16 (word_of_nat (n + 28)) @ be16 ident @ [0, 0] @ [64] @ [IPPROTO_UDP]"
  let ?post = "s_addr local @ s_addr dest"
  have d: "d = ?h @ ?u @ le16 ?s @ data" unfolding d_def udp_write_eq [OF assms(1-4)] by simp
  have l: "length ?h = 20" using assms(2,3) by simp
  have h: "take 20 d = ?h" "drop 20 d = ?u @ le16 ?s @ data" unfolding d using l by simp_all
  have w: "kernel_header ident ?h = ?pre @ le16 (in_cksum (?pre @ [0, 0] @ ?post)) @ ?post"
    by (rule kernel_header_eq [OF assms(2,3)])
  have c: "in_cksum (kernel_header ident ?h) = 0" unfolding w
    by (rule in_cksum_filled_in) (use assms(2,3) in simp_all)
  show lw: "length (kernel_header ident (take 20 d)) = 20" unfolding h w using assms(2,3) by simp
  have n: "kernel_header ident ?h ! 0 = 0x45" "kernel_header ident ?h ! 9 = IPPROTO_UDP"
    unfolding w by (simp_all add: le16_def be16_def)
  show "packet_ok (kernel_header ident (take 20 d)) (drop 20 d)"
    unfolding packet_ok_def using c n lw unfolding h by (simp add: hdr_len_def ip_p_def)
  show "length d = n + 28" unfolding d using l assms(4) by simp
  have "length (kernel_header ident ?h @ ?u) = 26" using lw h by simp
  then show "ui_sum (kernel_header ident (take 20 d) @ drop 20 d) = ?s"
    using le16_at_le16 [of "kernel_header ident ?h @ ?u" ?s data] unfolding h ui_sum_def by simp
qed

section \<open>Properties\<close>

text \<open>
  The datagram the program sends carries a right UDP checksum, computed over the pseudoheader of
  addresses, protocol and length: the receiver's sum over pseudoheader and datagram is 0, for data of
  every length that fits into a datagram, an odd one too. The field is 0 only when a datagram without
  checksum was asked for, never because the sum happens to be 0. The lengths in the two headers are
  right, and what lies behind the data in memory is not sent.
\<close>

theorem udp_checksum_verifies:
  assumes "length hdr = 28" and "length (s_addr local) = 4" and "length (s_addr dest) = 4"
    and "length data \<le> 65507"
  shows "(let d = udp_write z local dest (hdr @ data @ tail) (length data) in
      length d = length data + 28 \<and> drop 28 d = data \<and> le16_at d 2 = word_of_nat (length d)
    \<and> be16_at d 24 = word_of_nat (length data + 8)
    \<and> (ui_sum d = 0 \<longleftrightarrow> z)
    \<and> (\<not> z \<longrightarrow> in_cksum (pseudo (s_addr local) (s_addr dest) (length data + 8) @ drop 20 d) = 0))"
proof -
  let ?n = "length data"
  let ?u = "udp_header (port_no local) (port_no dest) (8 + ?n)"
  let ?ps = "pseudo (s_addr local) (s_addr dest) (8 + ?n)"
  let ?s = "udp_sum z (?ps @ ?u @ [0, 0] @ data)"
  let ?a = "s_addr local" and ?b = "s_addr dest"
  define d where "d = udp_write z local dest (hdr @ data @ tail) ?n"
  have lu: "length ?ps = 20" using assms(2,3) by (simp add: pseudo_def)
  have d: "d = [0x45, 0] @ le16 (word_of_nat (?n + 28)) @ [0, 0, 0, 0] @ [64] @ [IPPROTO_UDP]
      @ be16 (word_of_nat (8 + ?n)) @ ?a @ ?b @ ?u @ le16 ?s @ data"
    unfolding d_def by (rule udp_write_eq [OF assms(1-3) refl])
  have len: "length d = ?n + 28" unfolding d using assms(2,3) lu by simp
  have "drop 28 d = data" "drop 20 d = ?u @ le16 ?s @ data" unfolding d using assms(2,3) lu by simp_all
  moreover have "le16_at d 2 = word_of_nat (?n + 28)" unfolding d
    using le16_at_le16 [of "[0x45, 0]" "word_of_nat (?n + 28)"] by (simp add: numeral_2_eq_2)
  moreover have "be16_at d 24 = word_of_nat (8 + ?n)"
  proof -
    have "drop 24 d = be16 (word_of_nat (8 + ?n)) @ le16 ?s @ data"
      unfolding d udp_header_def using assms(2,3) by simp
    then show ?thesis by (simp add: be16_at_def)
  qed
  moreover have "ui_sum d = ?s" unfolding d ui_sum_def
    using le16_at_le16 [of "[0x45, 0] @ le16 (word_of_nat (?n + 28)) @ [0, 0, 0, 0] @ [64] @ [IPPROTO_UDP]
      @ be16 (word_of_nat (8 + ?n)) @ ?a @ ?b @ ?u" ?s data] assms(2,3) lu by simp
  moreover have "?s = 0 \<longleftrightarrow> z" by (simp add: udp_sum_def)
  moreover have "\<not> z \<Longrightarrow> in_cksum (?ps @ ?u @ le16 ?s @ data) = 0"
    using udp_sum_verifies [of "?ps @ ?u" data] lu assms(4) by simp
  ultimately show ?thesis using len unfolding Let_def d_def [symmetric] by (simp add: add.commute)
qed

theorem udp_checksum_verifies_witness:
  "ui_sum (send_dns_query False \<lparr>s_addr = [10, 0, 0, 2], port_no = 4000\<rparr>
     \<lparr>s_addr = [10, 0, 0, 1], port_no = 53\<rparr> (replicate 28 7) [9, 9]) \<noteq> 0"
proof -
  have "length dns_query \<le> 65507" by (simp add: dns_query_def)
  from udp_checksum_verifies [OF _ _ _ this, of "replicate 28 7" "\<lparr>s_addr = [10, 0, 0, 2], port_no = 4000\<rparr>"
    "\<lparr>s_addr = [10, 0, 0, 1], port_no = 53\<rparr>" False "[9, 9]"]
  show ?thesis by (simp add: send_dns_query_def Let_def)
qed

text \<open>
  C19: The test tells right. A datagram with at most 65507 bytes of data that the program itself would send, as the kernel puts it on the wire (length
  in network byte order, identification and header checksum filled in; not fragmented), captured on any of
  the four kinds of link as the answer after \<open>k\<close> timeouts, makes it report that UDP checksums are on when the
  datagram carries one and that they are off when it does not; the timeouts of its queries are 3, 6
  and 12 seconds.
\<close>

theorem udpcksum_detects:
  assumes "length hdr = 28" and "length (s_addr local) = 4" and "length (s_addr dest) = 4"
    and "length data \<le> 65507" and "link_header dl lh" and "k < 3"
  shows "(let d = udp_write z local dest (hdr @ data @ tail) (length data);
              frame = lh @ kernel_header ident (take 20 d) @ drop 20 d
    in test_udp dl [3] (replicate k Alarm @ [Frame frame (int (length frame))])
       = Ok (take (k + 1) [3, 6, 12], Checksums (\<not> z)))"
proof -
  define d where "d = udp_write z local dest (hdr @ data @ tail) (length data)"
  note own = own_packet_ok [OF assms(1-3) refl, where z = z and tail = tail and data = data, folded d_def]
  have sum: "ui_sum (kernel_header ident (take 20 d) @ drop 20 d) = 0 \<longleftrightarrow> z"
    unfolding own(4) by (simp add: udp_sum_def)
  have "length lh \<le> 24" using assms(5) by (cases dl) auto
  then have "test_udp dl [3] (replicate k Alarm @ [Frame (lh @ kernel_header ident (take 20 d) @ drop 20 d)
      (int (length lh + length (kernel_header ident (take 20 d)) + length (drop 20 d)))])
    = Ok (take (k + 1) [3, 6, 12], Checksums (\<not> z))"
    using test_udp_answer [OF own(1) assms(5) _ assms(6)] sum own(2,3) assms(4) by simp
  then show ?thesis unfolding Let_def d_def [symmetric] by (simp add: add.assoc)
qed
definition demo_query :: "byte list" where
  "demo_query = udp_write True \<lparr>s_addr = [10, 0, 0, 2], port_no = 4000\<rparr> \<lparr>s_addr = [10, 0, 0, 1], port_no = 53\<rparr>
     (replicate 28 0 @ [1, 2, 3] @ [9]) (length [1, 2, 3 :: byte])"

theorem udpcksum_detects_witness:
  "let frame = replicate 24 0 @ kernel_header 77 (take 20 demo_query) @ drop 20 demo_query
   in test_udp DLT_SLIP [3] [Alarm, Frame frame (int (length frame))] = Ok ([3, 6], Checksums False)"
proof -
  have "[Alarm, e] = replicate 1 Alarm @ [e]" "[3, 6 :: nat] = take (1 + 1) [3, 6, 12]" for e by simp_all
  then show ?thesis
    using udpcksum_detects [of "replicate 28 0" "\<lparr>s_addr = [10, 0, 0, 2], port_no = 4000\<rparr>"
        "\<lparr>s_addr = [10, 0, 0, 1], port_no = 53\<rparr>" "[1, 2, 3]" DLT_SLIP "replicate 24 0" 1 True "[9]" 77, folded demo_query_def]
    by (simp add: Let_def del: test_udp.simps)
qed

text \<open>
  A frame that is cut short inside the header of its link is not noticed: the length handed to
  \<open>udp_check\<close> is then negative, and as a \<open>size_t\<close> it passes both comparisons, so whatever lies in
  memory behind the captured bytes is judged as the packet. And the UDP header is looked for at
  offset 20 even behind an IP header with options: then the report is about two bytes of the options.
\<close>

theorem udp_check_misses:
  assumes "link_header dl lh" and "packet_ok h u" and "length u < 2 ^ 16" and "0 \<le> caplen"
    and "caplen < int (length lh)"
  shows "test_udp dl ts [Frame (lh @ h @ u) caplen] = Ok (ts, Checksums (ui_sum (h @ u) \<noteq> 0))
    \<and> (28 \<le> length h \<longrightarrow> ui_sum (h @ u) = le16_at h 26)"
proof -
  have h: "20 \<le> length h" "unat (h ! 0) div 16 = 4" "hdr_len h 0 = length h" "in_cksum h = 0"
    "ip_p h 0 = IPPROTO_UDP" "8 \<le> length u" using assms(2) by (simp_all add: packet_ok_def)
  have hd: "(h @ u) ! 0 = h ! 0" "(h @ u) ! 9 = h ! 9" using h(1) by (auto simp: nth_append)
  have hl: "hdr_len (h @ u) 0 = length h" using h(3) hd by (simp add: hdr_len_def)
  have pr: "ip_p (h @ u) 0 = IPPROTO_UDP" using h(5) hd by (simp add: ip_p_def)
  have l24: "length lh \<le> 24" using assms(1) by (cases dl) auto
  let ?n = "caplen - int (length lh)"
  have "?n mod 2 ^ 64 = ?n + 2 ^ 64"
    using mod_add_self2 [of ?n "2 ^ 64"] mod_pos_pos_trivial [of "?n + 2 ^ 64" "2 ^ 64"] assms(4,5) l24 by simp
  then have sz: "100 \<le> as_size ?n" unfolding as_size_def using assms(4) l24 by simp
  have "length h \<le> 60" using hdr_len_le [of h 0] h(3) by simp
  then have big: "\<not> as_size ?n < 20 + 8" "\<not> as_size ?n < length h + 8" using sz by simp_all
  have "udp_check (lh @ h @ u) (length lh) ?n = Ok (Packet (store 10 [0, 0] (h @ u)))"
    unfolding udp_check_def Let_def using big h hl pr hd by (simp add: le16_def)
  then have "udp_read dl (lh @ h @ u) caplen = Ok (Packet (store 10 [0, 0] (h @ u)))"
    using udp_read_frame [OF assms(1), of "h @ u" ?n] by simp
  moreover have "28 \<le> length h \<Longrightarrow> ui_sum (h @ u) = le16_at h 26"
    by (simp add: ui_sum_def le16_at_def nth_append)
  ultimately show ?thesis using h(1,6) by (simp add: ui_sum_store10)
qed
text \<open>A header with options, whose checksum is right, and a datagram with the checksum \<open>0x1234\<close>.\<close>

definition demo_options :: "byte list" where
  "demo_options = with_ip_sum ([0x47, 0, 0, 36, 0, 0, 0, 0, 64, IPPROTO_UDP, 0, 0, 10, 0, 0, 1, 10, 0, 0, 2]
     @ [1, 1, 1, 1, 1, 1, 0, 0])"

theorem udp_check_misses_witness:
  "test_udp DLT_PPP [3] [Frame (replicate 24 0 @ demo_options @ [0, 53, 15, 160, 0, 8, 0x12, 0x34]) 2]
     = Ok ([3], Checksums False)"
proof -
  let ?pre = "[0x47, 0, 0, 36, 0, 0, 0, 0, 64, IPPROTO_UDP] :: byte list"
  let ?post = "[10, 0, 0, 1, 10, 0, 0, 2] @ [1, 1, 1, 1, 1, 1, 0, 0 :: byte]"
  have eq: "demo_options = ?pre @ le16 (in_cksum (?pre @ [0, 0] @ ?post)) @ ?post"
    by (simp add: demo_options_def with_ip_sum_def store_def numeral_eq_Suc)
  have "in_cksum demo_options = 0" unfolding eq by (rule in_cksum_filled_in) simp_all
  then have "packet_ok demo_options [0, 53, 15, 160, 0, 8, 0x12, 0x34]"
    unfolding packet_ok_def by (simp add: eq hdr_len_def ip_p_def)
  from udp_check_misses [OF _ this, of DLT_PPP "replicate 24 0" 2 "[3]"]
  have "test_udp DLT_PPP [3] [Frame (replicate 24 0 @ demo_options @ [0, 53, 15, 160, 0, 8, 0x12, 0x34]) 2]
     = Ok ([3], Checksums (ui_sum (demo_options @ [0, 53, 15, 160, 0, 8, 0x12, 0x34]) \<noteq> 0))"
    by (simp del: test_udp.simps)
  moreover have "ui_sum (demo_options @ [0, 53, 15, 160, 0, 8, 0x12, 0x34]) = 0"
    by (simp add: ui_sum_def le16_at_def eq le16_def)
  ultimately show ?thesis by (simp del: test_udp.simps)
qed

end
