(* ===== verification/RouteSock.thy ===== *)
theory RouteSock
  imports Icmp
begin

unbundle bit_operations_syntax

text \<open>
  Interface lists from \<open>sysctl\<close>: \<^verbatim>\<open>unpv13e/libroute\<close> (\<open>get_rtaddrs\<close>, \<open>if_nametoindex\<close>,
  \<open>if_indextoname\<close>, \<open>if_nameindex\<close>) and \<open>get_ifi_info\<close> of \<^verbatim>\<open>unpv13e/route\<close>. The buffer \<open>net_rt_iflist\<close>
  gets from the kernel is an argument (\<open>None\<close>: it failed), and so are the sizes of the two message
  headers, \<open>hdr\<close> for \<open>struct if_msghdr\<close> and \<open>ahdr\<close> for \<open>struct ifa_msghdr\<close>; the fields the code reads
  are at the same offsets in both. Pointers into the buffer are offsets.
\<close>

section \<open>Socket addresses in a message\<close>

text \<open>\<open>ROUNDUP\<close> to a multiple of \<open>sz\<close>, a power of 2; \<open>NEXT_SA\<close> with \<open>sizeof(u_long)\<close> 8.\<close>

definition ROUNDUP :: "nat \<Rightarrow> nat \<Rightarrow> nat" where
  "ROUNDUP a sz = (if a AND (sz - 1) \<noteq> 0 then 1 + (a OR (sz - 1)) else a)"

definition NEXT_SA :: "byte list \<Rightarrow> nat \<Rightarrow> nat" where
  "NEXT_SA buf sa = sa + (if buf ! sa \<noteq> 0 then ROUNDUP (unat (buf ! sa)) 8 else 8)"

abbreviation RTAX_MAX :: nat where "RTAX_MAX \<equiv> 8"
abbreviation RTAX_IFP :: nat where "RTAX_IFP \<equiv> 4"
abbreviation RTAX_IFA :: nat where "RTAX_IFA \<equiv> 5"
abbreviation RTAX_BRD :: nat where "RTAX_BRD \<equiv> 7"

text \<open>The loop over the bits \<open>is\<close> of \<open>addrs\<close>: for each, where its address is.\<close>

fun rtaddrs_loop :: "byte list \<Rightarrow> nat \<Rightarrow> nat \<Rightarrow> nat list \<Rightarrow> nat option list outcome" where
  "rtaddrs_loop buf addrs sa [] = Ok []"
| "rtaddrs_loop buf addrs sa (i # is) =
     (if bit addrs i then
        (if sa < length buf
         then bind_outcome (rtaddrs_loop buf addrs (NEXT_SA buf sa) is) (\<lambda>r. Ok (Some sa # r))
         else Undefined)
      else bind_outcome (rtaddrs_loop buf addrs sa is) (\<lambda>r. Ok (None # r)))"

definition get_rtaddrs :: "byte list \<Rightarrow> nat \<Rightarrow> nat \<Rightarrow> nat option list outcome" where
  "get_rtaddrs buf addrs sa = rtaddrs_loop buf addrs sa [0..<RTAX_MAX]"

section \<open>Messages\<close>

definition RTM_NEWADDR :: byte where "RTM_NEWADDR = 0xc"
definition RTM_IFINFO :: byte where "RTM_IFINFO = 0xe"
definition AF_LINK :: byte where "AF_LINK = 18"

definition msglen :: "byte list \<Rightarrow> nat \<Rightarrow> nat" where
  "msglen buf m = unat (le16_at buf m)"

definition msg_type :: "byte list \<Rightarrow> nat \<Rightarrow> byte" where
  "msg_type buf m = buf ! (m + 3)"

definition msg_addrs :: "byte list \<Rightarrow> nat \<Rightarrow> nat" where
  "msg_addrs buf m = nat (of_le (take 4 (drop (m + 4) buf)))"

definition msg_flags :: "byte list \<Rightarrow> nat \<Rightarrow> nat" where
  "msg_flags buf m = nat (of_le (take 4 (drop (m + 8) buf)))"

text \<open>The fields of a \<open>struct sockaddr_dl\<close>.\<close>

definition sa_fam :: "byte list \<Rightarrow> nat \<Rightarrow> byte" where
  "sa_fam buf sa = buf ! (sa + 1)"

definition sdl_index :: "byte list \<Rightarrow> nat \<Rightarrow> 16 word" where
  "sdl_index buf sdl = le16_at buf (sdl + 2)"

definition sdl_nlen :: "byte list \<Rightarrow> nat \<Rightarrow> nat" where
  "sdl_nlen buf sdl = unat (buf ! (sdl + 5))"

definition sdl_alen :: "byte list \<Rightarrow> nat \<Rightarrow> nat" where
  "sdl_alen buf sdl = unat (buf ! (sdl + 6))"

definition sdl_data :: "byte list \<Rightarrow> nat \<Rightarrow> byte list" where
  "sdl_data buf sdl = drop (sdl + 8) buf"

text \<open>
  The loop over the messages of the buffer, which the functions share. The body goes on with a new
  state or returns. A message of length 0 leaves \<open>next\<close> where it is, for ever.
\<close>

datatype ('s, 'r) flow = Next 's | Return 'r

function each_msg :: "(nat \<Rightarrow> 's \<Rightarrow> ('s, 'r) flow outcome) \<Rightarrow> byte list \<Rightarrow> nat \<Rightarrow> 's \<Rightarrow> ('s, 'r) flow outcome" where
  "each_msg body buf m s =
     (if m < length buf then
        if length buf < m + 12 then Undefined
        else bind_outcome (body m s) (\<lambda>r.
               case r of
                 Return x \<Rightarrow> Ok (Return x)
               | Next s' \<Rightarrow> if msglen buf m = 0 then Hangs else each_msg body buf (m + msglen buf m) s')
      else Ok (Next s))"
  by pat_completeness auto
termination by (relation "measure (\<lambda>(_, buf, m, _). length buf - m)") auto

declare each_msg.simps [simp del]

text \<open>The address \<open>RTAX_IFP\<close> of an \<open>RTM_IFINFO\<close> message, when it is one of family \<open>AF_LINK\<close>.\<close>

definition link_addr :: "nat \<Rightarrow> byte list \<Rightarrow> nat \<Rightarrow> nat option outcome" where
  "link_addr hdr buf m =
     (if msg_type buf m = RTM_IFINFO then
        bind_outcome (get_rtaddrs buf (msg_addrs buf m) (m + hdr)) (\<lambda>info.
          case info ! RTAX_IFP of
            None \<Rightarrow> Ok None
          | Some sa \<Rightarrow> if length buf < sa + 8 then Undefined
                       else Ok (if sa_fam buf sa = AF_LINK then Some sa else None))
      else Ok None)"

section \<open>Names and indexes\<close>

definition if_nametoindex :: "nat \<Rightarrow> (nat \<Rightarrow> byte list option) \<Rightarrow> byte list \<Rightarrow> nat outcome" where
  "if_nametoindex hdr iflist name =
     (case iflist 0 of
        None \<Rightarrow> Ok 0
      | Some buf \<Rightarrow>
          bind_outcome (each_msg (\<lambda>m s.
              bind_outcome (link_addr hdr buf m) (\<lambda>a.
                case a of
                  None \<Rightarrow> Ok (Next s)
                | Some sdl \<Rightarrow>
                    if sdl_nlen buf sdl = length name \<and> take (sdl_nlen buf sdl) (sdl_data buf sdl) = name
                    then Ok (Return (unat (sdl_index buf sdl))) else Ok (Next s)))
            buf 0 ())
          (\<lambda>r. case r of Return idx \<Rightarrow> Ok idx | Next _ \<Rightarrow> Ok 0))"

text \<open>\<open>strncpy\<close> of at most \<open>n\<close> characters, and a NUL behind them: the string that is there then.\<close>

definition strncpy :: "nat \<Rightarrow> byte list \<Rightarrow> byte list" where
  "strncpy n s = takeWhile (\<lambda>b. b \<noteq> 0) (take n s)"

definition if_indextoname :: "nat \<Rightarrow> (nat \<Rightarrow> byte list option) \<Rightarrow> nat \<Rightarrow> byte list option outcome" where
  "if_indextoname hdr iflist idx =
     (case iflist idx of
        None \<Rightarrow> Ok None
      | Some buf \<Rightarrow>
          bind_outcome (each_msg (\<lambda>m s.
              bind_outcome (link_addr hdr buf m) (\<lambda>a.
                case a of
                  None \<Rightarrow> Ok (Next s)
                | Some sdl \<Rightarrow>
                    if unat (sdl_index buf sdl) = idx
                    then Ok (Return (strncpy (min 15 (sdl_nlen buf sdl)) (sdl_data buf sdl))) else Ok (Next s)))
            buf 0 ())
          (\<lambda>r. case r of Return name \<Rightarrow> Ok (Some name) | Next _ \<Rightarrow> Ok None))"

text \<open>
  \<open>if_nameindex\<close> fills one block of \<open>len\<close> bytes from both ends: entries of 16 bytes from the front,
  the names from the back, \<open>namptr\<close> being where the last one starts. Were they to meet, an entry
  would be stored over a name, or a name before the block.
\<close>

definition if_nameindex :: "nat \<Rightarrow> (nat \<Rightarrow> byte list option) \<Rightarrow> (nat \<times> byte list) list option outcome" where
  "if_nameindex hdr iflist =
     (case iflist 0 of
        None \<Rightarrow> Ok None
      | Some buf \<Rightarrow>
          bind_outcome (each_msg (\<lambda>m (entries, namptr).
              bind_outcome (link_addr hdr buf m) (\<lambda>a.
                case a of
                  None \<Rightarrow> Ok (Next (entries, namptr))
                | Some sdl \<Rightarrow>
                    let namptr' = namptr - int (sdl_nlen buf sdl + 1) in
                    if int (16 * (length entries + 1)) \<le> namptr'
                    then Ok (Next (entries @ [(unat (sdl_index buf sdl), strncpy (sdl_nlen buf sdl) (sdl_data buf sdl))],
                                   namptr'))
                    else Undefined))
            buf 0 ([], int (length buf)))
          (\<lambda>r. case r of
                 Return (_ :: unit) \<Rightarrow> Ok None
               | Next (entries, namptr) \<Rightarrow>
                   if int (16 * (length entries + 1)) \<le> namptr then Ok (Some entries) else Undefined))"

section \<open>Interface information\<close>

record ifi_info =
  ifi_name :: "byte list"
  ifi_index :: "16 word"
  ifi_flags :: "16 word"
  ifi_hlen :: nat
  ifi_haddr :: "byte list"
  ifi_addr :: "byte list option"
  ifi_brdaddr :: "byte list option"
  ifi_dstaddr :: "byte list option"

definition ifi_zero :: ifi_info where
  "ifi_zero = \<lparr>ifi_name = [], ifi_index = 0, ifi_flags = 0, ifi_hlen = 0, ifi_haddr = replicate 8 0,
     ifi_addr = None, ifi_brdaddr = None, ifi_dstaddr = None\<rparr>"

text \<open>The flags \<open>IFF_UP\<close>, \<open>IFF_BROADCAST\<close> and \<open>IFF_POINTOPOINT\<close>: \<open>0x1\<close>, \<open>0x2\<close> and \<open>0x10\<close>.\<close>

abbreviation iff_up :: "nat \<Rightarrow> bool" where "iff_up flags \<equiv> bit flags 0"
abbreviation iff_broadcast :: "nat \<Rightarrow> bool" where "iff_broadcast flags \<equiv> bit flags 1"
abbreviation iff_pointopoint :: "nat \<Rightarrow> bool" where "iff_pointopoint flags \<equiv> bit flags 4"

text \<open>
  \<open>snprintf(..., 16, "%*s", nlen, data)\<close>: \<open>nlen\<close> is the least width, not the length; the text ends at
  the first NUL behind \<open>data\<close>.
\<close>

definition star_s :: "nat \<Rightarrow> byte list \<Rightarrow> byte list outcome" where
  "star_s nlen data =
     (if 0 \<in> set data
      then let s = takeWhile (\<lambda>b. b \<noteq> 0) data in Ok (take 15 (replicate (nlen - length s) 32 @ s))
      else Undefined)"

definition index_name :: "16 word \<Rightarrow> byte list" where
  "index_name i = take 15 (map of_char (''index '' @ dec (unat i)))"

text \<open>The part for an interface that is up, and has a link address at \<open>sa\<close>.\<close>

definition new_ifi :: "byte list \<Rightarrow> nat \<Rightarrow> nat \<Rightarrow> ifi_info outcome" where
  "new_ifi buf flags sa =
     (let ifi = ifi_zero\<lparr>ifi_flags := word_of_nat flags\<rparr> in
      if length buf < sa + 8 then Undefined
      else if sa_fam buf sa = AF_LINK then
        bind_outcome (if sdl_nlen buf sa > 0 then star_s (sdl_nlen buf sa) (sdl_data buf sa)
                      else Ok (index_name (sdl_index buf sa))) (\<lambda>name.
          let alen = sdl_alen buf sa; n = min 8 alen;
              lladdr = take n (drop (sdl_nlen buf sa) (sdl_data buf sa)) in
          if length lladdr < n then Undefined
          else Ok (ifi\<lparr>ifi_index := sdl_index buf sa, ifi_name := name, ifi_hlen := alen,
                       ifi_haddr := lladdr @ drop n (ifi_haddr ifi)\<rparr>))
      else Ok ifi)"

text \<open>A copy of the socket address at \<open>sa\<close>, \<open>sa_len\<close> bytes of it.\<close>

definition sa_copy :: "byte list \<Rightarrow> nat \<Rightarrow> byte list outcome" where
  "sa_copy buf sa =
     (let n = unat (buf ! sa) in if length buf < sa + n then Undefined else Ok (take n (drop sa buf)))"

definition opt_copy :: "byte list \<Rightarrow> nat option \<Rightarrow> byte list option \<Rightarrow> byte list option outcome" where
  "opt_copy buf a old =
     (case a of None \<Rightarrow> Ok old | Some sa \<Rightarrow> bind_outcome (sa_copy buf sa) (\<lambda>bs. Ok (Some bs)))"

definition set_addrs :: "byte list \<Rightarrow> nat \<Rightarrow> nat option list \<Rightarrow> ifi_info \<Rightarrow> ifi_info outcome" where
  "set_addrs buf flags info ifi =
     bind_outcome (opt_copy buf (info ! RTAX_IFA) (ifi_addr ifi)) (\<lambda>a.
     bind_outcome (opt_copy buf (if iff_broadcast flags then info ! RTAX_BRD else None) (ifi_brdaddr ifi)) (\<lambda>b.
     bind_outcome (opt_copy buf (if iff_pointopoint flags then info ! RTAX_BRD else None) (ifi_dstaddr ifi)) (\<lambda>d.
       Ok (ifi\<lparr>ifi_addr := a, ifi_brdaddr := b, ifi_dstaddr := d\<rparr>))))"

text \<open>
  One message. The state is the list built so far, whose last element \<open>ifi\<close> points to, and \<open>flags\<close>,
  which is that of the last \<open>RTM_IFINFO\<close>; before the first, \<open>ifi\<close> and \<open>flags\<close> are not set. The loop
  returns when it meets a message of another type (\<open>err_quit\<close>).
\<close>

definition ifi_msg :: "nat \<Rightarrow> nat \<Rightarrow> bool \<Rightarrow> byte list \<Rightarrow> nat \<Rightarrow> ifi_info list \<times> nat \<Rightarrow>
    (ifi_info list \<times> nat, byte) flow outcome" where
  "ifi_msg hdr ahdr doaliases buf m = (\<lambda>(infos, flags0).
     if msg_type buf m = RTM_IFINFO then
       let flags = msg_flags buf m in
       if \<not> iff_up flags then Ok (Next (infos, flags))
       else bind_outcome (get_rtaddrs buf (msg_addrs buf m) (m + hdr)) (\<lambda>info.
              case info ! RTAX_IFP of
                None \<Rightarrow> Ok (Next (infos, flags))
              | Some sa \<Rightarrow> bind_outcome (new_ifi buf flags sa) (\<lambda>ifi. Ok (Next (infos @ [ifi], flags))))
     else if msg_type buf m = RTM_NEWADDR then
       if infos = [] then Undefined
       else let ifi = last infos in
            if ifi_addr ifi \<noteq> None \<and> \<not> doaliases then Ok (Next (infos, flags0))
            else
              let (front, ifi') = (if ifi_addr ifi \<noteq> None
                    then (infos, ifi\<lparr>ifi_addr := None, ifi_brdaddr := None, ifi_dstaddr := None\<rparr>)
                    else (butlast infos, ifi))
              in bind_outcome (get_rtaddrs buf (msg_addrs buf m) (m + ahdr)) (\<lambda>info.
                 bind_outcome (set_addrs buf flags0 info ifi') (\<lambda>ifi''. Ok (Next (front @ [ifi''], flags0))))
     else Ok (Return (msg_type buf m)))"

text \<open>\<open>None\<close>: the wrapper \<open>Net_rt_iflist\<close> or \<open>err_quit\<close> ends the process.\<close>

definition get_ifi_info :: "nat \<Rightarrow> nat \<Rightarrow> byte list option \<Rightarrow> bool \<Rightarrow> ifi_info list option outcome" where
  "get_ifi_info hdr ahdr iflist doaliases =
     (case iflist of
        None \<Rightarrow> Ok None
      | Some buf \<Rightarrow>
          bind_outcome (each_msg (ifi_msg hdr ahdr doaliases buf) buf 0 ([], 0)) (\<lambda>r.
            case r of Return ty \<Rightarrow> Ok None | Next (infos, _) \<Rightarrow> Ok (Some infos)))"
section \<open>Well-formed buffers\<close>

text \<open>A socket address is as long as its first byte says; in a message it is padded to 8 bytes.\<close>

definition sa_ok :: "byte list \<Rightarrow> bool" where
  "sa_ok bs \<longleftrightarrow> 0 < length bs \<and> unat (bs ! 0) = length bs"

definition padded :: "byte list \<Rightarrow> byte list" where
  "padded bs = bs @ replicate (8 * ((length bs + 7) div 8) - length bs) 0"

definition sas_bytes :: "byte list option list \<Rightarrow> byte list" where
  "sas_bytes as = concat (map (\<lambda>a. case a of None \<Rightarrow> [] | Some bs \<Rightarrow> padded bs) as)"

definition sas_ok :: "byte list option list \<Rightarrow> bool" where
  "sas_ok as \<longleftrightarrow> length as = RTAX_MAX \<and> (\<forall>bs. Some bs \<in> set as \<longrightarrow> sa_ok bs)"

definition addrs_mask :: "byte list option list \<Rightarrow> nat" where
  "addrs_mask as = horner_sum of_bool 2 (map (\<lambda>a. a \<noteq> None) as)"

text \<open>Where the addresses are that start at an offset.\<close>

fun places :: "nat \<Rightarrow> byte list option list \<Rightarrow> nat option list" where
  "places off [] = []"
| "places off (None # as) = None # places off as"
| "places off (Some bs # as) = Some off # places (off + length (padded bs)) as"

text \<open>A message of the kernel, with header of \<open>h\<close> bytes.\<close>

definition msg_bytes :: "nat \<Rightarrow> byte \<Rightarrow> nat \<Rightarrow> byte list option list \<Rightarrow> byte list" where
  "msg_bytes h ty flags as = le16 (word_of_nat (h + length (sas_bytes as))) @ [5, ty]
     @ le_bytes 4 (int (addrs_mask as)) @ le_bytes 4 (int flags) @ replicate (h - 12) 0 @ sas_bytes as"

lemma ROUNDUP_8: "ROUNDUP n 8 = 8 * ((n + 7) div 8)"
proof -
  have "int (n AND 7) + int (n OR 7) = int n + 7"
    using plus_and_or [of "int n" 7] by (simp add: of_nat_and_eq of_nat_or_eq)
  then have o: "(n AND 7) + (n OR 7) = n + 7" by linarith
  have "(7 :: nat) = mask 3" by (simp add: mask_eq_exp_minus_1)
  then have "n AND 7 = take_bit 3 n" by (simp only: take_bit_eq_mask)
  then have a: "n AND 7 = n mod 8" by (simp add: take_bit_eq_mod)
  show ?thesis
  proof (cases "n mod 8 = 0")
    case False
    then have "1 + (n OR 7) = 8 * (n div 8) + 8" using o unfolding a by presburger
    moreover have "(n + 7) div 8 = n div 8 + 1" using False by presburger
    ultimately show ?thesis using False a by (simp add: ROUNDUP_def)
  next
    case True
    then show ?thesis using a by (simp add: ROUNDUP_def) presburger
  qed
qed

lemma length_padded: "length (padded bs) = 8 * ((length bs + 7) div 8)"
proof -
  have "length bs \<le> 8 * ((length bs + 7) div 8)" by linarith
  then show ?thesis by (simp add: padded_def)
qed

lemma padded_pos: "sa_ok bs \<Longrightarrow> 8 \<le> length (padded bs)"
proof -
  assume "sa_ok bs"
  then have "8 \<le> length bs + 7" by (simp add: sa_ok_def Suc_le_eq)
  then have "8 div 8 \<le> (length bs + 7) div 8" by (rule div_le_mono)
  then have "8 \<le> 8 * ((length bs + 7) div 8)" by simp
  then show ?thesis by (simp only: length_padded)
qed

lemma nth_padded: "i < length bs \<Longrightarrow> padded bs ! i = bs ! i"
  by (simp add: padded_def nth_append)

lemma NEXT_SA_padded:
  assumes "sa_ok bs"
  shows "NEXT_SA (pre @ padded bs @ post) (length pre) = length pre + length (padded bs)"
proof -
  have b0: "(pre @ padded bs @ post) ! length pre = bs ! 0"
    using assms padded_pos [OF assms] nth_padded [of 0 bs] by (cases "padded bs") (auto simp: nth_append sa_ok_def)
  have nz: "bs ! 0 \<noteq> 0" using assms by (auto simp: sa_ok_def)
  show ?thesis using nz assms unfolding NEXT_SA_def b0
    by (simp add: ROUNDUP_8 length_padded sa_ok_def)
qed

lemma rtaddrs_loop_places:
  assumes "list_all2 (\<lambda>i a. bit addrs i \<longleftrightarrow> a \<noteq> None) is as" and "\<forall>bs. Some bs \<in> set as \<longrightarrow> sa_ok bs"
  shows "rtaddrs_loop (pre @ sas_bytes as @ post) addrs (length pre) is = Ok (places (length pre) as)"
  using assms
proof (induction arbitrary: pre rule: list_all2_induct)
  case (Cons i "is" a as)
  show ?case
  proof (cases a)
    case None
    then show ?thesis using Cons.IH [of pre] Cons.hyps(1) Cons.prems by (simp add: sas_bytes_def)
  next
    case (Some bs)
    have ok: "sa_ok bs" using Cons.prems Some by simp
    have buf: "pre @ sas_bytes (a # as) @ post = pre @ padded bs @ (sas_bytes as @ post)"
      by (simp add: sas_bytes_def Some)
    have nx: "NEXT_SA (pre @ padded bs @ (sas_bytes as @ post)) (length pre) = length (pre @ padded bs)"
      using NEXT_SA_padded [OF ok] by simp
    show ?thesis unfolding buf
      using nx Cons.IH [of "pre @ padded bs"] Cons.hyps(1) Cons.prems padded_pos [OF ok] Some
      by (cases "padded bs") auto
  qed
qed (simp add: sas_bytes_def)

lemma bit_addrs_mask: "bit (addrs_mask as) i \<longleftrightarrow> i < length as \<and> as ! i \<noteq> None"
  by (auto simp: addrs_mask_def bit_horner_sum_bit_iff)

lemma addrs_mask_lt: "sas_ok as \<Longrightarrow> addrs_mask as < 2 ^ 8"
  using horner_sum_of_bool_2_less [of "map (\<lambda>a. a \<noteq> None) as"] by (simp add: addrs_mask_def sas_ok_def)

lemma get_rtaddrs_places:
  assumes "sas_ok as"
  shows "get_rtaddrs (pre @ sas_bytes as @ post) (addrs_mask as) (length pre) = Ok (places (length pre) as)"
  unfolding get_rtaddrs_def
  by (rule rtaddrs_loop_places)
    (use assms in \<open>auto simp: sas_ok_def list_all2_conv_all_nth bit_addrs_mask simp del: upt_rec_numeral\<close>)

text \<open>What is at the places: the addresses.\<close>

lemma places_nth:
  assumes "i < length as" and "as ! i = Some bs"
  shows "\<exists>j post'. places (length pre) as ! i = Some j \<and> drop j (pre @ sas_bytes as @ post) = padded bs @ post'"
  using assms
proof (induction as arbitrary: i pre)
  case (Cons a as)
  show ?case
  proof (cases i)
    case 0
    then show ?thesis using Cons.prems by (simp add: sas_bytes_def)
  next
    case (Suc k)
    then show ?thesis
    proof (cases a)
      case None
      then show ?thesis using Cons.IH [of k pre] Cons.prems Suc by (simp add: sas_bytes_def)
    next
      case (Some b)
      then show ?thesis using Cons.IH [of k "pre @ padded b"] Cons.prems Suc by (simp add: sas_bytes_def)
    qed
  qed
qed simp

lemma places_None: "i < length as \<Longrightarrow> as ! i = None \<Longrightarrow> places off as ! i = None"
proof (induction as arbitrary: i off)
  case (Cons a as)
  then show ?case by (cases i; cases a) auto
qed simp

lemma length_msg_bytes: "12 \<le> h \<Longrightarrow> length (msg_bytes h ty flags as) = h + length (sas_bytes as)"
  by (simp add: msg_bytes_def)

text \<open>The fields of a message of the buffer.\<close>

lemma msg_fields:
  fixes pre post :: "byte list" and ty :: byte
  assumes "12 \<le> h" and "h + length (sas_bytes as) < 65536" and "sas_ok as" and "flags < 2 ^ 32"
  defines "buf \<equiv> pre @ msg_bytes h ty flags as @ post"
  shows "msglen buf (length pre) = length (msg_bytes h ty flags as)" and "msg_type buf (length pre) = ty"
    and "msg_addrs buf (length pre) = addrs_mask as" and "msg_flags buf (length pre) = flags"
    and "get_rtaddrs buf (addrs_mask as) (length pre + h) = Ok (places (length pre + h) as)"
proof -
  let ?n = "h + length (sas_bytes as)"
  show "msglen buf (length pre) = length (msg_bytes h ty flags as)"
    using le16_at_le16 [of pre "word_of_nat ?n"] assms(1,2)
    by (simp add: msglen_def buf_def msg_bytes_def unat_u16_of_nat del: of_nat_add)
  show "msg_type buf (length pre) = ty"
    by (simp add: msg_type_def buf_def msg_bytes_def nth_append)
  have d: "drop (length pre + 4) buf = le_bytes 4 (int (addrs_mask as)) @ le_bytes 4 (int flags)
      @ replicate (h - 12) 0 @ sas_bytes as @ post"
    by (simp add: buf_def msg_bytes_def)
  have "int (addrs_mask as) mod 256 ^ 4 = int (addrs_mask as)"
    using addrs_mask_lt [OF assms(3)] by (intro mod_pos_pos_trivial) simp_all
  then show "msg_addrs buf (length pre) = addrs_mask as" by (simp add: msg_addrs_def d of_le_bytes)
  have "drop (length pre + 8) buf = drop 4 (drop (length pre + 4) buf)" by (simp add: add.commute)
  also have "\<dots> = le_bytes 4 (int flags) @ replicate (h - 12) 0 @ sas_bytes as @ post" unfolding d by simp
  finally have f: "drop (length pre + 8) buf = \<dots>" .
  have "int flags mod 256 ^ 4 = int flags" using assms(4) by (intro mod_pos_pos_trivial) simp_all
  then show "msg_flags buf (length pre) = flags" by (simp add: msg_flags_def f of_le_bytes)
  let ?pre = "pre @ le16 (word_of_nat ?n) @ [5, ty] @ le_bytes 4 (int (addrs_mask as))
      @ le_bytes 4 (int flags) @ replicate (h - 12) 0"
  have "length ?pre = length pre + h" using assms(1) by simp
  moreover have "buf = ?pre @ sas_bytes as @ post" by (simp add: buf_def msg_bytes_def)
  ultimately show "get_rtaddrs buf (addrs_mask as) (length pre + h) = Ok (places (length pre + h) as)"
    using get_rtaddrs_places [OF assms(3), of ?pre post] by (simp only:)
qed
section \<open>The messages of the kernel\<close>

text \<open>
  \<open>If_info\<close>: an interface, with its index, name, hardware address and flags; \<open>New_addr\<close>: an address of
  the interface before it.
\<close>

datatype kmsg = If_info "16 word" "byte list" "byte list" nat | New_addr "byte list option list"

definition sdl_pad :: "byte list \<Rightarrow> byte list \<Rightarrow> byte list" where
  "sdl_pad nm mac = replicate (12 - (length nm + length mac)) 0"

definition sdl_bytes :: "16 word \<Rightarrow> byte list \<Rightarrow> byte list \<Rightarrow> byte list" where
  "sdl_bytes idx nm mac = [word_of_nat (max 20 (8 + length nm + length mac)), AF_LINK] @ le16 idx
     @ [6, word_of_nat (length nm), word_of_nat (length mac), 0] @ nm @ mac @ sdl_pad nm mac"

definition info_sas :: "16 word \<Rightarrow> byte list \<Rightarrow> byte list \<Rightarrow> byte list option list" where
  "info_sas idx nm mac = [None, None, None, None, Some (sdl_bytes idx nm mac), None, None, None]"

fun kmsg_bytes :: "nat \<Rightarrow> nat \<Rightarrow> kmsg \<Rightarrow> byte list" where
  "kmsg_bytes hdr ahdr (If_info idx nm mac flags) = msg_bytes hdr RTM_IFINFO flags (info_sas idx nm mac)"
| "kmsg_bytes hdr ahdr (New_addr as) = msg_bytes ahdr RTM_NEWADDR 0 as"

fun kmsg_ok :: "nat \<Rightarrow> kmsg \<Rightarrow> bool" where
  "kmsg_ok ahdr (If_info idx nm mac flags) = (length nm \<le> 15 \<and> 0 \<notin> set nm \<and> length mac \<le> 8 \<and> flags < 2 ^ 32)"
| "kmsg_ok ahdr (New_addr as) = (sas_ok as \<and> ahdr + length (sas_bytes as) < 65536)"

definition kbuf :: "nat \<Rightarrow> nat \<Rightarrow> kmsg list \<Rightarrow> byte list" where
  "kbuf hdr ahdr ms = concat (map (kmsg_bytes hdr ahdr) ms)"

definition kbuf_ok :: "nat \<Rightarrow> nat \<Rightarrow> kmsg list \<Rightarrow> bool" where
  "kbuf_ok hdr ahdr ms \<longleftrightarrow> 24 \<le> hdr \<and> hdr \<le> 1000 \<and> 12 \<le> ahdr \<and> (\<forall>m \<in> set ms. kmsg_ok ahdr m)"

lemma kbuf_split: "kbuf hdr ahdr (ms @ x # ns) = kbuf hdr ahdr ms @ kmsg_bytes hdr ahdr x @ kbuf hdr ahdr ns"
  by (simp add: kbuf_def)

text \<open>The fields of a link address in the buffer.\<close>

lemma sdl_fields_at:
  assumes "drop j buf = sdl_bytes idx nm mac @ r" and "length nm \<le> 15" and "length mac \<le> 8"
  shows "j + 8 \<le> length buf" and "sa_fam buf j = AF_LINK" and "sdl_index buf j = idx"
    and "sdl_nlen buf j = length nm" and "sdl_alen buf j = length mac"
    and "\<exists>r'. sdl_data buf j = nm @ mac @ sdl_pad nm mac @ r'"
proof -
  let ?l = "word_of_nat (max 20 (8 + length nm + length mac)) :: byte"
  obtain q where d: "drop j buf = [?l, AF_LINK] @ le16 idx @ [6, word_of_nat (length nm), word_of_nat (length mac), 0]
      @ nm @ mac @ sdl_pad nm mac @ q"
    using assms(1) by (simp add: sdl_bytes_def)
  have j: "j \<le> length buf" using d by (metis append_is_Nil_conv drop_all list.distinct(1) nle_le)
  have n: "buf ! (j + k) = drop j buf ! k" for k using j by simp
  have "length (drop j buf) \<ge> 8" unfolding d by simp
  then show "j + 8 \<le> length buf" using j by simp
  show "sa_fam buf j = AF_LINK" unfolding sa_fam_def n d by simp
  have "sdl_index buf j = le16_at (drop j buf) 2"
    unfolding sdl_index_def le16_at_def using n [of 2] n [of 3] by (simp add: numeral_3_eq_3 numeral_2_eq_2)
  then show "sdl_index buf j = idx" unfolding d using le16_at_le16 [of "[?l, AF_LINK]" idx]
    by (simp add: numeral_2_eq_2)
  show "sdl_nlen buf j = length nm" unfolding sdl_nlen_def n d using assms(2)
    by (simp add: le16_def unat_byte_of_nat)
  show "sdl_alen buf j = length mac" unfolding sdl_alen_def n d using assms(3)
    by (simp add: le16_def unat_byte_of_nat)
  have "sdl_data buf j = drop 8 (drop j buf)" by (simp add: sdl_data_def add.commute)
  then have "sdl_data buf j = nm @ mac @ sdl_pad nm mac @ q" unfolding d by (simp add: le16_def)
  then show "\<exists>r'. sdl_data buf j = nm @ mac @ sdl_pad nm mac @ r'" by blast
qed

lemma sdl_fields:
  assumes "drop j buf = padded (sdl_bytes idx nm mac) @ r" and "length nm \<le> 15" and "length mac \<le> 8"
  shows "j + 8 \<le> length buf" and "sa_fam buf j = AF_LINK" and "sdl_index buf j = idx"
    and "sdl_nlen buf j = length nm" and "sdl_alen buf j = length mac"
    and "\<exists>r'. sdl_data buf j = nm @ mac @ sdl_pad nm mac @ r'"
proof -
  obtain q where "drop j buf = sdl_bytes idx nm mac @ q" using assms(1) by (simp add: padded_def)
  from sdl_fields_at [OF this assms(2,3)]
  show "j + 8 \<le> length buf" and "sa_fam buf j = AF_LINK" and "sdl_index buf j = idx"
    and "sdl_nlen buf j = length nm" and "sdl_alen buf j = length mac"
    and "\<exists>r'. sdl_data buf j = nm @ mac @ sdl_pad nm mac @ r'" .
qed

lemma info_sas_ok:
  assumes "length nm \<le> 15" and "length mac \<le> 8"
  shows "sas_ok (info_sas idx nm mac)" "length (sas_bytes (info_sas idx nm mac)) \<le> 39"
    "24 \<le> length (sas_bytes (info_sas idx nm mac))"
proof -
  have l: "length (sdl_bytes idx nm mac) = max 20 (8 + length nm + length mac)"
    by (simp add: sdl_bytes_def sdl_pad_def)
  have "sdl_bytes idx nm mac ! 0 = word_of_nat (max 20 (8 + length nm + length mac))"
    by (simp add: sdl_bytes_def)
  then have "sa_ok (sdl_bytes idx nm mac)" unfolding sa_ok_def l using assms by (simp add: unat_byte_of_nat)
  then show "sas_ok (info_sas idx nm mac)" by (simp add: info_sas_def sas_ok_def)
  have b: "length (sas_bytes (info_sas idx nm mac)) = 8 * ((max 20 (8 + length nm + length mac) + 7) div 8)"
    by (simp add: info_sas_def sas_bytes_def length_padded l)
  show "length (sas_bytes (info_sas idx nm mac)) \<le> 39" unfolding b using assms by linarith
  have "24 div 8 \<le> (max 20 (8 + length nm + length mac) + 7) div 8" by (rule div_le_mono) simp
  then show "24 \<le> length (sas_bytes (info_sas idx nm mac))" unfolding b by simp
qed

lemma kmsg_length:
  assumes "24 \<le> hdr" and "hdr \<le> 1000" and "12 \<le> ahdr" and "kmsg_ok ahdr x"
  shows "12 \<le> length (kmsg_bytes hdr ahdr x)" "length (kmsg_bytes hdr ahdr x) < 65536"
proof -
  have "12 \<le> length (kmsg_bytes hdr ahdr x) \<and> length (kmsg_bytes hdr ahdr x) < 65536"
  proof (cases x)
    case (If_info idx nm mac flags)
    then have "length nm \<le> 15" "length mac \<le> 8" using assms(4) by simp_all
    from info_sas_ok(2) [OF this, of idx] show ?thesis using assms(1,2) by (simp add: If_info length_msg_bytes)
  next
    case (New_addr as)
    then show ?thesis using assms by (simp add: length_msg_bytes)
  qed
  then show "12 \<le> length (kmsg_bytes hdr ahdr x)" "length (kmsg_bytes hdr ahdr x) < 65536" by simp_all
qed

text \<open>The fields of a message in the buffer.\<close>

lemma kmsg_msglen:
  assumes "24 \<le> hdr" and "hdr \<le> 1000" and "12 \<le> ahdr" and "kmsg_ok ahdr x"
  shows "msglen (pre @ kmsg_bytes hdr ahdr x @ post) (length pre) = length (kmsg_bytes hdr ahdr x)"
proof (cases x)
  case (If_info idx nm mac flags)
  then have ok: "length nm \<le> 15" "length mac \<le> 8" "flags < 2 ^ 32" using assms(4) by simp_all
  show ?thesis unfolding If_info kmsg_bytes.simps
    using info_sas_ok [OF ok(1,2), of idx] assms by (intro msg_fields(1)) (use ok in simp_all)
next
  case (New_addr as)
  then show ?thesis unfolding New_addr kmsg_bytes.simps
    using assms(3,4) by (intro msg_fields(1)) (simp_all add: New_addr)
qed
text \<open>The link address of a message, and the loop over the messages of a well-formed buffer.\<close>

lemma info_msg:
  fixes pre post :: "byte list"
  assumes "24 \<le> hdr" and "hdr \<le> 1000" and "kmsg_ok ahdr (If_info idx nm mac flags)"
  defines "buf \<equiv> pre @ kmsg_bytes hdr ahdr (If_info idx nm mac flags) @ post"
  shows "msg_type buf (length pre) = RTM_IFINFO" and "msg_flags buf (length pre) = flags"
    and "\<exists>info j r. get_rtaddrs buf (msg_addrs buf (length pre)) (length pre + hdr) = Ok info
      \<and> info ! RTAX_IFP = Some j \<and> drop j buf = padded (sdl_bytes idx nm mac) @ r"
proof -
  have ok: "length nm \<le> 15" "length mac \<le> 8" "flags < 2 ^ 32" using assms(3) by simp_all
  let ?as = "info_sas idx nm mac"
  have bd: "12 \<le> hdr" "hdr + length (sas_bytes ?as) < 65536" "sas_ok ?as"
    using info_sas_ok [OF ok(1,2), of idx] assms(1,2) by simp_all
  have buf: "buf = pre @ msg_bytes hdr RTM_IFINFO flags ?as @ post" by (simp add: buf_def)
  note f = msg_fields [OF bd ok(3), of pre RTM_IFINFO post, folded buf]
  show "msg_type buf (length pre) = RTM_IFINFO" "msg_flags buf (length pre) = flags" by (rule f(2), rule f(4))
  let ?pre = "pre @ le16 (word_of_nat (hdr + length (sas_bytes ?as))) @ [5, RTM_IFINFO]
     @ le_bytes 4 (int (addrs_mask ?as)) @ le_bytes 4 (int flags) @ replicate (hdr - 12) 0"
  have buf': "buf = ?pre @ sas_bytes ?as @ post" unfolding buf by (simp add: msg_bytes_def)
  have l: "length ?pre = length pre + hdr" using bd(1) by simp
  obtain j r where "places (length pre + hdr) ?as ! RTAX_IFP = Some j"
    "drop j buf = padded (sdl_bytes idx nm mac) @ r"
    using places_nth [of RTAX_IFP ?as "sdl_bytes idx nm mac" ?pre post] unfolding buf' [symmetric] l
    by (auto simp: info_sas_def)
  then show "\<exists>info j r. get_rtaddrs buf (msg_addrs buf (length pre)) (length pre + hdr) = Ok info
      \<and> info ! RTAX_IFP = Some j \<and> drop j buf = padded (sdl_bytes idx nm mac) @ r"
    using f(3,5) by simp
qed

lemma link_addr_msg:
  fixes pre post :: "byte list"
  assumes "24 \<le> hdr" and "hdr \<le> 1000" and "12 \<le> ahdr" and "kmsg_ok ahdr x"
  defines "buf \<equiv> pre @ kmsg_bytes hdr ahdr x @ post"
  shows "case x of
      If_info idx nm mac flags \<Rightarrow> \<exists>j r. link_addr hdr buf (length pre) = Ok (Some j)
        \<and> drop j buf = padded (sdl_bytes idx nm mac) @ r
    | New_addr as \<Rightarrow> link_addr hdr buf (length pre) = Ok None"
proof (cases x)
  case (If_info idx nm mac flags)
  then have ok: "length nm \<le> 15" "length mac \<le> 8" using assms(4) by simp_all
  note im = info_msg [OF assms(1,2), of ahdr idx nm mac flags pre post, folded If_info, folded buf_def, OF assms(4)]
  from im(3) obtain info j r where j: "get_rtaddrs buf (msg_addrs buf (length pre)) (length pre + hdr) = Ok info"
    "info ! RTAX_IFP = Some j" "drop j buf = padded (sdl_bytes idx nm mac) @ r" by blast
  have "link_addr hdr buf (length pre) = Ok (Some j)"
    using im(1) j(1,2) sdl_fields(1,2) [OF j(3) ok] by (simp add: link_addr_def)
  then show ?thesis using j(3) unfolding If_info by auto
next
  case (New_addr as)
  then have "msg_type buf (length pre) = RTM_NEWADDR"
    using msg_fields(2) [of ahdr as 0 pre RTM_NEWADDR post] assms(3,4) by (simp add: buf_def)
  then show ?thesis unfolding New_addr by (simp add: link_addr_def RTM_NEWADDR_def RTM_IFINFO_def)
qed

fun run_msgs :: "(kmsg \<Rightarrow> 's \<Rightarrow> ('s, 'r) flow) \<Rightarrow> kmsg list \<Rightarrow> 's \<Rightarrow> ('s, 'r) flow" where
  "run_msgs g [] s = Next s"
| "run_msgs g (x # xs) s = (case g x s of Return r \<Rightarrow> Return r | Next s' \<Rightarrow> run_msgs g xs s')"

lemma each_msg_run:
  assumes ok: "kbuf_ok hdr ahdr ms" and I: "I [] s"
    and body: "\<And>pre x post s. ms = pre @ x # post \<Longrightarrow> I pre s \<Longrightarrow>
      body (length (kbuf hdr ahdr pre)) s = Ok (g x s) \<and> (\<forall>s'. g x s = Next s' \<longrightarrow> I (pre @ [x]) s')"
  shows "each_msg body (kbuf hdr ahdr ms) 0 s = Ok (run_msgs g ms s)"
proof -
  have "each_msg body (kbuf hdr ahdr ms) (length (kbuf hdr ahdr pre)) s = Ok (run_msgs g post s)"
    if "ms = pre @ post" "I pre s" for pre post s
    using that
  proof (induction post arbitrary: pre s)
    case Nil
    then show ?case by (subst each_msg.simps) simp
  next
    case (Cons x post)
    have x: "kmsg_ok ahdr x" and h: "24 \<le> hdr" "hdr \<le> 1000" "12 \<le> ahdr"
      using ok Cons.prems(1) by (simp_all add: kbuf_ok_def)
    note len = kmsg_length [OF h x] and b = body [OF Cons.prems]
    have buf: "kbuf hdr ahdr ms = kbuf hdr ahdr pre @ kmsg_bytes hdr ahdr x @ kbuf hdr ahdr post"
      using Cons.prems(1) by (simp add: kbuf_split)
    have ml: "msglen (kbuf hdr ahdr ms) (length (kbuf hdr ahdr pre)) = length (kmsg_bytes hdr ahdr x)"
      unfolding buf by (rule kmsg_msglen [OF h x])
    have lb: "length (kbuf hdr ahdr pre) + length (kmsg_bytes hdr ahdr x) \<le> length (kbuf hdr ahdr ms)"
      unfolding buf by simp
    have lt: "length (kbuf hdr ahdr pre) < length (kbuf hdr ahdr ms)"
      "\<not> length (kbuf hdr ahdr ms) < length (kbuf hdr ahdr pre) + 12" using lb len by linarith+
    have nx: "length (kbuf hdr ahdr pre) + length (kmsg_bytes hdr ahdr x) = length (kbuf hdr ahdr (pre @ [x]))"
      by (simp add: kbuf_def)
    show ?case
    proof (cases "g x s")
      case (Next s')
      then have "each_msg body (kbuf hdr ahdr ms) (length (kbuf hdr ahdr (pre @ [x]))) s' = Ok (run_msgs g post s')"
        using b Cons.prems(1) by (intro Cons.IH) simp_all
      moreover have "msglen (kbuf hdr ahdr ms) (length (kbuf hdr ahdr pre)) \<noteq> 0" unfolding ml using len by linarith
      ultimately show ?thesis using b Next lt
        by (subst each_msg.simps) (simp add: ml nx)
    next
      case (Return r)
      then show ?thesis using b lt by (subst each_msg.simps) simp
    qed
  qed
  from this [of "[]" ms s] I show ?thesis by (simp add: kbuf_def)
qed
text \<open>The names and indexes of the interfaces, in order.\<close>

definition pairs :: "kmsg list \<Rightarrow> (nat \<times> byte list) list" where
  "pairs ms = concat (map (\<lambda>x. case x of If_info idx nm _ _ \<Rightarrow> [(unat idx, nm)] | New_addr _ \<Rightarrow> []) ms)"

lemma pairs_simps [simp]:
  "pairs [] = []" "pairs (If_info idx nm mac fl # ms) = (unat idx, nm) # pairs ms" "pairs (New_addr as # ms) = pairs ms"
  "pairs (ms @ ns) = pairs ms @ pairs ns"
  by (simp_all add: pairs_def)

lemma run_msgs_find:
  assumes "\<And>x s. g x s = (case x of If_info idx nm _ _ \<Rightarrow> if P (unat idx) nm then Return (f (unat idx) nm) else Next s
                                   | New_addr _ \<Rightarrow> Next s)"
  shows "run_msgs g ms s = (case find (\<lambda>(i, nm). P i nm) (pairs ms) of
           Some (i, nm) \<Rightarrow> Return (f i nm) | None \<Rightarrow> Next s)"
  by (induction ms) (auto simp: assms split: kmsg.splits)

text \<open>The body of a loop that looks at the link addresses only.\<close>

lemma link_body:
  assumes ok: "kbuf_ok hdr ahdr ms" and ms: "ms = pre @ x # post"
    and If: "\<And>idx nm mac fl j r. x = If_info idx nm mac fl \<Longrightarrow> kmsg_ok ahdr x \<Longrightarrow>
      sdl_index (kbuf hdr ahdr ms) j = idx \<Longrightarrow> sdl_nlen (kbuf hdr ahdr ms) j = length nm \<Longrightarrow>
      sdl_data (kbuf hdr ahdr ms) j = nm @ r \<Longrightarrow> k (Some j) = res"
    and Na: "\<And>as. x = New_addr as \<Longrightarrow> k None = res"
  shows "bind_outcome (link_addr hdr (kbuf hdr ahdr ms) (length (kbuf hdr ahdr pre))) k = res"
proof -
  have x: "kmsg_ok ahdr x" and h: "24 \<le> hdr" "hdr \<le> 1000" "12 \<le> ahdr"
    using ok ms by (simp_all add: kbuf_ok_def)
  have buf: "kbuf hdr ahdr ms = kbuf hdr ahdr pre @ kmsg_bytes hdr ahdr x @ kbuf hdr ahdr post"
    using ms by (simp add: kbuf_split)
  note la = link_addr_msg [OF h x, of "kbuf hdr ahdr pre" "kbuf hdr ahdr post", folded buf]
  show ?thesis
  proof (cases x)
    case (If_info idx nm mac fl)
    then obtain j r where j: "link_addr hdr (kbuf hdr ahdr ms) (length (kbuf hdr ahdr pre)) = Ok (Some j)"
      "drop j (kbuf hdr ahdr ms) = padded (sdl_bytes idx nm mac) @ r" using la by auto
    have "length nm \<le> 15" "length mac \<le> 8" using x If_info by simp_all
    note f = sdl_fields [OF j(2) this]
    then show ?thesis using If [OF If_info x f(3,4)] j(1) by auto
  next
    case (New_addr as)
    then show ?thesis using la Na by simp
  qed
qed

lemma strncpy_name: "0 \<notin> set nm \<Longrightarrow> strncpy (length nm) (nm @ r) = nm"
  by (auto simp: strncpy_def takeWhile_eq_all_conv)

lemma if_nametoindex_find:
  assumes ok: "kbuf_ok hdr ahdr ms" and b: "iflist 0 = Some (kbuf hdr ahdr ms)"
  shows "if_nametoindex hdr iflist name =
    Ok (case find (\<lambda>(i, nm). nm = name) (pairs ms) of Some (i, nm) \<Rightarrow> i | None \<Rightarrow> 0)"
proof -
  let ?g = "\<lambda>x s. case x of If_info idx nm _ _ \<Rightarrow> if nm = name then Return (unat idx) else Next s
    | New_addr _ \<Rightarrow> Next s"
  let ?body = "\<lambda>m s. bind_outcome (link_addr hdr (kbuf hdr ahdr ms) m) (\<lambda>a.
                case a of
                  None \<Rightarrow> Ok (Next s)
                | Some sdl \<Rightarrow>
                    if sdl_nlen (kbuf hdr ahdr ms) sdl = length name
                      \<and> take (sdl_nlen (kbuf hdr ahdr ms) sdl) (sdl_data (kbuf hdr ahdr ms) sdl) = name
                    then Ok (Return (unat (sdl_index (kbuf hdr ahdr ms) sdl))) else Ok (Next s))"
  have "each_msg ?body (kbuf hdr ahdr ms) 0 () = Ok (run_msgs ?g ms ())"
  proof (rule each_msg_run [OF ok, where I = "\<lambda>_ _. True"])
    fix pre x post s
    assume ms: "ms = pre @ x # post"
    have "?body (length (kbuf hdr ahdr pre)) s = Ok (?g x s)"
      by (rule link_body [OF ok ms]) (auto simp: strncpy_name min_absorb2)
    then show "?body (length (kbuf hdr ahdr pre)) s = Ok (?g x s) \<and> (\<forall>s'. ?g x s = Next s' \<longrightarrow> True)" by simp
  qed simp
  then show ?thesis unfolding if_nametoindex_def b option.case using run_msgs_find [of ?g "\<lambda>_ nm. nm = name" "\<lambda>i _. i" ms "()"]
    by (simp only: bind_outcome.simps) (auto split: option.splits)
qed

lemma if_indextoname_find:
  assumes ok: "kbuf_ok hdr ahdr ms" and b: "iflist idx = Some (kbuf hdr ahdr ms)"
  shows "if_indextoname hdr iflist idx =
    Ok (case find (\<lambda>(i, nm). i = idx) (pairs ms) of Some (i, nm) \<Rightarrow> Some nm | None \<Rightarrow> None)"
proof -
  let ?g = "\<lambda>x s. case x of If_info i nm _ _ \<Rightarrow> if unat i = idx then Return nm else Next s
    | New_addr _ \<Rightarrow> Next s"
  let ?body = "\<lambda>m s. bind_outcome (link_addr hdr (kbuf hdr ahdr ms) m) (\<lambda>a.
                case a of
                  None \<Rightarrow> Ok (Next s)
                | Some sdl \<Rightarrow>
                    if unat (sdl_index (kbuf hdr ahdr ms) sdl) = idx
                    then Ok (Return (strncpy (min 15 (sdl_nlen (kbuf hdr ahdr ms) sdl)) (sdl_data (kbuf hdr ahdr ms) sdl)))
                    else Ok (Next s))"
  have "each_msg ?body (kbuf hdr ahdr ms) 0 () = Ok (run_msgs ?g ms ())"
  proof (rule each_msg_run [OF ok, where I = "\<lambda>_ _. True"])
    fix pre x post s
    assume ms: "ms = pre @ x # post"
    have "?body (length (kbuf hdr ahdr pre)) s = Ok (?g x s)"
      by (rule link_body [OF ok ms]) (auto simp: strncpy_name min_absorb2)
    then show "?body (length (kbuf hdr ahdr pre)) s = Ok (?g x s) \<and> (\<forall>s'. ?g x s = Next s' \<longrightarrow> True)" by simp
  qed simp
  then show ?thesis unfolding if_indextoname_def b option.case using run_msgs_find [of ?g "\<lambda>i _. i = idx" "\<lambda>_ nm. nm" ms "()"]
    by (simp only: bind_outcome.simps) (auto split: option.splits)
qed
text \<open>The block of \<open>if_nameindex\<close> is large enough: an interface takes 48 bytes of it in the buffer.\<close>

definition name_bytes :: "kmsg list \<Rightarrow> nat" where
  "name_bytes ms = sum_list (map (\<lambda>(_, nm). length nm + 1) (pairs ms))"

lemma kbuf_length:
  assumes "kbuf_ok hdr ahdr ms"
  shows "48 * length (pairs ms) \<le> length (kbuf hdr ahdr ms)" "name_bytes ms \<le> 16 * length (pairs ms)"
proof -
  have "48 * length (pairs ms) \<le> length (kbuf hdr ahdr ms) \<and> name_bytes ms \<le> 16 * length (pairs ms)"
    using assms
  proof (induction ms)
    case (Cons x ms)
    have IH: "48 * length (pairs ms) \<le> length (kbuf hdr ahdr ms) \<and> name_bytes ms \<le> 16 * length (pairs ms)"
      using Cons by (simp add: kbuf_ok_def)
    show ?case
    proof (cases x)
      case (If_info idx nm mac fl)
      then have "length nm \<le> 15" "length mac \<le> 8" "24 \<le> hdr" using Cons.prems by (simp_all add: kbuf_ok_def)
      with info_sas_ok(3) [OF this(1,2), of idx] IH show ?thesis
        by (simp add: If_info kbuf_def length_msg_bytes name_bytes_def)
    next
      case (New_addr as)
      then show ?thesis using IH by (simp add: kbuf_def name_bytes_def)
    qed
  qed (simp add: kbuf_def name_bytes_def)
  then show "48 * length (pairs ms) \<le> length (kbuf hdr ahdr ms)" "name_bytes ms \<le> 16 * length (pairs ms)"
    by simp_all
qed

lemma name_bytes_append: "name_bytes (ms @ ns) = name_bytes ms + name_bytes ns"
  by (simp add: name_bytes_def)

lemma if_nameindex_pairs:
  assumes ok: "kbuf_ok hdr ahdr ms" and b: "iflist 0 = Some (kbuf hdr ahdr ms)" and ne: "pairs ms \<noteq> []"
  shows "if_nameindex hdr iflist = Ok (Some (pairs ms))"
proof -
  let ?L = "int (length (kbuf hdr ahdr ms))"
  let ?g = "\<lambda>x (es, np). case x of
      If_info idx nm _ _ \<Rightarrow> Next (es @ [(unat idx, nm)], np - int (length nm + 1))
    | New_addr _ \<Rightarrow> Next (es, np)"
  define I where "I pre st \<longleftrightarrow> st = (pairs pre, ?L - int (name_bytes pre))" for pre st
  have room: "16 * (length (pairs ms) + 1) + name_bytes ms \<le> length (kbuf hdr ahdr ms)"
    using kbuf_length [OF ok] ne by (cases "pairs ms") auto
  let ?body = "\<lambda>m (entries, namptr).
              bind_outcome (link_addr hdr (kbuf hdr ahdr ms) m) (\<lambda>a.
                case a of
                  None \<Rightarrow> Ok (Next (entries, namptr))
                | Some sdl \<Rightarrow>
                    let namptr' = namptr - int (sdl_nlen (kbuf hdr ahdr ms) sdl + 1) in
                    if int (16 * (length entries + 1)) \<le> namptr'
                    then Ok (Next (entries @ [(unat (sdl_index (kbuf hdr ahdr ms) sdl),
                                     strncpy (sdl_nlen (kbuf hdr ahdr ms) sdl) (sdl_data (kbuf hdr ahdr ms) sdl))],
                                   namptr'))
                    else Undefined)"
  have "each_msg ?body (kbuf hdr ahdr ms) 0 ([], ?L) = Ok (run_msgs ?g ms ([], ?L) :: (_, unit) flow)"
  proof (rule each_msg_run [OF ok, where I = I])
    show "I [] ([], ?L)" by (simp add: I_def name_bytes_def)
  next
    fix pre x post st
    assume ms: "ms = pre @ x # post" and st: "I pre st"
    have "name_bytes [x] \<le> name_bytes (x # post)" "length (pairs [x]) \<le> length (pairs (x # post))"
      by (cases x; simp add: name_bytes_def)+
    then have fits: "int (16 * (length (pairs pre) + length (pairs [x]))) \<le> ?L - int (name_bytes pre) - int (name_bytes [x])"
      using room ms name_bytes_append [of pre "x # post"] by (cases x) auto
    have H: "bind_outcome (link_addr hdr (kbuf hdr ahdr ms) (length (kbuf hdr ahdr pre))) (\<lambda>a.
                case a of
                  None \<Rightarrow> Ok (Next (pairs pre, ?L - int (name_bytes pre)))
                | Some sdl \<Rightarrow>
                    let namptr' = ?L - int (name_bytes pre) - int (sdl_nlen (kbuf hdr ahdr ms) sdl + 1) in
                    if int (16 * (length (pairs pre) + 1)) \<le> namptr'
                    then Ok (Next (pairs pre @ [(unat (sdl_index (kbuf hdr ahdr ms) sdl),
                                     strncpy (sdl_nlen (kbuf hdr ahdr ms) sdl) (sdl_data (kbuf hdr ahdr ms) sdl))],
                                   namptr'))
                    else Undefined) = Ok (?g x (pairs pre, ?L - int (name_bytes pre)))"
      by (rule link_body [OF ok ms]) (use fits in \<open>auto simp: strncpy_name name_bytes_def Let_def\<close>)
    show "?body (length (kbuf hdr ahdr pre)) st = Ok (?g x st)
        \<and> (\<forall>s'. ?g x st = (Next s' :: (_, unit) flow) \<longrightarrow> I (pre @ [x]) s')"
      unfolding st [unfolded I_def] prod.case
    proof (intro conjI allI impI, rule H [unfolded prod.case])
      fix s'
      assume "(case x of
          If_info idx nm _ _ \<Rightarrow> Next (pairs pre @ [(unat idx, nm)], ?L - int (name_bytes pre) - int (length nm + 1))
        | New_addr _ \<Rightarrow> Next (pairs pre, ?L - int (name_bytes pre))) = (Next s' :: (_, unit) flow)"
      then show "I (pre @ [x]) s'" by (cases x) (auto simp: I_def name_bytes_def)
    qed
  qed
  moreover have "run_msgs ?g ns (es, np) = (Next (es @ pairs ns, np - int (name_bytes ns)) :: (_, unit) flow)" for ns es np
    by (induction ns arbitrary: es np) (auto simp: name_bytes_def split: kmsg.splits)
  ultimately have "each_msg ?body (kbuf hdr ahdr ms) 0 ([], ?L)
    = Ok (Next (pairs ms, ?L - int (name_bytes ms)) :: (_, unit) flow)" by (simp only: append_Nil)
  then show ?thesis using room unfolding if_nameindex_def b option.case by (simp only: bind_outcome.simps) simp
qed
section \<open>The list of interfaces\<close>

definition shown_name :: "16 word \<Rightarrow> byte list \<Rightarrow> byte list \<Rightarrow> byte list" where
  "shown_name idx nm mac = (if nm = [] then index_name idx else take 15 (nm @ takeWhile (\<lambda>b. b \<noteq> 0) mac))"

definition base_ifi :: "16 word \<Rightarrow> byte list \<Rightarrow> byte list \<Rightarrow> nat \<Rightarrow> ifi_info" where
  "base_ifi idx nm mac flags = ifi_zero\<lparr>ifi_flags := word_of_nat flags, ifi_index := idx,
     ifi_name := shown_name idx nm mac, ifi_hlen := length mac,
     ifi_haddr := mac @ replicate (8 - length mac) 0\<rparr>"

definition with_addrs :: "nat \<Rightarrow> byte list option list \<Rightarrow> ifi_info \<Rightarrow> ifi_info" where
  "with_addrs flags as ifi = ifi\<lparr>
     ifi_addr := (if as ! RTAX_IFA = None then ifi_addr ifi else as ! RTAX_IFA),
     ifi_brdaddr := (if iff_broadcast flags \<and> as ! RTAX_BRD \<noteq> None then as ! RTAX_BRD else ifi_brdaddr ifi),
     ifi_dstaddr := (if iff_pointopoint flags \<and> as ! RTAX_BRD \<noteq> None then as ! RTAX_BRD else ifi_dstaddr ifi)\<rparr>"

definition bare :: "ifi_info \<Rightarrow> ifi_info" where
  "bare ifi = ifi\<lparr>ifi_addr := None, ifi_brdaddr := None, ifi_dstaddr := None\<rparr>"

text \<open>A NUL ends the name: in the hardware address, or in what fills up the structure.\<close>

fun named_ok :: "kmsg \<Rightarrow> bool" where
  "named_ok (If_info idx nm mac flags) = (nm = [] \<or> 0 \<in> set (mac @ sdl_pad nm mac))"
| "named_ok (New_addr as) = True"

lemma new_ifi_msg:
  assumes "drop j buf = padded (sdl_bytes idx nm mac) @ r" and "kmsg_ok ahdr (If_info idx nm mac flags)"
    and "named_ok (If_info idx nm mac flags)"
  shows "new_ifi buf flags j = Ok (base_ifi idx nm mac flags)"
proof -
  have ok: "length nm \<le> 15" "length mac \<le> 8" "0 \<notin> set nm" using assms(2) by simp_all
  note f = sdl_fields [OF assms(1) ok(1,2)]
  obtain r' where d: "sdl_data buf j = nm @ mac @ sdl_pad nm mac @ r'" using f(6) by blast
  have nam: "(if 0 < length nm then star_s (length nm) (sdl_data buf j) else Ok (index_name idx))
      = Ok (shown_name idx nm mac)"
  proof (cases "nm = []")
    case False
    then have z: "0 \<in> set mac \<or> 0 < 12 - (length nm + length mac)" using assms(3) by (auto simp: sdl_pad_def)
    have "takeWhile (\<lambda>b. b \<noteq> 0) (nm @ mac @ sdl_pad nm mac @ r') = nm @ takeWhile (\<lambda>b. b \<noteq> 0) (mac @ sdl_pad nm mac @ r')"
      using ok(3) by (intro takeWhile_append2) auto
    also have "takeWhile (\<lambda>b. b \<noteq> 0) (mac @ sdl_pad nm mac @ r') = takeWhile (\<lambda>b. b \<noteq> 0) mac"
    proof (cases "0 \<in> set mac")
      case True
      then show ?thesis by (intro takeWhile_append1) auto
    next
      case False
      then obtain k where "12 - (length nm + length mac) = Suc k" using z by (auto simp: gr0_conv_Suc)
      then obtain q where q: "sdl_pad nm mac = 0 # q" by (simp add: sdl_pad_def)
      have tw: "takeWhile (\<lambda>b. b \<noteq> 0) mac = mac" using False by (auto simp: takeWhile_eq_all_conv)
      show ?thesis unfolding q tw by (subst takeWhile_append2) (use False in auto)
    qed
    finally have t: "takeWhile (\<lambda>b. b \<noteq> 0) (nm @ mac @ sdl_pad nm mac @ r') = nm @ takeWhile (\<lambda>b. b \<noteq> 0) mac" .
    have "0 \<in> set (nm @ mac @ sdl_pad nm mac @ r')" using assms(3) False by auto
    then show ?thesis using False by (simp add: star_s_def d t Let_def shown_name_def)
  qed (simp add: shown_name_def)
  show ?thesis unfolding new_ifi_def Let_def f(3,4,5)
    using f(1,2) nam ok(2) by (simp add: d base_ifi_def ifi_zero_def)
qed

lemma opt_copy_None: "opt_copy buf None old = Ok old"
  by (simp add: opt_copy_def)

lemma sa_copy_at:
  assumes "drop j buf = bs @ r" and "sa_ok bs"
  shows "sa_copy buf j = Ok bs"
proof -
  have ne: "bs \<noteq> []" using assms(2) by (auto simp: sa_ok_def)
  have jl: "j + length bs \<le> length buf"
    using arg_cong [OF assms(1), of length] ne by (cases "j \<le> length buf") auto
  then have "buf ! j = drop j buf ! 0" using ne by simp
  then have "buf ! j = bs ! 0" unfolding assms(1) using ne by (simp add: nth_append)
  then show ?thesis using assms jl by (simp add: sa_copy_def sa_ok_def Let_def)
qed

lemma opt_copy_place:
  assumes "i < length as" and "\<forall>bs. Some bs \<in> set as \<longrightarrow> sa_ok bs"
  shows "opt_copy (pre @ sas_bytes as @ post) (places (length pre) as ! i) old
    = Ok (if as ! i = None then old else as ! i)"
proof (cases "as ! i")
  case None
  then show ?thesis using assms(1) places_None [of i as] by (simp add: opt_copy_def)
next
  case (Some bs)
  then have ok: "sa_ok bs" using assms nth_mem [of i as] by simp
  obtain j r where j: "places (length pre) as ! i = Some j" "drop j (pre @ sas_bytes as @ post) = padded bs @ r"
    using places_nth [OF assms(1) Some] by blast
  from j(2) have "drop j (pre @ sas_bytes as @ post) = bs @ (drop (length bs) (padded bs) @ r)"
    by (simp add: padded_def)
  from sa_copy_at [OF this ok] show ?thesis using j(1) Some by (simp add: opt_copy_def)
qed

text \<open>The effect of a message on the list.\<close>

definition ifi_step :: "bool \<Rightarrow> kmsg \<Rightarrow> ifi_info list \<times> nat \<Rightarrow> (ifi_info list \<times> nat, byte) flow" where
  "ifi_step doaliases x = (\<lambda>(infos, flags0). case x of
     If_info idx nm mac flags \<Rightarrow>
       Next (if iff_up flags then infos @ [base_ifi idx nm mac flags] else infos, flags)
   | New_addr as \<Rightarrow>
       Next (if ifi_addr (last infos) = None then butlast infos @ [with_addrs flags0 as (last infos)]
             else if doaliases then infos @ [with_addrs flags0 as (bare (last infos))]
             else infos, flags0))"

lemma ifi_msg_step:
  assumes ok: "kbuf_ok hdr ahdr ms" and nm: "\<forall>x \<in> set ms. named_ok x" and ms: "ms = pre @ x # post"
    and ne: "pre \<noteq> [] \<longrightarrow> infos \<noteq> []" and x0: "pre = [] \<longrightarrow> (\<exists>idx nm mac flags. x = If_info idx nm mac flags)"
  shows "ifi_msg hdr ahdr al (kbuf hdr ahdr ms) (length (kbuf hdr ahdr pre)) (infos, flags0)
    = Ok (ifi_step al x (infos, flags0))"
proof -
  have x: "kmsg_ok ahdr x" and h: "24 \<le> hdr" "hdr \<le> 1000" "12 \<le> ahdr" and n: "named_ok x"
    using ok nm ms by (simp_all add: kbuf_ok_def)
  let ?buf = "kbuf hdr ahdr ms" and ?pre = "kbuf hdr ahdr pre"
  have buf: "?buf = ?pre @ kmsg_bytes hdr ahdr x @ kbuf hdr ahdr post" using ms by (simp add: kbuf_split)
  show ?thesis
  proof (cases x)
    case (If_info idx nm mac flags)
    note im = info_msg [OF h(1,2), of ahdr idx nm mac flags ?pre "kbuf hdr ahdr post", folded If_info, folded buf, OF x]
    from im(3) obtain info j r where j: "get_rtaddrs ?buf (msg_addrs ?buf (length ?pre)) (length ?pre + hdr) = Ok info"
      "info ! RTAX_IFP = Some j" "drop j ?buf = padded (sdl_bytes idx nm mac) @ r" by blast
    then show ?thesis
      using im(1,2) new_ifi_msg [OF j(3) x [unfolded If_info] n [unfolded If_info]]
      by (simp add: ifi_msg_def ifi_step_def If_info Let_def)
  next
    case (New_addr as)
    have a: "12 \<le> ahdr" "ahdr + length (sas_bytes as) < 65536" "sas_ok as" using x New_addr h(3) by simp_all
    have b2: "?buf = ?pre @ msg_bytes ahdr RTM_NEWADDR 0 as @ kbuf hdr ahdr post" using buf New_addr by simp
    note f = msg_fields [OF a, of 0 ?pre RTM_NEWADDR "kbuf hdr ahdr post", simplified, folded b2]
    let ?p = "?pre @ le16 (word_of_nat (ahdr + length (sas_bytes as))) @ [5, RTM_NEWADDR]
      @ le_bytes 4 (int (addrs_mask as)) @ le_bytes 4 (int 0) @ replicate (ahdr - 12) 0"
    have b3: "?buf = ?p @ sas_bytes as @ kbuf hdr ahdr post" unfolding b2 by (simp add: msg_bytes_def)
    have l: "length ?p = length ?pre + ahdr" using a(1) by simp
    have cp: "opt_copy ?buf (places (length ?pre + ahdr) as ! i) old = Ok (if as ! i = None then old else as ! i)"
      if "i < 8" for i old
      unfolding b3 l [symmetric] by (rule opt_copy_place) (use a(3) that in \<open>auto simp: sas_ok_def\<close>)
    have sa: "set_addrs ?buf fl (places (length ?pre + ahdr) as) ifi = Ok (with_addrs fl as ifi)" for fl ifi
      by (cases "iff_broadcast fl"; cases "iff_pointopoint fl")
        (simp_all add: set_addrs_def cp with_addrs_def opt_copy_None)
    have "pre \<noteq> []" using x0 New_addr by auto
    then show ?thesis using ne f(2,3,5) sa
      by (simp add: ifi_msg_def ifi_step_def New_addr Let_def bare_def RTM_NEWADDR_def RTM_IFINFO_def)
  qed
qed
lemma get_ifi_info_run:
  assumes ok: "kbuf_ok hdr ahdr ms" and nm: "\<forall>x \<in> set ms. named_ok x"
    and up: "ms = If_info idx nm0 mac flags # rest" "iff_up flags"
  shows "get_ifi_info hdr ahdr (Some (kbuf hdr ahdr ms)) al =
    (case run_msgs (ifi_step al) ms ([], 0) of Next (infos, _) \<Rightarrow> Ok (Some infos) | Return _ \<Rightarrow> Ok None)"
proof -
  have "each_msg (ifi_msg hdr ahdr al (kbuf hdr ahdr ms)) (kbuf hdr ahdr ms) 0 ([], 0)
    = Ok (run_msgs (ifi_step al) ms ([], 0))"
  proof (rule each_msg_run [OF ok, where I = "\<lambda>pre st. pre \<noteq> [] \<longrightarrow> fst st \<noteq> []"])
    fix pre x post and st :: "ifi_info list \<times> nat"
    assume ms: "ms = pre @ x # post" and I: "pre \<noteq> [] \<longrightarrow> fst st \<noteq> []"
    have x0: "x = If_info idx nm0 mac flags" if "pre = []" using that ms up(1) by simp
    obtain infos fl where st: "st = (infos, fl)" by (cases st)
    have "fst s' \<noteq> []" if "ifi_step al x st = Next s'" for s'
      using that I x0 up(2) unfolding st
      by (cases "pre = []") (auto simp: ifi_step_def split: kmsg.splits if_splits)
    then show "ifi_msg hdr ahdr al (kbuf hdr ahdr ms) (length (kbuf hdr ahdr pre)) st = Ok (ifi_step al x st)
        \<and> (\<forall>s'. ifi_step al x st = Next s' \<longrightarrow> pre @ [x] \<noteq> [] \<longrightarrow> fst s' \<noteq> [])"
      using ifi_msg_step [OF ok nm ms, of infos al fl] I x0 unfolding st by auto
  qed simp
  then show ?thesis by (auto simp: get_ifi_info_def split: flow.splits)
qed

text \<open>An interface with its addresses, each of which has an \<open>RTAX_IFA\<close>.\<close>

record iface =
  i_index :: "16 word"
  i_name :: "byte list"
  i_mac :: "byte list"
  i_flags :: nat
  i_addrs :: "byte list option list list"

definition iface_msgs :: "iface \<Rightarrow> kmsg list" where
  "iface_msgs i = If_info (i_index i) (i_name i) (i_mac i) (i_flags i) # map New_addr (i_addrs i)"

definition iface_base :: "iface \<Rightarrow> ifi_info" where
  "iface_base i = base_ifi (i_index i) (i_name i) (i_mac i) (i_flags i)"

definition iface_entries :: "bool \<Rightarrow> iface \<Rightarrow> ifi_info list" where
  "iface_entries al i =
     (case i_addrs i of
        [] \<Rightarrow> [iface_base i]
      | as # rest \<Rightarrow> map (\<lambda>as. with_addrs (i_flags i) as (iface_base i)) (if al then as # rest else [as]))"

definition iface_ok :: "nat \<Rightarrow> iface \<Rightarrow> bool" where
  "iface_ok ahdr i \<longleftrightarrow> (\<forall>x \<in> set (iface_msgs i). kmsg_ok ahdr x \<and> named_ok x)
     \<and> (\<forall>as \<in> set (i_addrs i). as ! RTAX_IFA \<noteq> None)"

lemma run_msgs_append:
  "run_msgs g (xs @ ys) s = (case run_msgs g xs s of Return r \<Rightarrow> Return r | Next s' \<Rightarrow> run_msgs g ys s')"
  by (induction xs arbitrary: s) (auto split: flow.splits)

lemma base_addr [simp]: "ifi_addr (iface_base i) = None" "bare (iface_base i) = iface_base i"
  by (simp_all add: iface_base_def base_ifi_def ifi_zero_def bare_def)

lemma with_addrs_addr: "as ! RTAX_IFA \<noteq> None \<Longrightarrow> ifi_addr (with_addrs fl as ifi) \<noteq> None"
  by (auto simp: with_addrs_def)

lemma bare_with_addrs [simp]: "bare (with_addrs fl as ifi) = bare ifi"
  by (simp add: bare_def with_addrs_def)

lemma bare_bare [simp]: "bare (bare ifi) = bare ifi"
  by (simp add: bare_def)

text \<open>Further addresses, when the last entry has one.\<close>

lemma run_more_addrs:
  assumes "infos \<noteq> []" and "ifi_addr (last infos) \<noteq> None" and "\<forall>as \<in> set ads. as ! RTAX_IFA \<noteq> None"
  shows "run_msgs (ifi_step al) (map New_addr ads) (infos, fl) =
    Next (if al then infos @ map (\<lambda>as. with_addrs fl as (bare (last infos))) ads else infos, fl)"
  using assms
proof (induction ads arbitrary: infos)
  case (Cons as ads)
  let ?new = "with_addrs fl as (bare (last infos))"
  have "ifi_step al (New_addr as) (infos, fl) = Next (if al then infos @ [?new] else infos, fl)"
    using Cons.prems(2) by (auto simp: ifi_step_def)
  moreover have "ifi_addr ?new \<noteq> None" using Cons.prems(3) by (intro with_addrs_addr) simp
  ultimately show ?case
    using Cons.IH [of "infos @ [?new]"] Cons.IH [of infos] Cons.prems by (cases al) simp_all
qed simp

lemma run_iface_up:
  assumes "iff_up (i_flags i)" and "iface_ok ahdr i"
  shows "run_msgs (ifi_step al) (iface_msgs i) (infos, fl) = Next (infos @ iface_entries al i, i_flags i)"
proof -
  let ?infos = "infos @ [iface_base i]"
  have 1: "run_msgs (ifi_step al) (iface_msgs i) (infos, fl)
      = run_msgs (ifi_step al) (map New_addr (i_addrs i)) (?infos, i_flags i)"
    using assms(1) by (simp add: iface_msgs_def ifi_step_def iface_base_def)
  show ?thesis
  proof (cases "i_addrs i")
    case (Cons as rest)
    have a: "as ! RTAX_IFA \<noteq> None" "\<forall>as \<in> set rest. as ! RTAX_IFA \<noteq> None"
      using assms(2) Cons by (simp_all add: iface_ok_def)
    have "ifi_step al (New_addr as) (?infos, i_flags i)
        = Next (infos @ [with_addrs (i_flags i) as (iface_base i)], i_flags i)"
      by (simp add: ifi_step_def)
    then show ?thesis unfolding 1 Cons
      using run_more_addrs [of "infos @ [with_addrs (i_flags i) as (iface_base i)]" rest al "i_flags i"]
        with_addrs_addr [OF a(1)] a(2)
      by (simp add: iface_entries_def Cons)
  qed (simp add: 1 iface_entries_def)
qed

lemma run_ifaces_up:
  "\<forall>i \<in> set is. iff_up (i_flags i) \<and> iface_ok ahdr i \<Longrightarrow>
     \<exists>fl'. run_msgs (ifi_step al) (concat (map iface_msgs is)) (infos, fl)
       = Next (infos @ concat (map (iface_entries al) is), fl')"
proof (induction "is" arbitrary: infos fl)
  case (Cons i "is")
  then show ?case using Cons.IH [of "infos @ iface_entries al i" "i_flags i"] run_iface_up [of i ahdr al infos fl]
    by (simp add: run_msgs_append)
qed simp
section \<open>Properties\<close>

text \<open>
  Names and indexes of interfaces go back and forth: for a buffer of the kernel in which no name
  and no index comes twice, \<open>if_nametoindex\<close> of an interface's name is its index, \<open>if_indextoname\<close> of
  the index, with the buffer for that index, is the name, and \<open>if_nameindex\<close> lists all interfaces in
  order. All pointer steps stay inside the buffer, and the block \<open>if_nameindex\<close> fills from both ends is
  large enough.
\<close>

theorem if_names_roundtrip:
  assumes "kbuf_ok hdr ahdr ms" and "kbuf_ok hdr ahdr ms'" and "iflist 0 = Some (kbuf hdr ahdr ms)"
    and "iflist idx = Some (kbuf hdr ahdr ms')" and "distinct (map snd (pairs ms))"
    and "(idx, nm) \<in> set (pairs ms)" and "pairs ms' = filter (\<lambda>(i, _). i = idx) (pairs ms)"
    and "distinct (map fst (pairs ms))"
  shows "if_nametoindex hdr iflist nm = Ok idx \<and> if_indextoname hdr iflist idx = Ok (Some nm)
    \<and> if_nameindex hdr iflist = Ok (Some (pairs ms))"
proof -
  have f1: "find (\<lambda>(i, n). n = nm) ps = Some (idx, nm)" if "(idx, nm) \<in> set ps" "distinct (map snd ps)" for ps
    using that by (induction ps) force+
  have f2: "find (\<lambda>(i, n). i = idx) ps = Some (idx, nm)" if "(idx, nm) \<in> set ps" "distinct (map fst ps)" for ps
    using that by (induction ps) force+
  have "(idx, nm) \<in> set (pairs ms')" using assms(6,7) by simp
  moreover have "distinct (map fst (pairs ms'))" unfolding assms(7)
    using assms(8) by (simp add: distinct_map_filter)
  ultimately have "find (\<lambda>(i, n). i = idx) (pairs ms') = Some (idx, nm)" by (rule f2)
  moreover have "pairs ms \<noteq> []" using assms(6) by auto
  ultimately show ?thesis
    using if_nametoindex_find [OF assms(1), of iflist nm] if_indextoname_find [OF assms(2), of iflist idx]
      if_nameindex_pairs [OF assms(1), of iflist] f1 [OF assms(6,5)] assms(3,4) by simp
qed

text \<open>Two interfaces of a Unix host: the loopback, and an Ethernet with a hardware address.\<close>

definition demo_sin :: "byte \<Rightarrow> byte list" where
  "demo_sin b = [16, 2, 0, 0, 10, 0, 0, b, 0, 0, 0, 0, 0, 0, 0, 0]"

definition demo_addr :: "byte \<Rightarrow> byte list option list" where
  "demo_addr b = [None, None, None, None, None, Some (demo_sin b), None, Some (demo_sin 255)]"

definition demo_lo :: iface where
  "demo_lo = \<lparr>i_index = 1, i_name = map of_char ''lo0'', i_mac = [], i_flags = 0x49, i_addrs = [demo_addr 127]\<rparr>"

definition demo_en :: iface where
  "demo_en = \<lparr>i_index = 4, i_name = map of_char ''en0'', i_mac = [0x65, 0x66, 0, 1, 2, 3], i_flags = 0x43,
     i_addrs = [demo_addr 1, demo_addr 2]\<rparr>"

lemma demo_ifaces_ok: "iface_ok 20 demo_lo" "iface_ok 20 demo_en"
proof -
  have sa: "sa_ok (demo_sin b)" for b by (simp add: sa_ok_def demo_sin_def)
  have "sas_ok (demo_addr b)" for b using sa by (auto simp: sas_ok_def demo_addr_def)
  moreover have "length (sas_bytes (demo_addr b)) = 32" for b
    by (simp add: sas_bytes_def demo_addr_def length_padded demo_sin_def)
  moreover have "demo_addr b ! RTAX_IFA \<noteq> None" for b by (simp add: demo_addr_def)
  ultimately show "iface_ok 20 demo_lo" "iface_ok 20 demo_en"
    by (simp_all add: iface_ok_def iface_msgs_def demo_lo_def demo_en_def sdl_pad_def)
qed

definition demo_ifs :: "kmsg list" where
  "demo_ifs = concat (map iface_msgs [demo_lo, demo_en])"

lemma demo_ifs_ok: "kbuf_ok 112 20 demo_ifs"
  using demo_ifaces_ok by (auto simp: kbuf_ok_def demo_ifs_def iface_ok_def)

theorem if_names_roundtrip_witness:
  "let iflist = (\<lambda>i. if i = 4 then Some (kbuf 112 20 (iface_msgs demo_en)) else Some (kbuf 112 20 demo_ifs))
   in if_nametoindex 112 iflist (map of_char ''en0'') = Ok 4
    \<and> if_indextoname 112 iflist 4 = Ok (Some (map of_char ''en0''))"
proof -
  have p: "pairs demo_ifs = [(1, map of_char ''lo0''), (4, map of_char ''en0'')]"
    "pairs (iface_msgs demo_en) = [(4, map of_char ''en0'')]"
    by (simp_all add: demo_ifs_def iface_msgs_def demo_lo_def demo_en_def)
  have "kbuf_ok 112 20 (iface_msgs demo_en)" using demo_ifaces_ok(2) by (auto simp: kbuf_ok_def iface_ok_def)
  from if_names_roundtrip [OF demo_ifs_ok this, of
      "\<lambda>i. if i = 4 then Some (kbuf 112 20 (iface_msgs demo_en)) else Some (kbuf 112 20 demo_ifs)" 4 "map of_char ''en0''"]
  show ?thesis by (simp add: p Let_def)
qed

text \<open>
  C20: \<open>get_ifi_info\<close> over interfaces that are all up lists each of them with its first address, or with
  \<open>doaliases\<close> once for each address, in the order of the kernel, with broadcast and destination
  address where the flags say so. The name, though, is not the interface's name: the format \<open>%*s\<close> prints
  up to the first NUL, and so appends the hardware address to it.
\<close>

theorem get_ifi_info_lists:
  assumes "is \<noteq> []" and "\<forall>i \<in> set is. iff_up (i_flags i) \<and> iface_ok ahdr i"
    and "24 \<le> hdr" and "hdr \<le> 1000" and "12 \<le> ahdr"
  shows "get_ifi_info hdr ahdr (Some (kbuf hdr ahdr (concat (map iface_msgs is)))) al
      = Ok (Some (concat (map (iface_entries al) is)))
    \<and> (\<forall>i \<in> set is. \<forall>e \<in> set (iface_entries al i). i_name i \<noteq> [] \<longrightarrow>
         ifi_name e = take 15 (i_name i @ takeWhile (\<lambda>b. b \<noteq> 0) (i_mac i)))"
proof -
  let ?ms = "concat (map iface_msgs is)"
  obtain i r where i: "is = i # r" using assms(1) by (cases "is") auto
  then obtain rest where ms: "?ms = If_info (i_index i) (i_name i) (i_mac i) (i_flags i) # rest"
    by (simp add: iface_msgs_def)
  have ok: "kbuf_ok hdr ahdr ?ms" "\<forall>x \<in> set ?ms. named_ok x"
    using assms(2-5) by (auto simp: kbuf_ok_def iface_ok_def)
  obtain fl where "run_msgs (ifi_step al) ?ms ([], 0) = Next ([] @ concat (map (iface_entries al) is), fl)"
    using run_ifaces_up [OF assms(2), of al "[]" 0] by blast
  then have "get_ifi_info hdr ahdr (Some (kbuf hdr ahdr ?ms)) al = Ok (Some (concat (map (iface_entries al) is)))"
    using get_ifi_info_run [OF ok ms] assms(2) i by simp
  moreover have "ifi_name e = shown_name (i_index i) (i_name i) (i_mac i)" if "e \<in> set (iface_entries al i)" for e i
    using that by (auto simp: iface_entries_def iface_base_def base_ifi_def with_addrs_def ifi_zero_def
        split: list.splits if_splits)
  ultimately show ?thesis by (auto simp: shown_name_def)
qed

theorem get_ifi_info_lists_witness:
  "\<exists>infos. get_ifi_info 112 20 (Some (kbuf 112 20 demo_ifs)) True = Ok (Some infos)
     \<and> map ifi_name infos = [map of_char ''lo0'', map of_char ''en0ef'', map of_char ''en0ef'']"
proof -
  have a: "get_ifi_info 112 20 (Some (kbuf 112 20 demo_ifs)) True
      = Ok (Some (concat (map (iface_entries True) [demo_lo, demo_en])))" unfolding demo_ifs_def
    using get_ifi_info_lists [of "[demo_lo, demo_en]" 20 112 True] demo_ifaces_ok
    by (simp add: demo_lo_def demo_en_def bit_1_iff)
  have b: "map ifi_name (concat (map (iface_entries True) [demo_lo, demo_en]))
      = [map of_char ''lo0'', map of_char ''en0ef'', map of_char ''en0ef'']"
    by (simp add: iface_entries_def demo_lo_def demo_en_def iface_base_def base_ifi_def with_addrs_def
        shown_name_def)
  show ?thesis by (rule exI, rule conjI, rule a, rule b)
qed

text \<open>
  An interface that is down is left out, but its addresses are not: they are taken for further
  addresses of the interface before it, under the flags of the one that is down. With \<open>doaliases\<close> the
  list ends with the name and index of an interface and addresses of another.
\<close>

theorem down_interface_misattributed:
  assumes "is \<noteq> []" and "\<forall>i \<in> set is. iff_up (i_flags i) \<and> iface_ok ahdr i" and "i_addrs (last is) \<noteq> []"
    and "\<not> iff_up (i_flags d)" and "iface_ok ahdr d" and "24 \<le> hdr" and "hdr \<le> 1000" and "12 \<le> ahdr"
  shows "get_ifi_info hdr ahdr (Some (kbuf hdr ahdr (concat (map iface_msgs (is @ [d]))))) al
      = Ok (Some (concat (map (iface_entries al) is)
          @ (if al then map (\<lambda>as. with_addrs (i_flags d) as (iface_base (last is))) (i_addrs d) else [])))"
proof -
  let ?ms = "concat (map iface_msgs (is @ [d]))"
  obtain i r where i: "is = i # r" using assms(1) by (cases "is") auto
  then obtain rest where ms: "?ms = If_info (i_index i) (i_name i) (i_mac i) (i_flags i) # rest"
    by (simp add: iface_msgs_def)
  have ok: "kbuf_ok hdr ahdr ?ms" "\<forall>x \<in> set ?ms. named_ok x"
    using assms(2,5-8) by (auto simp: kbuf_ok_def iface_ok_def)
  let ?infos = "concat (map (iface_entries al) is)"
  obtain fl where up: "run_msgs (ifi_step al) (concat (map iface_msgs is)) ([], 0) = Next ([] @ ?infos, fl)"
    using run_ifaces_up [OF assms(2), of al "[]" 0] by blast
  have ne: "iface_entries al (last is) \<noteq> []" by (simp add: iface_entries_def split: list.splits)
  have "?infos \<noteq> []" "last ?infos = last (iface_entries al (last is))"
    using assms(1) ne by (induction "is" rule: rev_induct) auto
  moreover have "\<exists>as \<in> set (i_addrs (last is)). e = with_addrs (i_flags (last is)) as (iface_base (last is))"
    if "e \<in> set (iface_entries al (last is))" for e
    using that assms(3) by (auto simp: iface_entries_def split: list.splits if_splits)
  then obtain as where "as \<in> set (i_addrs (last is))"
    "last (iface_entries al (last is)) = with_addrs (i_flags (last is)) as (iface_base (last is))"
    using last_in_set [OF ne] by blast
  moreover have "as ! RTAX_IFA \<noteq> None" if "as \<in> set (i_addrs (last is))" for as
    using assms(1,2) that last_in_set [of "is"] by (auto simp: iface_ok_def)
  ultimately have l: "?infos \<noteq> []" "ifi_addr (last ?infos) \<noteq> None" "bare (last ?infos) = iface_base (last is)"
    using with_addrs_addr by simp_all
  have "run_msgs (ifi_step al) (iface_msgs d) (?infos, fl)
      = run_msgs (ifi_step al) (map New_addr (i_addrs d)) (?infos, i_flags d)"
    using assms(4) by (simp add: iface_msgs_def ifi_step_def)
  then have r: "run_msgs (ifi_step al) ?ms ([], 0) = Next (if al then ?infos
      @ map (\<lambda>as. with_addrs (i_flags d) as (iface_base (last is))) (i_addrs d) else ?infos, i_flags d)"
    using up run_more_addrs [OF l(1,2), of "i_addrs d" al "i_flags d", unfolded l(3)] assms(5)
    by (simp add: run_msgs_append iface_ok_def)
  have "iff_up (i_flags i)" using assms(2) i by simp
  from get_ifi_info_run [OF ok ms this, of al] show ?thesis unfolding r by (cases al) simp_all
qed

theorem down_interface_misattributed_witness:
  "get_ifi_info 112 20 (Some (kbuf 112 20 (concat (map iface_msgs [demo_lo, demo_en\<lparr>i_flags := 0x42\<rparr>])))) True
     = Ok (Some (iface_entries True demo_lo
         @ map (\<lambda>as. with_addrs 0x42 as (iface_base demo_lo)) [demo_addr 1, demo_addr 2]))"
proof -
  have "iface_ok 20 (demo_en\<lparr>i_flags := 0x42\<rparr>)"
    using demo_ifaces_ok(2) by (simp add: iface_ok_def iface_msgs_def demo_en_def)
  from down_interface_misattributed [of "[demo_lo]" 20, OF _ _ _ _ this, of 112 True] demo_ifaces_ok(1)
  show ?thesis by (simp add: demo_lo_def demo_en_def bit_1_iff)
qed

end
