(* ===== verification/ProcPool.thy ===== *)
theory ProcPool
  imports Prelude
begin

text \<open>
  The preforked server \<^verbatim>\<open>unpv13e/server/serv05.c\<close> with \<^verbatim>\<open>child05.c\<close>: the parent accepts connections and
  passes each as a descriptor to a child it knows to be idle; a child that has served its connection
  writes a byte to its pipe. Parent and children are processes, so the model is a step relation: a
  step of the parent is one wait in \<open>Select\<close>, one pass through the branch for a new connection, or one
  round of the loop over the children; a step of a child is \<open>Read_fd\<close>, or the end of \<open>web_child\<close> with
  what follows it, or the end of the child: \<open>web_child\<close> ends the process with a message for a bad request or
  a failing read or write, and the child's standard error is its pipe to the parent. A connection is a number.
\<close>

section \<open>State\<close>

text \<open>
  A child: the parent's record of it (\<open>child_status\<close>, \<open>child_count\<close>), what is in the pipe in each
  direction, the connection it is serving, and those it has served; \<open>dead\<close>: the process has ended.
\<close>

record child =
  child_status :: nat
  child_count :: nat
  inbox :: "nat list"
  outbox :: nat
  work :: "nat option"
  served :: "nat list"
  dead :: bool

text \<open>
  Where the parent is: before \<open>Select\<close>, in the branch for \<open>listenfd\<close>, or in the loop at child \<open>i\<close>, with
  the children in \<open>rset\<close> and \<open>nsel\<close>; or it has ended: with "no available children", with "child
  terminated unexpectedly", or by the signal for writing to a child that has ended.
\<close>

datatype parent_pc = Selecting | Accepting "nat set" nat | Scanning nat "nat set" nat | Quit

record pool =
  backlog :: "nat list"
  navail :: int
  kids :: "child list"
  ppc :: parent_pc

definition new_child :: child where
  "new_child = \<lparr>child_status = 0, child_count = 0, inbox = [], outbox = 0, work = None, served = [], dead = False\<rparr>"

definition pool_start :: "nat \<Rightarrow> pool" where
  "pool_start n = \<lparr>backlog = [], navail = int n, kids = replicate n new_child, ppc = Selecting\<rparr>"

section \<open>Steps\<close>

text \<open>\<open>Fail i m\<close>: child \<open>i\<close> ends while it serves a connection, with a message of \<open>m\<close> characters.\<close>

datatype pool_ev = Arrive nat | Parent | Receive nat | Finish nat | Fail nat nat

fun available :: "child list \<Rightarrow> nat" where
  "available [] = 0"
| "available (k # ks) = (if child_status k = 0 then 0 else available ks + 1)"

definition put_kid :: "nat \<Rightarrow> child \<Rightarrow> pool \<Rightarrow> pool" where
  "put_kid i k s = s\<lparr>kids := (kids s)[i := k]\<rparr>"

text \<open>The children whose pipe is readable: something is in it, or the other end is closed.\<close>

definition talking :: "pool \<Rightarrow> nat set" where
  "talking s = set (filter (\<lambda>i. 0 < outbox (kids s ! i) \<or> dead (kids s ! i)) [0..<length (kids s)])"

definition select_step :: "pool \<Rightarrow> pool option" where
  "select_step s =
     (let listens = (0 < navail s \<and> backlog s \<noteq> []);
          nsel = (if listens then 1 else 0) + card (talking s)
      in if nsel = 0 then None
         else Some (s\<lparr>ppc := (if listens then Accepting (talking s) nsel else Scanning 0 (talking s) nsel)\<rparr>))"

definition accept_step :: "nat set \<Rightarrow> nat \<Rightarrow> pool \<Rightarrow> pool option" where
  "accept_step rset nsel s =
     (case backlog s of
        [] \<Rightarrow> None
      | c # cs \<Rightarrow>
          let i = available (kids s) in
          if i = length (kids s) \<or> dead (kids s ! i) then Some (s\<lparr>backlog := cs, ppc := Quit\<rparr>)
          else let k = kids s ! i;
                   k' = k\<lparr>child_status := 1, child_count := child_count k + 1, inbox := inbox k @ [c]\<rparr>
               in Some (put_kid i k' (s\<lparr>backlog := cs, navail := navail s - 1,
                          ppc := (if nsel - 1 = 0 then Selecting else Scanning 0 rset (nsel - 1))\<rparr>)))"

definition scan_step :: "nat \<Rightarrow> nat set \<Rightarrow> nat \<Rightarrow> pool \<Rightarrow> pool option" where
  "scan_step i rset nsel s =
     (if length (kids s) \<le> i then Some (s\<lparr>ppc := Selecting\<rparr>)
      else if i \<in> rset then
        (let k = kids s ! i in
         if outbox k = 0 then (if dead k then Some (s\<lparr>ppc := Quit\<rparr>) else None)
         else Some (put_kid i (k\<lparr>outbox := outbox k - 1, child_status := 0\<rparr>)
                (s\<lparr>navail := navail s + 1,
                   ppc := (if nsel - 1 = 0 then Selecting else Scanning (i + 1) rset (nsel - 1))\<rparr>)))
      else Some (s\<lparr>ppc := Scanning (i + 1) rset nsel\<rparr>))"

definition parent_step :: "pool \<Rightarrow> pool option" where
  "parent_step s =
     (case ppc s of
        Selecting \<Rightarrow> select_step s
      | Accepting rset nsel \<Rightarrow> accept_step rset nsel s
      | Scanning i rset nsel \<Rightarrow> scan_step i rset nsel s
      | Quit \<Rightarrow> None)"

text \<open>A step of a process, \<open>None\<close> when it is blocked.\<close>

fun pool_do :: "pool_ev \<Rightarrow> pool \<Rightarrow> pool option" where
  "pool_do (Arrive c) s = Some (s\<lparr>backlog := backlog s @ [c]\<rparr>)"
| "pool_do Parent s = parent_step s"
| "pool_do (Receive i) s =
     (if i < length (kids s) then
        (let k = kids s ! i in
         case (work k, inbox k, dead k) of
           (None, c # cs, False) \<Rightarrow> Some (put_kid i (k\<lparr>inbox := cs, work := Some c\<rparr>) s)
         | _ \<Rightarrow> None)
      else None)"
| "pool_do (Finish i) s =
     (if i < length (kids s) then
        (let k = kids s ! i in
         case work k of
           Some c \<Rightarrow> Some (put_kid i (k\<lparr>work := None, served := served k @ [c], outbox := outbox k + 1\<rparr>) s)
         | None \<Rightarrow> None)
      else None)"
| "pool_do (Fail i m) s =
     (if i < length (kids s) \<and> work (kids s ! i) \<noteq> None then
        (let k = kids s ! i in Some (put_kid i (k\<lparr>work := None, outbox := outbox k + m, dead := True\<rparr>) s))
      else None)"

inductive pool_reach :: "nat \<Rightarrow> pool \<Rightarrow> nat list \<Rightarrow> bool" for n where
  start: "pool_reach n (pool_start n) []"
| step: "pool_reach n s cs \<Longrightarrow> pool_do e s = Some s' \<Longrightarrow>
           pool_reach n s' (case e of Arrive c \<Rightarrow> cs @ [c] | _ \<Rightarrow> cs)"

section \<open>Invariant\<close>

text \<open>
  As long as no child has ended: a child the parent takes for busy has one connection on its way, in work, or reported as served but
  not yet read by the parent; one it takes for idle has none.
\<close>

definition in_hand :: "child \<Rightarrow> nat list" where
  "in_hand k = (case work k of None \<Rightarrow> [] | Some c \<Rightarrow> [c]) @ inbox k"

lemma in_hand_simps [simp]: "in_hand (k\<lparr>outbox := a\<rparr>) = in_hand k" "in_hand (k\<lparr>child_status := b\<rparr>) = in_hand k"
  by (simp_all add: in_hand_def)

definition kid_ok :: "child \<Rightarrow> bool" where
  "kid_ok k \<longleftrightarrow> \<not> dead k \<and> child_status k \<le> 1 \<and> length (in_hand k) + outbox k = child_status k
     \<and> child_count k = length (served k) + length (in_hand k)"

definition taken :: "pool \<Rightarrow> nat list" where
  "taken s = concat (map (\<lambda>k. served k @ in_hand k) (kids s))"

definition idle_count :: "child list \<Rightarrow> nat" where
  "idle_count ks = length (filter (\<lambda>k. child_status k = 0) ks)"

text \<open>The children in \<open>rset\<close> from \<open>i\<close> on still have their byte in the pipe, and \<open>nsel\<close> is their number.\<close>

definition scan_ok :: "nat \<Rightarrow> nat set \<Rightarrow> nat \<Rightarrow> pool \<Rightarrow> bool" where
  "scan_ok i rset nsel s \<longleftrightarrow> rset \<subseteq> {..<length (kids s)}
     \<and> (\<forall>j \<in> rset. i \<le> j \<longrightarrow> 0 < outbox (kids s ! j)) \<and> nsel = card {j \<in> rset. i \<le> j}"

definition pc_ok :: "pool \<Rightarrow> bool" where
  "pc_ok s \<longleftrightarrow> (case ppc s of
     Selecting \<Rightarrow> True
   | Accepting rset nsel \<Rightarrow> 0 < navail s \<and> backlog s \<noteq> [] \<and> 0 < nsel \<and> scan_ok 0 rset (nsel - 1) s
   | Scanning i rset nsel \<Rightarrow> 0 < nsel \<and> scan_ok i rset nsel s
   | Quit \<Rightarrow> False)"

definition pool_ok :: "nat \<Rightarrow> pool \<Rightarrow> nat list \<Rightarrow> bool" where
  "pool_ok n s cs \<longleftrightarrow> length (kids s) = n \<and> (\<forall>k \<in> set (kids s). kid_ok k)
     \<and> navail s = int (idle_count (kids s)) \<and> pc_ok s \<and> mset cs = mset (backlog s) + mset (taken s)"

lemma put_kid_simps [simp]:
  "kids (put_kid i k s) = (kids s)[i := k]" "navail (put_kid i k s) = navail s"
  "backlog (put_kid i k s) = backlog s" "ppc (put_kid i k s) = ppc s"
  by (simp_all add: put_kid_def)

lemma available_less: "idle_count ks \<noteq> 0 \<Longrightarrow> available ks < length ks \<and> child_status (ks ! available ks) = 0"
  by (induction ks) (auto simp: idle_count_def)

text \<open>The effect of changing one child on the counts.\<close>

lemma idle_count_update:
  "i < length ks \<Longrightarrow> idle_count (ks[i := k]) + (if child_status (ks ! i) = 0 then 1 else 0)
     = idle_count ks + (if child_status k = 0 then 1 else 0)"
  unfolding idle_count_def by (rule length_filter_update)

lemma taken_update:
  assumes "i < length ks"
  shows "mset (concat (map f (ks[i := k]))) + mset (f (ks ! i)) = mset (concat (map f ks)) + mset (f k)"
proof -
  have e: "ks = take i ks @ ks ! i # drop (Suc i) ks" by (rule id_take_nth_drop [OF assms])
  have u: "ks[i := k] = take i ks @ k # drop (Suc i) ks" by (rule upd_conv_take_nth_drop [OF assms])
  have "mset (concat (map f ks)) = mset (concat (map f (take i ks @ ks ! i # drop (Suc i) ks)))"
    by (subst e) (rule refl)
  then show ?thesis unfolding u by simp
qed

lemma talking_iff: "j \<in> talking s \<longleftrightarrow> j < length (kids s) \<and> (0 < outbox (kids s ! j) \<or> dead (kids s ! j))"
  by (auto simp: talking_def)

lemma pool_ok_alive: "pool_ok n s cs \<Longrightarrow> j < length (kids s) \<Longrightarrow> \<not> dead (kids s ! j)"
  by (simp add: pool_ok_def kid_ok_def)

text \<open>A change of one child that leaves it in order.\<close>

lemma kids_update:
  assumes "pool_ok n s cs" and "i < n" and "kid_ok k"
  shows "length ((kids s)[i := k]) = n" and "\<forall>k \<in> set ((kids s)[i := k]). kid_ok k"
    and "int (idle_count ((kids s)[i := k])) = navail s
      + (if child_status k = 0 then 1 else 0) - (if child_status (kids s ! i) = 0 then 1 else 0)"
    and "mset (taken (put_kid i k s)) + mset (served (kids s ! i) @ in_hand (kids s ! i))
      = mset (taken s) + mset (served k @ in_hand k)"
proof -
  have len: "length (kids s) = n" using assms(1) by (simp add: pool_ok_def)
  then show "length ((kids s)[i := k]) = n" by simp
  show "\<forall>k \<in> set ((kids s)[i := k]). kid_ok k"
    using assms set_update_subset_insert [of "kids s" i k] by (auto simp: pool_ok_def)
  show "int (idle_count ((kids s)[i := k])) = navail s
      + (if child_status k = 0 then 1 else 0) - (if child_status (kids s ! i) = 0 then 1 else 0)"
    using idle_count_update [of i "kids s" k] assms(1,2) len by (auto simp: pool_ok_def split: if_splits)
  show "mset (taken (put_kid i k s)) + mset (served (kids s ! i) @ in_hand (kids s ! i))
      = mset (taken s) + mset (served k @ in_hand k)"
    unfolding taken_def put_kid_simps by (rule taken_update) (use len assms(2) in simp)
qed

lemma scan_ok_update:
  assumes "scan_ok j rset m s" and "outbox (kids s ! i) \<le> outbox k"
  shows "scan_ok j rset m (put_kid i k s)"
  using assms by (cases "i < length (kids s)") (auto simp: scan_ok_def nth_list_update intro: less_le_trans)

lemma scan_ok_ppc [simp]: "scan_ok j rset m (s\<lparr>ppc := x\<rparr>) = scan_ok j rset m s"
  "scan_ok j rset m (s\<lparr>backlog := b\<rparr>) = scan_ok j rset m s" "scan_ok j rset m (s\<lparr>navail := v\<rparr>) = scan_ok j rset m s"
  by (simp_all add: scan_ok_def)

lemma taken_simps [simp]: "taken (s\<lparr>ppc := x\<rparr>) = taken s" "taken (s\<lparr>backlog := b\<rparr>) = taken s"
  "taken (s\<lparr>navail := v\<rparr>) = taken s"
  by (simp_all add: taken_def)

lemma put_kid_swap [simp]:
  "put_kid i k (s\<lparr>ppc := x\<rparr>) = (put_kid i k s)\<lparr>ppc := x\<rparr>" "put_kid i k (s\<lparr>navail := v\<rparr>) = (put_kid i k s)\<lparr>navail := v\<rparr>"
  "put_kid i k (s\<lparr>backlog := b\<rparr>) = (put_kid i k s)\<lparr>backlog := b\<rparr>"
  by (simp_all add: put_kid_def)

lemma talking_scan_ok:
  assumes "pool_ok n s cs"
  shows "scan_ok 0 (talking s) (card (talking s)) s"
proof -
  have "{j \<in> talking s. 0 \<le> j} = talking s" by simp
  then show ?thesis using pool_ok_alive [OF assms] by (auto simp: scan_ok_def talking_iff simp del: Collect_mem_eq)
qed

lemma select_step_ok:
  assumes "pool_ok n s cs" and "select_step s = Some s'"
  shows "pool_ok n s' cs"
proof -
  let ?l = "0 < navail s \<and> backlog s \<noteq> []"
  have s': "(if ?l then 1 else 0) + card (talking s) \<noteq> 0"
    "s' = s\<lparr>ppc := (if ?l then Accepting (talking s) (1 + card (talking s)) else Scanning 0 (talking s) (card (talking s)))\<rparr>"
    using assms(2) by (auto simp: select_step_def Let_def split: if_splits)
  then have "pc_ok s'" using talking_scan_ok [OF assms(1)] by (auto simp: pc_ok_def)
  with assms(1) s'(2) show ?thesis by (simp add: pool_ok_def)
qed

lemma accept_step_ok:
  assumes ok: "pool_ok n s cs" and pc: "ppc s = Accepting rset nsel"
  shows "\<exists>s'. accept_step rset nsel s = Some s' \<and> pool_ok n s' cs"
proof -
  have p: "0 < navail s" "backlog s \<noteq> []" "0 < nsel" "scan_ok 0 rset (nsel - 1) s"
    using ok pc by (simp_all add: pool_ok_def pc_ok_def)
  obtain c r where b: "backlog s = c # r" using p(2) by (cases "backlog s") auto
  have len: "length (kids s) = n" using ok by (simp add: pool_ok_def)
  let ?i = "available (kids s)" and ?k = "kids s ! available (kids s)"
  have i: "?i < n" "child_status ?k = 0"
    using available_less [of "kids s"] p(1) ok len by (auto simp: pool_ok_def)
  then have k: "kid_ok ?k" using ok len by (simp add: pool_ok_def)
  then have z: "in_hand ?k = []" "outbox ?k = 0" using i(2) by (simp_all add: kid_ok_def)
  let ?k' = "?k\<lparr>child_status := 1, child_count := child_count ?k + 1, inbox := inbox ?k @ [c]\<rparr>"
  have h: "in_hand ?k' = in_hand ?k @ [c]" by (simp add: in_hand_def split: option.splits)
  have "kid_ok ?k'" using k z unfolding kid_ok_def h by (simp add: i(2))
  note u = kids_update [OF ok i(1) this]
  let ?s' = "put_kid ?i ?k' (s\<lparr>backlog := r, navail := navail s - 1,
    ppc := (if nsel - 1 = 0 then Selecting else Scanning 0 rset (nsel - 1))\<rparr>)"
  have "accept_step rset nsel s = Some ?s'" using b i len pool_ok_alive [OF ok] by (simp add: accept_step_def Let_def)
  moreover have "pc_ok ?s'" using p scan_ok_update [OF p(4), of ?i ?k'] by (simp add: pc_ok_def)
  moreover have "mset cs = mset (backlog ?s') + mset (taken ?s')"
    using ok u(4) unfolding h by (simp add: pool_ok_def b)
  ultimately show ?thesis using u(1-3) i(2) by (auto simp: pool_ok_def)
qed

lemma scan_step_ok:
  assumes ok: "pool_ok n s cs" and pc: "ppc s = Scanning i rset nsel"
  shows "\<exists>s'. scan_step i rset nsel s = Some s' \<and> pool_ok n s' cs"
proof -
  have len: "length (kids s) = n" and p: "0 < nsel" "scan_ok i rset nsel s"
    using ok pc by (simp_all add: pool_ok_def pc_ok_def)
  have rs: "rset \<subseteq> {..<n}" and out: "\<forall>j \<in> rset. i \<le> j \<longrightarrow> 0 < outbox (kids s ! j)"
    and ns: "nsel = card {j \<in> rset. i \<le> j}" using p(2) len by (simp_all add: scan_ok_def)
  have fin: "finite rset" using rs by (rule finite_subset) simp
  have "{j \<in> rset. i \<le> j} \<noteq> {}" using p(1) ns by (metis card.empty less_irrefl)
  then have i: "i < n" using rs by auto
  show ?thesis
  proof (cases "i \<in> rset")
    case False
    then have "{j \<in> rset. i + 1 \<le> j} = {j \<in> rset. i \<le> j}" by (auto simp: Suc_le_eq le_less)
    then have "scan_ok (i + 1) rset nsel s" using rs out ns len by (auto simp: scan_ok_def)
    then show ?thesis using ok i len False p(1) by (simp add: scan_step_def pool_ok_def pc_ok_def)
  next
    case True
    let ?k = "kids s ! i"
    have o: "0 < outbox ?k" using out True by simp
    have k: "kid_ok ?k" using ok len i by (simp add: pool_ok_def)
    then have "length (in_hand ?k) + outbox ?k = child_status ?k" "child_status ?k \<le> 1"
      by (simp_all add: kid_ok_def)
    then have "length (in_hand ?k) = 0" and st: "child_status ?k = 1" "outbox ?k = 1" using o by linarith+
    then have st3: "in_hand ?k = []" by simp
    let ?k' = "?k\<lparr>outbox := outbox ?k - 1, child_status := 0\<rparr>"
    have h: "in_hand ?k' = in_hand ?k" by (simp add: in_hand_def)
    have "kid_ok ?k'" using k st st3 by (simp add: kid_ok_def h)
    note u = kids_update [OF ok i this]
    have "{j \<in> rset. i \<le> j} = insert i {j \<in> rset. i + 1 \<le> j}" using True by (auto simp: Suc_le_eq le_less)
    then have ns': "nsel = Suc (card {j \<in> rset. i + 1 \<le> j})" using fin ns by simp
    have sc: "scan_ok (i + 1) rset (nsel - 1) (put_kid i ?k' s)"
      using rs out ns' len by (auto simp: scan_ok_def nth_list_update)
    let ?s' = "put_kid i ?k' (s\<lparr>navail := navail s + 1,
      ppc := (if nsel - 1 = 0 then Selecting else Scanning (i + 1) rset (nsel - 1))\<rparr>)"
    have "scan_step i rset nsel s = Some ?s'" using i len True o by (simp add: scan_step_def Let_def)
    moreover have "pc_ok ?s'" using sc by (simp add: pc_ok_def)
    moreover have "mset cs = mset (backlog ?s') + mset (taken ?s')"
      using ok u(4) unfolding h by (simp add: pool_ok_def)
    ultimately show ?thesis using u(1-3) st(1) by (auto simp: pool_ok_def)
  qed
qed

text \<open>A step of a child keeps what the parent relies on.\<close>

lemma kid_step_ok:
  assumes ok: "pool_ok n s cs" and i: "i < n" and k: "kid_ok k" and st: "child_status k = child_status (kids s ! i)"
    and o: "outbox (kids s ! i) \<le> outbox k" and h: "served k @ in_hand k = served (kids s ! i) @ in_hand (kids s ! i)"
  shows "pool_ok n (put_kid i k s) cs"
proof -
  note u = kids_update [OF ok i k]
  have "pc_ok (put_kid i k s)" using ok scan_ok_update [OF _ o]
    by (auto simp: pool_ok_def pc_ok_def split: parent_pc.splits)
  then show ?thesis using u(1-3) st u(4) ok unfolding h by (simp add: pool_ok_def)
qed

lemma put_kid_dead: "i < length (kids s) \<Longrightarrow> dead k \<Longrightarrow> \<exists>k \<in> set (kids (put_kid i k s)). dead k"
  by (auto simp: put_kid_def intro: set_update_memI)

lemma fail_dead: "pool_do (Fail i m) s = Some s' \<Longrightarrow> \<exists>k \<in> set (kids s'). dead k"
  by (auto simp: Let_def split: if_splits intro!: put_kid_dead)

lemma pool_do_ok:
  assumes ok: "pool_ok n s cs" and e: "pool_do e s = Some s'" and alive: "\<forall>k \<in> set (kids s'). \<not> dead k"
  shows "pool_ok n s' (case e of Arrive c \<Rightarrow> cs @ [c] | _ \<Rightarrow> cs)"
proof (cases e)
  case (Arrive c)
  then have "s' = s\<lparr>backlog := backlog s @ [c]\<rparr>" using e by simp
  then show ?thesis using ok Arrive by (auto simp: pool_ok_def pc_ok_def split: parent_pc.splits)
next
  case Parent
  then show ?thesis using e ok select_step_ok [OF ok] accept_step_ok [OF ok] scan_step_ok [OF ok]
    by (cases "ppc s") (auto simp: parent_step_def)
next
  case (Receive i)
  then obtain c r where i: "i < n" "work (kids s ! i) = None" "inbox (kids s ! i) = c # r"
    and s': "s' = put_kid i ((kids s ! i)\<lparr>inbox := r, work := Some c\<rparr>) s"
    using e ok by (auto simp: pool_ok_def Let_def split: if_splits option.splits list.splits bool.splits)
  have "kid_ok (kids s ! i)" using ok i(1) by (simp add: pool_ok_def)
  then show ?thesis unfolding s' Receive using i
    by (auto intro!: kid_step_ok [OF ok] simp: kid_ok_def in_hand_def)
next
  case (Finish i)
  then obtain c where i: "i < n" "work (kids s ! i) = Some c"
    and s': "s' = put_kid i ((kids s ! i)\<lparr>work := None, served := served (kids s ! i) @ [c],
      outbox := outbox (kids s ! i) + 1\<rparr>) s"
    using e ok by (auto simp: pool_ok_def Let_def split: if_splits option.splits)
  have "kid_ok (kids s ! i)" using ok i(1) by (simp add: pool_ok_def)
  then show ?thesis unfolding s' Finish using i
    by (auto intro!: kid_step_ok [OF ok] simp: kid_ok_def in_hand_def)
next
  case (Fail i m)
  with e alive fail_dead show ?thesis by blast
qed

text \<open>A child that has ended stays so.\<close>

lemma put_kid_alive:
  assumes "\<forall>k \<in> set (kids (put_kid i k' s)). \<not> dead k" and "dead (kids s ! i) \<longrightarrow> dead k'"
  shows "\<forall>k \<in> set (kids s). \<not> dead k"
proof
  fix k assume "k \<in> set (kids s)"
  then obtain j where j: "j < length (kids s)" "kids s ! j = k" by (metis in_set_conv_nth)
  show "\<not> dead k"
  proof (cases "j = i")
    case True
    then have "k' \<in> set (kids (put_kid i k' s))" using j by (auto intro: set_update_memI)
    then show ?thesis using assms j True by blast
  next
    case False
    then have "k = (kids (put_kid i k' s)) ! j" "j < length (kids (put_kid i k' s))" using j by simp_all
    then show ?thesis using assms(1) nth_mem by blast
  qed
qed

lemma parent_alive:
  assumes "parent_step s = Some s'" and "\<forall>k \<in> set (kids s'). \<not> dead k"
  shows "\<forall>k \<in> set (kids s). \<not> dead k"
proof (cases "ppc s")
  case Selecting
  with assms show ?thesis by (auto simp: parent_step_def select_step_def Let_def split: if_splits)
next
  case (Accepting rset nsel)
  with assms(1) have a: "accept_step rset nsel s = Some s'" by (simp add: parent_step_def)
  show ?thesis
  proof (cases "kids s' = kids s")
    case False
    let ?i = "available (kids s)"
    obtain c where "kids s' = (kids s)[?i := (kids s ! ?i)\<lparr>child_status := 1,
        child_count := child_count (kids s ! ?i) + 1, inbox := inbox (kids s ! ?i) @ [c]\<rparr>]"
      using a False by (cases "backlog s") (simp_all add: accept_step_def Let_def split: if_splits, force+)
    then show ?thesis using put_kid_alive [of ?i "(kids s ! ?i)\<lparr>child_status := 1,
        child_count := child_count (kids s ! ?i) + 1, inbox := inbox (kids s ! ?i) @ [c]\<rparr>" s] assms(2) by simp
  qed (use assms(2) in simp)
next
  case (Scanning i rset nsel)
  with assms(1) have a: "scan_step i rset nsel s = Some s'" by (simp add: parent_step_def)
  show ?thesis
  proof (cases "kids s' = kids s")
    case False
    then have "kids s' = (kids s)[i := (kids s ! i)\<lparr>outbox := outbox (kids s ! i) - 1, child_status := 0\<rparr>]"
      using a by (simp add: scan_step_def Let_def split: if_splits) force+
    then show ?thesis
      using put_kid_alive [of i "(kids s ! i)\<lparr>outbox := outbox (kids s ! i) - 1, child_status := 0\<rparr>" s] assms(2) by simp
  qed (use assms(2) in simp)
qed (use assms in \<open>simp add: parent_step_def\<close>)

lemma pool_do_alive:
  assumes "pool_do e s = Some s'" and "\<forall>k \<in> set (kids s'). \<not> dead k"
  shows "\<forall>k \<in> set (kids s). \<not> dead k"
proof (cases e)
  case (Receive i)
  then obtain c r where "s' = put_kid i ((kids s ! i)\<lparr>inbox := r, work := Some c\<rparr>) s"
    using assms(1) by (auto simp: Let_def split: if_splits option.splits list.splits bool.splits)
  then show ?thesis using assms(2) put_kid_alive [of i "(kids s ! i)\<lparr>inbox := r, work := Some c\<rparr>" s] by simp
next
  case (Finish i)
  then obtain c where "s' = put_kid i ((kids s ! i)\<lparr>work := None, served := served (kids s ! i) @ [c],
      outbox := outbox (kids s ! i) + 1\<rparr>) s"
    using assms(1) by (auto simp: Let_def split: if_splits option.splits)
  then show ?thesis using assms(2) put_kid_alive [of i "(kids s ! i)\<lparr>work := None, served := served (kids s ! i) @ [c],
      outbox := outbox (kids s ! i) + 1\<rparr>" s] by simp
next
  case (Fail i m)
  with assms fail_dead show ?thesis by blast
next
  case Parent
  then show ?thesis using assms parent_alive by simp
qed (use assms in auto)

lemma pool_start_ok: "pool_ok n (pool_start n) []"
proof -
  have "idle_count (replicate n new_child) = n" by (simp add: idle_count_def new_child_def)
  moreover have "kid_ok new_child" by (simp add: kid_ok_def new_child_def in_hand_def)
  moreover have "concat (map (\<lambda>k. served k @ in_hand k) (replicate n new_child)) = []"
    by (simp add: new_child_def in_hand_def)
  ultimately show ?thesis by (auto simp: pool_ok_def pool_start_def pc_ok_def taken_def)
qed

lemma pool_reach_ok: "pool_reach n s cs \<Longrightarrow> \<forall>k \<in> set (kids s). \<not> dead k \<Longrightarrow> pool_ok n s cs"
proof (induction rule: pool_reach.induct)
  case (step s cs e s')
  from pool_do_ok [OF step.IH [OF pool_do_alive [OF step.hyps(2) step.prems]] step.hyps(2) step.prems] show ?case .
qed (rule pool_start_ok)

section \<open>Properties\<close>

text \<open>
  C22: As long as no child has ended, the parent's books are right in every state that can be reached,
  however the steps of parent and children interleave: \<open>navail\<close> is the number of children marked idle, those have no connection in hand
  and nothing to report, and a child marked busy has exactly one connection or one report on its way;
  \<open>child_count\<close> is the number of connections a child was given; each connection that arrived is either
  waiting or with exactly one child. So "no available children" is never reached, and the parent never
  reads from a pipe with nothing in it. (A child that has ended puts the parent out of step:
  \<open>bad_request_misleads_parent\<close>.)
\<close>

theorem child_pool_books:
  assumes "pool_reach n s cs" and "\<forall>k \<in> set (kids s). \<not> dead k"
  shows "length (kids s) = n \<and> navail s = int (length (filter (\<lambda>k. child_status k = 0) (kids s)))
    \<and> (\<forall>k \<in> set (kids s). length (in_hand k) + outbox k = child_status k \<and> child_status k \<le> 1
         \<and> child_count k = length (served k) + length (in_hand k))
    \<and> mset cs = mset (backlog s) + mset (concat (map (\<lambda>k. served k @ in_hand k) (kids s)))
    \<and> ppc s \<noteq> Quit \<and> (ppc s \<noteq> Selecting \<longrightarrow> parent_step s \<noteq> None)"
proof -
  have ok: "pool_ok n s cs" by (rule pool_reach_ok [OF assms])
  have "ppc s \<noteq> Selecting \<longrightarrow> parent_step s \<noteq> None"
  proof (cases "ppc s")
    case (Accepting rset nsel)
    then show ?thesis using accept_step_ok [OF ok Accepting] by (auto simp: parent_step_def)
  next
    case (Scanning i rset nsel)
    then show ?thesis using scan_step_ok [OF ok Scanning] by (auto simp: parent_step_def)
  qed (use ok in \<open>auto simp: pool_ok_def pc_ok_def\<close>)
  then show ?thesis using ok
    by (auto simp: pool_ok_def kid_ok_def taken_def idle_count_def pc_ok_def)
qed

text \<open>Two connections and two children: the events of a run, and the state they lead to.\<close>

fun pool_run :: "pool_ev list \<Rightarrow> pool \<Rightarrow> pool option" where
  "pool_run [] s = Some s"
| "pool_run (e # es) s = (case pool_do e s of None \<Rightarrow> None | Some s' \<Rightarrow> pool_run es s')"

fun arrivals :: "pool_ev list \<Rightarrow> nat list" where
  "arrivals [] = []"
| "arrivals (Arrive c # es) = c # arrivals es"
| "arrivals (_ # es) = arrivals es"

lemma pool_run_reach:
  "pool_run es s = Some s' \<Longrightarrow> pool_reach n s cs \<Longrightarrow> pool_reach n s' (cs @ arrivals es)"
proof (induction es arbitrary: s cs)
  case (Cons e es)
  obtain s1 where s1: "pool_do e s = Some s1" "pool_run es s1 = Some s'"
    using Cons.prems(1) by (auto split: option.splits)
  from Cons.IH [OF s1(2) pool_reach.step [OF Cons.prems(2) s1(1)]] show ?case by (cases e) simp_all
qed simp

definition demo_busy :: "pool_ev list" where
  "demo_busy = [Arrive 7, Parent, Parent, Arrive 8, Receive 0, Finish 0]"

definition demo_calm :: "pool_ev list" where
  "demo_calm = demo_busy @ [Parent, Parent, Parent, Receive 1, Finish 1, Parent, Parent, Parent]"

theorem child_pool_books_witness:
  "\<exists>s. pool_run demo_busy (pool_start 2) = Some s \<and> navail s = 1
     \<and> mset [7, 8] = mset (backlog s) + mset (concat (map (\<lambda>k. served k @ in_hand k) (kids s)))"
proof -
  obtain s where s: "pool_run demo_busy (pool_start 2) = Some s" "navail s = 1"
  proof -
    have "map_option navail (pool_run demo_busy (pool_start 2)) = Some 1" by code_simp
    then show ?thesis using that by auto
  qed
  have "map_option (\<lambda>s. list_all (\<lambda>k. \<not> dead k) (kids s)) (pool_run demo_busy (pool_start 2)) = Some True" by code_simp
  then have alive: "\<forall>k \<in> set (kids s). \<not> dead k" using s(1) by (simp add: list_all_iff)
  have "pool_reach 2 s (arrivals demo_busy)"
    using pool_run_reach [OF s(1) pool_reach.start] by simp
  moreover have "arrivals demo_busy = [7, 8]" by code_simp
  ultimately show ?thesis using child_pool_books [of 2 s "[7, 8]"] s alive by auto
qed

text \<open>
  C23: As long as no child has ended, the pool does not deadlock: with at least one child, whenever a
  connection waits or is in some child's hand, the parent can make a step, or a child one in which it does
  not end; and where neither can, the connections that arrived have all been served.
\<close>

theorem child_pool_progress:
  assumes "pool_reach n s cs" and "\<forall>k \<in> set (kids s). \<not> dead k" and "0 < n"
    and "\<forall>e. (\<forall>c i m. e \<noteq> Arrive c \<and> e \<noteq> Fail i m) \<longrightarrow> pool_do e s = None"
  shows "backlog s = [] \<and> mset cs = mset (concat (map served (kids s))) \<and> navail s = int n"
proof -
  have ok: "pool_ok n s cs" by (rule pool_reach_ok [OF assms(1,2)])
  then have len: "length (kids s) = n" by (simp add: pool_ok_def)
  have stuck: "pool_do Parent s = None" "pool_do (Receive i) s = None" "pool_do (Finish i) s = None" for i
    using assms(4) by (blast intro: assms(4) [rule_format])+
  have "ppc s = Selecting"
  proof (cases "ppc s")
    case (Accepting rset nsel)
    then show ?thesis using accept_step_ok [OF ok Accepting] stuck(1) by (auto simp: parent_step_def)
  next
    case (Scanning i rset nsel)
    then show ?thesis using scan_step_ok [OF ok Scanning] stuck(1) by (auto simp: parent_step_def)
  qed (use ok in \<open>auto simp: pool_ok_def pc_ok_def\<close>)
  then have sel: "select_step s = None" using stuck(1) by (simp add: parent_step_def)
  then have ls: "\<not> (0 < navail s \<and> backlog s \<noteq> [])" "card (talking s) = 0"
    by (auto simp: select_step_def Let_def split: if_splits)
  have fin: "finite (talking s)" by (simp add: talking_def)
  have kid: "in_hand (kids s ! i) = [] \<and> outbox (kids s ! i) = 0" if "i < n" for i
  proof -
    have w: "work (kids s ! i) = None" using stuck(3) [of i] that len
      by (cases "work (kids s ! i)") (auto simp: Let_def)
    then have "inbox (kids s ! i) = []" using stuck(2) [of i] that len pool_ok_alive [OF ok, of i]
      by (cases "inbox (kids s ! i)") (auto simp: Let_def)
    moreover have "outbox (kids s ! i) = 0" using ls(2) fin talking_iff [of i s] that len by auto
    ultimately show ?thesis using w by (simp add: in_hand_def)
  qed
  then have all: "\<forall>k \<in> set (kids s). in_hand k = [] \<and> outbox k = 0" using len by (metis in_set_conv_nth)
  then have "\<forall>k \<in> set (kids s). child_status k = 0" using ok by (auto simp: pool_ok_def kid_ok_def)
  then have "idle_count (kids s) = n" using len by (simp add: idle_count_def filter_True)
  then have nv: "navail s = int n" using ok by (simp add: pool_ok_def)
  with ls(1) assms(3) have b: "backlog s = []" by simp
  have "map (\<lambda>k. served k @ in_hand k) (kids s) = map served (kids s)" using all by simp
  then have "taken s = concat (map served (kids s))" by (simp only: taken_def)
  then show ?thesis using ok nv b by (simp add: pool_ok_def)
qed
theorem child_pool_progress_witness:
  "\<exists>s. pool_run demo_calm (pool_start 2) = Some s \<and> backlog s = [] \<and> mset [7, 8] = mset (concat (map served (kids s)))"
proof -
  let ?stuck = "\<lambda>s. pool_do Parent s = None \<and> length (kids s) = 2 \<and> list_all (\<lambda>k. \<not> dead k) (kids s)
    \<and> (\<forall>i \<in> {0, 1}. pool_do (Receive i) s = None \<and> pool_do (Finish i) s = None)"
  have "map_option ?stuck (pool_run demo_calm (pool_start 2)) = Some True" by code_simp
  then obtain s where s: "pool_run demo_calm (pool_start 2) = Some s" "?stuck s" by auto
  have r: "pool_reach 2 s (arrivals demo_calm)" using pool_run_reach [OF s(1) pool_reach.start] by simp
  have a: "arrivals demo_calm = [7, 8]" by code_simp
  have far: "pool_do (Receive i) s = None" "pool_do (Finish i) s = None" if "\<not> i < 2" for i
    using s(2) that by simp_all
  have near: "pool_do (Receive i) s = None" "pool_do (Finish i) s = None" if "i < 2" for i
    using s(2) that by (auto simp: less_2_cases_iff simp del: pool_do.simps)
  have idle: "pool_do e s = None" if "\<forall>c i m. e \<noteq> Arrive c \<and> e \<noteq> Fail i m" for e
  proof (cases e)
    case (Receive i)
    show ?thesis unfolding Receive by (cases "i < 2") (rule near(1) far(1), assumption)+
  next
    case (Finish i)
    show ?thesis unfolding Finish by (cases "i < 2") (rule near(2) far(2), assumption)+
  qed (use s(2) that in simp_all)
  then have "\<forall>e. (\<forall>c i m. e \<noteq> Arrive c \<and> e \<noteq> Fail i m) \<longrightarrow> pool_do e s = None" by simp
  moreover have "\<forall>k \<in> set (kids s). \<not> dead k" using s(2) by (simp add: list_all_iff)
  ultimately have "backlog s = [] \<and> mset [7, 8] = mset (concat (map served (kids s)))"
    using child_pool_progress [OF r [unfolded a]] by simp
  with s(1) show ?thesis by (intro exI [of _ s]) simp
qed

text \<open>
  One bad request: the message of the child goes to its standard error, which is its pipe to the parent, and
  the parent takes every character of it for the report of a served connection. It counts three available
  children where it has none, and ends when the message is read.
\<close>

definition demo_bad :: "pool_ev list" where
  "demo_bad = [Arrive 7, Parent, Parent, Receive 0, Fail 0 3, Parent, Parent, Parent, Parent, Parent, Parent]"

lemma bad_request_misleads_parent:
  "\<exists>s. pool_reach 1 s [7] \<and> navail s = 3 \<and> kids s \<noteq> [] \<and> list_all dead (kids s)
     \<and> (\<exists>s1 s2. pool_do Parent s = Some s1 \<and> pool_do Parent s1 = Some s2 \<and> ppc s2 = Quit)"
proof -
  let ?P = "\<lambda>s. navail s = 3 \<and> kids s \<noteq> [] \<and> list_all dead (kids s)
    \<and> map_option ppc (Option.bind (pool_do Parent s) (pool_do Parent)) = Some Quit"
  have "map_option ?P (pool_run demo_bad (pool_start 1)) = Some True" by code_simp
  then obtain s where s: "pool_run demo_bad (pool_start 1) = Some s" "?P s" by auto
  have "pool_reach 1 s ([] @ arrivals demo_bad)" by (rule pool_run_reach [OF s(1) pool_reach.start])
  moreover have "arrivals demo_bad = [7]" by code_simp
  ultimately show ?thesis using s(2) by (auto simp: bind_eq_Some_conv simp del: pool_do.simps)
qed

end
