(* ===== verification/WebNonblock.thy ===== *)
theory WebNonblock
  imports SelectServer
begin

unbundle bit_operations_syntax

text \<open>
  The web client \<^verbatim>\<open>unpv13e/nonblock/web.c\<close> with \<^verbatim>\<open>start_connect.c\<close> and \<^verbatim>\<open>write_get_cmd.c\<close>: one process
  that fetches up to 20 files over at most \<open>maxnconn\<close> nonblocking connections at a time. What \<open>connect\<close>,
  \<open>Select\<close>, \<open>Writen\<close> and \<open>Read\<close> yield in a round is an input; a file is its index.
\<close>

section \<open>State\<close>

abbreviation FF_CONNECTING :: nat where "FF_CONNECTING \<equiv> 1"
abbreviation FF_READING :: nat where "FF_READING \<equiv> 2"
abbreviation FF_DONE :: nat where "FF_DONE \<equiv> 4"

record wfile =
  f_fd :: int
  f_flags :: nat

text \<open>Besides the globals, the files whose GET command was written and those read to the end, in order.\<close>

record webnb =
  files :: "wfile list"
  nconn :: int
  nlefttoconn :: int
  nlefttoread :: int
  wmaxfd :: int
  rset :: "int set"
  wset :: "int set"
  asked :: "nat list"
  ended :: "nat list"

definition webnb_init :: "nat \<Rightarrow> webnb" where
  "webnb_init nargs =
     (let nfiles = min nargs 20 in
      \<lparr>files = replicate nfiles \<lparr>f_fd = 0, f_flags = 0\<rparr>, nconn = 0, nlefttoconn = int nfiles,
       nlefttoread = int nfiles, wmaxfd = -1, rset = {}, wset = {}, asked = [], ended = []\<rparr>)"

text \<open>\<open>connect\<close> on a new descriptor: in progress, done at once, or failed (the process ends).\<close>

datatype conn_result = In_progress int | At_once int | Fails

record web_round_ev =
  connects :: "nat \<Rightarrow> conn_result"
  readies :: "int set"
  writes_ok :: "int \<Rightarrow> bool"
  reads_n :: "int \<Rightarrow> nat option"

section \<open>Operations\<close>

definition set_file :: "nat \<Rightarrow> wfile \<Rightarrow> webnb \<Rightarrow> webnb" where
  "set_file i f s = s\<lparr>files := (files s)[i := f]\<rparr>"

definition write_get_cmd :: "web_round_ev \<Rightarrow> nat \<Rightarrow> webnb \<Rightarrow> webnb round" where
  "write_get_cmd e i s =
     (let fd = f_fd (files s ! i) in
      if \<not> writes_ok e fd then Exits
      else if fd \<ge> int FD_SETSIZE then Overruns
      else Goes_on (set_file i ((files s ! i)\<lparr>f_flags := FF_READING\<rparr>)
             (s\<lparr>rset := insert fd (rset s), wmaxfd := (if fd > wmaxfd s then fd else wmaxfd s),
                asked := asked s @ [i]\<rparr>)))"

definition start_connect :: "web_round_ev \<Rightarrow> nat \<Rightarrow> webnb \<Rightarrow> webnb round" where
  "start_connect e i s =
     (case connects e i of
        Fails \<Rightarrow> Exits
      | In_progress fd \<Rightarrow>
          if fd \<ge> int FD_SETSIZE then Overruns
          else Goes_on (set_file i \<lparr>f_fd = fd, f_flags = FF_CONNECTING\<rparr>
                 (s\<lparr>rset := insert fd (rset s), wset := insert fd (wset s),
                    wmaxfd := (if fd > wmaxfd s then fd else wmaxfd s)\<rparr>))
      | At_once fd \<Rightarrow> write_get_cmd e i (set_file i ((files s ! i)\<lparr>f_fd := fd\<rparr>) s))"

fun unstarted :: "wfile list \<Rightarrow> nat" where
  "unstarted [] = 0"
| "unstarted (f # fs) = (if f_flags f = 0 then 0 else unstarted fs + 1)"

text \<open>The inner loop, which starts connections; it ends, since each pass lowers \<open>nlefttoconn\<close>.\<close>

function start_loop :: "int \<Rightarrow> web_round_ev \<Rightarrow> webnb \<Rightarrow> webnb round" where
  "start_loop maxnconn e s =
     (if nconn s < maxnconn \<and> 0 < nlefttoconn s then
        (let i = unstarted (files s) in
         if i = length (files s) then Exits
         else case start_connect e i s of
                Goes_on s' \<Rightarrow> start_loop maxnconn e (s'\<lparr>nconn := nconn s + 1, nlefttoconn := nlefttoconn s - 1\<rparr>)
              | r \<Rightarrow> r)
      else Goes_on s)"
  by pat_completeness auto
termination by (relation "measure (\<lambda>(_, _, s). nat (nlefttoconn s))") auto

declare start_loop.simps [simp del]

text \<open>
  One file of the loop over the results of \<open>Select\<close>. The error \<open>getsockopt\<close> reports for a connect that
  failed is printed and has no other effect.
\<close>

definition file_part :: "int set \<Rightarrow> int set \<Rightarrow> web_round_ev \<Rightarrow> nat \<Rightarrow> webnb \<Rightarrow> webnb round" where
  "file_part rs ws e i s =
     (let f = files s ! i; flags = f_flags f; fd = f_fd f in
      if flags = 0 \<or> flags AND FF_DONE \<noteq> 0 then Goes_on s
      else if flags AND FF_CONNECTING \<noteq> 0 \<and> (fd \<in> rs \<or> fd \<in> ws)
      then write_get_cmd e i (s\<lparr>wset := wset s - {fd}\<rparr>)
      else if flags AND FF_READING \<noteq> 0 \<and> fd \<in> rs then
        (case reads_n e fd of
           None \<Rightarrow> Exits
         | Some n \<Rightarrow>
             if n = 0
             then Goes_on (set_file i (f\<lparr>f_flags := FF_DONE\<rparr>)
                    (s\<lparr>rset := rset s - {fd}, nconn := nconn s - 1, nlefttoread := nlefttoread s - 1,
                       ended := ended s @ [i]\<rparr>))
             else Goes_on s)
      else Goes_on s)"

fun files_part :: "int set \<Rightarrow> int set \<Rightarrow> web_round_ev \<Rightarrow> nat list \<Rightarrow> webnb \<Rightarrow> webnb round" where
  "files_part rs ws e [] s = Goes_on s"
| "files_part rs ws e (i # is) s =
     (case file_part rs ws e i s of Goes_on s' \<Rightarrow> files_part rs ws e is s' | r \<Rightarrow> r)"

definition select_set :: "web_round_ev \<Rightarrow> webnb \<Rightarrow> int set \<Rightarrow> int set" where
  "select_set e s fds = {fd \<in> fds. fd \<le> wmaxfd s \<and> fd \<in> readies e}"

definition webnb_round :: "int \<Rightarrow> web_round_ev \<Rightarrow> webnb \<Rightarrow> webnb round" where
  "webnb_round maxnconn e s =
     (case start_loop maxnconn e s of
        Goes_on s1 \<Rightarrow> files_part (select_set e s1 (rset s1)) (select_set e s1 (wset s1)) e [0..<length (files s1)] s1
      | r \<Rightarrow> r)"

text \<open>
  What a round relies on: a new descriptor is not one that is open. The loop goes on while files are
  left to read.
\<close>

definition new_fd :: "conn_result \<Rightarrow> int set" where
  "new_fd r = (case r of In_progress fd \<Rightarrow> {fd} | At_once fd \<Rightarrow> {fd} | Fails \<Rightarrow> {})"

definition fresh_fds :: "web_round_ev \<Rightarrow> webnb \<Rightarrow> bool" where
  "fresh_fds e s \<longleftrightarrow> (\<forall>i < length (files s). new_fd (connects e i) \<inter> rset s = {} \<and> (\<forall>fd \<in> new_fd (connects e i). 0 \<le> fd))
     \<and> (\<forall>i < length (files s). \<forall>j < length (files s). i \<noteq> j \<longrightarrow> new_fd (connects e i) \<inter> new_fd (connects e j) = {})"

inductive webnb_reach :: "int \<Rightarrow> nat \<Rightarrow> webnb \<Rightarrow> bool" for maxnconn nargs where
  start: "webnb_reach maxnconn nargs (webnb_init nargs)"
| round: "webnb_reach maxnconn nargs s \<Longrightarrow> 0 < nlefttoread s \<Longrightarrow> fresh_fds e s \<Longrightarrow>
            webnb_round maxnconn e s = Goes_on s' \<Longrightarrow> webnb_reach maxnconn nargs s'"

section \<open>Invariant\<close>

definition having :: "nat \<Rightarrow> webnb \<Rightarrow> nat" where
  "having fl s = length (filter (\<lambda>f. f_flags f = fl) (files s))"

definition active_fd :: "webnb \<Rightarrow> nat \<Rightarrow> bool" where
  "active_fd s i \<longleftrightarrow> i < length (files s) \<and> f_flags (files s ! i) \<in> {FF_CONNECTING, FF_READING}"

text \<open>The flags of the files, as a function of what was asked for and what has ended.\<close>

definition flags_ok :: "webnb \<Rightarrow> bool" where
  "flags_ok s \<longleftrightarrow> (\<forall>i < length (files s). f_flags (files s ! i) \<in> {0, FF_CONNECTING, FF_READING, FF_DONE}
        \<and> (i \<in> set (asked s) \<longleftrightarrow> f_flags (files s ! i) \<in> {FF_READING, FF_DONE})
        \<and> (i \<in> set (ended s) \<longleftrightarrow> f_flags (files s ! i) = FF_DONE))
     \<and> distinct (asked s) \<and> distinct (ended s) \<and> set (asked s) \<subseteq> {..<length (files s)} \<and> set (ended s) \<subseteq> {..<length (files s)}"

definition fds_ok :: "webnb \<Rightarrow> bool" where
  "fds_ok s \<longleftrightarrow> (\<forall>fd. fd \<in> rset s \<longleftrightarrow> (\<exists>i. active_fd s i \<and> f_fd (files s ! i) = fd))
     \<and> (\<forall>fd. fd \<in> wset s \<longleftrightarrow> (\<exists>i. active_fd s i \<and> f_flags (files s ! i) = FF_CONNECTING \<and> f_fd (files s ! i) = fd))
     \<and> (\<forall>i j. active_fd s i \<and> active_fd s j \<and> f_fd (files s ! i) = f_fd (files s ! j) \<longrightarrow> i = j)
     \<and> (\<forall>fd \<in> rset s. 0 \<le> fd \<and> fd \<le> wmaxfd s \<and> fd < int FD_SETSIZE)"

definition counts_ok :: "int \<Rightarrow> webnb \<Rightarrow> bool" where
  "counts_ok maxnconn s \<longleftrightarrow> nconn s = int (having FF_CONNECTING s + having FF_READING s)
     \<and> nlefttoconn s = int (having 0 s) \<and> nlefttoread s = int (length (files s)) - int (having FF_DONE s)
     \<and> nconn s \<le> max 0 maxnconn"

definition web_ok :: "int \<Rightarrow> webnb \<Rightarrow> bool" where
  "web_ok maxnconn s \<longleftrightarrow> flags_ok s \<and> fds_ok s \<and> counts_ok maxnconn s"

lemma set_file_simps [simp]:
  "files (set_file i f s) = (files s)[i := f]" "nconn (set_file i f s) = nconn s"
  "nlefttoconn (set_file i f s) = nlefttoconn s" "nlefttoread (set_file i f s) = nlefttoread s"
  "wmaxfd (set_file i f s) = wmaxfd s" "rset (set_file i f s) = rset s" "wset (set_file i f s) = wset s"
  "asked (set_file i f s) = asked s" "ended (set_file i f s) = ended s"
  by (simp_all add: set_file_def)

lemma having_update:
  "i < length (files s) \<Longrightarrow> files s' = (files s)[i := f] \<Longrightarrow>
     having fl s' + (if f_flags (files s ! i) = fl then 1 else 0) = having fl s + (if f_flags f = fl then 1 else 0)"
  using length_filter_update [of i "files s" "\<lambda>f. f_flags f = fl" f] by (simp add: having_def)

lemma unstarted_found:
  "having 0 s \<noteq> 0 \<Longrightarrow> unstarted (files s) < length (files s) \<and> f_flags (files s ! unstarted (files s)) = 0"
proof -
  have "length (filter (\<lambda>f. f_flags f = 0) fs) \<noteq> 0 \<Longrightarrow> unstarted fs < length fs \<and> f_flags (fs ! unstarted fs) = 0" for fs
    by (induction fs) auto
  then show "having 0 s \<noteq> 0 \<Longrightarrow> ?thesis" by (simp add: having_def)
qed

lemma active_fd_update:
  "i < length (files s) \<Longrightarrow> files s' = (files s)[i := f] \<Longrightarrow>
     active_fd s' j \<longleftrightarrow> (if j = i then f_flags f \<in> {FF_CONNECTING, FF_READING} else active_fd s j)"
  by (auto simp: active_fd_def nth_list_update)
lemma rset_iff: "fds_ok s \<Longrightarrow> fd \<in> rset s \<longleftrightarrow> (\<exists>i. active_fd s i \<and> f_fd (files s ! i) = fd)"
  by (simp add: fds_ok_def)

lemma wset_iff: "fds_ok s \<Longrightarrow> fd \<in> wset s \<longleftrightarrow>
    (\<exists>i. active_fd s i \<and> f_flags (files s ! i) = FF_CONNECTING \<and> f_fd (files s ! i) = fd)"
  by (simp add: fds_ok_def)

lemma fd_inj: "fds_ok s \<Longrightarrow> active_fd s i \<Longrightarrow> active_fd s j \<Longrightarrow> f_fd (files s ! i) = f_fd (files s ! j) \<Longrightarrow> i = j"
  by (simp add: fds_ok_def)

lemma fd_range: "fds_ok s \<Longrightarrow> fd \<in> rset s \<Longrightarrow> 0 \<le> fd \<and> fd \<le> wmaxfd s \<and> fd < int FD_SETSIZE"
  by (simp add: fds_ok_def)

text \<open>A file gets a new descriptor; a connected one keeps its own; a finished one gives it up.\<close>

lemma ex_update:
  assumes "\<not> A i"
  shows "(\<exists>j. (j = i \<or> A j) \<and> P (if j = i then f else g j)) \<longleftrightarrow> P f \<or> (\<exists>j. A j \<and> P (g j))"
proof
  assume "\<exists>j. (j = i \<or> A j) \<and> P (if j = i then f else g j)"
  then obtain j where "j = i \<or> A j" "P (if j = i then f else g j)" by blast
  then show "P f \<or> (\<exists>j. A j \<and> P (g j))" by (cases "j = i") auto
next
  assume "P f \<or> (\<exists>j. A j \<and> P (g j))"
  then show "\<exists>j. (j = i \<or> A j) \<and> P (if j = i then f else g j)"
  proof
    assume "\<exists>j. A j \<and> P (g j)"
    then obtain j where "A j" "P (g j)" by blast
    with assms show ?thesis by (intro exI [of _ j]) auto
  qed (auto intro: exI [of _ i])
qed

lemma fds_ok_open:
  assumes ok: "fds_ok s" and i: "i < length (files s)" "f_flags (files s ! i) = 0"
    and fd: "f_fd f \<notin> rset s" "0 \<le> f_fd f" "f_fd f < int FD_SETSIZE" "f_flags f \<in> {FF_CONNECTING, FF_READING}"
    and s': "files s' = (files s)[i := f]" "rset s' = insert (f_fd f) (rset s)"
      "wset s' = (if f_flags f = FF_CONNECTING then insert (f_fd f) (wset s) else wset s)"
      "wmaxfd s \<le> wmaxfd s'" "f_fd f \<le> wmaxfd s'"
  shows "fds_ok s'"
proof -
  have act: "active_fd s' j \<longleftrightarrow> j = i \<or> active_fd s j" for j
    using active_fd_update [OF i(1) s'(1)] fd(4) by auto
  have ni: "\<not> active_fd s i" using i(2) by (simp add: active_fd_def)
  have fdj: "files s' ! j = (if j = i then f else files s ! j)" for j
    using i(1) s'(1) by (auto simp: nth_list_update)
  have new: "f_fd (files s ! j) \<noteq> f_fd f" if "active_fd s j" for j using rset_iff [OF ok] fd(1) that by auto
  show ?thesis unfolding fds_ok_def
  proof (intro conjI allI impI ballI)
    show "x \<in> rset s' \<longleftrightarrow> (\<exists>j. active_fd s' j \<and> f_fd (files s' ! j) = x)" for x
      unfolding s'(2) insert_iff rset_iff [OF ok] act fdj using ni by auto
    show "x \<in> wset s' \<longleftrightarrow> (\<exists>j. active_fd s' j \<and> f_flags (files s' ! j) = FF_CONNECTING \<and> f_fd (files s' ! j) = x)" for x
    proof -
      have "(\<exists>j. (j = i \<or> active_fd s j) \<and> f_flags (if j = i then f else files s ! j) = FF_CONNECTING
            \<and> f_fd (if j = i then f else files s ! j) = x)
          \<longleftrightarrow> (f_flags f = FF_CONNECTING \<and> f_fd f = x) \<or> x \<in> wset s"
        unfolding wset_iff [OF ok]
        using ex_update [of "active_fd s" i "\<lambda>w. f_flags w = FF_CONNECTING \<and> f_fd w = x" f "\<lambda>j. files s ! j"] ni
        by simp
      note H = this
      show ?thesis unfolding act fdj s'(3) H by auto
    qed
    show "a = b" if "active_fd s' a \<and> active_fd s' b \<and> f_fd (files s' ! a) = f_fd (files s' ! b)" for a b
      using that unfolding act fdj by (metis new fd_inj [OF ok])
    show "0 \<le> x" "x \<le> wmaxfd s'" "x < int FD_SETSIZE" if "x \<in> rset s'" for x
      using that fd(2,3) s'(2,4,5) fd_range [OF ok, of x] by auto
  qed
qed

lemma fds_ok_same:
  assumes ok: "fds_ok s" and i: "active_fd s i" and f: "f_fd f = f_fd (files s ! i)" "f_flags f = FF_READING"
    and s': "files s' = (files s)[i := f]" "rset s' = rset s" "wset s' = wset s - {f_fd f}" "wmaxfd s \<le> wmaxfd s'"
  shows "fds_ok s'"
proof -
  have il: "i < length (files s)" using i by (simp add: active_fd_def)
  have act: "active_fd s' j \<longleftrightarrow> active_fd s j" for j
    using active_fd_update [OF il s'(1), of j] f(2) i by auto
  have fdj: "files s' ! j = (if j = i then f else files s ! j)" for j
    using il s'(1) by (auto simp: nth_list_update)
  have fd: "f_fd (files s' ! j) = f_fd (files s ! j)" for j using f(1) fdj by auto
  show ?thesis unfolding fds_ok_def
  proof (intro conjI allI impI ballI)
    show "x \<in> rset s' \<longleftrightarrow> (\<exists>j. active_fd s' j \<and> f_fd (files s' ! j) = x)" for x
      unfolding act fd s'(2) by (rule rset_iff [OF ok])
    have fl: "f_flags (files s' ! j) = FF_CONNECTING \<longleftrightarrow> j \<noteq> i \<and> f_flags (files s ! j) = FF_CONNECTING" for j
      using f(2) fdj [of j] by auto
    show "x \<in> wset s' \<longleftrightarrow> (\<exists>j. active_fd s' j \<and> f_flags (files s' ! j) = FF_CONNECTING \<and> f_fd (files s' ! j) = x)" for x
      using fd_inj [OF ok _ i] i f(1) unfolding act fd fl s'(3) Diff_iff wset_iff [OF ok] by auto
    show "a = b" if "active_fd s' a \<and> active_fd s' b \<and> f_fd (files s' ! a) = f_fd (files s' ! b)" for a b
      using that fd_inj [OF ok] unfolding act fd by blast
    show "0 \<le> x" "x \<le> wmaxfd s'" "x < int FD_SETSIZE" if "x \<in> rset s'" for x
      using that s'(2,4) fd_range [OF ok, of x] by auto
  qed
qed

lemma fds_ok_close:
  assumes ok: "fds_ok s" and i: "active_fd s i" "f_flags (files s ! i) = FF_READING"
    and f: "f_flags f = FF_DONE"
    and s': "files s' = (files s)[i := f]" "rset s' = rset s - {f_fd (files s ! i)}" "wset s' = wset s" "wmaxfd s' = wmaxfd s"
  shows "fds_ok s'"
proof -
  have il: "i < length (files s)" using i(1) by (simp add: active_fd_def)
  have act: "active_fd s' j \<longleftrightarrow> j \<noteq> i \<and> active_fd s j" for j
    using active_fd_update [OF il s'(1), of j] f by auto
  have fdj: "j \<noteq> i \<Longrightarrow> files s' ! j = files s ! j" for j using s'(1) by simp
  have inj: "a = b" if "active_fd s a" "active_fd s b" "f_fd (files s ! a) = f_fd (files s ! b)" for a b
    using that fd_inj [OF ok] by blast
  show ?thesis unfolding fds_ok_def
  proof (intro conjI allI impI ballI)
    show "x \<in> rset s' \<longleftrightarrow> (\<exists>j. active_fd s' j \<and> f_fd (files s' ! j) = x)" for x
    proof -
      have "(\<exists>j. (j \<noteq> i \<and> active_fd s j) \<and> f_fd (files s' ! j) = x)
          \<longleftrightarrow> (\<exists>j. active_fd s j \<and> f_fd (files s ! j) = x) \<and> x \<noteq> f_fd (files s ! i)"
        by (metis fdj inj i(1))
      then show ?thesis unfolding s'(2) Diff_iff rset_iff [OF ok] act by simp
    qed
    show "x \<in> wset s' \<longleftrightarrow> (\<exists>j. active_fd s' j \<and> f_flags (files s' ! j) = FF_CONNECTING \<and> f_fd (files s' ! j) = x)" for x
    proof -
      have "f_flags (files s ! i) \<noteq> FF_CONNECTING" using i(2) by simp
      then have "(\<exists>j. (j \<noteq> i \<and> active_fd s j) \<and> f_flags (files s' ! j) = FF_CONNECTING \<and> f_fd (files s' ! j) = x)
          \<longleftrightarrow> (\<exists>j. active_fd s j \<and> f_flags (files s ! j) = FF_CONNECTING \<and> f_fd (files s ! j) = x)"
        by (metis fdj)
      then show ?thesis unfolding s'(3) wset_iff [OF ok] act by simp
    qed
    show "a = b" if "active_fd s' a \<and> active_fd s' b \<and> f_fd (files s' ! a) = f_fd (files s' ! b)" for a b
      using that inj fdj unfolding act by auto
    show "0 \<le> x" "x \<le> wmaxfd s'" "x < int FD_SETSIZE" if "x \<in> rset s'" for x
      using that s'(2,4) fd_range [OF ok, of x] by auto
  qed
qed

text \<open>The same three changes for the flags.\<close>

lemma flags_ok_change:
  assumes "flags_ok s" and "i < length (files s)" and "files s' = (files s)[i := f]"
    and "(f_flags (files s ! i), f_flags f, asked s', ended s') \<in>
       {(0, FF_CONNECTING, asked s, ended s), (0, FF_READING, asked s @ [i], ended s),
        (FF_CONNECTING, FF_READING, asked s @ [i], ended s), (FF_READING, FF_DONE, asked s, ended s @ [i])}"
  shows "flags_ok s'"
proof -
  have i: "i \<in> set (asked s) \<longleftrightarrow> f_flags (files s ! i) \<in> {FF_READING, FF_DONE}"
    "i \<in> set (ended s) \<longleftrightarrow> f_flags (files s ! i) = FF_DONE" using assms(1,2) by (simp_all add: flags_ok_def)
  from assms(4) consider
      "f_flags (files s ! i) = 0" "f_flags f = FF_CONNECTING" "asked s' = asked s" "ended s' = ended s"
    | "f_flags (files s ! i) = 0" "f_flags f = FF_READING" "asked s' = asked s @ [i]" "ended s' = ended s"
    | "f_flags (files s ! i) = FF_CONNECTING" "f_flags f = FF_READING" "asked s' = asked s @ [i]" "ended s' = ended s"
    | "f_flags (files s ! i) = FF_READING" "f_flags f = FF_DONE" "asked s' = asked s" "ended s' = ended s @ [i]"
    by auto
  then show ?thesis using assms(1-3) i by cases (auto simp: flags_ok_def nth_list_update)
qed
section \<open>Every operation keeps it\<close>

lemma having_sum:
  assumes "flags_ok s"
  shows "length (files s) = having 0 s + having FF_CONNECTING s + having FF_READING s + having FF_DONE s"
proof -
  have "\<forall>f \<in> set fs. f_flags f \<in> {0, 1, 2, 4} \<Longrightarrow> length fs = length (filter (\<lambda>f. f_flags f = 0) fs)
      + length (filter (\<lambda>f. f_flags f = 1) fs) + length (filter (\<lambda>f. f_flags f = 2) fs)
      + length (filter (\<lambda>f. f_flags f = 4) fs)" for fs
    by (induction fs) auto
  moreover have "\<forall>f \<in> set (files s). f_flags f \<in> {0, 1, 2, 4}"
  proof
    fix f assume "f \<in> set (files s)"
    then obtain i where "i < length (files s)" "files s ! i = f" by (auto simp: in_set_conv_nth)
    then show "f_flags f \<in> {0, 1, 2, 4}" using assms by (auto simp: flags_ok_def)
  qed
  ultimately show ?thesis by (simp add: having_def)
qed

lemma start_connect_ok:
  assumes fl: "flags_ok s" and fd: "fds_ok s" and i: "i < length (files s)" "f_flags (files s ! i) = 0"
    and new: "new_fd (connects e i) \<inter> rset s = {}" "\<forall>fd \<in> new_fd (connects e i). 0 \<le> fd"
    and r: "start_connect e i s = Goes_on s'"
  shows "flags_ok s' \<and> fds_ok s' \<and> length (files s') = length (files s)
    \<and> rset s' = rset s \<union> new_fd (connects e i) \<and> (\<forall>j. j \<noteq> i \<longrightarrow> files s' ! j = files s ! j)
    \<and> nconn s' = nconn s \<and> nlefttoconn s' = nlefttoconn s \<and> nlefttoread s' = nlefttoread s
    \<and> having 0 s' + 1 = having 0 s \<and> having FF_DONE s' = having FF_DONE s
    \<and> having FF_CONNECTING s' + having FF_READING s' = having FF_CONNECTING s + having FF_READING s + 1"
proof -
  obtain f where f: "files s' = (files s)[i := f]" "f_flags f \<in> {FF_CONNECTING, FF_READING}"
    "new_fd (connects e i) = {f_fd f}" "f_fd f < int FD_SETSIZE" "rset s' = insert (f_fd f) (rset s)"
    "wset s' = (if f_flags f = FF_CONNECTING then insert (f_fd f) (wset s) else wset s)"
    "wmaxfd s \<le> wmaxfd s'" "f_fd f \<le> wmaxfd s'" "ended s' = ended s"
    "asked s' = (if f_flags f = FF_CONNECTING then asked s else asked s @ [i])"
    "nconn s' = nconn s" "nlefttoconn s' = nlefttoconn s" "nlefttoread s' = nlefttoread s"
  proof (cases "connects e i")
    case (In_progress fd)
    with r show ?thesis
      by (intro that [of "\<lparr>f_fd = fd, f_flags = FF_CONNECTING\<rparr>"])
        (auto simp: start_connect_def new_fd_def split: if_splits)
  next
    case (At_once fd)
    with r i(1) show ?thesis
      by (intro that [of "(files s ! i)\<lparr>f_fd := fd, f_flags := FF_READING\<rparr>"])
        (auto simp: start_connect_def write_get_cmd_def new_fd_def Let_def split: if_splits)
  qed (use r in \<open>simp add: start_connect_def\<close>)
  have "fds_ok s'" by (rule fds_ok_open [OF fd i _ _ f(4,2,1,5,6,7,8)]) (use new f(3) in auto)
  moreover have "flags_ok s'" by (rule flags_ok_change [OF fl i(1) f(1)]) (use f(2,9,10) i(2) in auto)
  moreover have "having fl s' + (if 0 = fl then 1 else 0) = having fl s + (if f_flags f = fl then 1 else 0)" for fl
    using having_update [OF i(1) f(1), of fl] i(2) by simp
  from this [of 0] this [of FF_CONNECTING] this [of FF_READING] this [of FF_DONE]
  have "having 0 s' + 1 = having 0 s \<and> having FF_DONE s' = having FF_DONE s
    \<and> having FF_CONNECTING s' + having FF_READING s' = having FF_CONNECTING s + having FF_READING s + 1"
    using f(2) by auto
  ultimately show ?thesis using f by auto
qed

text \<open>New descriptors are new for the files that have none yet.\<close>

definition fresh_left :: "web_round_ev \<Rightarrow> webnb \<Rightarrow> bool" where
  "fresh_left e s \<longleftrightarrow> (\<forall>i < length (files s). f_flags (files s ! i) = 0 \<longrightarrow>
        new_fd (connects e i) \<inter> rset s = {} \<and> (\<forall>fd \<in> new_fd (connects e i). 0 \<le> fd))
     \<and> (\<forall>i < length (files s). \<forall>j < length (files s). i \<noteq> j \<longrightarrow> new_fd (connects e i) \<inter> new_fd (connects e j) = {})"

lemma start_pass_ok:
  assumes ok: "web_ok m s" and fr: "fresh_left e s" and lt: "nconn s < m \<and> 0 < nlefttoconn s"
    and s1: "start_connect e (unstarted (files s)) s = Goes_on s1"
  defines "s2 \<equiv> s1\<lparr>nconn := nconn s + 1, nlefttoconn := nlefttoconn s - 1\<rparr>"
  shows "web_ok m s2 \<and> fresh_left e s2" and "length (files s2) = length (files s)" and "nlefttoread s2 = nlefttoread s"
proof -
  let ?i = "unstarted (files s)"
  have o: "flags_ok s" "fds_ok s" "counts_ok m s" using ok by (simp_all add: web_ok_def)
  have i: "?i < length (files s)" "f_flags (files s ! ?i) = 0"
    using unstarted_found [of s] lt o(3) by (auto simp: counts_ok_def)
  have n: "new_fd (connects e ?i) \<inter> rset s = {}" "\<forall>fd \<in> new_fd (connects e ?i). 0 \<le> fd"
    using fr i by (auto simp: fresh_left_def)
  note c = start_connect_ok [OF o(1,2) i n s1]
  have eq: "flags_ok s2 = flags_ok s1" "fds_ok s2 = fds_ok s1" "having fl s2 = having fl s1" for fl
    by (simp_all add: s2_def flags_ok_def fds_ok_def active_fd_def having_def)
  have "counts_ok m s2" using c o(3) lt unfolding counts_ok_def eq by (auto simp: s2_def)
  then have w: "web_ok m s2" using c unfolding web_ok_def eq by simp
  have st: "f_flags (files s1 ! ?i) \<noteq> 0"
  proof
    assume z: "f_flags (files s1 ! ?i) = 0"
    have "files s1 = (files s)[?i := files s1 ! ?i]"
    proof (rule nth_equalityI)
      show "files s1 ! k = (files s)[?i := files s1 ! ?i] ! k" if "k < length (files s1)" for k
        using c that by (cases "k = ?i") (auto simp: nth_list_update)
    qed (use c in simp)
    from having_update [OF i(1) this, of 0] z i(2) c show False by simp
  qed
  have "fresh_left e s2" unfolding fresh_left_def
  proof (intro conjI allI impI)
    fix j assume j: "j < length (files s2)" "f_flags (files s2 ! j) = 0"
    then have ne: "j \<noteq> ?i" using st by (auto simp: s2_def)
    then have jl: "j < length (files s)" "f_flags (files s ! j) = 0" using j c by (auto simp: s2_def)
    then show "\<forall>fd \<in> new_fd (connects e j). 0 \<le> fd" using fr by (simp add: fresh_left_def)
    have "new_fd (connects e j) \<inter> rset s = {}" "new_fd (connects e j) \<inter> new_fd (connects e ?i) = {}"
      using fr jl i(1) ne by (auto simp: fresh_left_def)
    then show "new_fd (connects e j) \<inter> rset s2 = {}" using c by (auto simp: s2_def)
  qed (use fr c in \<open>auto simp: fresh_left_def s2_def\<close>)
  with w show "web_ok m s2 \<and> fresh_left e s2" by simp
  show "length (files s2) = length (files s)" "nlefttoread s2 = nlefttoread s" using c by (simp_all add: s2_def)
qed

lemma start_loop_ok:
  "web_ok m s \<Longrightarrow> fresh_left e s \<Longrightarrow> start_loop m e s = Goes_on s' \<Longrightarrow>
     web_ok m s' \<and> length (files s') = length (files s) \<and> nlefttoread s' = nlefttoread s
   \<and> \<not> (nconn s' < m \<and> 0 < nlefttoconn s')"
proof (induction m e s rule: start_loop.induct)
  case (1 m e s)
  show ?case
  proof (cases "nconn s < m \<and> 0 < nlefttoconn s")
    case False
    then have "s' = s" using 1(4) by (subst (asm) start_loop.simps) (simp split: if_splits)
    then show ?thesis using 1(2) False by simp
  next
    case True
    have "unstarted (files s) < length (files s)"
      using unstarted_found [of s] True 1(2) by (auto simp: web_ok_def counts_ok_def)
    moreover from this obtain s1 where s1: "start_connect e (unstarted (files s)) s = Goes_on s1"
      "start_loop m e (s1\<lparr>nconn := nconn s + 1, nlefttoconn := nlefttoconn s - 1\<rparr>) = Goes_on s'"
      using 1(4) True by (subst (asm) start_loop.simps) (auto simp: Let_def split: round.splits)
    ultimately show ?thesis
      using start_pass_ok [OF 1(2,3) True s1(1)] 1(1) [OF True refl _ s1(1) _ _ s1(2)] by simp
  qed
qed

lemma flag_cases:
  assumes "flags_ok s" and "i < length (files s)"
  obtains "f_flags (files s ! i) = 0" | "f_flags (files s ! i) = FF_CONNECTING"
    | "f_flags (files s ! i) = FF_READING" | "f_flags (files s ! i) = FF_DONE"
  using assms by (auto simp: flags_ok_def)

lemma file_part_ok:
  assumes ok: "web_ok m s" and i: "i < length (files s)" and r: "file_part rs ws e i s = Goes_on s'"
  shows "web_ok m s' \<and> length (files s') = length (files s)"
proof -
  have o: "flags_ok s" "fds_ok s" "counts_ok m s" using ok by (simp_all add: web_ok_def)
  let ?f = "files s ! i"
  from o(1) i show ?thesis
  proof (cases rule: flag_cases)
    case 2
    show ?thesis
    proof (cases "f_fd ?f \<in> rs \<or> f_fd ?f \<in> ws")
      case False
      with 2 r have "s' = s" by (simp add: file_part_def Let_def)
      then show ?thesis using ok by simp
    next
      case True
      with 2 r have w: "write_get_cmd e i (s\<lparr>wset := wset s - {f_fd ?f}\<rparr>) = Goes_on s'"
        by (simp add: file_part_def Let_def)
      have act: "active_fd s i" using i 2 by (simp add: active_fd_def)
      then have rin: "f_fd ?f \<in> rset s" using rset_iff [OF o(2)] by blast
      have f: "files s' = (files s)[i := ?f\<lparr>f_flags := FF_READING\<rparr>]" "rset s' = rset s"
        "wset s' = wset s - {f_fd ?f}" "wmaxfd s \<le> wmaxfd s'" "asked s' = asked s @ [i]" "ended s' = ended s"
        "nconn s' = nconn s" "nlefttoconn s' = nlefttoconn s" "nlefttoread s' = nlefttoread s"
        using w rin by (auto simp: write_get_cmd_def Let_def split: if_splits)
      have "fds_ok s'" by (rule fds_ok_same [OF o(2) act _ _ f(1,2) _ f(4)]) (use f(3) in simp_all)
      moreover have "flags_ok s'" by (rule flags_ok_change [OF o(1) i f(1)]) (use f(5,6) 2 in simp)
      moreover have "counts_ok m s'"
        using having_update [OF i f(1), of 0] having_update [OF i f(1), of FF_CONNECTING]
          having_update [OF i f(1), of FF_READING] having_update [OF i f(1), of FF_DONE] 2 o(3) f
        by (simp add: counts_ok_def)
      ultimately show ?thesis using f(1) by (simp add: web_ok_def)
    qed
  next
    case 3
    show ?thesis
    proof (cases "f_fd ?f \<in> rs \<and> reads_n e (f_fd ?f) = Some 0")
      case False
      with 3 r have "s' = s" by (auto simp: file_part_def Let_def split: option.splits if_splits)
      then show ?thesis using ok by simp
    next
      case True
      have act: "active_fd s i" using i 3 by (simp add: active_fd_def)
      have f: "files s' = (files s)[i := ?f\<lparr>f_flags := FF_DONE\<rparr>]" "rset s' = rset s - {f_fd ?f}"
        "wset s' = wset s" "wmaxfd s' = wmaxfd s" "asked s' = asked s" "ended s' = ended s @ [i]"
        "nconn s' = nconn s - 1" "nlefttoconn s' = nlefttoconn s" "nlefttoread s' = nlefttoread s - 1"
        using 3 r True by (auto simp: file_part_def Let_def)
      have "fds_ok s'" by (rule fds_ok_close [OF o(2) act 3 _ f(1-4)]) simp
      moreover have "flags_ok s'" by (rule flags_ok_change [OF o(1) i f(1)]) (use f(5,6) 3 in simp)
      moreover have "counts_ok m s'"
        using having_update [OF i f(1), of 0] having_update [OF i f(1), of FF_CONNECTING]
          having_update [OF i f(1), of FF_READING] having_update [OF i f(1), of FF_DONE] 3 o(3) f
        by (simp add: counts_ok_def)
      ultimately show ?thesis using f(1) by (simp add: web_ok_def)
    qed
  qed (use r ok in \<open>auto simp: file_part_def Let_def\<close>)
qed

lemma files_part_ok:
  "web_ok m s \<Longrightarrow> \<forall>i \<in> set is. i < length (files s) \<Longrightarrow> files_part rs ws e is s = Goes_on s' \<Longrightarrow>
     web_ok m s' \<and> length (files s') = length (files s)"
proof (induction "is" arbitrary: s)
  case (Cons i "is")
  then obtain s1 where s1: "file_part rs ws e i s = Goes_on s1" "files_part rs ws e is s1 = Goes_on s'"
    by (auto split: round.splits)
  with file_part_ok [OF Cons.prems(1) _ s1(1)] Cons show ?case by auto
qed simp

lemma webnb_round_ok:
  assumes "web_ok m s" and "fresh_fds e s" and "webnb_round m e s = Goes_on s'"
  shows "web_ok m s' \<and> length (files s') = length (files s)"
proof -
  obtain s1 where s1: "start_loop m e s = Goes_on s1"
    "files_part (select_set e s1 (rset s1)) (select_set e s1 (wset s1)) e [0..<length (files s1)] s1 = Goes_on s'"
    using assms(3) by (auto simp: webnb_round_def split: round.splits)
  have "fresh_left e s" using assms(2) by (auto simp: fresh_left_def fresh_fds_def)
  from start_loop_ok [OF assms(1) this s1(1)] files_part_ok [OF _ _ s1(2)] show ?thesis by auto
qed
section \<open>No other way out\<close>

text \<open>A round in which nothing fails: the process does not end by itself.\<close>

definition nothing_fails :: "web_round_ev \<Rightarrow> bool" where
  "nothing_fails e \<longleftrightarrow> (\<forall>i. connects e i \<noteq> Fails \<and> (\<forall>fd \<in> new_fd (connects e i). fd < int FD_SETSIZE))
     \<and> (\<forall>fd. writes_ok e fd \<and> reads_n e fd \<noteq> None)"

lemma start_connect_goes: "nothing_fails e \<Longrightarrow> i < length (files s) \<Longrightarrow> \<exists>s'. start_connect e i s = Goes_on s'"
proof -
  assume e: "nothing_fails e" and i: "i < length (files s)"
  show ?thesis
  proof (cases "connects e i")
    case (In_progress fd)
    then have "fd \<in> new_fd (connects e i)" by (simp add: new_fd_def)
    then have "fd < int FD_SETSIZE" using e unfolding nothing_fails_def by blast
    then show ?thesis using In_progress by (simp add: start_connect_def)
  next
    case (At_once fd)
    then have "fd \<in> new_fd (connects e i)" by (simp add: new_fd_def)
    then have "fd < int FD_SETSIZE" "writes_ok e fd" using e unfolding nothing_fails_def by blast+
    then show ?thesis using At_once i by (simp add: start_connect_def write_get_cmd_def Let_def)
  qed (use e in \<open>simp add: nothing_fails_def\<close>)
qed

lemma start_loop_goes:
  "web_ok m s \<Longrightarrow> fresh_left e s \<Longrightarrow> nothing_fails e \<Longrightarrow> start_loop m e s \<noteq> Exits \<and> start_loop m e s \<noteq> Overruns"
proof (induction m e s rule: start_loop.induct)
  case (1 m e s)
  show ?case
  proof (cases "nconn s < m \<and> 0 < nlefttoconn s")
    case False
    then show ?thesis by (subst (1 2) start_loop.simps) auto
  next
    case True
    let ?i = "unstarted (files s)"
    have ok: "flags_ok s" "fds_ok s" "counts_ok m s" using 1(2) by (simp_all add: web_ok_def)
    have i: "?i < length (files s)" "f_flags (files s ! ?i) = 0"
      using unstarted_found [of s] True ok(3) by (auto simp: counts_ok_def)
    obtain s1 where s1: "start_connect e ?i s = Goes_on s1" using start_connect_goes [OF 1(4) i(1)] by blast
    let ?s2 = "s1\<lparr>nconn := nconn s + 1, nlefttoconn := nlefttoconn s - 1\<rparr>"
    have "start_loop m e s = start_loop m e ?s2"
      using True s1 i(1) by (subst start_loop.simps) (simp add: Let_def)
    moreover have "web_ok m ?s2 \<and> fresh_left e ?s2" by (rule start_pass_ok [OF 1(2,3) True s1])
    ultimately show ?thesis using 1(1) [OF True refl _ s1 _ _ 1(4)] i(1) by simp
  qed
qed

lemma file_part_goes:
  assumes "web_ok m s" and "i < length (files s)" and "nothing_fails e"
  shows "\<exists>s'. file_part rs ws e i s = Goes_on s'"
proof (cases "f_flags (files s ! i) = FF_CONNECTING \<and> (f_fd (files s ! i) \<in> rs \<or> f_fd (files s ! i) \<in> ws)")
  case True
  then have "active_fd s i" using assms(2) by (simp add: active_fd_def)
  moreover have "fds_ok s" using assms(1) by (simp add: web_ok_def)
  ultimately have "f_fd (files s ! i) < int FD_SETSIZE" using rset_iff fd_range by blast
  then show ?thesis using True assms(3) by (auto simp: file_part_def write_get_cmd_def nothing_fails_def Let_def)
next
  case False
  have rd: "reads_n e (f_fd (files s ! i)) \<noteq> None" using assms(3) by (simp add: nothing_fails_def)
  have "flags_ok s" using assms(1) by (simp add: web_ok_def)
  from this assms(2) show ?thesis
    by (cases rule: flag_cases) (use False rd in \<open>auto simp: file_part_def Let_def\<close>)
qed

lemma files_part_goes:
  "web_ok m s \<Longrightarrow> \<forall>i \<in> set is. i < length (files s) \<Longrightarrow> nothing_fails e \<Longrightarrow>
     \<exists>s'. files_part rs ws e is s = Goes_on s'"
proof (induction "is" arbitrary: s)
  case (Cons i "is")
  obtain s1 where s1: "file_part rs ws e i s = Goes_on s1"
    using file_part_goes [OF Cons.prems(1) _ Cons.prems(3), of i rs ws] Cons.prems(2) by auto
  with file_part_ok [OF Cons.prems(1) _ s1] Cons show ?case by auto
qed simp

lemma webnb_init_ok: "web_ok m (webnb_init n)"
proof -
  have "f_flags (files (webnb_init n) ! i) = 0" if "i < length (files (webnb_init n))" for i
    using that by (simp add: webnb_init_def Let_def)
  moreover from this have "\<not> active_fd (webnb_init n) i" for i by (simp add: active_fd_def)
  ultimately show ?thesis
    by (simp add: web_ok_def flags_ok_def fds_ok_def counts_ok_def)
      (simp add: webnb_init_def having_def Let_def)
qed

lemma webnb_reach_ok: "webnb_reach m n s \<Longrightarrow> web_ok m s \<and> length (files s) = min n 20"
proof (induction rule: webnb_reach.induct)
  case start
  then show ?case using webnb_init_ok by (simp add: webnb_init_def Let_def)
next
  case (round s e s')
  then show ?case using webnb_round_ok [of m s e s'] by simp
qed

section \<open>Properties\<close>

text \<open>
  C24: The client never has more than \<open>maxnconn\<close> connections, counts them right, and fetches every file
  exactly once: in every state between two rounds the descriptors watched for reading are those of the
  files that are connecting or being read, all different, those watched for writing are those of the files
  that are connecting; the GET command was written once for each file that is being read or done, and those
  done have been read to the end once; and when the loop ends, each of the files was asked for once and read to its end once.
\<close>

theorem webnb_fetches:
  assumes "webnb_reach maxnconn n s"
  shows "nconn s \<le> max 0 maxnconn \<and> nconn s = int (card (rset s)) \<and> length (files s) = min n 20
    \<and> rset s = {f_fd (files s ! i) |i. i < length (files s) \<and> f_flags (files s ! i) \<in> {FF_CONNECTING, FF_READING}}
    \<and> wset s = {f_fd (files s ! i) |i. i < length (files s) \<and> f_flags (files s ! i) = FF_CONNECTING}
    \<and> inj_on (\<lambda>i. f_fd (files s ! i)) {i. i < length (files s) \<and> f_flags (files s ! i) \<in> {FF_CONNECTING, FF_READING}}
    \<and> set (asked s) = {i. i < length (files s) \<and> f_flags (files s ! i) \<in> {FF_READING, FF_DONE}}
    \<and> set (ended s) = {i. i < length (files s) \<and> f_flags (files s ! i) = FF_DONE}
    \<and> distinct (asked s) \<and> distinct (ended s) \<and> set (ended s) \<subseteq> set (asked s)
    \<and> nlefttoread s = int (min n 20) - int (length (ended s))
    \<and> (nlefttoread s \<le> 0 \<longrightarrow> set (asked s) = {..<min n 20} \<and> set (ended s) = {..<min n 20})"
proof -
  have ok: "flags_ok s" "fds_ok s" "counts_ok maxnconn s" and len: "length (files s) = min n 20"
    using webnb_reach_ok [OF assms] by (simp_all add: web_ok_def)
  let ?n = "length (files s)"
  have hv: "having fl s = card {i. i < ?n \<and> f_flags (files s ! i) = fl}" for fl
    by (simp add: having_def length_filter_conv_card)
  have act: "{i. active_fd s i} = {i. i < ?n \<and> f_flags (files s ! i) = FF_CONNECTING}
      \<union> {i. i < ?n \<and> f_flags (files s ! i) = FF_READING}" by (auto simp: active_fd_def)
  have "rset s = (\<lambda>i. f_fd (files s ! i)) ` {i. active_fd s i}" using rset_iff [OF ok(2)] by auto
  moreover have "inj_on (\<lambda>i. f_fd (files s ! i)) {i. active_fd s i}"
    using fd_inj [OF ok(2)] by (simp add: inj_on_def)
  ultimately have "card (rset s) = card {i. active_fd s i}" by (simp add: card_image)
  also have "\<dots> = having FF_CONNECTING s + having FF_READING s" unfolding act hv
    by (rule card_Un_disjoint) auto
  finally have c: "nconn s = int (card (rset s))" using ok(3) by (simp add: counts_ok_def)
  have en: "set (ended s) = {i. i < ?n \<and> f_flags (files s ! i) = FF_DONE}"
    using ok(1) by (auto simp: flags_ok_def)
  have as: "set (asked s) = {i. i < ?n \<and> f_flags (files s ! i) \<in> {FF_READING, FF_DONE}}"
    using ok(1) by (auto simp: flags_ok_def)
  have "having FF_DONE s = length (ended s)"
    unfolding hv en [symmetric] using ok(1) by (simp add: flags_ok_def distinct_card)
  then have l: "nlefttoread s = int ?n - int (length (ended s))" using ok(3) by (simp add: counts_ok_def)
  have fin: "set (ended s) = {..<?n}" if "nlefttoread s \<le> 0"
  proof (rule card_subset_eq)
    show "set (ended s) \<subseteq> {..<?n}" using en by auto
    then have "card (set (ended s)) \<le> ?n" using card_mono [of "{..<?n}"] by simp
    moreover have "card (set (ended s)) = length (ended s)" using ok(1) by (simp add: flags_ok_def distinct_card)
    ultimately show "card (set (ended s)) = card {..<?n}" using that l by simp
  qed simp
  have r: "rset s = {f_fd (files s ! i) |i. i < ?n \<and> f_flags (files s ! i) \<in> {FF_CONNECTING, FF_READING}}"
    by (rule set_eqI) (use rset_iff [OF ok(2)] in \<open>auto simp: active_fd_def\<close>)
  have ws: "wset s = {f_fd (files s ! i) |i. i < ?n \<and> f_flags (files s ! i) = FF_CONNECTING}"
    by (rule set_eqI) (use wset_iff [OF ok(2)] in \<open>auto simp: active_fd_def\<close>)
  have inj: "inj_on (\<lambda>i. f_fd (files s ! i)) {i. i < ?n \<and> f_flags (files s ! i) \<in> {FF_CONNECTING, FF_READING}}"
    using fd_inj [OF ok(2)] unfolding active_fd_def inj_on_def by blast
  have "nconn s \<le> max 0 maxnconn" using ok(3) by (simp add: counts_ok_def)
  moreover have "distinct (asked s)" "distinct (ended s)" "set (ended s) \<subseteq> set (asked s)"
    using ok(1) unfolding en as by (auto simp: flags_ok_def)
  moreover have "set (asked s) = {..<?n} \<and> set (ended s) = {..<?n}" if "nlefttoread s \<le> 0"
    using fin [OF that] calculation(4) as by auto
  ultimately show ?thesis using c r ws inj en as l len by simp
qed

text \<open>Two files over one connection at a time: each round connects at once and reads to the end.\<close>

definition demo_round :: "int \<Rightarrow> web_round_ev" where
  "demo_round k = \<lparr>connects = (\<lambda>i. At_once (k + int i)), readies = {0..<100}, writes_ok = (\<lambda>_. True),
     reads_n = (\<lambda>_. Some 0)\<rparr>"

lemma demo_round_ok: "0 \<le> k \<Longrightarrow> k \<le> 100 \<Longrightarrow> rset s = {} \<Longrightarrow> fresh_fds (demo_round k) s"
  by (auto simp: fresh_fds_def demo_round_def new_fd_def)

definition demo_web :: webnb where
  "demo_web = \<lparr>files = [\<lparr>f_fd = 3, f_flags = FF_DONE\<rparr>, \<lparr>f_fd = 0, f_flags = 0\<rparr>], nconn = 0, nlefttoconn = 1,
     nlefttoread = 1, wmaxfd = 3, rset = {}, wset = {}, asked = [0], ended = [0]\<rparr>"

lemma demo_web_reach: "webnb_reach 1 2 demo_web"
proof (rule webnb_reach.round [OF webnb_reach.start])
  let ?s = "webnb_init 2"
  let ?s1 = "\<lparr>files = [\<lparr>f_fd = 3, f_flags = FF_READING\<rparr>, \<lparr>f_fd = 0, f_flags = 0\<rparr>], nconn = 1, nlefttoconn = 1,
     nlefttoread = 2, wmaxfd = 3, rset = {3}, wset = {}, asked = [0], ended = []\<rparr>"
  have i: "?s = \<lparr>files = [\<lparr>f_fd = 0, f_flags = 0\<rparr>, \<lparr>f_fd = 0, f_flags = 0\<rparr>], nconn = 0, nlefttoconn = 2,
     nlefttoread = 2, wmaxfd = -1, rset = {}, wset = {}, asked = [], ended = []\<rparr>"
    by (simp add: webnb_init_def numeral_2_eq_2)
  show "0 < nlefttoread ?s" by (simp add: i)
  show "fresh_fds (demo_round 3) ?s" by (rule demo_round_ok) (simp_all add: i)
  have "start_connect (demo_round 3) 0 ?s = Goes_on (?s1\<lparr>nconn := 0, nlefttoconn := 2\<rparr>)"
    by (simp add: start_connect_def demo_round_def write_get_cmd_def i set_file_def)
  then have "start_loop 1 (demo_round 3) ?s = Goes_on ?s1"
    by (subst start_loop.simps, subst start_loop.simps) (simp add: i)
  moreover have "select_set (demo_round 3) ?s1 {3} = {3}" by (auto simp: select_set_def demo_round_def)
  moreover have "[0..<2] = [0, Suc 0]" by (simp add: numeral_2_eq_2)
  ultimately show "webnb_round 1 (demo_round 3) ?s = Goes_on demo_web"
    by (simp add: webnb_round_def file_part_def demo_round_def demo_web_def set_file_def)
qed

theorem webnb_fetches_witness:
  "nconn demo_web = int (card (rset demo_web)) \<and> nlefttoread demo_web = int (min 2 20) - int (length (ended demo_web))"
  using webnb_fetches [OF demo_web_reach] by blast

text \<open>
  The client is never stuck by its own doing. As long as files are left, and when no call fails, a
  round starts connections without reaching "nothing found", watches at least one descriptor when it
  calls \<open>Select\<close> (if \<open>maxnconn\<close> is positive), and goes on to the next round.
\<close>

theorem webnb_goes_on:
  assumes "webnb_reach maxnconn n s" and "0 < nlefttoread s" and "fresh_fds e s" and "nothing_fails e"
    and "0 < maxnconn"
  shows "\<exists>s1 s'. start_loop maxnconn e s = Goes_on s1 \<and> rset s1 \<noteq> {} \<and> webnb_round maxnconn e s = Goes_on s'"
proof -
  have ok: "web_ok maxnconn s" using webnb_reach_ok [OF assms(1)] by simp
  have fr: "fresh_left e s" using assms(3) by (auto simp: fresh_left_def fresh_fds_def)
  from start_loop_goes [OF ok fr assms(4)] obtain s1 where s1: "start_loop maxnconn e s = Goes_on s1"
    by (cases "start_loop maxnconn e s") auto
  have ok1: "web_ok maxnconn s1" and l: "0 < nlefttoread s1" "\<not> (nconn s1 < maxnconn \<and> 0 < nlefttoconn s1)"
    using start_loop_ok [OF ok fr s1] assms(2) by simp_all
  have o: "flags_ok s1" "fds_ok s1" "counts_ok maxnconn s1" using ok1 by (simp_all add: web_ok_def)
  have "having FF_CONNECTING s1 + having FF_READING s1 \<noteq> 0"
    using having_sum [OF o(1)] o(3) l assms(5) by (auto simp: counts_ok_def)
  then obtain f where "f \<in> set (files s1)" "f_flags f \<in> {FF_CONNECTING, FF_READING}"
    by (auto simp: having_def filter_empty_conv)
  then obtain i where "active_fd s1 i" by (auto simp: active_fd_def in_set_conv_nth)
  then have "rset s1 \<noteq> {}" using rset_iff [OF o(2)] by blast
  moreover have "\<exists>s'. webnb_round maxnconn e s = Goes_on s'"
    unfolding webnb_round_def s1 round.case by (rule files_part_goes [OF ok1 _ assms(4)]) simp
  ultimately show ?thesis using s1 by blast
qed
theorem webnb_goes_on_witness:
  "\<exists>s'. webnb_round 1 (demo_round 4 \<lparr>connects := \<lambda>i. In_progress (if i = 1 then 5 else 4)\<rparr>) demo_web = Goes_on s'"
proof -
  let ?e = "demo_round 4 \<lparr>connects := \<lambda>i. In_progress (if i = 1 then 5 else 4)\<rparr>"
  have "nothing_fails ?e" by (simp add: nothing_fails_def demo_round_def new_fd_def)
  moreover have "fresh_fds ?e demo_web"
    by (auto simp: fresh_fds_def demo_web_def new_fd_def less_2_cases_iff)
  moreover have "0 < nlefttoread demo_web" by (simp add: demo_web_def)
  ultimately show ?thesis using webnb_goes_on [OF demo_web_reach, of ?e] by auto
qed

end
