(* ===== verification/SockOpts.thy ===== *)
theory SockOpts
  imports Inet4 "HOL-Library.Signed_Division"
begin

text \<open>
  The options of the \<open>sock\<close> test program: its global variables and the \<open>switch\<close> over the command
  line (\<^verbatim>\<open>unpv13e/sock/main.c\<close>), the IPv4 source route the options \<open>-g\<close> and \<open>-G\<close> build
  (\<^verbatim>\<open>unpv13e/sock/sourceroute.c\<close>), and the socket options it sets
  (\<^verbatim>\<open>unpv13e/sock/sockopts.c\<close>, \<^verbatim>\<open>unpv13e/sock/buffers.c\<close>, \<^verbatim>\<open>unpv13e/sock/multicast.c\<close>).
  The host is the one of \<^verbatim>\<open>unpv13e/config.h\<close>: it has every option the code asks for with
  \<open>#ifdef\<close> except \<open>IP_ONESBCAST\<close>. What the calls print with \<open>-v\<close> on the standard error is not
  modelled.
\<close>

section \<open>The global variables\<close>

record opts =
  bindport :: int
  broadcast :: bool
  cbreak :: bool
  chunkwrite :: bool
  client :: bool
  connectudp :: bool
  crlf :: bool
  debug :: bool
  dofork :: bool
  dontroute :: bool
  foreignip :: string
  foreignport :: int
  halfclose :: bool
  ignorewerr :: bool
  iptos :: int
  ipttl :: int
  joinip :: string
  keepalive :: bool
  linger :: int
  listenq :: int
  localip :: string
  maxseg :: int
  mcastttl :: int
  msgpeek :: bool
  nodelay :: bool
  bufs :: int
  pauseclose :: int
  pauseinit :: int
  pauselisten :: int
  pauserw :: int
  reuseaddr :: bool
  reuseport :: bool
  readlen :: int
  writelen :: int
  recvdstaddr :: bool
  rcvbuflen :: int
  sndbuflen :: int
  rcvtimeo :: int
  sndtimeo :: int
  sroute_cnt :: nat
  sroute_opt :: "byte list"
  optr :: nat
  server :: bool
  sigio :: bool
  sourcesink :: bool
  udp :: bool
  urgwrite :: int
  verbose :: nat
  usewritev :: bool

definition default_opts :: opts where
  "default_opts =
     \<lparr>bindport = 0, broadcast = False, cbreak = False, chunkwrite = False, client = True,
      connectudp = True, crlf = False, debug = False, dofork = False, dontroute = False,
      foreignip = [], foreignport = 0, halfclose = False, ignorewerr = False, iptos = -1,
      ipttl = -1, joinip = [], keepalive = False, linger = -1, listenq = 5, localip = [],
      maxseg = 0, mcastttl = 0, msgpeek = False, nodelay = False, bufs = 1024, pauseclose = 0,
      pauseinit = 0, pauselisten = 0, pauserw = 0, reuseaddr = False, reuseport = False,
      readlen = 1024, writelen = 1024, recvdstaddr = False, rcvbuflen = 0, sndbuflen = 0,
      rcvtimeo = 0, sndtimeo = 0, sroute_cnt = 0, sroute_opt = replicate 44 0, optr = 0,
      server = False, sigio = False, sourcesink = False, udp = False, urgwrite = 0,
      verbose = 0, usewritev = False\<rparr>"

section \<open>Runs that may exit\<close>

text \<open>
  A function of the program goes on (\<open>Ok (Inr a)\<close>), ends the process with a message
  (\<open>Ok (Inl msg)\<close>: \<open>usage\<close>, \<open>err_quit\<close>, \<open>err_sys\<close>), or leaves what C defines.
\<close>

type_synonym 'a attempt = "(string + 'a) outcome"

abbreviation go :: "'a \<Rightarrow> 'a attempt" where
  "go a \<equiv> Ok (Inr a)"

abbreviation quits :: "string \<Rightarrow> 'a attempt" where
  "quits msg \<equiv> Ok (Inl msg)"

fun attempt :: "'a attempt \<Rightarrow> ('a \<Rightarrow> 'b attempt) \<Rightarrow> 'b attempt" where
  "attempt (Ok (Inr a)) f = f a"
| "attempt (Ok (Inl msg)) f = Ok (Inl msg)"
| "attempt Undefined f = Undefined"
| "attempt Hangs f = Hangs"

lemma attempt_go [simp]: "attempt m f = go b \<longleftrightarrow> (\<exists>a. m = go a \<and> f a = go b)"
  by (cases "(m, f)" rule: attempt.cases) auto

lemma attempt_undefined [simp]:
  "attempt m f = Undefined \<longleftrightarrow> m = Undefined \<or> (\<exists>a. m = go a \<and> f a = Undefined)"
  by (cases "(m, f)" rule: attempt.cases) auto

fun in_order :: "('a \<Rightarrow> 'a attempt) list \<Rightarrow> 'a \<Rightarrow> 'a attempt" where
  "in_order [] a = go a"
| "in_order (f # fs) a = attempt (f a) (in_order fs)"

definition only_if :: "bool \<Rightarrow> ('a \<Rightarrow> 'a attempt) \<Rightarrow> 'a \<Rightarrow> 'a attempt" where
  "only_if b f a = (if b then f a else go a)"

section \<open>The source route\<close>

text \<open>
  \<open>memcpy\<close> of \<open>n\<close> bytes from an object of the bytes \<open>src\<close> to offset \<open>i\<close> of an array. The code
  copies \<open>sizeof(u_long)\<close> bytes of a 4-byte address: \<open>ulong\<close> is that size on the host.
\<close>

definition memcpy_at :: "byte list \<Rightarrow> nat \<Rightarrow> byte list \<Rightarrow> nat \<Rightarrow> byte list outcome" where
  "memcpy_at buf i src n =
     (if n \<le> length src \<and> i + n \<le> length buf
      then Ok (take i buf @ take n src @ drop (i + n) buf) else Undefined)"

definition lookup_hop :: "(string \<Rightarrow> byte list option) \<Rightarrow> string \<Rightarrow> byte list option" where
  "lookup_hop gethostbyname name =
     (case inet_aton name of Some a \<Rightarrow> Some a | None \<Rightarrow> gethostbyname name)"

definition sroute_start :: "bool \<Rightarrow> opts \<Rightarrow> opts" where
  "sroute_start strict o1 =
     (if sroute_cnt o1 = 0
      then o1\<lparr>sroute_opt := [if strict then 0x89 else 0x83, 0, 4] @ replicate 41 0, optr := 3\<rparr>
      else o1)"

definition sroute_doopt ::
  "nat \<Rightarrow> (string \<Rightarrow> byte list option) \<Rightarrow> bool \<Rightarrow> string \<Rightarrow> opts \<Rightarrow> opts attempt" where
  "sroute_doopt ulong gethostbyname strict argptr o1 =
     (if sroute_cnt o1 \<ge> 9 then quits (''too many source routes with: '' @ argptr)
      else let o2 = sroute_start strict o1 in
        case lookup_hop gethostbyname argptr of
          None \<Rightarrow> quits (''unknown host: '' @ argptr)
        | Some inaddr \<Rightarrow>
            bind_outcome (memcpy_at (sroute_opt o2) (optr o2) inaddr ulong) (\<lambda>buf.
              go (o2\<lparr>sroute_opt := buf, optr := optr o2 + ulong, sroute_cnt := sroute_cnt o2 + 1\<rparr>)))"

text \<open>
  \<open>sroute_set\<close> appends the destination, pads to a multiple of 4 and hands the option to
  \<open>setsockopt\<close>, which reads that many bytes of the array.
\<close>

definition pad4 :: "nat \<Rightarrow> nat" where
  "pad4 n = (n + 3) div 4 * 4"

definition sroute_set :: "nat \<Rightarrow> byte list \<Rightarrow> opts \<Rightarrow> (byte list \<times> opts) outcome" where
  "sroute_set ulong dest o1 =
     (let cnt = sroute_cnt o1 + 1;
          opt1 = (sroute_opt o1)[1 := word_of_nat (3 + cnt * 4)]
      in bind_outcome (memcpy_at opt1 (optr o1) dest ulong) (\<lambda>opt2.
           let optr2 = pad4 (optr o1 + ulong) in
           if optr2 \<le> length opt2
           then Ok (take optr2 opt2, o1\<lparr>sroute_cnt := 0, sroute_opt := opt2, optr := optr2\<rparr>)
           else Undefined))"

section \<open>The command line\<close>

definition usage :: "string \<Rightarrow> 'a attempt" where
  "usage msg = quits msg"

text \<open>\<open>strrchr\<close> for a period: what is before the last one and what is behind it.\<close>

definition last_dot :: "string \<Rightarrow> (string \<times> string) option" where
  "last_dot s =
     (if dot \<in> set s
      then Some (rev (tl (dropWhile (\<lambda>c. c \<noteq> dot) (rev s))), rev (takeWhile (\<lambda>c. c \<noteq> dot) (rev s)))
      else None)"

text \<open>
  One option of the command line as \<open>getopt\<close> returns it: the letter and \<open>optarg\<close>; first the small
  letters, then the others. The addresses are copied with \<open>strcpy\<close> into arrays of 32 characters.
\<close>

definition set_small_opt ::
  "nat \<Rightarrow> (string \<Rightarrow> byte list option) \<Rightarrow> char \<Rightarrow> string \<Rightarrow> opts \<Rightarrow> opts attempt option" where
  "set_small_opt ulong gethostbyname c optarg o1 =
    (if c = CHR ''b'' then Some (go (o1\<lparr>bindport := atoi optarg\<rparr>))
     else if c = CHR ''c'' then Some (go (o1\<lparr>crlf := True\<rparr>))
     else if c = CHR ''f'' then Some
       (case last_dot optarg of
          None \<Rightarrow> usage ''invalid -f option''
        | Some (ip, num) \<Rightarrow>
            bind_outcome (sprintf_into 32 ip) (\<lambda>s. go (o1\<lparr>foreignport := atoi num, foreignip := s\<rparr>)))
     else if c = CHR ''g'' then Some (sroute_doopt ulong gethostbyname False optarg o1)
     else if c = CHR ''h'' then Some (go (o1\<lparr>halfclose := True\<rparr>))
     else if c = CHR ''i'' then Some (go (o1\<lparr>sourcesink := True\<rparr>))
     else if c = CHR ''j'' then Some (bind_outcome (sprintf_into 32 optarg) (\<lambda>s. go (o1\<lparr>joinip := s\<rparr>)))
     else if c = CHR ''k'' then Some (go (o1\<lparr>chunkwrite := True\<rparr>))
     else if c = CHR ''l'' then Some
       (case last_dot optarg of
          None \<Rightarrow> usage ''invalid -l option''
        | Some (ip, num) \<Rightarrow>
            bind_outcome (sprintf_into 32 ip) (\<lambda>s. go (o1\<lparr>bindport := atoi num, localip := s\<rparr>)))
     else if c = CHR ''n'' then Some (go (o1\<lparr>bufs := atoi optarg\<rparr>))
     else if c = CHR ''o'' then Some (go (o1\<lparr>connectudp := False\<rparr>))
     else if c = CHR ''p'' then Some (go (o1\<lparr>pauserw := atoi optarg\<rparr>))
     else if c = CHR ''q'' then Some (go (o1\<lparr>listenq := atoi optarg\<rparr>))
     else if c = CHR ''r'' then Some (go (o1\<lparr>readlen := atoi optarg\<rparr>))
     else if c = CHR ''s'' then Some (go (o1\<lparr>server := True, client := False\<rparr>))
     else if c = CHR ''t'' then Some (go (o1\<lparr>mcastttl := atoi optarg\<rparr>))
     else if c = CHR ''u'' then Some (go (o1\<lparr>udp := True\<rparr>))
     else if c = CHR ''v'' then Some (go (o1\<lparr>verbose := verbose o1 + 1\<rparr>))
     else if c = CHR ''w'' then Some (go (o1\<lparr>writelen := atoi optarg\<rparr>))
     else if c = CHR ''x'' then Some (go (o1\<lparr>rcvtimeo := atoi optarg\<rparr>))
     else if c = CHR ''y'' then Some (go (o1\<lparr>sndtimeo := atoi optarg\<rparr>))
     else None)"

definition set_other_opt ::
  "nat \<Rightarrow> (string \<Rightarrow> byte list option) \<Rightarrow> char \<Rightarrow> string \<Rightarrow> opts \<Rightarrow> opts attempt" where
  "set_other_opt ulong gethostbyname c optarg o1 =
    (if c = CHR ''A'' then go (o1\<lparr>reuseaddr := True\<rparr>)
     else if c = CHR ''B'' then go (o1\<lparr>broadcast := True\<rparr>)
     else if c = CHR ''C'' then go (o1\<lparr>cbreak := True\<rparr>)
     else if c = CHR ''D'' then go (o1\<lparr>debug := True\<rparr>)
     else if c = CHR ''E'' then go (o1\<lparr>recvdstaddr := True\<rparr>)
     else if c = CHR ''F'' then go (o1\<lparr>dofork := True\<rparr>)
     else if c = CHR ''G'' then sroute_doopt ulong gethostbyname True optarg o1
     else if c = CHR ''H'' then go (o1\<lparr>iptos := atoi optarg\<rparr>)
     else if c = CHR ''I'' then go (o1\<lparr>sigio := True\<rparr>)
     else if c = CHR ''J'' then go (o1\<lparr>ipttl := atoi optarg\<rparr>)
     else if c = CHR ''K'' then go (o1\<lparr>keepalive := True\<rparr>)
     else if c = CHR ''L'' then go (o1\<lparr>linger := atoi optarg\<rparr>)
     else if c = CHR ''N'' then go (o1\<lparr>nodelay := True\<rparr>)
     else if c = CHR ''O'' then go (o1\<lparr>pauselisten := atoi optarg\<rparr>)
     else if c = CHR ''P'' then go (o1\<lparr>pauseinit := atoi optarg\<rparr>)
     else if c = CHR ''Q'' then go (o1\<lparr>pauseclose := atoi optarg\<rparr>)
     else if c = CHR ''R'' then go (o1\<lparr>rcvbuflen := atoi optarg\<rparr>)
     else if c = CHR ''S'' then go (o1\<lparr>sndbuflen := atoi optarg\<rparr>)
     else if c = CHR ''T'' then go (o1\<lparr>reuseport := True\<rparr>)
     else if c = CHR ''U'' then go (o1\<lparr>urgwrite := atoi optarg\<rparr>)
     else if c = CHR ''V'' then go (o1\<lparr>usewritev := True, chunkwrite := True\<rparr>)
     else if c = CHR ''W'' then go (o1\<lparr>ignorewerr := True\<rparr>)
     else if c = CHR ''X'' then go (o1\<lparr>maxseg := atoi optarg\<rparr>)
     else if c = CHR ''Y'' then go (o1\<lparr>dontroute := True\<rparr>)
     else if c = CHR ''Z'' then go (o1\<lparr>msgpeek := True\<rparr>)
     else if c = CHR ''?'' then usage ''unrecognized option''
     else go o1)"

definition set_opt ::
  "nat \<Rightarrow> (string \<Rightarrow> byte list option) \<Rightarrow> char \<Rightarrow> string \<Rightarrow> opts \<Rightarrow> opts attempt" where
  "set_opt ulong gethostbyname c optarg o1 =
     (case set_small_opt ulong gethostbyname c optarg o1 of
        Some r \<Rightarrow> r
      | None \<Rightarrow> set_other_opt ulong gethostbyname c optarg o1)"

fun set_opts ::
  "nat \<Rightarrow> (string \<Rightarrow> byte list option) \<Rightarrow> (char \<times> string) list \<Rightarrow> opts \<Rightarrow> opts attempt" where
  "set_opts ulong gethostbyname [] o1 = go o1"
| "set_opts ulong gethostbyname ((c, optarg) # args) o1 =
     attempt (set_opt ulong gethostbyname c optarg o1) (set_opts ulong gethostbyname args)"

definition check_opts :: "opts \<Rightarrow> opts attempt" where
  "check_opts o1 =
     (if udp o1 \<and> halfclose o1 then usage ''can't specify -h and -u''
      else if udp o1 \<and> debug o1 then usage ''can't specify -D and -u''
      else if udp o1 \<and> linger o1 \<ge> 0 then usage ''can't specify -L and -u''
      else if udp o1 \<and> nodelay o1 then usage ''can't specify -N and -u''
      else if \<not> udp o1 \<and> foreignip o1 \<noteq> [] then usage ''can't specify -f with TCP''
      else go o1)"

section \<open>Socket options\<close>

text \<open>
  The options, with the two calls that ask for \<open>SIGIO\<close>, and the values handed over: a number, the
  two numbers of a \<open>struct linger\<close> or \<open>struct timeval\<close>, or bytes.
\<close>

datatype sockopt =
  SO_DEBUG | SO_DONTROUTE | IP_TOS | IP_TTL | TCP_MAXSEG | IP_OPTIONS | SO_BROADCAST
  | IP_ADD_MEMBERSHIP | IP_MULTICAST_TTL | SO_KEEPALIVE | TCP_NODELAY | SO_LINGER | SO_RCVTIMEO
  | SO_SNDTIMEO | IP_RECVDSTADDR | SO_RCVBUF | SO_SNDBUF | SO_REUSEADDR | SO_REUSEPORT
  | F_SETOWN | FIOASYNC

datatype optval = Num int | Two int int | Bytes "byte list"

type_synonym setlog = "(int \<times> sockopt \<times> optval) list"

text \<open>
  The kernel's answers depend on the options set before: \<open>takes\<close> tells whether a call of
  \<open>setsockopt\<close> succeeds, \<open>reads_back\<close> what \<open>getsockopt\<close> delivers (\<open>None\<close>: it fails). The messages of \<open>err_sys\<close> and
  \<open>err_quit\<close> are shortened.
\<close>

record kern =
  takes :: "setlog \<Rightarrow> int \<Rightarrow> sockopt \<Rightarrow> optval \<Rightarrow> bool"
  reads_back :: "setlog \<Rightarrow> int \<Rightarrow> sockopt \<Rightarrow> optval option"
  own_pid :: int

text \<open>
  The globals, the address of the global \<open>servaddr\<close>, and what the sockets have been told, in order:
  options, local addresses, peers, and lengths of listen queues.
\<close>

record sock_st =
  globals :: opts
  serv_ip :: "byte list"
  serv_port :: "16 word"
  set_log :: setlog
  bound :: "(int \<times> byte list \<times> 16 word) list"
  peers :: "(int \<times> byte list \<times> 16 word) list"
  listening :: "(int \<times> int) list"

definition setsockopt :: "kern \<Rightarrow> int \<Rightarrow> sockopt \<Rightarrow> optval \<Rightarrow> sock_st \<Rightarrow> sock_st attempt" where
  "setsockopt k fd n v st =
     (if takes k (set_log st) fd n v then go (st\<lparr>set_log := set_log st @ [(fd, n, v)]\<rparr>)
      else quits ''setsockopt error'')"

definition read_back :: "kern \<Rightarrow> int \<Rightarrow> sockopt \<Rightarrow> (optval \<Rightarrow> bool) \<Rightarrow> sock_st \<Rightarrow> sock_st attempt" where
  "read_back k fd n good st =
     (case reads_back k (set_log st) fd n of
        None \<Rightarrow> quits ''getsockopt error''
      | Some v \<Rightarrow> if good v then go st else quits ''not set'')"

definition flag_on :: "kern \<Rightarrow> int \<Rightarrow> sockopt \<Rightarrow> sock_st \<Rightarrow> sock_st attempt" where
  "flag_on k fd n = in_order [setsockopt k fd n (Num 1), read_back k fd n (\<lambda>v. v \<noteq> Num 0)]"

definition value_on :: "kern \<Rightarrow> int \<Rightarrow> sockopt \<Rightarrow> int \<Rightarrow> sock_st \<Rightarrow> sock_st attempt" where
  "value_on k fd n x = in_order [setsockopt k fd n (Num x), read_back k fd n (\<lambda>v. v = Num x)]"

definition route_on :: "nat \<Rightarrow> kern \<Rightarrow> int \<Rightarrow> sock_st \<Rightarrow> sock_st attempt" where
  "route_on ulong k fd st =
     bind_outcome (sroute_set ulong (serv_ip st) (globals st)) (\<lambda>(opt, o2).
       setsockopt k fd IP_OPTIONS (Bytes opt) (st\<lparr>globals := o2\<rparr>))"

definition join_on :: "kern \<Rightarrow> int \<Rightarrow> sock_st \<Rightarrow> sock_st attempt" where
  "join_on k fd st =
     (case inet_aton (joinip (globals st)) of
        None \<Rightarrow> quits (''invalid multicast address: '' @ joinip (globals st))
      | Some a \<Rightarrow> setsockopt k fd IP_ADD_MEMBERSHIP (Bytes (a @ [0, 0, 0, 0])) st)"

text \<open>\<open>u_char ttl = mcastttl\<close> keeps the low 8 bits; the comparison is with the whole number.\<close>

definition mcast_ttl_on :: "kern \<Rightarrow> int \<Rightarrow> int \<Rightarrow> sock_st \<Rightarrow> sock_st attempt" where
  "mcast_ttl_on k fd ttl =
     in_order [setsockopt k fd IP_MULTICAST_TTL (Num (ttl mod 256)),
               read_back k fd IP_MULTICAST_TTL (\<lambda>v. v = Num ttl)]"

text \<open>\<open>l_linger\<close> is an \<open>int\<close> and keeps the low 32 bits of the \<open>long\<close>; again the comparison is with the whole number.\<close>

definition linger_on :: "kern \<Rightarrow> int \<Rightarrow> int \<Rightarrow> sock_st \<Rightarrow> sock_st attempt" where
  "linger_on k fd secs =
     in_order [setsockopt k fd SO_LINGER (Two 1 (signed_take_bit 31 secs)),
               read_back k fd SO_LINGER (\<lambda>v. case v of Two onoff l \<Rightarrow> onoff \<noteq> 0 \<and> l = secs | _ \<Rightarrow> False)]"

definition timeo_on :: "kern \<Rightarrow> int \<Rightarrow> sockopt \<Rightarrow> int \<Rightarrow> sock_st \<Rightarrow> sock_st attempt" where
  "timeo_on k fd n msecs =
     in_order [setsockopt k fd n (Two (msecs sdiv 1000) (msecs smod 1000 * 1000)),
               read_back k fd n (\<lambda>_. True)]"

text \<open>The options in the order the code sets them, in four groups.\<close>

definition sockopts_early ::
  "nat \<Rightarrow> kern \<Rightarrow> int \<Rightarrow> bool \<Rightarrow> opts \<Rightarrow> (sock_st \<Rightarrow> sock_st attempt) list" where
  "sockopts_early ulong k sockfd doall o1 =
     [only_if (debug o1) (flag_on k sockfd SO_DEBUG),
      only_if (dontroute o1) (flag_on k sockfd SO_DONTROUTE),
      only_if (iptos o1 \<noteq> -1 \<and> \<not> doall) (value_on k sockfd IP_TOS (iptos o1)),
      only_if (ipttl o1 \<noteq> -1 \<and> \<not> doall) (value_on k sockfd IP_TTL (ipttl o1)),
      only_if (maxseg o1 \<noteq> 0 \<and> \<not> udp o1)
        (in_order [setsockopt k sockfd TCP_MAXSEG (Num (maxseg o1)),
                   read_back k sockfd TCP_MAXSEG (\<lambda>_. True)]),
      only_if (sroute_cnt o1 > 0) (route_on ulong k sockfd)]"

definition sockopts_cast ::
  "kern \<Rightarrow> int \<Rightarrow> opts \<Rightarrow> (sock_st \<Rightarrow> sock_st attempt) list" where
  "sockopts_cast k sockfd o1 =
     [only_if (broadcast o1) (flag_on k sockfd SO_BROADCAST),
      only_if (joinip o1 \<noteq> []) (join_on k sockfd),
      only_if (mcastttl o1 \<noteq> 0) (mcast_ttl_on k sockfd (mcastttl o1))]"

definition sockopts_conn ::
  "kern \<Rightarrow> int \<Rightarrow> bool \<Rightarrow> opts \<Rightarrow> (sock_st \<Rightarrow> sock_st attempt) list" where
  "sockopts_conn k sockfd doall o1 =
     [only_if (keepalive o1 \<and> doall \<and> \<not> udp o1) (flag_on k sockfd SO_KEEPALIVE),
      only_if (nodelay o1 \<and> doall \<and> \<not> udp o1) (flag_on k sockfd TCP_NODELAY),
      only_if (doall \<and> verbose o1 \<noteq> 0 \<and> \<not> udp o1) (read_back k sockfd TCP_MAXSEG (\<lambda>_. True)),
      only_if (linger o1 \<ge> 0 \<and> doall \<and> \<not> udp o1) (linger_on k sockfd (linger o1)),
      only_if (doall \<and> rcvtimeo o1 \<noteq> 0) (timeo_on k sockfd SO_RCVTIMEO (rcvtimeo o1)),
      only_if (doall \<and> sndtimeo o1 \<noteq> 0) (timeo_on k sockfd SO_SNDTIMEO (sndtimeo o1))]"

definition sockopts_last ::
  "kern \<Rightarrow> int \<Rightarrow> opts \<Rightarrow> (sock_st \<Rightarrow> sock_st attempt) list" where
  "sockopts_last k sockfd o1 =
     [only_if (recvdstaddr o1 \<and> udp o1) (flag_on k sockfd IP_RECVDSTADDR),
      only_if (sigio o1)
        (in_order [setsockopt k sockfd F_SETOWN (Num (own_pid k)), setsockopt k sockfd FIOASYNC (Num 1)])]"

definition sockopts :: "nat \<Rightarrow> kern \<Rightarrow> int \<Rightarrow> bool \<Rightarrow> sock_st \<Rightarrow> sock_st attempt" where
  "sockopts ulong k sockfd doall st =
     (let o1 = globals st in
      in_order (sockopts_early ulong k sockfd doall o1 @ sockopts_cast k sockfd o1
        @ sockopts_conn k sockfd doall o1 @ sockopts_last k sockfd o1) st)"

lemmas sockopts_defs = sockopts_def sockopts_early_def sockopts_cast_def sockopts_conn_def sockopts_last_def

text \<open>\<open>buffers\<close>: the two sizes. (The two \<open>malloc\<close>s are taken to succeed.)\<close>

definition buffers :: "kern \<Rightarrow> int \<Rightarrow> sock_st \<Rightarrow> sock_st attempt" where
  "buffers k sockfd st =
     (let o1 = globals st in
      in_order [only_if (rcvbuflen o1 \<noteq> 0) (value_on k sockfd SO_RCVBUF (rcvbuflen o1)),
                only_if (sndbuflen o1 \<noteq> 0) (value_on k sockfd SO_SNDBUF (sndbuflen o1))] st)"

text \<open>
  \<open>join_mcast\<close> applies \<open>IN_MULTICAST\<close>, which wants host byte order, to \<open>sin_addr.s_addr\<close> as it
  is in memory; the load is little-endian on the host.
\<close>

definition load_le32 :: "byte list \<Rightarrow> 32 word" where
  "load_le32 a = word_of_nat (unat (a ! 0) + 256 * unat (a ! 1) + 65536 * unat (a ! 2) + 16777216 * unat (a ! 3))"

definition IN_MULTICAST :: "32 word \<Rightarrow> bool" where
  "IN_MULTICAST i \<longleftrightarrow> and i 0xf0000000 = 0xe0000000"

definition join_mcast :: "kern \<Rightarrow> int \<Rightarrow> byte list \<Rightarrow> sock_st \<Rightarrow> sock_st attempt" where
  "join_mcast k fd sin_addr st =
     (if IN_MULTICAST (load_le32 sin_addr)
      then setsockopt k fd IP_ADD_MEMBERSHIP (Bytes (sin_addr @ [0, 0, 0, 0])) st
      else go st)"

section \<open>The source route is the option of RFC 791\<close>

definition hop_args :: "(bool \<times> byte list) list \<Rightarrow> (char \<times> string) list" where
  "hop_args = map (\<lambda>(strict, a). (if strict then CHR ''G'' else CHR ''g'', quad_text a))"

definition route_state :: "byte \<Rightarrow> byte list list \<Rightarrow> opts \<Rightarrow> bool" where
  "route_state t as o1 \<longleftrightarrow>
     sroute_cnt o1 = length as \<and> optr o1 = 3 + 4 * length as
   \<and> sroute_opt o1 = [t, 0, 4] @ concat as @ replicate (41 - 4 * length as) 0"

lemma length_concat_4: "\<forall>a \<in> set as. length a = 4 \<Longrightarrow> length (concat as) = 4 * length as"
  by (induction as) auto

lemma memcpy_at_append:
  "length xs = i \<Longrightarrow> length src = n \<Longrightarrow> n \<le> length zs \<Longrightarrow>
     memcpy_at (xs @ zs) i src n = Ok (xs @ src @ drop n zs)"
  by (simp add: memcpy_at_def)

lemma memcpy_at_over: "length src < n \<Longrightarrow> memcpy_at buf i src n = Undefined"
  by (simp add: memcpy_at_def)

lemma set_opt_hop:
  "set_opt ulong gh (if strict then CHR ''G'' else CHR ''g'') arg o1 = sroute_doopt ulong gh strict arg o1"
  by (cases strict) (simp_all add: set_opt_def set_small_opt_def set_other_opt_def)

lemma lookup_hop_quad [simp]: "length a = 4 \<Longrightarrow> lookup_hop gh (quad_text a) = Some a"
  by (simp add: lookup_hop_def aton_quad_text)

lemma sroute_doopt_next:
  assumes st: "route_state t as o1" and as: "\<forall>x \<in> set as. length x = 4" and ne: "as \<noteq> []"
    and a: "length a = 4" and le: "length as < 9"
  shows "\<exists>o2. sroute_doopt 4 gh strict (quad_text a) o1 = go o2 \<and> route_state t (as @ [a]) o2"
proof -
  have l: "length ([t, 0, 4] @ concat as) = optr o1" using st as by (simp add: route_state_def length_concat_4)
  have r: "4 \<le> length (replicate (41 - 4 * length as) (0::byte))" using le by simp
  have m: "memcpy_at (([t, 0, 4] @ concat as) @ replicate (41 - 4 * length as) 0) (optr o1) a 4
         = Ok (([t, 0, 4] @ concat as) @ a @ drop 4 (replicate (41 - 4 * length as) 0))"
    by (rule memcpy_at_append [OF l a r])
  have buf: "sroute_opt o1 = ([t, 0, 4] @ concat as) @ replicate (41 - 4 * length as) 0"
    using st by (simp add: route_state_def)
  have s: "sroute_start strict o1 = o1" using st ne by (simp add: sroute_start_def route_state_def)
  show ?thesis
    using st le a ne
    by (simp add: sroute_doopt_def s m [folded buf] del: append_Cons)
      (simp add: route_state_def)
qed

lemma sroute_doopt_first:
  assumes "sroute_cnt o1 = 0" and "length a = 4"
  shows "\<exists>o2. sroute_doopt 4 gh strict (quad_text a) o1 = go o2
     \<and> route_state (if strict then 0x89 else 0x83) [a] o2"
proof -
  have "memcpy_at ([t, 0, 4] @ replicate 41 0) 3 a 4 = Ok ([t, 0, 4] @ a @ drop 4 (replicate 41 0))" for t
    by (rule memcpy_at_append) (simp_all add: assms)
  then show ?thesis using assms
    by (simp add: sroute_doopt_def sroute_start_def route_state_def del: append_Cons)
qed

lemma set_opts_route:
  assumes "route_state t as o1" and "\<forall>x \<in> set as. length x = 4" and "as \<noteq> []"
    and "\<forall>x \<in> set (map snd hops). length x = 4" and "length as + length hops \<le> 9"
  shows "\<exists>o2. set_opts 4 gh (hop_args hops) o1 = go o2 \<and> route_state t (as @ map snd hops) o2"
  using assms
proof (induction hops arbitrary: as o1)
  case Nil
  then show ?case by (simp add: hop_args_def)
next
  case (Cons h hs)
  obtain strict a where h: "h = (strict, a)" by (cases h)
  obtain o2 where o2: "sroute_doopt 4 gh strict (quad_text a) o1 = go o2" "route_state t (as @ [a]) o2"
    using sroute_doopt_next [OF Cons.prems(1-3), of a gh strict] Cons.prems h by auto
  obtain o3 where "set_opts 4 gh (hop_args hs) o2 = go o3" "route_state t ((as @ [a]) @ map snd hs) o3"
    using Cons.IH [OF o2(2)] Cons.prems h by auto
  with o2(1) show ?case by (simp add: h hop_args_def set_opt_hop)
qed

lemma sroute_set_bytes:
  assumes st: "route_state t as o1" and as: "\<forall>x \<in> set as. length x = 4" and le: "length as \<le> 9"
    and d: "length dest = 4"
  shows "\<exists>o2. sroute_set 4 dest o1
     = Ok ([t, word_of_nat (3 + 4 * (length as + 1)), 4] @ concat as @ dest @ [0], o2) \<and> sroute_cnt o2 = 0"
proof -
  define n where "n = length as"
  let ?h = "[t, word_of_nat (3 + (n + 1) * 4), 4] @ concat as"
  have c: "length (concat as) = 4 * n" using as by (simp add: n_def length_concat_4)
  have buf: "(sroute_opt o1)[1 := word_of_nat (3 + (sroute_cnt o1 + 1) * 4)] = ?h @ replicate (41 - 4 * n) 0"
    using st by (simp add: route_state_def n_def)
  have n9: "n \<le> 9" using le by (simp add: n_def)
  have l: "length ?h = optr o1" using st c by (simp add: route_state_def n_def)
  have m: "memcpy_at (?h @ replicate (41 - 4 * n) 0) (optr o1) dest 4
     = Ok (?h @ dest @ drop 4 (replicate (41 - 4 * n) 0))"
    by (rule memcpy_at_append [OF l d]) (use n9 in simp)
  have o: "optr o1 = 3 + 4 * n" using st by (simp add: route_state_def n_def)
  have p: "pad4 (optr o1 + 4) = 8 + 4 * n" by (simp add: o pad4_def)
  have "37 - 4 * n = Suc (36 - 4 * n)" using n9 by simp
  then have tk: "take (8 + 4 * n) (?h @ dest @ replicate (37 - 4 * n) 0) = ?h @ dest @ [0]"
    using c d by (simp add: take_Cons')
  have len: "length (?h @ dest @ drop 4 (replicate (41 - 4 * n) 0)) = 44" using c d n9 by simp
  have tk': "take (8 + 4 * n) (?h @ dest @ drop 4 (replicate (41 - 4 * n) 0)) = ?h @ dest @ [0]"
    using tk by (simp only: drop_replicate) simp
  have h: "?h @ dest @ [0] = [t, word_of_nat (3 + 4 * (length as + 1)), 4] @ concat as @ dest @ [0]"
    by (simp add: n_def mult.commute)
  have in44: "8 + 4 * n \<le> 44" using n9 by simp
  show ?thesis
    unfolding sroute_set_def Let_def buf m p bind_outcome.simps len tk' h if_P [OF in44] by simp
qed

text \<open>
  Where \<open>sizeof(u_long)\<close> is more than 4, the first hop already copies bytes from behind the
  address.
\<close>

lemma sroute_doopt_over:
  "4 < ulong \<Longrightarrow> length a = 4 \<Longrightarrow> sroute_cnt o1 < 9 \<Longrightarrow>
     sroute_doopt ulong gh strict (quad_text a) o1 = Undefined"
  by (simp add: sroute_doopt_def memcpy_at_over Let_def)

text \<open>
  C17: With one to nine \<open>-g\<close> or \<open>-G\<close> options of dotted-decimal hops, on a host whose \<open>u_long\<close> has 4
  bytes, \<open>sroute_set\<close> hands the kernel exactly the source route option: the type of the first
  option given (loose 131, strict 137), the length 3 + 4 (n + 1), the pointer 4, the hops in
  order, the destination and one byte of padding, never more than the 44 bytes there are; and the
  route is not set again. On a host whose \<open>u_long\<close> is longer the first of these options already
  makes the program read behind the 4-byte address.
\<close>

theorem source_route_option:
  assumes "hops \<noteq> []" and "length hops \<le> 9" and "\<forall>h \<in> set hops. length (snd h) = 4"
    and "length dest = 4"
  shows "\<exists>o1 o2. set_opts 4 gh (hop_args hops) default_opts = go o1
     \<and> sroute_set 4 dest o1
       = Ok ([if fst (hd hops) then 137 else 131, word_of_nat (3 + 4 * (length hops + 1)), 4]
              @ concat (map snd hops) @ dest @ [0], o2)
     \<and> sroute_cnt o2 = 0
     \<and> set_opts 8 gh (hop_args hops) default_opts = Undefined"
proof -
  obtain strict a hs where h: "hops = (strict, a) # hs" using assms(1) by (cases hops) auto
  have a: "length a = 4" using assms(3) h by simp
  let ?t = "if strict then 137 else (131::byte)"
  obtain o0 where o0: "sroute_doopt 4 gh strict (quad_text a) default_opts = go o0" "route_state ?t [a] o0"
    using sroute_doopt_first [OF _ a, of default_opts gh strict] by (auto simp: default_opts_def)
  obtain o1 where o1: "set_opts 4 gh (hop_args hs) o0 = go o1" "route_state ?t ([a] @ map snd hs) o1"
    using set_opts_route [OF o0(2), of hs gh] assms h by auto
  then have "\<exists>o2. sroute_set 4 dest o1 = Ok ([?t, word_of_nat (3 + 4 * (length ([a] @ map snd hs) + 1)), 4]
      @ concat ([a] @ map snd hs) @ dest @ [0], o2) \<and> sroute_cnt o2 = 0"
    by (intro sroute_set_bytes) (use assms h in auto)
  moreover have "sroute_doopt 8 gh strict (quad_text a) default_opts = Undefined"
    by (rule sroute_doopt_over) (simp_all add: a default_opts_def)
  ultimately show ?thesis using o0(1) o1(1) by (auto simp: h hop_args_def set_opt_hop)
qed

theorem source_route_option_witness:
  "\<exists>o1 o2. set_opts 4 (\<lambda>_. None) (hop_args [(False, [10, 0, 0, 1])]) default_opts = go o1
     \<and> sroute_set 4 [10, 0, 0, 9] o1 = Ok ([131, 11, 4, 10, 0, 0, 1, 10, 0, 0, 9, 0], o2)"
  using source_route_option [of "[(False, [10, 0, 0, 1])]" "[10, 0, 0, 9]" "\<lambda>_. None"] by auto

section \<open>Which options are set where\<close>

text \<open>
  A step that, with UDP or not as \<open>u\<close> says, only adds options with the property \<open>P\<close> and leaves
  the globals that are no part of the source route alone.
\<close>

definition adds ::
  "bool \<Rightarrow> (int \<times> sockopt \<times> optval \<Rightarrow> bool) \<Rightarrow> (sock_st \<Rightarrow> sock_st attempt) \<Rightarrow> bool" where
  "adds u P f \<longleftrightarrow> (\<forall>st st'. udp (globals st) = u \<longrightarrow> f st = go st' \<longrightarrow>
     (\<exists>l. set_log st' = set_log st @ l \<and> (\<forall>e \<in> set l. P e))
   \<and> (\<exists>cnt opt ptr. globals st' = globals st\<lparr>sroute_cnt := cnt, sroute_opt := opt, optr := ptr\<rparr>))"

lemma addsI:
  assumes "\<And>st st'. udp (globals st) = u \<Longrightarrow> f st = go st' \<Longrightarrow>
     \<exists>l cnt opt ptr. set_log st' = set_log st @ l \<and> (\<forall>e \<in> set l. P e)
       \<and> globals st' = globals st\<lparr>sroute_cnt := cnt, sroute_opt := opt, optr := ptr\<rparr>"
  shows "adds u P f"
  using assms unfolding adds_def by meson

lemma addsE:
  assumes "adds u P f" and "f st = go st'" and "udp (globals st) = u"
  obtains l cnt opt ptr where "set_log st' = set_log st @ l" and "\<forall>e \<in> set l. P e"
    and "globals st' = globals st\<lparr>sroute_cnt := cnt, sroute_opt := opt, optr := ptr\<rparr>"
  using assms unfolding adds_def by meson

lemma same_globals:
  "\<exists>cnt opt ptr. (o1 :: opts) = o1\<lparr>sroute_cnt := cnt, sroute_opt := opt, optr := ptr\<rparr>"
  by (intro exI [of _ "sroute_cnt o1"] exI [of _ "sroute_opt o1"] exI [of _ "optr o1"]) simp

text \<open>The usual case: nothing of the globals changes.\<close>

lemma adds_keepI:
  assumes "\<And>st st'. udp (globals st) = u \<Longrightarrow> f st = go st' \<Longrightarrow>
     globals st' = globals st \<and> (\<exists>l. set_log st' = set_log st @ l \<and> (\<forall>e \<in> set l. P e))"
  shows "adds u P f"
proof (rule addsI)
  fix st st' assume a: "udp (globals st) = u" "f st = go st'"
  obtain l where l: "globals st' = globals st" "set_log st' = set_log st @ l" "\<forall>e \<in> set l. P e"
    using assms [OF a] by blast
  obtain cnt opt ptr where "globals st' = globals st\<lparr>sroute_cnt := cnt, sroute_opt := opt, optr := ptr\<rparr>"
    using same_globals [of "globals st"] l(1) by metis
  with l show "\<exists>l cnt opt ptr. set_log st' = set_log st @ l \<and> (\<forall>e \<in> set l. P e)
       \<and> globals st' = globals st\<lparr>sroute_cnt := cnt, sroute_opt := opt, optr := ptr\<rparr>"
    by (intro exI [of _ l] exI [of _ cnt] exI [of _ opt] exI [of _ ptr]) blast
qed

lemma adds_mono: "adds u P f \<Longrightarrow> (\<And>e. P e \<Longrightarrow> Q e) \<Longrightarrow> adds u Q f"
  unfolding adds_def by meson

lemma adds_refl: "adds u P go"
  by (rule adds_keepI) auto

lemma adds_in_order_Nil: "adds u P (in_order [])"
  by (rule adds_keepI) auto

lemma adds_then: "adds u P f \<Longrightarrow> adds u P g \<Longrightarrow> adds u P (\<lambda>st. attempt (f st) g)"
proof (rule addsI)
  fix st st'
  assume f: "adds u P f" and g: "adds u P g" and u: "udp (globals st) = u"
    and a: "attempt (f st) g = go st'"
  then obtain st1 where 1: "f st = go st1" "g st1 = go st'" by auto
  obtain l1 c1 b1 p1 where l1: "set_log st1 = set_log st @ l1" "\<forall>e \<in> set l1. P e"
    and g1: "globals st1 = globals st\<lparr>sroute_cnt := c1, sroute_opt := b1, optr := p1\<rparr>"
    by (rule addsE [OF f 1(1) u])
  have u1: "udp (globals st1) = u" using g1 u by simp
  obtain l2 c2 b2 p2 where l2: "set_log st' = set_log st1 @ l2" "\<forall>e \<in> set l2. P e"
    and g2: "globals st' = globals st1\<lparr>sroute_cnt := c2, sroute_opt := b2, optr := p2\<rparr>"
    by (rule addsE [OF g 1(2) u1])
  have "globals st' = globals st\<lparr>sroute_cnt := c2, sroute_opt := b2, optr := p2\<rparr>" using g1 g2 by simp
  moreover have "set_log st' = set_log st @ l1 @ l2" "\<forall>e \<in> set (l1 @ l2). P e" using l1 l2 by auto
  ultimately show "\<exists>l cnt opt ptr. set_log st' = set_log st @ l \<and> (\<forall>e \<in> set l. P e)
       \<and> globals st' = globals st\<lparr>sroute_cnt := cnt, sroute_opt := opt, optr := ptr\<rparr>"
    by blast
qed

lemma adds_in_order_Cons: "adds u P f \<Longrightarrow> adds u P (in_order fs) \<Longrightarrow> adds u P (in_order (f # fs))"
proof -
  assume "adds u P f" and "adds u P (in_order fs)"
  then have "adds u P (\<lambda>st. attempt (f st) (in_order fs))" by (rule adds_then)
  moreover have "in_order (f # fs) = (\<lambda>st. attempt (f st) (in_order fs))" by (rule ext) simp
  ultimately show ?thesis by simp
qed

lemma adds_only_if: "(b \<Longrightarrow> adds u P f) \<Longrightarrow> adds u P (only_if b f)"
proof -
  assume a: "b \<Longrightarrow> adds u P f"
  have "only_if b f = (if b then f else go)" by (rule ext) (simp add: only_if_def)
  then show ?thesis using a adds_refl by auto
qed

lemma setsockopt_goD:
  "setsockopt k fd n v st = go st' \<Longrightarrow>
     st' = st\<lparr>set_log := set_log st @ [(fd, n, v)]\<rparr> \<and> takes k (set_log st) fd n v"
  by (simp add: setsockopt_def split: if_splits)

lemma read_back_goD: "read_back k fd n good st = go st' \<Longrightarrow> st' = st"
  by (simp add: read_back_def split: option.splits if_splits)

lemma adds_setsockopt: "(\<And>v. P (fd, n, v)) \<Longrightarrow> adds u P (setsockopt k fd n v)"
  by (rule adds_keepI) (drule setsockopt_goD, simp)

lemma adds_read_back: "adds u P (read_back k fd n good)"
  by (rule adds_keepI) (drule read_back_goD, simp)

lemma adds_route_on: "(\<And>v. P (fd, IP_OPTIONS, v)) \<Longrightarrow> adds u P (route_on ulong k fd)"
proof (rule addsI)
  fix st st' assume P: "\<And>v. P (fd, IP_OPTIONS, v)" and s: "route_on ulong k fd st = go st'"
  then obtain opt o2 where r: "sroute_set ulong (serv_ip st) (globals st) = Ok (opt, o2)"
    and st': "st' = st\<lparr>globals := o2, set_log := set_log st @ [(fd, IP_OPTIONS, Bytes opt)]\<rparr>"
    by (auto simp: route_on_def setsockopt_def split: if_splits)
  obtain c b p where "o2 = globals st\<lparr>sroute_cnt := c, sroute_opt := b, optr := p\<rparr>"
    using r by (force simp: sroute_set_def Let_def split: if_splits)
  then show "\<exists>l cnt opt ptr. set_log st' = set_log st @ l \<and> (\<forall>e \<in> set l. P e)
       \<and> globals st' = globals st\<lparr>sroute_cnt := cnt, sroute_opt := opt, optr := ptr\<rparr>"
    using P st' by (intro exI [of _ "[(fd, IP_OPTIONS, Bytes opt)]"] exI [of _ c] exI [of _ b] exI [of _ p]) auto
qed

lemma adds_join_on: "(\<And>v. P (fd, IP_ADD_MEMBERSHIP, v)) \<Longrightarrow> adds u P (join_on k fd)"
  by (rule adds_keepI) (auto simp: join_on_def split: option.splits dest!: setsockopt_goD)

lemmas adds_intros = adds_in_order_Nil adds_in_order_Cons adds_only_if adds_setsockopt
  adds_read_back adds_route_on adds_join_on

text \<open>
  The options of a connection are only set on one (\<open>doall\<close>), the type of service and the time to
  live only before there is one, and the TCP options never with UDP.
\<close>

definition option_ok :: "bool \<Rightarrow> bool \<Rightarrow> int \<Rightarrow> int \<times> sockopt \<times> optval \<Rightarrow> bool" where
  "option_ok udp_sock doall sockfd e =
     (case e of (fd, n, v) \<Rightarrow>
        fd = sockfd
      \<and> (n \<in> {SO_KEEPALIVE, TCP_NODELAY, SO_LINGER, SO_RCVTIMEO, SO_SNDTIMEO} \<longrightarrow> doall)
      \<and> (n \<in> {IP_TOS, IP_TTL} \<longrightarrow> \<not> doall)
      \<and> (n \<in> {TCP_MAXSEG, TCP_NODELAY, SO_KEEPALIVE, SO_LINGER} \<longrightarrow> \<not> udp_sock)
      \<and> (n = IP_RECVDSTADDR \<longrightarrow> udp_sock))"

lemma adds_steps:
  assumes "\<And>v. P (fd, n, v)"
  shows adds_flag_on: "adds u P (flag_on k fd n)"
    and adds_value_on: "adds u P (value_on k fd n x)"
    and adds_timeo_on: "adds u P (timeo_on k fd n x)"
  unfolding flag_on_def value_on_def timeo_on_def by (intro adds_intros assms)+

lemma adds_mcast_ttl_on: "(\<And>v. P (fd, IP_MULTICAST_TTL, v)) \<Longrightarrow> adds u P (mcast_ttl_on k fd x)"
  unfolding mcast_ttl_on_def by (intro adds_intros)

lemma adds_linger_on: "(\<And>v. P (fd, SO_LINGER, v)) \<Longrightarrow> adds u P (linger_on k fd x)"
  unfolding linger_on_def by (intro adds_intros)

lemmas adds_all = adds_intros adds_flag_on adds_value_on adds_timeo_on adds_mcast_ttl_on adds_linger_on

lemma adds_sockopts: "adds u (option_ok u doall fd) (sockopts ulong k fd doall)"
proof (rule addsI)
  fix st st' assume u: "udp (globals st) = u" and s: "sockopts ulong k fd doall st = go st'"
  have all: "adds u (option_ok u doall fd) (in_order fs) \<Longrightarrow> in_order fs st = go st' \<Longrightarrow>
     \<exists>l cnt opt ptr. set_log st' = set_log st @ l \<and> (\<forall>e \<in> set l. option_ok u doall fd e)
       \<and> globals st' = globals st\<lparr>sroute_cnt := cnt, sroute_opt := opt, optr := ptr\<rparr>" for fs
    using u unfolding adds_def by meson
  show "\<exists>l cnt opt ptr. set_log st' = set_log st @ l \<and> (\<forall>e \<in> set l. option_ok u doall fd e)
       \<and> globals st' = globals st\<lparr>sroute_cnt := cnt, sroute_opt := opt, optr := ptr\<rparr>"
    by (rule all [OF _ s [unfolded sockopts_defs Let_def append.simps]])
      (intro adds_all; simp add: option_ok_def u)
qed

lemma adds_buffers:
  "(\<And>v. P (fd, SO_RCVBUF, v)) \<Longrightarrow> (\<And>v. P (fd, SO_SNDBUF, v)) \<Longrightarrow> adds u P (buffers k fd)"
proof (rule addsI)
  fix st st' assume P: "\<And>v. P (fd, SO_RCVBUF, v)" "\<And>v. P (fd, SO_SNDBUF, v)"
    and u: "udp (globals st) = u" and s: "buffers k fd st = go st'"
  have all: "adds u P (in_order fs) \<Longrightarrow> in_order fs st = go st' \<Longrightarrow>
     \<exists>l cnt opt ptr. set_log st' = set_log st @ l \<and> (\<forall>e \<in> set l. P e)
       \<and> globals st' = globals st\<lparr>sroute_cnt := cnt, sroute_opt := opt, optr := ptr\<rparr>" for fs
    using u unfolding adds_def by meson
  show "\<exists>l cnt opt ptr. set_log st' = set_log st @ l \<and> (\<forall>e \<in> set l. P e)
       \<and> globals st' = globals st\<lparr>sroute_cnt := cnt, sroute_opt := opt, optr := ptr\<rparr>"
    by (rule all [OF _ s [unfolded buffers_def Let_def]]) (intro adds_all P)
qed

lemma adds_join_mcast: "(\<And>v. P (fd, IP_ADD_MEMBERSHIP, v)) \<Longrightarrow> adds u P (join_mcast k fd a)"
  by (rule adds_keepI) (auto simp: join_mcast_def split: if_splits dest!: setsockopt_goD)

text \<open>Where a group is to be joined, \<open>sockopts\<close> joins it whatever \<open>doall\<close> is.\<close>

lemma in_order_append: "in_order (fs @ gs) a = attempt (in_order fs a) (in_order gs)"
proof (induction fs arbitrary: a)
  case (Cons f fs)
  show ?case by (cases "(f a, in_order gs)" rule: attempt.cases) (simp_all add: Cons.IH)
qed simp

lemma sockopts_joins:
  assumes s: "sockopts ulong k fd doall st = go st'" and j: "joinip (globals st) \<noteq> []"
  obtains a log1 where "inet_aton (joinip (globals st)) = Some a"
    and "takes k log1 fd IP_ADD_MEMBERSHIP (Bytes (a @ [0, 0, 0, 0]))"
    and "set (set_log st) \<subseteq> set log1"
    and "(fd, IP_ADD_MEMBERSHIP, Bytes (a @ [0, 0, 0, 0])) \<in> set (set_log st')"
proof -
  note found = that
  let ?u = "udp (globals st)"
  let ?j = "only_if (joinip (globals st) \<noteq> []) (join_on k fd)"
  have split: thesis
    if i: "in_order (pre @ ?j # post) st = go st'"
      and pre: "adds ?u (\<lambda>_. True) (in_order pre)" and post: "adds ?u (\<lambda>_. True) (in_order post)"
    for pre post
  proof -
    obtain st1 st2 where 1: "in_order pre st = go st1" and 2: "join_on k fd st1 = go st2"
      and 3: "in_order post st2 = go st'"
      using i j by (auto simp: in_order_append only_if_def)
    obtain l1 c1 b1 p1 where l1: "set_log st1 = set_log st @ l1"
      and g1: "globals st1 = globals st\<lparr>sroute_cnt := c1, sroute_opt := b1, optr := p1\<rparr>"
      by (rule addsE [OF pre 1 refl])
    obtain a where a: "inet_aton (joinip (globals st)) = Some a"
      and o: "setsockopt k fd IP_ADD_MEMBERSHIP (Bytes (a @ [0, 0, 0, 0])) st1 = go st2"
      using 2 g1 by (auto simp: join_on_def split: option.splits)
    note st2 = setsockopt_goD [OF o]
    have u2: "udp (globals st2) = ?u" using g1 st2 by simp
    obtain l2 c2 b2 p2 where l2: "set_log st' = set_log st2 @ l2"
      and g2: "globals st' = globals st2\<lparr>sroute_cnt := c2, sroute_opt := b2, optr := p2\<rparr>"
      by (rule addsE [OF post 3 u2])
    show thesis
      by (rule found [OF a, of "set_log st1"]) (use st2 l1 l2 in auto)
  qed
  show thesis
    by (rule split [of "[_, _, _, _, _, _, _]", unfolded append.simps,
          OF s [unfolded sockopts_defs Let_def append.simps]])
      (intro adds_all TrueI)+
qed

text \<open>\<open>join_mcast\<close> looks at the wrong end of the address.\<close>

lemma IN_MULTICAST_iff: "IN_MULTICAST w \<longleftrightarrow> unat w div 2 ^ 28 = 14"
proof -
  have m: "(0xf0000000 :: 32 word) = push_bit 28 (mask 4)"
    by (simp add: mask_eq_exp_minus_1 push_bit_eq_mult)
  have "IN_MULTICAST w \<longleftrightarrow> drop_bit 28 w = 14"
  proof
    assume "IN_MULTICAST w"
    then have "drop_bit 28 (and w 0xf0000000) = drop_bit 28 (0xe0000000 :: 32 word)"
      by (simp add: IN_MULTICAST_def)
    moreover have "drop_bit 28 (and w 0xf0000000) = drop_bit 28 w"
      unfolding m by (rule bit_word_eqI) (auto simp: bit_simps dest: bit_imp_le_length)
    ultimately show "drop_bit 28 w = 14" by simp
  next
    assume a: "drop_bit 28 w = 14"
    have "and w 0xf0000000 = push_bit 28 (drop_bit 28 w)"
      unfolding m by (rule bit_word_eqI) (auto simp: bit_simps dest: bit_imp_le_length)
    with a show "IN_MULTICAST w" by (simp add: IN_MULTICAST_def)
  qed
  also have "\<dots> \<longleftrightarrow> unat (drop_bit 28 w) = 14" by (simp add: word_unat_eq_iff)
  also have "unat (drop_bit 28 w) = unat w div 2 ^ 28" by (subst unat_drop_bit_eq) (rule drop_bit_eq_div)
  finally show ?thesis .
qed

lemma join_mcast_last_octet:
  "IN_MULTICAST (load_le32 [a, b, c, d]) \<longleftrightarrow> 224 \<le> unat d \<and> unat d < 240"
proof -
  let ?n = "unat a + 256 * unat b + 65536 * unat c + 16777216 * unat d"
  have lt: "unat a < 256" "unat b < 256" "unat c < 256" "unat d < 256" by simp_all
  have n: "?n < 4294967296" using lt by linarith
  have "load_le32 [a, b, c, d] = word_of_nat ?n" by (simp add: load_le32_def)
  moreover have "unat (word_of_nat ?n :: 32 word) = ?n"
    by (subst unat_of_nat) (use n in simp)
  ultimately have u: "unat (load_le32 [a, b, c, d]) = ?n" by simp
  have "x div 268435456 = 14 \<longleftrightarrow> 3758096384 \<le> x \<and> x < 4026531840" for x :: nat
  proof -
    have "x div 268435456 = 14 \<longleftrightarrow> 14 \<le> x div 268435456 \<and> x div 268435456 < 15" by linarith
    then show ?thesis by (simp add: less_eq_div_iff_mult_less_eq div_less_iff_less_mult)
  qed
  then have "IN_MULTICAST (load_le32 [a, b, c, d]) \<longleftrightarrow> 3758096384 \<le> ?n \<and> ?n < 4026531840"
    by (simp add: IN_MULTICAST_iff u)
  moreover have "3758096384 \<le> ?n \<longleftrightarrow> 224 \<le> unat d"
  proof
    assume "3758096384 \<le> ?n"
    show "224 \<le> unat d"
    proof (rule ccontr)
      assume "\<not> 224 \<le> unat d"
      then have "unat d \<le> 223" by simp
      with lt \<open>3758096384 \<le> ?n\<close> show False by linarith
    qed
  qed (use lt in linarith)
  moreover have "?n < 4026531840 \<longleftrightarrow> unat d < 240"
    using lt by (intro iffI) linarith+
  ultimately show ?thesis by simp
qed

end
