(* ===== verification/SockOpen.thy ===== *)
theory SockOpen
  imports SockOpts
begin

text \<open>
  How the \<open>sock\<close> program opens its socket: \<open>cliopen\<close> (\<^verbatim>\<open>unpv13e/sock/cliopen.c\<close>), \<open>servopen\<close>
  (\<^verbatim>\<open>unpv13e/sock/servopen.c\<close>) and the part of \<open>main\<close> behind the options
  (\<^verbatim>\<open>unpv13e/sock/main.c\<close>). Not modelled: the signals that keep the output of a forking server's
  processes apart, and what \<open>-v\<close> prints.
\<close>

section \<open>The calls\<close>

text \<open>
  What \<open>connect\<close> and \<open>accept\<close> return, call by call; a script that is used up connects, and has no
  connection to accept. After \<open>accept\<close> of a forking server comes the result of \<open>fork\<close>.
\<close>

datatype conn_ret = Connects | IsEintr | IsEisconn | ConnFails

datatype fork_ret = ForkFails | InParent | InChild

record netw =
  getservbyname :: "string \<Rightarrow> string \<Rightarrow> 16 word option"
  gethost :: "string \<Rightarrow> byte list option"
  new_socket :: "bool \<Rightarrow> int option"
  bind_ok :: "int \<Rightarrow> byte list \<Rightarrow> 16 word \<Rightarrow> bool"
  conn_script :: "conn_ret list"
  accept_script :: "(int option \<times> fork_ret) list"
  ulong_size :: nat
  options :: kern

definition proto_name :: "opts \<Rightarrow> string" where
  "proto_name o1 = (if udp o1 then ''udp'' else ''tcp'')"

definition bind_sock :: "netw \<Rightarrow> int \<Rightarrow> byte list \<Rightarrow> 16 word \<Rightarrow> sock_st \<Rightarrow> sock_st attempt" where
  "bind_sock nw fd ip prt st =
     (if bind_ok nw fd ip prt then go (st\<lparr>bound := bound st @ [(fd, ip, prt)]\<rparr>)
      else quits ''bind() error'')"

fun connect_loop :: "conn_ret list \<Rightarrow> unit attempt" where
  "connect_loop [] = go ()"
| "connect_loop (Connects # cs) = go ()"
| "connect_loop (IsEintr # cs) = connect_loop cs"
| "connect_loop (IsEisconn # cs) = go ()"
| "connect_loop (ConnFails # cs) = quits ''connect() error''"

text \<open>The port: a number, or, where \<open>atoi\<close> yields 0, the name of a service. A service that is not
  there ends the client; the server only prints a message and reads \<open>sp->s_port\<close> all the same.\<close>

definition cli_port :: "netw \<Rightarrow> string \<Rightarrow> string \<Rightarrow> 16 word attempt" where
  "cli_port nw prt protocol =
     (if atoi prt = 0
      then (case getservbyname nw prt protocol of
              None \<Rightarrow> quits (''getservbyname() error for: '' @ prt @ ''/'' @ protocol)
            | Some s_port \<Rightarrow> go s_port)
      else go (word_of_int (atoi prt)))"

definition serv_port_of :: "netw \<Rightarrow> string \<Rightarrow> string \<Rightarrow> 16 word attempt" where
  "serv_port_of nw prt protocol =
     (if atoi prt = 0
      then (case getservbyname nw prt protocol of None \<Rightarrow> Undefined | Some s_port \<Rightarrow> go s_port)
      else go (word_of_int (atoi prt)))"

definition reuse_opts :: "netw \<Rightarrow> int \<Rightarrow> sock_st \<Rightarrow> sock_st attempt" where
  "reuse_opts nw fd st =
     in_order [only_if (reuseaddr (globals st)) (setsockopt (options nw) fd SO_REUSEADDR (Num 1)),
               only_if (reuseport (globals st)) (setsockopt (options nw) fd SO_REUSEPORT (Num 1))] st"

definition wildcard :: "byte list" where
  "wildcard = [0, 0, 0, 0]"

definition local_address :: "string \<Rightarrow> byte list attempt" where
  "local_address ip =
     (if ip = [] then go wildcard
      else case inet_aton ip of None \<Rightarrow> quits (''invalid IP address: '' @ ip) | Some a \<Rightarrow> go a)"

section \<open>cliopen\<close>

definition cli_bind :: "netw \<Rightarrow> int \<Rightarrow> sock_st \<Rightarrow> sock_st attempt" where
  "cli_bind nw fd st =
     (let o1 = globals st in
      if bindport o1 \<noteq> 0 \<or> localip o1 \<noteq> [] \<or> udp o1
      then attempt (local_address (localip o1)) (\<lambda>ip. bind_sock nw fd ip (word_of_int (bindport o1)) st)
      else go st)"

definition cli_connect :: "netw \<Rightarrow> int \<Rightarrow> sock_st \<Rightarrow> sock_st attempt" where
  "cli_connect nw fd st =
     (if \<not> udp (globals st) \<or> connectudp (globals st)
      then attempt (connect_loop (conn_script nw)) (\<lambda>_.
             go (st\<lparr>peers := peers st @ [(fd, serv_ip st, serv_port st)]\<rparr>))
      else go st)"

definition cliopen :: "netw \<Rightarrow> string \<Rightarrow> string \<Rightarrow> sock_st \<Rightarrow> (int \<times> sock_st) attempt" where
  "cliopen nw hst prt st =
     attempt (cli_port nw prt (proto_name (globals st))) (\<lambda>p.
     attempt (case lookup_hop (gethost nw) hst of
                None \<Rightarrow> quits (''invalid hostname: '' @ hst) | Some a \<Rightarrow> go a) (\<lambda>a.
     case new_socket nw (udp (globals st)) of
       None \<Rightarrow> quits ''socket() error''
     | Some fd \<Rightarrow>
         attempt (in_order [reuse_opts nw fd, cli_bind nw fd, buffers (options nw) fd,
                            sockopts (ulong_size nw) (options nw) fd False,
                            cli_connect nw fd,
                            sockopts (ulong_size nw) (options nw) fd True]
                    (st\<lparr>serv_ip := a, serv_port := p\<rparr>)) (\<lambda>st'.
         go (fd, st'))))"

section \<open>servopen\<close>

definition foreign_connect :: "netw \<Rightarrow> int \<Rightarrow> sock_st \<Rightarrow> sock_st attempt" where
  "foreign_connect nw fd st =
     (let o1 = globals st in
      if foreignip o1 = [] then go st
      else case inet_aton (foreignip o1) of
             None \<Rightarrow> quits (''invalid IP address: '' @ foreignip o1)
           | Some a \<Rightarrow>
               (case conn_script nw of
                  Connects # _ \<Rightarrow> go (st\<lparr>peers := peers st @ [(fd, a, word_of_int (foreignport o1))]\<rparr>)
                | [] \<Rightarrow> go (st\<lparr>peers := peers st @ [(fd, a, word_of_int (foreignport o1))]\<rparr>)
                | _ \<Rightarrow> quits ''connect() error''))"

text \<open>
  The loop around \<open>accept\<close>: the parent of a forking server closes the connected socket and goes
  on, a child or an iterative server returns it.
\<close>

fun accept_loop :: "netw \<Rightarrow> (int option \<times> fork_ret) list \<Rightarrow> sock_st \<Rightarrow> (int \<times> sock_st) attempt" where
  "accept_loop nw [] st = Hangs"
| "accept_loop nw ((None, f) # as) st = quits ''accept() error''"
| "accept_loop nw ((Some newfd, f) # as) st =
     (if dofork (globals st) \<and> f = ForkFails then quits ''fork error''
      else if dofork (globals st) \<and> f = InParent then accept_loop nw as st
      else attempt (in_order [buffers (options nw) newfd,
                              sockopts (ulong_size nw) (options nw) newfd True] st) (\<lambda>st'.
           go (newfd, st')))"

definition servopen :: "netw \<Rightarrow> string option \<Rightarrow> string \<Rightarrow> sock_st \<Rightarrow> (int \<times> sock_st) attempt" where
  "servopen nw hst prt st =
     attempt (case hst of
                None \<Rightarrow> go wildcard
              | Some h \<Rightarrow> (case inet_aton h of
                            None \<Rightarrow> quits (''invalid host name for server: '' @ h) | Some a \<Rightarrow> go a)) (\<lambda>a.
     attempt (serv_port_of nw prt (proto_name (globals st))) (\<lambda>p.
     case new_socket nw (udp (globals st)) of
       None \<Rightarrow> quits ''socket() error''
     | Some fd \<Rightarrow>
         attempt (in_order [reuse_opts nw fd, bind_sock nw fd a p, join_mcast (options nw) fd a]
                    (st\<lparr>serv_ip := a, serv_port := p\<rparr>)) (\<lambda>st1.
         if udp (globals st)
         then attempt (in_order [buffers (options nw) fd, foreign_connect nw fd,
                                 sockopts (ulong_size nw) (options nw) fd True] st1) (\<lambda>st2.
              go (fd, st2))
         else attempt (in_order [buffers (options nw) fd,
                                 sockopts (ulong_size nw) (options nw) fd False] st1) (\<lambda>st2.
              accept_loop nw (accept_script nw)
                (st2\<lparr>listening := listening st2 @ [(fd, listenq (globals st2))]\<rparr>)))))"

section \<open>main\<close>

datatype what_to_do = SourceUdp | SourceTcp | SinkUdp | SinkTcp | LoopUdp | LoopTcp

definition to_do :: "opts \<Rightarrow> what_to_do" where
  "to_do o1 =
     (if sourcesink o1 then
        (if client o1 then (if udp o1 then SourceUdp else SourceTcp)
         else (if udp o1 then SinkUdp else SinkTcp))
      else if udp o1 then LoopUdp else LoopTcp)"

definition open_sock :: "netw \<Rightarrow> string list \<Rightarrow> sock_st \<Rightarrow> (int \<times> sock_st) attempt" where
  "open_sock nw names st =
     (if client (globals st)
      then (case names of
              [hst, prt] \<Rightarrow> cliopen nw hst prt st
            | _ \<Rightarrow> usage ''missing <hostname> and/or <port>'')
      else (case names of
              [hst, prt] \<Rightarrow> servopen nw (Some hst) prt st
            | [prt] \<Rightarrow> servopen nw None prt st
            | _ \<Rightarrow> usage ''missing <port>''))"

definition sock_start :: "opts \<Rightarrow> sock_st" where
  "sock_start o1 =
     \<lparr>globals = o1, serv_ip = wildcard, serv_port = 0, set_log = [], bound = [], peers = [], listening = []\<rparr>"

definition sock_main ::
  "netw \<Rightarrow> (char \<times> string) list \<Rightarrow> string list \<Rightarrow> (what_to_do \<times> int \<times> sock_st) attempt" where
  "sock_main nw args names =
     (if args = [] \<and> names = [] then usage []
      else attempt (set_opts (ulong_size nw) (gethost nw) args default_opts) (\<lambda>o1.
           attempt (check_opts o1) (\<lambda>o2.
           attempt (open_sock nw names (sock_start o2)) (\<lambda>(fd, st).
           go (to_do (globals st), fd, st)))))"

section \<open>What the steps change\<close>

lemma adds_bind_sock: "adds u P (bind_sock nw fd ip prt)"
  by (rule adds_keepI) (auto simp: bind_sock_def split: if_splits)

lemma adds_cli_bind: "adds u P (cli_bind nw fd)"
  by (rule adds_keepI) (auto simp: cli_bind_def Let_def bind_sock_def split: if_splits)

lemma adds_cli_connect: "adds u P (cli_connect nw fd)"
  by (rule adds_keepI) (auto simp: cli_connect_def split: if_splits)

lemma adds_foreign_connect: "adds u P (foreign_connect nw fd)"
  by (rule adds_keepI)
    (auto simp: foreign_connect_def Let_def split: if_splits option.splits list.splits conn_ret.splits)

lemma adds_reuse_opts:
  "(\<And>v. P (fd, SO_REUSEADDR, v)) \<Longrightarrow> (\<And>v. P (fd, SO_REUSEPORT, v)) \<Longrightarrow> adds u P (reuse_opts nw fd)"
proof (rule addsI)
  fix st st' assume P: "\<And>v. P (fd, SO_REUSEADDR, v)" "\<And>v. P (fd, SO_REUSEPORT, v)"
    and u: "udp (globals st) = u" and s: "reuse_opts nw fd st = go st'"
  have all: "adds u P (in_order fs) \<Longrightarrow> in_order fs st = go st' \<Longrightarrow>
     \<exists>l cnt opt ptr. set_log st' = set_log st @ l \<and> (\<forall>e \<in> set l. P e)
       \<and> globals st' = globals st\<lparr>sroute_cnt := cnt, sroute_opt := opt, optr := ptr\<rparr>" for fs
    using u unfolding adds_def by meson
  show "\<exists>l cnt opt ptr. set_log st' = set_log st @ l \<and> (\<forall>e \<in> set l. P e)
       \<and> globals st' = globals st\<lparr>sroute_cnt := cnt, sroute_opt := opt, optr := ptr\<rparr>"
    by (rule all [OF _ s [unfolded reuse_opts_def]]) (intro adds_all P)
qed

lemmas adds_open = adds_in_order_Nil adds_in_order_Cons adds_bind_sock adds_cli_bind adds_cli_connect
  adds_foreign_connect

text \<open>The option an opened socket has, UDP or not as \<open>u\<close> says; a server's when \<open>srv\<close>.\<close>

definition fits :: "bool \<Rightarrow> bool \<Rightarrow> int \<times> sockopt \<times> optval \<Rightarrow> bool" where
  "fits u srv e =
     (case e of (fd, n, v) \<Rightarrow>
        (u \<longrightarrow> n \<notin> {TCP_MAXSEG, TCP_NODELAY, SO_KEEPALIVE, SO_LINGER})
      \<and> (u \<and> srv \<longrightarrow> n \<notin> {IP_TOS, IP_TTL})
      \<and> (n = IP_RECVDSTADDR \<longrightarrow> u))"

lemma adds_sockopts_fits:
  assumes "u \<and> srv \<longrightarrow> doall"
  shows "adds u (fits u srv) (sockopts ulong k fd doall)"
  by (rule adds_mono [OF adds_sockopts]) (use assms in \<open>auto simp: fits_def option_ok_def\<close>)

lemma adds_fits:
  "adds u (fits u srv) (reuse_opts nw fd)" "adds u (fits u srv) (buffers k fd)"
  "adds u (fits u srv) (join_mcast k fd a)"
  by (rule adds_reuse_opts adds_buffers adds_join_mcast; simp add: fits_def)+

text \<open>Opening a socket: what is true of its options afterwards, and of the globals.\<close>

definition opened :: "bool \<Rightarrow> sock_st \<Rightarrow> sock_st \<Rightarrow> bool" where
  "opened srv st st' \<longleftrightarrow>
     (\<forall>e \<in> set (set_log st'). e \<in> set (set_log st) \<or> fits (udp (globals st)) srv e)
   \<and> (\<exists>cnt opt ptr. globals st' = globals st\<lparr>sroute_cnt := cnt, sroute_opt := opt, optr := ptr\<rparr>)"

lemma opened_refl: "set_log st' = set_log st \<Longrightarrow> globals st' = globals st \<Longrightarrow> opened srv st st'"
  unfolding opened_def using same_globals [of "globals st"] by metis

lemma opened_trans: "opened srv st st1 \<Longrightarrow> opened srv st1 st' \<Longrightarrow> opened srv st st'"
proof -
  assume a: "opened srv st st1" "opened srv st1 st'"
  obtain c1 b1 p1 where g1: "globals st1 = globals st\<lparr>sroute_cnt := c1, sroute_opt := b1, optr := p1\<rparr>"
    using a(1) by (auto simp: opened_def)
  obtain c2 b2 p2 where g2: "globals st' = globals st1\<lparr>sroute_cnt := c2, sroute_opt := b2, optr := p2\<rparr>"
    using a(2) by (auto simp: opened_def)
  have u: "udp (globals st1) = udp (globals st)" using g1 by simp
  have "globals st' = globals st\<lparr>sroute_cnt := c2, sroute_opt := b2, optr := p2\<rparr>" using g1 g2 by simp
  then have "\<exists>c b p. globals st' = globals st\<lparr>sroute_cnt := c, sroute_opt := b, optr := p\<rparr>" by blast
  moreover have "\<forall>e \<in> set (set_log st'). e \<in> set (set_log st) \<or> fits (udp (globals st)) srv e"
    using a unfolding opened_def u by blast
  ultimately show ?thesis by (simp add: opened_def)
qed

lemma opened_adds:
  "in_order fs st = go st' \<Longrightarrow> adds (udp (globals st)) (fits (udp (globals st)) srv) (in_order fs) \<Longrightarrow>
     opened srv st st'"
proof -
  assume "in_order fs st = go st'" and "adds (udp (globals st)) (fits (udp (globals st)) srv) (in_order fs)"
  from addsE [OF this(2,1) refl] obtain l cnt opt ptr where "set_log st' = set_log st @ l"
    "\<forall>e \<in> set l. fits (udp (globals st)) srv e"
    "globals st' = globals st\<lparr>sroute_cnt := cnt, sroute_opt := opt, optr := ptr\<rparr>" by metis
  then show ?thesis unfolding opened_def by auto
qed

lemma cliopen_opened:
  assumes "cliopen nw hst prt st = go (fd, st')"
  shows "opened False st st'"
proof -
  obtain a p where i: "in_order [reuse_opts nw fd, cli_bind nw fd, buffers (options nw) fd,
       sockopts (ulong_size nw) (options nw) fd False, cli_connect nw fd,
       sockopts (ulong_size nw) (options nw) fd True] (st\<lparr>serv_ip := a, serv_port := p\<rparr>) = go st'"
    using assms unfolding cliopen_def attempt_go by (auto simp del: in_order.simps split: option.splits)
  have "opened False (st\<lparr>serv_ip := a, serv_port := p\<rparr>) st'"
    by (rule opened_adds [OF i]) (intro adds_open adds_fits adds_sockopts_fits; simp)
  moreover have "opened False st (st\<lparr>serv_ip := a, serv_port := p\<rparr>)" by (rule opened_refl) simp_all
  ultimately show ?thesis by (rule opened_trans [rotated])
qed

lemma accept_loop_opened:
  "accept_loop nw as st = go (fd, st') \<Longrightarrow> \<not> udp (globals st) \<Longrightarrow> opened True st st'"
proof (induction nw as st rule: accept_loop.induct)
  case (3 nw newfd f as st)
  show ?case
  proof (cases "dofork (globals st) \<and> f = InParent")
    case True
    then show ?thesis using 3 by simp
  next
    case False
    then have "in_order [buffers (options nw) newfd, sockopts (ulong_size nw) (options nw) newfd True] st = go st'"
      using "3.prems"(1) by (auto simp del: in_order.simps split: if_splits)
    then show ?thesis
      by (rule opened_adds) (intro adds_open adds_fits adds_sockopts_fits; simp)
  qed
qed simp_all

lemma servopen_opened:
  assumes "servopen nw hst prt st = go (fd, st')"
  shows "opened True st st'"
proof -
  obtain a p sfd st1 where
    1: "in_order [reuse_opts nw sfd, bind_sock nw sfd a p, join_mcast (options nw) sfd a]
          (st\<lparr>serv_ip := a, serv_port := p\<rparr>) = go st1"
    and 2: "(if udp (globals st)
         then attempt (in_order [buffers (options nw) sfd, foreign_connect nw sfd,
                                 sockopts (ulong_size nw) (options nw) sfd True] st1) (\<lambda>st2.
              go (sfd, st2))
         else attempt (in_order [buffers (options nw) sfd,
                                 sockopts (ulong_size nw) (options nw) sfd False] st1) (\<lambda>st2.
              accept_loop nw (accept_script nw)
                (st2\<lparr>listening := listening st2 @ [(sfd, listenq (globals st2))]\<rparr>))) = go (fd, st')"
    using assms unfolding servopen_def attempt_go by (auto simp del: in_order.simps split: option.splits)
  have o0: "opened True st (st\<lparr>serv_ip := a, serv_port := p\<rparr>)" by (rule opened_refl) simp_all
  have o1: "opened True (st\<lparr>serv_ip := a, serv_port := p\<rparr>) st1"
    by (rule opened_adds [OF 1]) (intro adds_open adds_fits)
  have u: "udp (globals st1) = udp (globals st)" using o1 by (auto simp: opened_def)
  have o2: "opened True st1 st'"
  proof (cases "udp (globals st)")
    case True
    then have "in_order [buffers (options nw) sfd, foreign_connect nw sfd,
       sockopts (ulong_size nw) (options nw) sfd True] st1 = go st'"
      using 2 by (auto simp del: in_order.simps)
    then show ?thesis
      by (rule opened_adds) (intro adds_open adds_fits adds_sockopts_fits; simp)
  next
    case False
    then obtain st2 where s2: "in_order [buffers (options nw) sfd,
       sockopts (ulong_size nw) (options nw) sfd False] st1 = go st2"
      and acc: "accept_loop nw (accept_script nw)
         (st2\<lparr>listening := listening st2 @ [(sfd, listenq (globals st2))]\<rparr>) = go (fd, st')"
      using 2 by (auto simp del: in_order.simps)
    have a: "opened True st1 st2"
      by (rule opened_adds [OF s2]) (intro adds_open adds_fits adds_sockopts_fits; use u False in simp)
    moreover have b: "opened True st2 (st2\<lparr>listening := listening st2 @ [(sfd, listenq (globals st2))]\<rparr>)"
      by (rule opened_refl) simp_all
    moreover have "udp (globals st2) = udp (globals st1)" using a by (auto simp: opened_def)
    then have "opened True (st2\<lparr>listening := listening st2 @ [(sfd, listenq (globals st2))]\<rparr>) st'"
      using acc u False by (intro accept_loop_opened [OF acc]) simp
    ultimately show ?thesis by (blast intro: opened_trans)
  qed
  from o0 o1 o2 show ?thesis by (blast intro: opened_trans)
qed

text \<open>
  C16: Whatever the options, names and answers of the kernel are, the socket \<open>main\<close> ends up with has
  no TCP option set on it when it is a UDP socket, and none of the UDP option when it is a TCP one;
  and the type of service and the time to live that \<open>-H\<close> and \<open>-J\<close> ask for are never set on a UDP
  server's socket, although the globals hold what was asked for.
\<close>

theorem options_fit_socket:
  assumes "sock_main nw args names = go (what, fd, st)"
  shows "(udp (globals st) \<longrightarrow> (\<forall>(f, n, v) \<in> set (set_log st).
            n \<notin> {TCP_MAXSEG, TCP_NODELAY, SO_KEEPALIVE, SO_LINGER}))
       \<and> (\<not> udp (globals st) \<longrightarrow> (\<forall>(f, n, v) \<in> set (set_log st). n \<noteq> IP_RECVDSTADDR))
       \<and> (udp (globals st) \<and> \<not> client (globals st) \<longrightarrow>
            (\<forall>(f, n, v) \<in> set (set_log st). n \<notin> {IP_TOS, IP_TTL}))"
proof -
  obtain o2 where o: "open_sock nw names (sock_start o2) = go (fd, st)"
    using assms by (auto simp: sock_main_def usage_def split: if_splits)
  have "opened (\<not> client o2) (sock_start o2) st"
  proof (cases "client o2")
    case True
    then show ?thesis using o cliopen_opened
      by (auto simp: open_sock_def sock_start_def usage_def split: list.splits)
  next
    case False
    then show ?thesis using o servopen_opened
      by (auto simp: open_sock_def sock_start_def usage_def split: list.splits)
  qed
  then have "\<forall>e \<in> set (set_log st). fits (udp o2) (\<not> client o2) e"
    and "udp (globals st) = udp o2" and "client (globals st) = client o2"
    by (auto simp: opened_def sock_start_def)
  then show ?thesis by (auto simp: fits_def)
qed

lemma adds_joinip:
  assumes "adds u P f" and "f st = go st'" and "udp (globals st) = u"
  shows "joinip (globals st') = joinip (globals st)"
  by (rule addsE [OF assms]) simp

text \<open>A kernel and a network for the witnesses: every call succeeds, but a group is joined once.\<close>

definition demo_kern :: kern where
  "demo_kern =
     \<lparr>takes = (\<lambda>log fd n v. n \<noteq> IP_ADD_MEMBERSHIP \<or> (fd, n, v) \<notin> set log),
      reads_back = (\<lambda>log fd n. map_option (\<lambda>(_, _, v). v) (find (\<lambda>(f, m, _). f = fd \<and> m = n) (rev log))),
      own_pid = 1\<rparr>"

definition demo_netw :: netw where
  "demo_netw =
     \<lparr>getservbyname = (\<lambda>_ _. None), gethost = (\<lambda>_. None), new_socket = (\<lambda>_. Some 3),
      bind_ok = (\<lambda>_ _ _. True), conn_script = [], accept_script = [], ulong_size = 8,
      options = demo_kern\<rparr>"

lemmas sock_run = sock_main_def set_opt_def set_small_opt_def set_other_opt_def check_opts_def open_sock_def sock_start_def servopen_def
  cliopen_def usage_def default_opts_def demo_netw_def demo_kern_def serv_port_of_def cli_port_def
  reuse_opts_def only_if_def bind_sock_def buffers_def sockopts_defs foreign_connect_def setsockopt_def
  to_do_def join_mcast_def join_on_def cli_bind_def local_address_def

theorem options_fit_socket_witness:
  "\<exists>st. sock_main demo_netw [(CHR ''u'', []), (CHR ''s'', []), (CHR ''J'', ''5''), (CHR ''D'', [])] [''9''] = quits ''can't specify -D and -u''
     \<and> sock_main demo_netw [(CHR ''u'', []), (CHR ''s'', []), (CHR ''J'', ''5'')] [''9''] = go (LoopUdp, 3, st)
     \<and> ipttl (globals st) = 5 \<and> (\<forall>(f, n, v) \<in> set (set_log st). n \<notin> {IP_TOS, IP_TTL})"
proof -
  have "\<not> IN_MULTICAST (load_le32 wildcard)"
    unfolding wildcard_def join_mcast_last_octet by simp
  moreover have "atoi ''5'' = 5" and "atoi ''9'' = 9" by code_simp+
  ultimately have "\<exists>st. sock_main demo_netw [(CHR ''u'', []), (CHR ''s'', []), (CHR ''J'', ''5'')] [''9'']
       = go (LoopUdp, 3, st) \<and> ipttl (globals st) = 5 \<and> udp (globals st) \<and> \<not> client (globals st)"
    by (simp add: sock_run)
  then obtain st where st: "sock_main demo_netw [(CHR ''u'', []), (CHR ''s'', []), (CHR ''J'', ''5'')] [''9'']
       = go (LoopUdp, 3, st)" "ipttl (globals st) = 5" "udp (globals st)" "\<not> client (globals st)" by blast
  moreover have "sock_main demo_netw [(CHR ''u'', []), (CHR ''s'', []), (CHR ''J'', ''5''), (CHR ''D'', [])] [''9'']
     = quits ''can't specify -D and -u''" by (simp add: sock_run)
  ultimately show ?thesis using options_fit_socket [OF st(1)] by blast
qed

section \<open>A client cannot join a group\<close>

text \<open>
  A socket joins a group on an interface once: a second \<open>IP_ADD_MEMBERSHIP\<close> of the same group
  fails (\<open>EADDRINUSE\<close>).
\<close>

definition joins_once :: "kern \<Rightarrow> bool" where
  "joins_once k \<longleftrightarrow> (\<forall>log fd v. (fd, IP_ADD_MEMBERSHIP, v) \<in> set log \<longrightarrow> \<not> takes k log fd IP_ADD_MEMBERSHIP v)"

text \<open>
  A client given \<open>-j\<close> never gets its socket: \<open>cliopen\<close> calls \<open>sockopts\<close> before and after
  \<open>connect\<close>, both calls join the group, and the kernel refuses the second one.
\<close>

theorem client_joins_twice:
  assumes k: "joins_once (options nw)" and j: "joinip (globals st) \<noteq> []"
  shows "cliopen nw hst prt st \<noteq> go (fd, st')"
proof
  assume "cliopen nw hst prt st = go (fd, st')"
  then obtain a p where i: "in_order [reuse_opts nw fd, cli_bind nw fd, buffers (options nw) fd,
       sockopts (ulong_size nw) (options nw) fd False, cli_connect nw fd,
       sockopts (ulong_size nw) (options nw) fd True] (st\<lparr>serv_ip := a, serv_port := p\<rparr>) = go st'"
    unfolding cliopen_def attempt_go by (auto simp del: in_order.simps split: option.splits)
  then obtain st1 st2 st3 where
    1: "in_order [reuse_opts nw fd, cli_bind nw fd, buffers (options nw) fd]
          (st\<lparr>serv_ip := a, serv_port := p\<rparr>) = go st1"
    and 2: "sockopts (ulong_size nw) (options nw) fd False st1 = go st2"
    and 3: "cli_connect nw fd st2 = go st3"
    and 4: "sockopts (ulong_size nw) (options nw) fd True st3 = go st'"
    by auto
  have "opened False (st\<lparr>serv_ip := a, serv_port := p\<rparr>) st1"
    by (rule opened_adds [OF 1]) (intro adds_open adds_fits)
  then have j1: "joinip (globals st1) = joinip (globals st)" by (auto simp: opened_def)
  have j2: "joinip (globals st2) = joinip (globals st1)" by (rule adds_joinip [OF adds_sockopts 2 refl])
  have j3: "joinip (globals st3) = joinip (globals st2)" by (rule adds_joinip [OF adds_cli_connect 3 refl])
  have l3: "set_log st3 = set_log st2" using 3 by (auto simp: cli_connect_def split: if_splits)
  obtain a1 where a1: "inet_aton (joinip (globals st1)) = Some a1"
    "(fd, IP_ADD_MEMBERSHIP, Bytes (a1 @ [0, 0, 0, 0])) \<in> set (set_log st2)"
    using sockopts_joins [OF 2] j j1 by metis
  obtain a2 log2 where a2: "inet_aton (joinip (globals st3)) = Some a2"
    "takes (options nw) log2 fd IP_ADD_MEMBERSHIP (Bytes (a2 @ [0, 0, 0, 0]))"
    "set (set_log st3) \<subseteq> set log2"
    using sockopts_joins [OF 4] j j1 j2 j3 by metis
  have "a2 = a1" using a1(1) a2(1) j2 j3 by simp
  then have "(fd, IP_ADD_MEMBERSHIP, Bytes (a2 @ [0, 0, 0, 0])) \<in> set log2"
    using a1(2) a2(3) l3 by auto
  with k a2(2) show False by (auto simp: joins_once_def)
qed

theorem client_joins_twice_witness:
  "joins_once demo_kern
   \<and> (\<forall>st0. cliopen demo_netw ''10.0.0.1'' ''9'' (sock_start (default_opts\<lparr>joinip := ''239.1.2.3''\<rparr>)) \<noteq> go (3, st0))
   \<and> cliopen demo_netw (quad_text [10, 0, 0, 1]) ''9'' (sock_start default_opts)
       = go (3, (sock_start default_opts)\<lparr>serv_ip := [10, 0, 0, 1], serv_port := 9,
                   peers := [(3, [10, 0, 0, 1], 9)]\<rparr>)"
proof -
  have k: "joins_once demo_kern" by (simp add: joins_once_def demo_kern_def)
  have "cliopen demo_netw ''10.0.0.1'' ''9'' (sock_start (default_opts\<lparr>joinip := ''239.1.2.3''\<rparr>)) \<noteq> go (3, st0)" for st0
    by (rule client_joins_twice) (simp_all add: k demo_netw_def sock_start_def)
  moreover have "atoi ''9'' = 9" by code_simp
  then have "cliopen demo_netw (quad_text [10, 0, 0, 1]) ''9'' (sock_start default_opts)
       = go (3, (sock_start default_opts)\<lparr>serv_ip := [10, 0, 0, 1], serv_port := 9,
                   peers := [(3, [10, 0, 0, 1], 9)]\<rparr>)"
    by (simp add: sock_run cli_connect_def)
  ultimately show ?thesis using k by blast
qed

end
