(* ===== verification/SockCopy.thy ===== *)
theory SockCopy
  imports SockOpts StreamIO "HOL-Library.Sublist"
begin

text \<open>
  What the \<open>sock\<close> program does with its socket: the line-end conversions
  (\<^verbatim>\<open>unpv13e/sock/crlf.c\<close>), writing in chunks (\<^verbatim>\<open>unpv13e/sock/write.c\<close>), the two loops that copy
  between the terminal and the socket (\<^verbatim>\<open>unpv13e/sock/looptcp.c\<close>, \<^verbatim>\<open>unpv13e/sock/loopudp.c\<close>), and
  the sources and sinks of data (\<^verbatim>\<open>unpv13e/sock/pattern.c\<close>, \<^verbatim>\<open>sourcetcp.c\<close>, \<^verbatim>\<open>sourceudp.c\<close>,
  \<^verbatim>\<open>sinktcp.c\<close>, \<^verbatim>\<open>sinkudp.c\<close>). Pauses, and what \<open>-v\<close> prints on the standard error, are not
  modelled; the options are the record of \<open>SockOpts\<close>.
\<close>

abbreviation cr :: char where
  "cr \<equiv> CHR 0x0D"

section \<open>Line ends\<close>

text \<open>Both functions return the length and what is in \<open>dst\<close>; \<open>None\<close> is \<open>err_quit\<close>.\<close>

fun crlf_add_loop :: "nat \<Rightarrow> nat \<Rightarrow> string \<Rightarrow> string \<Rightarrow> (nat \<times> string) option" where
  "crlf_add_loop dstsize lenout [] dst = Some (lenout, dst)"
| "crlf_add_loop dstsize lenout (c # src) dst =
     (if c = nl then
        (if lenout + 1 \<ge> dstsize then None
         else crlf_add_loop dstsize (lenout + 1) src (dst @ [cr, c]))
      else crlf_add_loop dstsize lenout src (dst @ [c]))"

definition crlf_add :: "nat \<Rightarrow> string \<Rightarrow> (nat \<times> string) option" where
  "crlf_add dstsize src =
     (if length src > dstsize then None else crlf_add_loop dstsize (length src) src [])"

fun crlf_strip_loop :: "nat \<Rightarrow> nat \<Rightarrow> string \<Rightarrow> string \<Rightarrow> (nat \<times> string) option" where
  "crlf_strip_loop dstsize lenout [] dst = Some (lenout, dst)"
| "crlf_strip_loop dstsize lenout (c # src) dst =
     (if c \<noteq> cr then
        (if lenout + 1 \<ge> dstsize then None
         else crlf_strip_loop dstsize (lenout + 1) src (dst @ [c]))
      else crlf_strip_loop dstsize lenout src dst)"

definition crlf_strip :: "nat \<Rightarrow> string \<Rightarrow> (nat \<times> string) option" where
  "crlf_strip dstsize src = crlf_strip_loop dstsize 0 src []"

section \<open>Writing in chunks\<close>

text \<open>One \<open>write\<close> (or \<open>writev\<close>): its result, what went out, and the rest of the script.\<close>

fun sys_write :: "wevent list \<Rightarrow> string \<Rightarrow> int \<times> string \<times> wevent list" where
  "sys_write [] buf = (int (length buf), buf, [])"
| "sys_write (Accept m # ws) buf = (int (min m (length buf)), take m buf, ws)"
| "sys_write (WInterrupt # ws) buf = (-1, [], ws)"
| "sys_write (WFailure # ws) buf = (-1, [], ws)"

definition UIO_MAXIOV :: nat where
  "UIO_MAXIOV = 16"

definition chunk_size :: "nat \<Rightarrow> nat" where
  "chunk_size nbytes =
     (let chunksize = nbytes div UIO_MAXIOV in
      if chunksize = 0 then 1 else if nbytes mod UIO_MAXIOV \<noteq> 0 then chunksize + 1 else chunksize)"

text \<open>The loop that fills \<open>iov\<close>; \<open>None\<close> is the \<open>err_quit\<close> behind it.\<close>

fun fill_iov :: "nat \<Rightarrow> nat \<Rightarrow> string \<Rightarrow> string list option" where
  "fill_iov chunksize 0 ptr = None"
| "fill_iov chunksize (Suc k) ptr =
     (let n = min chunksize (length ptr) in
      if length ptr - n = 0 then Some [take n ptr]
      else map_option (\<lambda>iov. take n ptr # iov) (fill_iov chunksize k (drop n ptr)))"

fun write_iov :: "wevent list \<Rightarrow> string list \<Rightarrow> nat \<Rightarrow> string \<Rightarrow> int \<times> string \<times> wevent list" where
  "write_iov ws [] ntotal out = (int ntotal, out, ws)"
| "write_iov ws (b # iov) ntotal out =
     (case sys_write ws b of (nwritten, o1, ws') \<Rightarrow>
        if nwritten \<noteq> int (length b) then (-1, out @ o1, ws')
        else write_iov ws' iov (ntotal + length b) (out @ o1))"

definition dowrite :: "opts \<Rightarrow> wevent list \<Rightarrow> string \<Rightarrow> (int \<times> string \<times> wevent list) option" where
  "dowrite o1 ws buf =
     (if \<not> chunkwrite o1 \<and> \<not> usewritev o1 then Some (sys_write ws buf)
      else map_option (\<lambda>iov. if usewritev o1 then sys_write ws (concat iov) else write_iov ws iov 0 [])
             (fill_iov (chunk_size (length buf)) UIO_MAXIOV buf))"

section \<open>The pattern\<close>

definition isprint :: "byte \<Rightarrow> bool" where
  "isprint c \<longleftrightarrow> 0x20 \<le> unat c \<and> unat c \<le> 0x7E"

text \<open>\<open>c\<close> is a \<open>char\<close>, eight bits that wrap; the mask takes off the sign.\<close>

lemma unat_and_7F: "unat (and c 0x7F :: byte) = unat c mod 128"
proof -
  have "(0x7F :: byte) = mask 7" by (simp add: mask_eq_exp_minus_1)
  then have "and c 0x7F = take_bit 7 c" by (simp add: take_bit_eq_mask)
  then have "unat (and c 0x7F) = take_bit 7 (unat c)" by (simp only: unsigned_take_bit_eq)
  then show ?thesis by (simp add: take_bit_eq_mod)
qed

lemma unat_next_mod: "unat (c + 1 :: byte) mod 128 = (unat c mod 128 + 1) mod 128"
proof -
  have "unat (c + 1) = (unat c + 1) mod 256" by (simp add: unat_word_ariths)
  then have "unat (c + 1) mod 128 = (unat c + 1) mod 128" by (simp add: mod_mod_cancel)
  then show ?thesis by (simp add: mod_simps)
qed

function skip_nonprinting :: "byte \<Rightarrow> byte" where
  "skip_nonprinting c = (if isprint (and c 0x7F) then c else skip_nonprinting (c + 1))"
  by pat_completeness auto
termination
proof (relation "measure (\<lambda>c. (160 - unat c mod 128) mod 128)", simp)
  fix c :: byte assume "\<not> isprint (and c 0x7F)"
  then have m: "unat c mod 128 < 32 \<or> unat c mod 128 = 127"
    using mod_less_divisor [of 128 "unat c"] by (simp add: isprint_def unat_and_7F) linarith
  have "(160 - (unat c mod 128 + 1) mod 128) mod 128 < (160 - unat c mod 128) mod (128::nat)"
  proof (cases "unat c mod 128 = 127")
    case False
    with m have m': "unat c mod 128 < 32" by simp
    define d where "d = 32 - unat c mod 128"
    have d: "160 - unat c mod 128 = 128 + d" "0 < d" "d \<le> 32" using m' by (auto simp: d_def)
    have "(unat c mod 128 + 1) mod 128 = unat c mod 128 + 1" using m' by (intro mod_less) linarith
    then have "160 - (unat c mod 128 + 1) mod 128 = 128 + (d - 1)" using d by linarith
    moreover have "(128 + (d - 1)) mod 128 = (d - 1) mod 128" by (rule mod_add_self1)
    moreover have "(d - 1) mod 128 = d - 1" and "(128 + d) mod 128 = d" using d by simp_all
    ultimately show ?thesis by (simp only: d(1)) (use d(2) in simp)
  qed simp
  then show "(c + 1, c) \<in> measure (\<lambda>c. (160 - unat c mod 128) mod 128)"
    by (simp add: unat_next_mod)
qed

declare skip_nonprinting.simps [simp del]

fun pattern_loop :: "nat \<Rightarrow> byte \<Rightarrow> byte list" where
  "pattern_loop 0 c = []"
| "pattern_loop (Suc len) c =
     (let c' = skip_nonprinting c in and c' 0x7F # pattern_loop len (c' + 1))"

definition pattern :: "nat \<Rightarrow> byte list" where
  "pattern len = pattern_loop len 0"

section \<open>The TCP loop\<close>

text \<open>
  One turn of the loop: whether \<open>select\<close> succeeds; the standard input when it is readable, with
  what \<open>read\<close> delivers (\<open>Some None\<close> is an error, no data its end); whether \<open>shutdown\<close> succeeds;
  the writes to the socket; the socket when it is readable, with what \<open>recv\<close> delivers and what the
  second \<open>recv\<close> delivers that follows one with \<open>MSG_PEEK\<close>; the writes to the standard output.
\<close>

record tcp_ev =
  select_ok :: bool
  on_stdin :: "string option option"
  shut_ok :: bool
  w_script :: "wevent list"
  on_sock :: "string option option"
  again :: "string option"
  out1 :: "wevent list"
  out2 :: "wevent list"

text \<open>
  The loop's state: the flag \<open>stdineof\<close>, what went to the socket and to the standard output, and,
  for the theorems, all that \<open>read\<close> and \<open>recv\<close> delivered.
\<close>

record tcp_loop =
  stdineof :: bool
  sent :: string
  shown :: string
  typed :: string
  heard :: string

datatype 's fate = Going 's | Closes 's | Dies 's | Runs_wild

fun bind_fate :: "'s fate \<Rightarrow> ('s \<Rightarrow> 's fate) \<Rightarrow> 's fate" where
  "bind_fate (Going s) f = f s"
| "bind_fate (Closes s) f = Closes s"
| "bind_fate (Dies s) f = Dies s"
| "bind_fate Runs_wild f = Runs_wild"

definition outgoing :: "opts \<Rightarrow> string \<Rightarrow> string option" where
  "outgoing o1 rbuf =
     (if crlf o1 then map_option (\<lambda>(ntowrite, wbuf). take ntowrite wbuf) (crlf_add (nat (writelen o1)) rbuf)
      else Some rbuf)"

definition incoming :: "opts \<Rightarrow> string \<Rightarrow> string option" where
  "incoming o1 rbuf =
     (if crlf o1 then map_option (\<lambda>(ntowrite, wbuf). take ntowrite wbuf) (crlf_strip (nat (writelen o1)) rbuf)
      else Some rbuf)"

definition to_socket :: "opts \<Rightarrow> wevent list \<Rightarrow> string \<Rightarrow> tcp_loop \<Rightarrow> tcp_loop fate" where
  "to_socket o1 ws rbuf s =
     (let s1 = s\<lparr>typed := typed s @ rbuf\<rparr> in
      case outgoing o1 rbuf of
        None \<Rightarrow> Dies s1
      | Some buf \<Rightarrow>
          (case dowrite o1 ws buf of
             None \<Rightarrow> Dies s1
           | Some (n, out, _) \<Rightarrow>
               let s2 = s1\<lparr>sent := sent s1 @ out\<rparr> in
               if n \<noteq> int (length buf) then Dies s2 else Going s2))"

definition to_stdout :: "opts \<Rightarrow> wevent list \<Rightarrow> string \<Rightarrow> tcp_loop \<Rightarrow> tcp_loop fate" where
  "to_stdout o1 ws rbuf s =
     (let s1 = s\<lparr>heard := heard s @ rbuf\<rparr> in
      case incoming o1 rbuf of
        None \<Rightarrow> Dies s1
      | Some buf \<Rightarrow>
          (case writen ws buf of
             (n, out) \<Rightarrow>
               let s2 = s1\<lparr>shown := shown s1 @ out\<rparr> in
               if n \<noteq> int (length buf) then Dies s2 else Going s2))"

definition recv_part :: "opts \<Rightarrow> wevent list \<Rightarrow> string option \<Rightarrow> tcp_loop \<Rightarrow> tcp_loop fate" where
  "recv_part o1 ws r s =
     (case r of
        None \<Rightarrow> Dies s
      | Some rbuf \<Rightarrow> if rbuf = [] then Closes s else to_stdout o1 ws rbuf s)"

definition sock_part :: "opts \<Rightarrow> tcp_ev \<Rightarrow> tcp_loop \<Rightarrow> tcp_loop fate" where
  "sock_part o1 ev s =
     (case on_sock ev of
        None \<Rightarrow> Going s
      | Some r \<Rightarrow>
          bind_fate (recv_part o1 (out1 ev) r s) (\<lambda>s1.
            if msgpeek o1 then recv_part o1 (out2 ev) (again ev) s1 else Going s1))"

definition tcp_round :: "opts \<Rightarrow> tcp_ev \<Rightarrow> tcp_loop \<Rightarrow> tcp_loop fate" where
  "tcp_round o1 ev s =
     (if \<not> select_ok ev then Dies s
      else if stdineof s then sock_part o1 ev s
      else case on_stdin ev of
          None \<Rightarrow> sock_part o1 ev s
        | Some None \<Rightarrow> Dies s
        | Some (Some rbuf) \<Rightarrow>
            if rbuf = [] then
              (if halfclose o1
               then (if shut_ok ev then Going (s\<lparr>stdineof := True\<rparr>) else Dies s)
               else Closes s)
            else bind_fate (to_socket o1 (w_script ev) rbuf s) (sock_part o1 ev))"

fun loop_tcp :: "opts \<Rightarrow> tcp_ev list \<Rightarrow> tcp_loop \<Rightarrow> tcp_loop fate" where
  "loop_tcp o1 [] s = Going s"
| "loop_tcp o1 (ev # evs) s = bind_fate (tcp_round o1 ev s) (loop_tcp o1 evs)"

definition tcp_start :: tcp_loop where
  "tcp_start = \<lparr>stdineof = False, sent = [], shown = [], typed = [], heard = []\<rparr>"

section \<open>The UDP loop\<close>

text \<open>
  One turn: the datagram is given whole, with its sender; \<open>to_addr\<close> is the destination address the
  control data delivers (\<open>None\<close>: not the control data the code expects). The loop has a variable
  \<open>servaddr\<close> of its own, which hides the global one that \<open>cliopen\<close> fills in: \<open>None\<close> is its content
  before the first datagram is received into it. \<open>printed\<close> is what goes through \<open>printf\<close>.
\<close>

type_synonym sin = "byte list \<times> 16 word"

record udp_ev =
  u_select_ok :: bool
  u_stdin :: "string option option"
  u_shut_ok :: bool
  u_send_ok :: bool
  u_sock :: "(string \<times> sin) option option"
  u_again :: "string option"
  to_addr :: "byte list option"
  u_out1 :: "wevent list"
  u_out2 :: "wevent list"

record udp_loop =
  u_stdineof :: bool
  servaddr :: "sin option"
  usent :: "(sin option \<times> string) list"
  ushown :: string
  printed :: string

definition udp_start :: udp_loop where
  "udp_start = \<lparr>u_stdineof = False, servaddr = None, usent = [], ushown = [], printed = []\<rparr>"

definition udp_send :: "opts \<Rightarrow> bool \<Rightarrow> string \<Rightarrow> udp_loop \<Rightarrow> udp_loop fate" where
  "udp_send o1 ok rbuf s =
     (case outgoing o1 rbuf of
        None \<Rightarrow> Dies s
      | Some buf \<Rightarrow>
          if connectudp o1
          then (if ok then Going (s\<lparr>usent := usent s @ [(None, buf)]\<rparr>) else Dies s)
          else (case servaddr s of
                  None \<Rightarrow> Runs_wild
                | Some a \<Rightarrow> if ok then Going (s\<lparr>usent := usent s @ [(Some a, buf)]\<rparr>) else Dies s))"

definition udp_show :: "opts \<Rightarrow> wevent list \<Rightarrow> string \<Rightarrow> udp_loop \<Rightarrow> udp_loop fate" where
  "udp_show o1 ws rbuf s =
     (case incoming o1 rbuf of
        None \<Rightarrow> Dies s
      | Some buf \<Rightarrow>
          (case writen ws buf of
             (n, out) \<Rightarrow>
               let s1 = s\<lparr>ushown := ushown s @ out\<rparr> in
               if n \<noteq> int (length buf) then Dies s1 else Going s1))"

definition from_text :: "sin \<Rightarrow> string" where
  "from_text a = ''from '' @ quad_text (fst a)"

text \<open>The server: \<open>recvmsg\<close>, with the flag \<open>MSG_TRUNC\<close> when the datagram is longer than \<open>readlen\<close>.\<close>

definition print_peer :: "opts \<Rightarrow> sin \<Rightarrow> byte list option \<Rightarrow> udp_loop \<Rightarrow> udp_loop fate" where
  "print_peer o1 a dst s =
     (if verbose o1 = 0 then Going s
      else if \<not> recvdstaddr o1 then Going (s\<lparr>printed := printed s @ from_text a @ '': ''\<rparr>)
      else case dst of
             None \<Rightarrow> Dies (s\<lparr>printed := printed s @ from_text a\<rparr>)
           | Some d \<Rightarrow> Going (s\<lparr>printed := printed s @ from_text a @ '', to '' @ quad_text d @ '': ''\<rparr>))"

definition server_part :: "opts \<Rightarrow> udp_ev \<Rightarrow> string \<Rightarrow> sin \<Rightarrow> udp_loop \<Rightarrow> udp_loop fate" where
  "server_part o1 ev d a s =
     (let n = nat (readlen o1) in
      bind_fate (print_peer o1 a (to_addr ev) s) (\<lambda>s1.
        let s2 = (if length d > n
                  then s1\<lparr>printed := printed s1 @ ''(datagram truncated)'' @ [nl]\<rparr> else s1)
        in udp_show o1 (u_out1 ev) (take n d) s2))"

text \<open>A connected client: an empty datagram ends the loop; after a peek comes a second \<open>recv\<close>.\<close>

definition recv_udp :: "opts \<Rightarrow> wevent list \<Rightarrow> string option \<Rightarrow> udp_loop \<Rightarrow> udp_loop fate" where
  "recv_udp o1 ws r s =
     (case r of
        None \<Rightarrow> Dies s
      | Some d \<Rightarrow> if d = [] then Closes s else udp_show o1 ws (take (nat (readlen o1)) d) s)"

definition connected_part :: "opts \<Rightarrow> udp_ev \<Rightarrow> string \<Rightarrow> udp_loop \<Rightarrow> udp_loop fate" where
  "connected_part o1 ev d s =
     bind_fate (recv_udp o1 (u_out1 ev) (Some d) s) (\<lambda>s1.
       if msgpeek o1 then recv_udp o1 (u_out2 ev) (u_again ev) s1 else Going s1)"

definition unconnected_part :: "opts \<Rightarrow> udp_ev \<Rightarrow> string \<Rightarrow> sin \<Rightarrow> udp_loop \<Rightarrow> udp_loop fate" where
  "unconnected_part o1 ev d a s =
     (let s1 = s\<lparr>servaddr := Some a\<rparr>;
          s2 = (if verbose o1 \<noteq> 0 then s1\<lparr>printed := printed s1 @ from_text a @ '': ''\<rparr> else s1)
      in udp_show o1 (u_out1 ev) (take (nat (readlen o1)) d) s2)"

definition udp_sock_part :: "opts \<Rightarrow> udp_ev \<Rightarrow> udp_loop \<Rightarrow> udp_loop fate" where
  "udp_sock_part o1 ev s =
     (case u_sock ev of
        None \<Rightarrow> Going s
      | Some None \<Rightarrow> Dies s
      | Some (Some (d, a)) \<Rightarrow>
          if server o1 then server_part o1 ev d a s
          else if connectudp o1 then connected_part o1 ev d s
          else unconnected_part o1 ev d a s)"

definition udp_round :: "opts \<Rightarrow> udp_ev \<Rightarrow> udp_loop \<Rightarrow> udp_loop fate" where
  "udp_round o1 ev s =
     (if \<not> u_select_ok ev then Dies s
      else if u_stdineof s then udp_sock_part o1 ev s
      else case u_stdin ev of
          None \<Rightarrow> udp_sock_part o1 ev s
        | Some None \<Rightarrow> Dies s
        | Some (Some rbuf) \<Rightarrow>
            if rbuf = [] then
              (if halfclose o1
               then (if u_shut_ok ev then Going (s\<lparr>u_stdineof := True\<rparr>) else Dies s)
               else Closes s)
            else bind_fate (udp_send o1 (u_send_ok ev) rbuf s) (udp_sock_part o1 ev))"

fun loop_udp :: "opts \<Rightarrow> udp_ev list \<Rightarrow> udp_loop \<Rightarrow> udp_loop fate" where
  "loop_udp o1 [] s = Going s"
| "loop_udp o1 (ev # evs) s = bind_fate (udp_round o1 ev s) (loop_udp o1 evs)"

section \<open>Sources\<close>

text \<open>
  What a source does: the urgent byte, and the writes with what they took of the buffer. In the
  script stand, for each turn, the result of \<open>send\<close> of the urgent byte, that of \<open>write\<close> or \<open>sendto\<close>,
  and whether \<open>getsockopt\<close> succeeds.
\<close>

datatype item = Urgent byte | Written "byte list" | SentTo "byte list" "byte list"

type_synonym turns = "(int \<times> int \<times> bool) list"

definition wrong_write :: "opts \<Rightarrow> bool \<Rightarrow> bool" where
  "wrong_write o1 so_ok \<longleftrightarrow> ignorewerr o1 \<and> so_ok"

fun source_tcp_loop :: "opts \<Rightarrow> byte list \<Rightarrow> int \<Rightarrow> turns \<Rightarrow> item list \<Rightarrow> item list fate" where
  "source_tcp_loop o1 wbuf i [] out = (if i \<le> bufs o1 then Going out else Closes out)"
| "source_tcp_loop o1 wbuf i ((oob, n, so_ok) # evs) out =
     (if i \<le> bufs o1 then
        if urgwrite o1 = i \<and> oob \<noteq> 1 then Dies out
        else let out1 = (if urgwrite o1 = i then out @ [Urgent (word_of_int (urgwrite o1))] else out);
                 out2 = out1 @ [Written (take (nat n) wbuf)]
             in if n \<noteq> writelen o1 \<and> \<not> wrong_write o1 so_ok then Dies out2
                else source_tcp_loop o1 wbuf (i + 1) evs out2
      else Closes out)"

definition source_tcp :: "opts \<Rightarrow> turns \<Rightarrow> item list fate" where
  "source_tcp o1 evs = source_tcp_loop o1 (pattern (nat (writelen o1))) 1 evs []"

text \<open>The UDP source sends to the global \<open>servaddr\<close> when the socket is not connected.\<close>

fun source_udp_loop :: "opts \<Rightarrow> byte list \<Rightarrow> byte list \<Rightarrow> int \<Rightarrow> turns \<Rightarrow> item list \<Rightarrow> item list fate" where
  "source_udp_loop o1 dest wbuf i [] out = (if i \<le> bufs o1 then Going out else Closes out)"
| "source_udp_loop o1 dest wbuf i ((oob, n, so_ok) # evs) out =
     (if i \<le> bufs o1 then
        let out2 = out @ [if connectudp o1 then Written (take (nat n) wbuf)
                          else SentTo dest (take (nat n) wbuf)]
        in if n \<noteq> writelen o1 \<and> \<not> wrong_write o1 so_ok then Dies out2
           else source_udp_loop o1 dest wbuf (i + 1) evs out2
      else Closes out)"

definition source_udp :: "opts \<Rightarrow> byte list \<Rightarrow> turns \<Rightarrow> item list fate" where
  "source_udp o1 dest evs = source_udp_loop o1 dest (pattern (nat (writelen o1))) 1 evs []"

section \<open>Sinks\<close>

text \<open>What the calls of \<open>recv\<close> deliver; a sink keeps nothing but, with \<open>-v\<close>, prints the sizes.\<close>

fun sink_tcp :: "bool \<Rightarrow> bool \<Rightarrow> string option list \<Rightarrow> (nat \<times> bool) list \<Rightarrow> (nat \<times> bool) list fate" where
  "sink_tcp msgpeek1 peeking [] sizes = Going sizes"
| "sink_tcp msgpeek1 peeking (None # rs) sizes = Dies sizes"
| "sink_tcp msgpeek1 peeking (Some d # rs) sizes =
     (if d = [] then Closes sizes
      else sink_tcp msgpeek1 (if peeking then False else msgpeek1) rs (sizes @ [(length d, peeking)]))"

text \<open>
  \<open>sink_udp\<close> prints the datagram when \<open>-v\<close> is given twice: it stores a NUL at \<open>rbuf[n]\<close>, reads two
  \<open>long\<close>s at offsets 0 and 32, and a string from offset 8. \<open>rbuf\<close> is an array of \<open>readlen\<close> characters.
\<close>

definition dump :: "string \<Rightarrow> string \<Rightarrow> string outcome" where
  "dump rbuf d =
     (let n = length d in
      if n < length rbuf then
        let rbuf' = d @ nul # drop (n + 1) rbuf in
        if 40 \<le> length rbuf \<and> nul \<in> set (drop 8 rbuf') then Ok rbuf' else Undefined
      else Undefined)"

fun sink_udp :: "opts \<Rightarrow> bool \<Rightarrow> string \<Rightarrow> string option list \<Rightarrow> nat list \<Rightarrow> nat list fate" where
  "sink_udp o1 peeking rbuf [] sizes = Going sizes"
| "sink_udp o1 peeking rbuf (None # rs) sizes = Dies sizes"
| "sink_udp o1 peeking rbuf (Some d # rs) sizes =
     (let got = take (length rbuf) d in
      if got = [] then Closes sizes
      else case (if verbose o1 > 1 then dump rbuf got
                 else Ok (got @ drop (length got) rbuf)) of
          Ok rbuf' \<Rightarrow> sink_udp o1 (if peeking then False else msgpeek o1) rbuf' rs (sizes @ [length got])
        | _ \<Rightarrow> Runs_wild)"

section \<open>The conversions of line ends\<close>

definition add_cr :: "string \<Rightarrow> string" where
  "add_cr src = concat (map (\<lambda>c. if c = nl then [cr, nl] else [c]) src)"

definition strip_cr :: "string \<Rightarrow> string" where
  "strip_cr src = filter (\<lambda>c. c \<noteq> cr) src"

lemma add_cr_simps [simp]:
  "add_cr [] = []" "add_cr (c # s) = (if c = nl then [cr, nl] else [c]) @ add_cr s"
  "add_cr (s @ t) = add_cr s @ add_cr t"
  by (simp_all add: add_cr_def)

lemma strip_cr_simps [simp]:
  "strip_cr [] = []" "strip_cr (c # s) = (if c = cr then strip_cr s else c # strip_cr s)"
  "strip_cr (s @ t) = strip_cr s @ strip_cr t"
  by (simp_all add: strip_cr_def)

lemma strip_add_cr [simp]: "strip_cr (add_cr s) = strip_cr s"
  by (induction s) auto

lemma strip_cr_id: "cr \<notin> set s \<Longrightarrow> strip_cr s = s"
  by (induction s) auto

lemma length_add_cr_ge: "length s \<le> length (add_cr s)"
  by (induction s) auto

lemma length_add_cr_le: "length (add_cr s) \<le> 2 * length s"
  by (induction s) auto

lemma length_add_cr_eq: "nl \<notin> set s \<Longrightarrow> add_cr s = s"
  by (induction s) auto

lemma crlf_add_loop_spec:
  "lenout = length dst + length src \<Longrightarrow>
     crlf_add_loop dstsize lenout src dst =
       (if nl \<notin> set src \<or> length dst + length (add_cr src) < dstsize
        then Some (length dst + length (add_cr src), dst @ add_cr src) else None)"
proof (induction dstsize lenout src dst rule: crlf_add_loop.induct)
  case (2 dstsize lenout c src dst)
  show ?case
  proof (cases "c = nl")
    case True
    have ge: "length src \<le> length (add_cr src)" by (rule length_add_cr_ge)
    show ?thesis
    proof (cases "lenout + 1 \<ge> dstsize")
      case True
      then have "\<not> length dst + length (add_cr (c # src)) < dstsize" using "2.prems" \<open>c = nl\<close> ge by simp
      then show ?thesis using True \<open>c = nl\<close> by simp
    next
      case False
      have "nl \<notin> set src \<Longrightarrow> length dst + length (add_cr (c # src)) < dstsize"
        using False "2.prems" \<open>c = nl\<close> by (simp add: length_add_cr_eq)
      then show ?thesis using "2.IH"(1) False \<open>c = nl\<close> "2.prems" by auto
    qed
  next
    case False
    then show ?thesis using "2.IH"(2) "2.prems" by simp
  qed
qed simp

lemma crlf_add_spec:
  "crlf_add dstsize src =
     (if length (add_cr src) < dstsize \<or> (nl \<notin> set src \<and> length src \<le> dstsize)
      then Some (length (add_cr src), add_cr src) else None)"
proof -
  have "length (add_cr src) < dstsize \<Longrightarrow> length src \<le> dstsize"
    using length_add_cr_ge [of src] by linarith
  then show ?thesis
    using crlf_add_loop_spec [of "length src" "[]" src dstsize] by (auto simp: crlf_add_def)
qed

lemma crlf_strip_loop_spec:
  "lenout = length dst \<Longrightarrow>
     crlf_strip_loop dstsize lenout src dst =
       (if strip_cr src = [] \<or> length dst + length (strip_cr src) < dstsize
        then Some (length dst + length (strip_cr src), dst @ strip_cr src) else None)"
proof (induction dstsize lenout src dst rule: crlf_strip_loop.induct)
  case (2 dstsize lenout c src dst)
  then show ?case by (cases "c = cr") auto
qed simp

lemma crlf_strip_spec:
  "crlf_strip dstsize src =
     (if strip_cr src = [] \<or> length (strip_cr src) < dstsize
      then Some (length (strip_cr src), strip_cr src) else None)"
  using crlf_strip_loop_spec [of 0 "[]" dstsize src] by (simp add: crlf_strip_def)

text \<open>
  C18: The conversions are exact and inverse to each other on text without carriage returns, and
  both refuse text that would fill their buffer exactly: \<open>crlf_add\<close> delivers the text with a
  carriage return before every newline when the result is shorter than the buffer (or has no
  newline and just fits), and exits otherwise; what it delivers, \<open>crlf_strip\<close> turns back into the
  text when that is shorter than its buffer, and exits otherwise.
\<close>

theorem crlf_roundtrip:
  assumes "cr \<notin> set src"
  shows "crlf_add dstsize src =
           (if length (add_cr src) < dstsize \<or> (nl \<notin> set src \<and> length src \<le> dstsize)
            then Some (length (add_cr src), add_cr src) else None)
       \<and> crlf_strip dstsize' (add_cr src) =
           (if src = [] \<or> length src < dstsize' then Some (length src, src) else None)"
  using assms by (simp_all add: crlf_add_spec crlf_strip_spec strip_cr_id)

theorem crlf_roundtrip_witness:
  "crlf_add 10 [nl] = Some (2, [cr, nl]) \<and> crlf_strip 10 (add_cr [nl]) = Some (1, [nl])
   \<and> crlf_add 2 [nl] = None"
  using crlf_roundtrip [of "[nl]" 10 10] crlf_roundtrip [of "[nl]" 2 10] by simp

section \<open>Writing in chunks sends the buffer\<close>

lemma sys_write_spec:
  "sys_write ws buf = (n, out, ws') \<Longrightarrow>
     (\<exists>k. out = take k buf) \<and> (n = int (length out) \<or> n = -1 \<and> out = [])"
  by (cases "(ws, buf)" rule: sys_write.cases) (auto intro: exI [of _ "length buf"] exI [of _ 0])

lemma fill_iov_spec:
  "0 < chunksize \<Longrightarrow> 0 < k \<Longrightarrow> length ptr \<le> chunksize * k \<Longrightarrow>
     \<exists>iov. fill_iov chunksize k ptr = Some iov \<and> concat iov = ptr \<and> length iov \<le> k
        \<and> (\<forall>b \<in> set iov. length b \<le> chunksize \<and> (ptr \<noteq> [] \<longrightarrow> b \<noteq> []))"
proof (induction chunksize k ptr rule: fill_iov.induct)
  case (2 chunksize k ptr)
  let ?n = "min chunksize (length ptr)"
  show ?case
  proof (cases "length ptr - ?n = 0")
    case True
    then have "length ptr \<le> chunksize" by simp
    then show ?thesis using True by (simp add: Let_def)
  next
    case False
    then have n: "?n = chunksize" and gt: "chunksize < length ptr" by auto
    have "k \<noteq> 0" using "2.prems"(3) gt by (intro notI) simp
    moreover have "length (drop ?n ptr) \<le> chunksize * k" using "2.prems"(3) n by simp
    ultimately obtain iov where iov: "fill_iov chunksize k (drop ?n ptr) = Some iov"
      "concat iov = drop ?n ptr" "length iov \<le> k"
      "\<forall>b \<in> set iov. length b \<le> chunksize \<and> (drop ?n ptr \<noteq> [] \<longrightarrow> b \<noteq> [])"
      using "2.IH" [OF refl False] "2.prems"(1) by blast
    moreover have "drop ?n ptr \<noteq> []" using gt n by simp
    moreover have "take ?n ptr \<noteq> []" using gt n "2.prems"(1) by (cases ptr) auto
    moreover have "fill_iov chunksize (Suc k) ptr = Some (take ?n ptr # iov)"
      using iov(1) False by (simp only: fill_iov.simps Let_def if_False option.map)
    ultimately show ?thesis
      by (intro exI [of _ "take ?n ptr # iov"]) (simp add: n)
  qed
qed simp

lemma chunk_size_enough: "0 < chunk_size n \<and> n \<le> chunk_size n * 16"
proof -
  have "n = n div 16 * 16 + n mod 16" by simp
  moreover have "n mod 16 < 16" by simp
  ultimately show ?thesis by (auto simp: chunk_size_def UIO_MAXIOV_def Let_def)
qed

lemma write_iov_spec:
  "write_iov ws iov ntotal out = (n, out', ws') \<Longrightarrow> \<forall>b \<in> set iov. b \<noteq> [] \<Longrightarrow>
     \<exists>k. out' = out @ take k (concat iov)
       \<and> (if take k (concat iov) = concat iov then n = int (ntotal + length (concat iov)) else n = -1)"
proof (induction ws iov ntotal out rule: write_iov.induct)
  case (2 ws b iov ntotal out)
  obtain m o1 ws1 where w: "sys_write ws b = (m, o1, ws1)" by (cases "sys_write ws b")
  obtain k where k: "o1 = take k b" and m: "m = int (length o1) \<or> m = -1 \<and> o1 = []"
    using sys_write_spec [OF w] by blast
  show ?case
  proof (cases "m = int (length b)")
    case False
    then have "length o1 < length b" using m k "2.prems"(2) by (auto simp: min_def split: if_splits)
    moreover have "o1 = take (length o1) (concat (b # iov))" using k by (simp add: min_def)
    moreover have "n = -1" "out' = out @ o1" using "2.prems" w False by auto
    ultimately show ?thesis
      by (intro exI [of _ "length o1"]) (auto dest: arg_cong [of _ _ length])
  next
    case True
    then have full: "o1 = b" using m k by auto
    have "write_iov ws1 iov (ntotal + length b) (out @ o1) = (n, out', ws')"
      using "2.prems"(1) w True by simp
    then obtain k' where k': "out' = (out @ o1) @ take k' (concat iov)"
      "if take k' (concat iov) = concat iov then n = int (ntotal + length b + length (concat iov)) else n = -1"
      using "2.IH" [OF w [symmetric] refl] True "2.prems"(2) by auto
    then show ?thesis using full by (intro exI [of _ "length b + k'"]) simp
  qed
qed simp

text \<open>
  However the write is done, at once, in chunks, or with one \<open>writev\<close>, \<open>dowrite\<close> of a buffer
  that is not empty never gives up over the number of chunks; what goes out is a prefix of the
  buffer, and the result is its length exactly when all of it has gone out.
\<close>

theorem dowrite_sends:
  assumes "buf \<noteq> []"
  shows "\<exists>n k ws'. dowrite o1 ws buf = Some (n, take k buf, ws')
     \<and> (n = int (length buf) \<longleftrightarrow> take k buf = buf)"
proof -
  obtain iov where iov: "fill_iov (chunk_size (length buf)) UIO_MAXIOV buf = Some iov" "concat iov = buf"
    "\<forall>b \<in> set iov. b \<noteq> []"
    using fill_iov_spec [of "chunk_size (length buf)" UIO_MAXIOV buf] chunk_size_enough [of "length buf"] assms
    by (auto simp: UIO_MAXIOV_def)
  have one: "\<exists>n k ws'. sys_write ws buf = (n, take k buf, ws') \<and> (n = int (length buf) \<longleftrightarrow> take k buf = buf)"
  proof -
    obtain n out ws' where w: "sys_write ws buf = (n, out, ws')" by (cases "sys_write ws buf")
    obtain k where k: "out = take k buf" and n: "n = int (length out) \<or> n = -1 \<and> out = []"
      using sys_write_spec [OF w] by blast
    have "n = int (length buf) \<longleftrightarrow> take k buf = buf" using n k assms by (auto simp: take_all_iff)
    with w k show ?thesis by blast
  qed
  obtain n out ws' where w: "write_iov ws iov 0 [] = (n, out, ws')" by (cases "write_iov ws iov 0 []")
  have chunked: "\<exists>n k ws'. write_iov ws iov 0 [] = (n, take k buf, ws') \<and> (n = int (length buf) \<longleftrightarrow> take k buf = buf)"
  proof -
    obtain k where k: "out = take k buf" "if take k buf = buf then n = int (length buf) else n = -1"
      using write_iov_spec [OF w iov(3)] iov(2) by auto
    show ?thesis
      by (intro exI [of _ n] exI [of _ k] exI [of _ ws']) (use w k in \<open>auto split: if_splits\<close>)
  qed
  show ?thesis
    using one chunked iov by (cases "chunkwrite o1"; cases "usewritev o1") (simp_all add: dowrite_def)
qed

theorem dowrite_sends_witness:
  "\<exists>n k ws'. dowrite (default_opts\<lparr>chunkwrite := True\<rparr>) [Accept 1] ''hello'' = Some (n, take k ''hello'', ws')
     \<and> (n = int (length ''hello'') \<longleftrightarrow> take k ''hello'' = ''hello'')"
  using dowrite_sends [of "''hello''" "default_opts\<lparr>chunkwrite := True\<rparr>" "[Accept 1]"] by simp

text \<open>In steps of at most sixteen chunks, the last perhaps shorter than the others.\<close>

lemma iov_chunks:
  "\<exists>iov. fill_iov (chunk_size (length buf)) UIO_MAXIOV buf = Some iov \<and> concat iov = buf
     \<and> length iov \<le> UIO_MAXIOV \<and> (\<forall>b \<in> set iov. length b \<le> chunk_size (length buf))"
  using fill_iov_spec [of "chunk_size (length buf)" UIO_MAXIOV buf] chunk_size_enough [of "length buf"]
  by (auto simp: UIO_MAXIOV_def)

section \<open>The TCP loop copies\<close>

definition to_net :: "opts \<Rightarrow> string \<Rightarrow> string" where
  "to_net o1 = (if crlf o1 then add_cr else id)"

definition to_user :: "opts \<Rightarrow> string \<Rightarrow> string" where
  "to_user o1 = (if crlf o1 then strip_cr else id)"

lemma conv_simps [simp]:
  "to_net o1 [] = []" "to_net o1 (s @ t) = to_net o1 s @ to_net o1 t" "to_net o1 s = [] \<longleftrightarrow> s = []"
  "to_user o1 [] = []" "to_user o1 (s @ t) = to_user o1 s @ to_user o1 t"
  by (simp_all add: to_net_def to_user_def) (cases s; simp)

lemma outgoing_conv: "outgoing o1 rbuf = Some buf \<Longrightarrow> buf = to_net o1 rbuf"
  by (auto simp: outgoing_def to_net_def crlf_add_spec split: if_splits)

lemma incoming_conv: "incoming o1 rbuf = Some buf \<Longrightarrow> buf = to_user o1 rbuf"
  by (auto simp: incoming_def to_user_def crlf_strip_spec split: if_splits)

definition exact :: "opts \<Rightarrow> tcp_loop \<Rightarrow> bool" where
  "exact o1 s \<longleftrightarrow> sent s = to_net o1 (typed s) \<and> shown s = to_user o1 (heard s)"

definition behind :: "opts \<Rightarrow> tcp_loop \<Rightarrow> bool" where
  "behind o1 s \<longleftrightarrow> prefix (sent s) (to_net o1 (typed s)) \<and> prefix (shown s) (to_user o1 (heard s))"

fun copied :: "opts \<Rightarrow> tcp_loop fate \<Rightarrow> bool" where
  "copied o1 (Going s) = exact o1 s"
| "copied o1 (Closes s) = exact o1 s"
| "copied o1 (Dies s) = behind o1 s"
| "copied o1 Runs_wild = False"

lemma exact_behind: "exact o1 s \<Longrightarrow> behind o1 s"
  by (simp add: exact_def behind_def)

lemma copied_bind:
  "copied o1 m \<Longrightarrow> (\<And>s. m = Going s \<Longrightarrow> exact o1 s \<Longrightarrow> copied o1 (f s)) \<Longrightarrow> copied o1 (bind_fate m f)"
  by (cases m) auto

lemma to_socket_copied:
  assumes e: "exact o1 s" and ne: "rbuf \<noteq> []"
  shows "copied o1 (to_socket o1 ws rbuf s)"
proof (cases "outgoing o1 rbuf")
  case None
  with e show ?thesis by (auto simp: to_socket_def exact_def behind_def)
next
  case (Some buf)
  note b = outgoing_conv [OF Some]
  then have "buf \<noteq> []" using ne by simp
  from dowrite_sends [OF this, of o1 ws] obtain n k ws' where
    w: "dowrite o1 ws buf = Some (n, take k buf, ws')" "n = int (length buf) \<longleftrightarrow> take k buf = buf" by blast
  show ?thesis
  proof (cases "n = int (length buf)")
    case True
    with w e Some show ?thesis by (simp add: to_socket_def b exact_def)
  next
    case False
    with w e Some show ?thesis
      by (simp add: to_socket_def b exact_def behind_def take_is_prefix)
  qed
qed

lemma writen_out:
  "writen ws buf = (n, out) \<Longrightarrow> prefix out buf \<and> (n = int (length buf) \<longrightarrow> out = buf)"
  using writen_loop_spec [of ws buf "[]"] 
  by (auto simp: writen_def take_is_prefix split: prod.splits bool.splits)

lemma to_stdout_copied: "exact o1 s \<Longrightarrow> copied o1 (to_stdout o1 ws rbuf s)"
proof (cases "incoming o1 rbuf")
  case None
  assume "exact o1 s"
  with None show ?thesis by (auto simp: to_stdout_def exact_def behind_def)
next
  case (Some buf)
  assume e: "exact o1 s"
  obtain n out where w: "writen ws buf = (n, out)" by (cases "writen ws buf")
  note b = incoming_conv [OF Some] and o = writen_out [OF w]
  show ?thesis
  proof (cases "n = int (length buf)")
    case True
    with w e Some o show ?thesis by (simp add: to_stdout_def b exact_def)
  next
    case False
    with w e Some o show ?thesis by (simp add: to_stdout_def b exact_def behind_def)
  qed
qed

lemma recv_part_copied: "exact o1 s \<Longrightarrow> copied o1 (recv_part o1 ws r s)"
  by (auto simp: recv_part_def exact_behind to_stdout_copied split: option.splits)

lemma sock_part_copied: "exact o1 s \<Longrightarrow> copied o1 (sock_part o1 ev s)"
  by (auto simp: sock_part_def recv_part_copied split: option.splits intro!: copied_bind)

lemma tcp_round_copied: "exact o1 s \<Longrightarrow> copied o1 (tcp_round o1 ev s)"
proof -
  assume e: "exact o1 s"
  then have "exact o1 (s\<lparr>stdineof := True\<rparr>)" by (simp add: exact_def)
  moreover have "rbuf \<noteq> [] \<Longrightarrow> copied o1 (bind_fate (to_socket o1 (w_script ev) rbuf s) (sock_part o1 ev))" for rbuf
    by (rule copied_bind) (use e in \<open>simp_all add: to_socket_copied sock_part_copied\<close>)
  ultimately show ?thesis
    using e by (simp add: tcp_round_def exact_behind sock_part_copied split: option.splits)
qed

lemma loop_tcp_copied: "copied o1 (loop_tcp o1 evs tcp_start)"
proof -
  have "exact o1 s \<Longrightarrow> copied o1 (loop_tcp o1 evs s)" for s
  proof (induction evs arbitrary: s)
    case (Cons ev evs)
    show ?case
      by (simp, rule copied_bind) (use Cons in \<open>simp_all add: tcp_round_copied\<close>)
  qed simp
  then show ?thesis by (simp add: exact_def tcp_start_def)
qed

text \<open>
  C15: Whatever arrives in whatever order, the TCP loop copies: as long as it goes on, and when it
  ends at an end of file, exactly what was read from the standard input has gone to the socket, and
  what was received has gone to the standard output, with the line ends converted when \<open>-c\<close> asks
  for it (with \<open>MSG_PEEK\<close> each reading of the same bytes counts, see \<open>peek_writes_twice\<close>); when it dies, of
  either at most the end is missing.
\<close>

theorem loop_tcp_copies:
  "case loop_tcp o1 evs tcp_start of
     Going s \<Rightarrow> sent s = to_net o1 (typed s) \<and> shown s = to_user o1 (heard s)
   | Closes s \<Rightarrow> sent s = to_net o1 (typed s) \<and> shown s = to_user o1 (heard s)
   | Dies s \<Rightarrow> prefix (sent s) (to_net o1 (typed s)) \<and> prefix (shown s) (to_user o1 (heard s))
   | Runs_wild \<Rightarrow> False"
  using loop_tcp_copied [of o1 evs]
  by (cases "loop_tcp o1 evs tcp_start") (simp_all add: exact_def behind_def)

text \<open>Two of the programs with \<open>-c\<close>, back to back: text without carriage returns arrives as typed.\<close>

lemma back_to_back:
  assumes "loop_tcp o1 evs tcp_start = Closes s" and "loop_tcp o2 evs' tcp_start = Closes s'"
    and "crlf o1 = crlf o2" and "heard s' = sent s" and "cr \<notin> set (typed s)"
  shows "shown s' = typed s"
  using assms loop_tcp_copied [of o1 evs] loop_tcp_copied [of o2 evs']
  by (auto simp: exact_def to_net_def to_user_def strip_cr_id split: if_splits)

section \<open>The pattern of the sources\<close>

definition idx :: "byte \<Rightarrow> nat" where
  "idx c = (if 32 \<le> unat c mod 128 \<and> unat c mod 128 \<le> 126 then unat c mod 128 - 32 else 0)"

lemma isprint_masked: "isprint (and c 0x7F) \<longleftrightarrow> 32 \<le> unat c mod 128 \<and> unat c mod 128 \<le> 126"
  by (simp add: isprint_def unat_and_7F)

lemma idx_skip: "unat (skip_nonprinting c) mod 128 = 32 + idx c"
proof (induction c rule: skip_nonprinting.induct)
  case (1 c)
  show ?case
  proof (cases "isprint (and c 0x7F)")
    case True
    then show ?thesis by (subst skip_nonprinting.simps) (simp add: isprint_masked idx_def)
  next
    case False
    let ?m = "unat c mod 128"
    have lt: "?m < 128" by simp
    have m: "?m < 32 \<or> ?m = 127" using False lt unfolding isprint_masked by linarith
    have "(?m + 1) mod 128 \<le> 32"
    proof (cases "?m = 127")
      case False
      with m have "?m < 32" by simp
      then have "(?m + 1) mod 128 = ?m + 1" by (intro mod_less) linarith
      with \<open>?m < 32\<close> show ?thesis by linarith
    qed simp
    then have "idx (c + 1) = 0" by (simp add: idx_def unat_next_mod)
    moreover have "idx c = 0" using False unfolding idx_def isprint_masked by (rule if_not_P)
    ultimately show ?thesis
      using "1.IH" [OF False] False by (subst skip_nonprinting.simps) simp
  qed
qed

lemma idx_lt: "idx c < 95"
  by (auto simp: idx_def)

lemma idx_next: "unat c mod 128 = 32 + i \<Longrightarrow> i < 95 \<Longrightarrow> idx (c + 1) = (i + 1) mod 95"
proof -
  assume c: "unat c mod 128 = 32 + i" and i: "i < 95"
  have m: "unat (c + 1) mod 128 = 32 + i + 1" using c i by (simp add: unat_next_mod)
  show ?thesis
  proof (cases "i = 94")
    case True
    with m show ?thesis by (simp add: idx_def)
  next
    case False
    with m i show ?thesis by (simp add: idx_def)
  qed
qed

lemma pattern_loop_idx:
  "pattern_loop len c = map (\<lambda>i. word_of_nat (32 + (idx c + i) mod 95)) [0..<len]"
proof (induction len arbitrary: c)
  case (Suc len)
  let ?c = "skip_nonprinting c"
  have u: "unat (and ?c 0x7F) = 32 + idx c" by (simp only: unat_and_7F idx_skip)
  have "and ?c 0x7F = word_of_nat (unat (and ?c 0x7F))" by simp
  then have hd: "and ?c 0x7F = word_of_nat (32 + idx c)" by (simp only: u)
  have nx: "idx (?c + 1) = (idx c + 1) mod 95" by (rule idx_next [OF idx_skip idx_lt])
  have tl: "map (\<lambda>i. word_of_nat (32 + (idx c + i) mod 95) :: byte) [0..<Suc len]
     = word_of_nat (32 + idx c mod 95) # map (\<lambda>i. word_of_nat (32 + (idx c + Suc i) mod 95)) [0..<len]"
    by (simp add: upt_conv_Cons map_Suc_upt [symmetric] del: upt_Suc)
  have "map (\<lambda>i. word_of_nat (32 + (idx c + Suc i) mod 95) :: byte) [0..<len]
     = map (\<lambda>i. word_of_nat (32 + (idx (?c + 1) + i) mod 95)) [0..<len]"
    by (simp add: nx mod_simps)
  with hd tl idx_lt [of c] Suc.IH [of "?c + 1"] show ?case
    by (simp only: pattern_loop.simps Let_def mod_less)
qed simp

lemma pattern_cycles: "pattern len = map (\<lambda>i. word_of_nat (32 + i mod 95)) [0..<len]"
  by (simp add: pattern_def pattern_loop_idx idx_def)

text \<open>A source whose calls all succeed sends the urgent byte where it is asked to, and as many patterns as asked for.\<close>

definition turn_items :: "opts \<Rightarrow> byte list \<Rightarrow> int \<Rightarrow> item list" where
  "turn_items o1 wbuf i = (if urgwrite o1 = i then [Urgent (word_of_int i)] else []) @ [Written wbuf]"

lemma source_tcp_loop_all:
  assumes "\<forall>e \<in> set evs. fst e = 1 \<and> fst (snd e) = writelen o1" and "nat (bufs o1 + 1 - i) \<le> length evs"
    and "length wbuf = nat (writelen o1)"
  shows "source_tcp_loop o1 wbuf i evs out = Closes (out @ concat (map (turn_items o1 wbuf) [i..bufs o1]))"
  using assms
proof (induction o1 wbuf i evs out rule: source_tcp_loop.induct)
  case (2 o1 wbuf i oob n so_ok evs out)
  show ?case
  proof (cases "i \<le> bufs o1")
    case True
    then have l: "[i..bufs o1] = i # [i + 1..bufs o1]" by (simp add: upto_rec1)
    have n: "n = writelen o1" "oob = 1" using "2.prems"(1) by auto
    have tk: "take (nat n) wbuf = wbuf" using "2.prems"(3) n by simp
    have le: "nat (bufs o1 + 1 - (i + 1)) \<le> length evs" using "2.prems"(2) by auto
    have out: "(if urgwrite o1 = i then out @ [Urgent (word_of_int (urgwrite o1))] else out) @ [Written wbuf]
       = out @ turn_items o1 wbuf i" by (simp add: turn_items_def)
    have "source_tcp_loop o1 wbuf i ((oob, n, so_ok) # evs) out
       = source_tcp_loop o1 wbuf (i + 1) evs (out @ turn_items o1 wbuf i)"
      using True n tk out by (simp add: Let_def)
    also have "\<dots> = Closes ((out @ turn_items o1 wbuf i) @ concat (map (turn_items o1 wbuf) [i + 1..bufs o1]))"
      using "2.IH" [OF True _ refl refl] n tk out le "2.prems" by (auto simp: out)
    finally show ?thesis by (simp add: l)
  qed simp
qed simp

lemma source_tcp_sends:
  assumes "\<forall>e \<in> set evs. fst e = 1 \<and> fst (snd e) = writelen o1" and "nat (bufs o1) \<le> length evs"
  shows "source_tcp o1 evs = Closes (concat (map (turn_items o1 (pattern (nat (writelen o1)))) [1..bufs o1]))"
  using source_tcp_loop_all [OF assms(1), of 1 "pattern (nat (writelen o1))" "[]"] assms(2)
  by (simp add: source_tcp_def pattern_cycles)

section \<open>The UDP loop's own servaddr, and the sink that prints\<close>

lemma bind_fate_Going: "bind_fate m f = Going s' \<longleftrightarrow> (\<exists>s. m = Going s \<and> f s = Going s')"
  by (cases m) auto

lemma udp_show_keeps: "udp_show o1 ws d s = Going s' \<Longrightarrow> servaddr s' = servaddr s \<and> usent s' = usent s"
  by (auto simp: udp_show_def Let_def split: option.splits if_splits prod.splits)

lemma print_peer_keeps: "print_peer o1 a d s = Going s' \<Longrightarrow> servaddr s' = servaddr s \<and> usent s' = usent s"
  by (auto simp: print_peer_def split: option.splits if_splits)

lemma server_keeps:
  "server o1 \<Longrightarrow> udp_sock_part o1 ev s = Going s' \<Longrightarrow> servaddr s' = servaddr s \<and> usent s' = usent s"
  by (auto simp: udp_sock_part_def server_part_def Let_def bind_fate_Going split: option.splits if_splits
      dest!: udp_show_keeps print_peer_keeps)

lemma server_round_keeps:
  assumes "server o1" and "\<not> connectudp o1" and "servaddr s = None" and "udp_round o1 ev s = Going s'"
  shows "servaddr s' = None \<and> usent s' = usent s"
proof -
  have "udp_send o1 ok rbuf s \<noteq> Going s1" for ok rbuf s1
    using assms(2,3) by (auto simp: udp_send_def split: option.splits)
  with assms show ?thesis
    by (auto simp: udp_round_def bind_fate_Going split: option.splits if_splits dest!: server_keeps)
qed

lemma server_loop_keeps:
  assumes "server o1" and "\<not> connectudp o1" and "servaddr s = None" and "loop_udp o1 evs s = Going s'"
  shows "servaddr s' = None \<and> usent s' = usent s"
  using assms(3,4)
proof (induction evs arbitrary: s)
  case (Cons ev evs)
  then obtain s1 where "udp_round o1 ev s = Going s1" "loop_udp o1 evs s1 = Going s'"
    by (auto simp: bind_fate_Going)
  with Cons server_round_keeps [OF assms(1,2) Cons.prems(1)] show ?case by metis
qed simp

text \<open>
  Over a UDP socket that is not connected (\<open>-o\<close>), the first text typed before a datagram has
  come in is sent to an address nobody has set, whatever \<open>cliopen\<close> found out; a server never sets
  that address and never gets to send anything. Over a connected socket no such thing happens.
\<close>

theorem loop_udp_unset_address:
  "(\<forall>ev evs rbuf. \<not> connectudp o1 \<and> u_select_ok ev \<and> u_stdin ev = Some (Some rbuf) \<and> rbuf \<noteq> []
       \<and> outgoing o1 rbuf \<noteq> None \<longrightarrow> loop_udp o1 (ev # evs) udp_start = Runs_wild)
   \<and> (\<forall>evs s. \<not> connectudp o1 \<and> server o1 \<and> loop_udp o1 evs udp_start = Going s \<longrightarrow> usent s = [])
   \<and> (connectudp o1 \<longrightarrow> (\<forall>evs s. loop_udp o1 evs s \<noteq> Runs_wild))"
proof (intro conjI allI impI)
  fix ev :: udp_ev and evs rbuf
  assume a: "\<not> connectudp o1 \<and> u_select_ok ev \<and> u_stdin ev = Some (Some rbuf) \<and> rbuf \<noteq> [] \<and> outgoing o1 rbuf \<noteq> None"
  then show "loop_udp o1 (ev # evs) udp_start = Runs_wild"
    by (auto simp: udp_round_def udp_send_def udp_start_def)
next
  fix evs s
  assume "\<not> connectudp o1 \<and> server o1 \<and> loop_udp o1 evs udp_start = Going s"
  then show "usent s = []" using server_loop_keeps [of o1 udp_start evs s] by (simp add: udp_start_def)
next
  fix evs s
  assume c: "connectudp o1"
  have show1: "udp_show o1 ws d s \<noteq> Runs_wild" for ws d s
    by (auto simp: udp_show_def Let_def split: option.splits prod.splits)
  have bind: "m \<noteq> Runs_wild \<Longrightarrow> (\<And>s. f s \<noteq> Runs_wild) \<Longrightarrow> bind_fate m f \<noteq> Runs_wild"
    for m :: "udp_loop fate" and f :: "udp_loop \<Rightarrow> udp_loop fate"
    by (cases m) auto
  have recv: "recv_udp o1 ws r s \<noteq> Runs_wild" for ws r s
    using show1 by (auto simp: recv_udp_def split: option.splits)
  have peer: "print_peer o1 a d s \<noteq> Runs_wild" for a d s
    by (auto simp: print_peer_def split: option.splits)
  have serv: "server_part o1 ev d a s \<noteq> Runs_wild" for ev d a s
    unfolding server_part_def Let_def by (rule bind) (use peer show1 in auto)
  have conn: "connected_part o1 ev d s \<noteq> Runs_wild" for ev d s
    unfolding connected_part_def by (rule bind) (use recv in auto)
  have sock: "udp_sock_part o1 ev s \<noteq> Runs_wild" for ev s
    using c serv conn by (auto simp: udp_sock_part_def split: option.splits)
  have send: "udp_send o1 ok d s \<noteq> Runs_wild" for ok d s
    using c by (auto simp: udp_send_def split: option.splits)
  have round: "udp_round o1 ev s \<noteq> Runs_wild" for ev s
    using sock send bind [OF send sock] by (auto simp: udp_round_def split: option.splits)
  show "loop_udp o1 evs s \<noteq> Runs_wild"
  proof (induction evs arbitrary: s)
    case (Cons ev evs)
    show ?case using bind [OF round [of ev s] Cons.IH] by simp
  qed simp
qed

definition demo_typed :: udp_ev where
  "demo_typed = \<lparr>u_select_ok = True, u_stdin = Some (Some ''hi''), u_shut_ok = True, u_send_ok = True,
     u_sock = None, u_again = None, to_addr = None, u_out1 = [], u_out2 = []\<rparr>"

theorem loop_udp_unset_address_witness:
  "loop_udp (default_opts\<lparr>connectudp := False\<rparr>) [demo_typed] udp_start = Runs_wild
   \<and> loop_udp default_opts [demo_typed] udp_start = Going (udp_start\<lparr>usent := [(None, ''hi'')]\<rparr>)"
  using loop_udp_unset_address [of "default_opts\<lparr>connectudp := False\<rparr>"]
  by (simp add: demo_typed_def outgoing_def udp_round_def udp_send_def udp_sock_part_def default_opts_def
      udp_start_def)

text \<open>Two \<open>-v\<close>s and a datagram as long as the buffer: the NUL is stored behind it.\<close>

lemma sink_udp_overruns:
  assumes "verbose o1 > 1" and "rbuf \<noteq> []" and "length rbuf \<le> length d"
  shows "sink_udp o1 peeking rbuf (Some d # rs) sizes = Runs_wild"
  using assms by (cases d; simp add: dump_def Let_def)

text \<open>With \<open>-Z\<close> what arrives is written twice.\<close>

lemma peek_writes_twice:
  assumes "msgpeek o1" and "\<not> crlf o1" and "d \<noteq> []" and "exact o1 s"
    and "sock_part o1 \<lparr>select_ok = True, on_stdin = None, shut_ok = True, w_script = [],
           on_sock = Some (Some d), again = Some d, out1 = [], out2 = []\<rparr> s = Going s'"
  shows "shown s' = shown s @ d @ d"
proof -
  have w: "writen [] d = (int (length d), d)" using assms(3) by (cases d) (simp_all add: writen_def)
  from assms show ?thesis
    by (auto simp: sock_part_def recv_part_def to_stdout_def incoming_def w)
qed

end
