(* ===== verification/OldAddrInfo.thy ===== *)
theory OldAddrInfo
  imports AddrInfo
begin

text \<open>
  The older \<open>getaddrinfo\<close> and \<open>getnameinfo\<close> in one file each, \<^verbatim>\<open>unpv13e/libfree/getaddrinfo.c\<close> and
  \<^verbatim>\<open>unpv13e/libfree/getnameinfo.c\<close>, without \<open>REENTRANT\<close>, over the structures and the resolver of
  \<open>AddrInfo\<close>. The argument \<open>ipv6\<close> tells whether the macro \<open>IPV6\<close> gets defined (it hangs on a macro
  of the system's headers). The resolver's option \<open>RES_USE_INET6\<close> is a state that outlives the call.
  Allocation does not fail.
\<close>

section \<open>Checks\<close>

definition old_hints :: "hints option \<Rightarrow> hints" where
  "old_hints hintsptr = (case hintsptr of None \<Rightarrow> no_hints | Some h \<Rightarrow> h)"

definition old_check :: "bool \<Rightarrow> hints \<Rightarrow> eai option" where
  "old_check ipv6 hs =
     (if and (h_flags hs) (not (or AI_PASSIVE AI_CANONNAME)) \<noteq> 0 then Some EAI_BADFLAGS
      else if h_family hs = AF_UNSPEC then None
      else if h_family hs = AF_INET \<or> ipv6 \<and> h_family hs = AF_INET6 then
        (if h_socktype hs \<noteq> 0 \<and> h_socktype hs \<noteq> SOCK_STREAM \<and> h_socktype hs \<noteq> SOCK_DGRAM
            \<and> h_socktype hs \<noteq> SOCK_RAW
         then Some EAI_SOCKTYPE else None)
      else if h_family hs = AF_UNIX then
        (if h_socktype hs \<noteq> 0 \<and> h_socktype hs \<noteq> SOCK_STREAM \<and> h_socktype hs \<noteq> SOCK_DGRAM
         then Some EAI_SOCKTYPE else None)
      else Some EAI_FAMILY)"

text \<open>The host to look up when the caller gives none, and the family a numeric host implies.\<close>

definition default_host :: "bool \<Rightarrow> hints \<Rightarrow> string option \<Rightarrow> string option \<Rightarrow> eai + string option" where
  "default_host ipv6 hs host serv =
     (if \<not> empty host then Inr host
      else if empty serv then Inl EAI_NONAME
      else if has (h_flags hs) AI_PASSIVE then
        (if h_family hs = AF_INET then Inr (Some ''0.0.0.0'')
         else if ipv6 \<and> h_family hs = AF_INET6 then Inr (Some ''0::0'')
         else if h_family hs = AF_UNIX then
           (if hd (the serv) \<noteq> CHR ''/'' then Inl EAI_ADDRFAMILY else Inr host)
         else if h_family hs = AF_UNSPEC then Inl EAI_ADDRFAMILY
         else Inr host)
      else Inr (Some ''localhost''))"

definition implied_family :: "bool \<Rightarrow> hints \<Rightarrow> string option \<Rightarrow> hints" where
  "implied_family ipv6 hs host =
     (if \<not> empty host \<and> h_family hs = AF_UNSPEC then
        (if ipv6 \<and> pton_status (inet_pton AF_INET6 (the host)) = 1 then hs\<lparr>h_family := AF_INET6\<rparr>
         else if pton_status (inet_pton AF_INET (the host)) = 1 then hs\<lparr>h_family := AF_INET\<rparr>
         else hs)
      else hs)"

section \<open>Unix domain\<close>

text \<open>\<open>addrinfo_local\<close>: one entry, and the path that is unlinked; \<open>strncpy\<close> into 104 characters.\<close>

definition addrinfo_local :: "string \<Rightarrow> hints \<Rightarrow> (eai + addrinfo list) \<times> string list" where
  "addrinfo_local path hs =
     (if h_socktype hs = 0 then (Inl EAI_SOCKTYPE, [])
      else (Inr [\<lparr>ai_flags = 0, ai_family = AF_UNIX, ai_socktype = h_socktype hs, ai_protocol = 0,
                  ai_addrlen = 106, ai_canonname = None, ai_addr = Some (Sun (take 104 path))\<rparr>],
            if has (h_flags hs) AI_PASSIVE then [path] else []))"

section \<open>The host\<close>

definition HENTBUFSIZ :: nat where
  "HENTBUFSIZ = 8 * 1024"

definition getaddrinfo_host ::
  "bool \<Rightarrow> resolver \<Rightarrow> bool \<Rightarrow> string \<Rightarrow> int \<Rightarrow> (eai + hostent) \<times> bool" where
  "getaddrinfo_host ipv6 rs use6 host family =
     (let numeric = (\<lambda>fam a. Inr \<lparr>he_name = take (HENTBUFSIZ - 1) host, he_addrtype = fam, he_addr_list = [a]\<rparr>);
          try6 = (\<lambda>_::unit. 
            case (if ipv6 \<and> (hex_digit (hd host) \<noteq> None \<or> hd host = colon)
                  then inet_pton AF_INET6 host else Invalid) of
              Valid a \<Rightarrow> (numeric AF_INET6 a, use6)
            | _ \<Rightarrow>
                let use6' = (use6 \<or> ipv6 \<and> family = AF_INET6) in
                (case gethostbyname rs use6' host of
                   Inl e \<Rightarrow> (Inl (of_herror e), use6')
                 | Inr hptr \<Rightarrow> (Inr hptr, use6')))
      in case (if isdigit (hd host) then inet_pton AF_INET host else Invalid) of
           Valid a \<Rightarrow> (numeric AF_INET a, use6)
         | _ \<Rightarrow> try6 ())"

text \<open>The entry made of one address.\<close>

definition host_entry :: "bool \<Rightarrow> hints \<Rightarrow> int \<Rightarrow> byte list \<Rightarrow> addrinfo" where
  "host_entry ipv6 hs family ap =
     (let ai = \<lparr>ai_flags = (if h_socktype hs = 0 then AI_CLONE else 0), ai_family = family,
                ai_socktype = h_socktype hs, ai_protocol = h_protocol hs, ai_addrlen = 0,
                ai_canonname = None, ai_addr = None\<rparr>
      in if family = AF_INET then ai\<lparr>ai_addr := Some (Sin 0 (take 4 ap)), ai_addrlen := 16\<rparr>
         else if ipv6 \<and> family = AF_INET6 then ai\<lparr>ai_addr := Some (Sin6 0 (take 16 ap)), ai_addrlen := 28\<rparr>
         else ai)"

section \<open>The service\<close>

text \<open>
  \<open>getaddrinfo_clone\<close>, and \<open>getaddrinfo_port\<close>: the loop goes on behind the clone. It counts the
  entries that got the port; \<open>done\<close> is the part of the list behind it.
\<close>

definition getaddrinfo_clone :: "addrinfo \<Rightarrow> addrinfo" where
  "getaddrinfo_clone ai =
     \<lparr>ai_flags = 0, ai_family = ai_family ai, ai_socktype = ai_socktype ai, ai_protocol = ai_protocol ai,
      ai_addrlen = ai_addrlen ai, ai_canonname = None, ai_addr = ai_addr ai\<rparr>"

definition store_port :: "bool \<Rightarrow> 16 word \<Rightarrow> int \<Rightarrow> addrinfo \<Rightarrow> nat \<times> addrinfo" where
  "store_port ipv6 port socktype ai =
     (let ai1 = ai\<lparr>ai_socktype := socktype\<rparr> in
      if ai_family ai1 = AF_INET \<or> ipv6 \<and> ai_family ai1 = AF_INET6
      then (1, ai1\<lparr>ai_addr := map_option (\<lambda>sa. sock_set_port sa (uint port)) (ai_addr ai1)\<rparr>)
      else (0, ai1))"

fun getaddrinfo_port ::
  "bool \<Rightarrow> 16 word \<Rightarrow> int \<Rightarrow> addrinfo list \<Rightarrow> nat \<Rightarrow> addrinfo list \<Rightarrow> nat \<times> addrinfo list" where
  "getaddrinfo_port ipv6 port socktype [] nfound visited = (nfound, visited)"
| "getaddrinfo_port ipv6 port socktype (ai # ais) nfound visited =
     (if has (ai_flags ai) AI_CLONE then
        (if ai_socktype ai \<noteq> 0 then
           (case store_port ipv6 port socktype (getaddrinfo_clone ai) of
              (n, ai1) \<Rightarrow> getaddrinfo_port ipv6 port socktype ais (nfound + n) (visited @ [ai, ai1]))
         else
           (case store_port ipv6 port socktype ai of
              (n, ai1) \<Rightarrow> getaddrinfo_port ipv6 port socktype ais (nfound + n) (visited @ [ai1])))
      else if ai_socktype ai \<noteq> socktype then
        getaddrinfo_port ipv6 port socktype ais nfound (visited @ [ai])
      else
        (case store_port ipv6 port socktype ai of
           (n, ai1) \<Rightarrow> getaddrinfo_port ipv6 port socktype ais (nfound + n) (visited @ [ai1])))"

definition port_if_known ::
  "bool \<Rightarrow> 16 word option \<Rightarrow> int \<Rightarrow> nat \<times> addrinfo list \<Rightarrow> nat \<times> addrinfo list" where
  "port_if_known ipv6 sptr socktype st =
     (case sptr of
        None \<Rightarrow> st
      | Some s_port \<Rightarrow>
          (case getaddrinfo_port ipv6 s_port socktype (snd st) 0 [] of
             (rc, ais) \<Rightarrow> (fst st + rc, ais)))"

definition getaddrinfo_serv ::
  "bool \<Rightarrow> (string \<Rightarrow> string \<Rightarrow> 16 word option) \<Rightarrow> addrinfo list \<Rightarrow> hints \<Rightarrow> string \<Rightarrow> eai + addrinfo list" where
  "getaddrinfo_serv ipv6 getservbyname1 aihead hs serv =
     (if isdigit (hd serv) \<and> h_socktype hs \<noteq> 0 then
        (case getaddrinfo_port ipv6 (htons (word_of_int (atoi serv))) (h_socktype hs) aihead 0 [] of
           (rc, ais) \<Rightarrow> if rc = 0 then Inl EAI_NONAME else Inr ais)
      else
        let st1 = (if h_socktype hs = 0 \<or> h_socktype hs = SOCK_STREAM
                   then port_if_known ipv6 (getservbyname1 serv ''tcp'') SOCK_STREAM (0, aihead)
                   else (0, aihead));
            st2 = (if h_socktype hs = 0 \<or> h_socktype hs = SOCK_DGRAM
                   then port_if_known ipv6 (getservbyname1 serv ''udp'') SOCK_DGRAM st1
                   else st1)
        in if fst st2 = 0 then Inl (if h_socktype hs = 0 then EAI_NONAME else EAI_SERVICE)
           else Inr (snd st2))"

section \<open>getaddrinfo\<close>

text \<open>
  The result: an error or the list, the paths unlinked, and the resolver's option afterwards. The
  macro \<open>error\<close> jumps to \<open>bad\<close>, where \<open>aihead\<close> is freed: before the loop over the addresses nothing
  has been stored in it. With no address at all \<open>aihead\<close> is null where the canonical name is stored.
\<close>

type_synonym old_result = "((eai + addrinfo list) \<times> string list \<times> bool) outcome"

definition error_before_list :: "eai \<Rightarrow> old_result" where
  "error_before_list e = Undefined"

definition list_part ::
  "bool \<Rightarrow> resolver \<Rightarrow> hints \<Rightarrow> hostent \<Rightarrow> string option \<Rightarrow> bool \<Rightarrow> old_result" where
  "list_part ipv6 rs hs hptr serv use6 =
     (let ais = map (host_entry ipv6 hs (he_addrtype hptr)) (he_addr_list hptr) in
      if has (h_flags hs) AI_CANONNAME \<and> ais = [] then Undefined
      else
        let ais1 = (if has (h_flags hs) AI_CANONNAME then set_canon (Some (he_name hptr)) ais else ais)
        in if empty serv then Ok (Inr ais1, [], use6)
           else Ok (getaddrinfo_serv ipv6 (getservbyname rs) ais1 hs (the serv), [], use6))"

definition old_getaddrinfo ::
  "bool \<Rightarrow> resolver \<Rightarrow> bool \<Rightarrow> string option \<Rightarrow> string option \<Rightarrow> hints option \<Rightarrow> old_result" where
  "old_getaddrinfo ipv6 rs use6 host serv hintsptr =
     (let hs0 = old_hints hintsptr in
      case old_check ipv6 hs0 of
        Some e \<Rightarrow> error_before_list e
      | None \<Rightarrow>
          (case default_host ipv6 hs0 host serv of
             Inl e \<Rightarrow> error_before_list e
           | Inr host1 \<Rightarrow>
               let hs = implied_family ipv6 hs0 host;
                   local = (\<lambda>path. case addrinfo_local path hs of (r, unlinked) \<Rightarrow> Ok (r, unlinked, use6))
               in if \<not> empty host1 \<and> hd (the host1) = CHR ''/'' then local (the host1)
                  else if \<not> empty serv \<and> hd (the serv) = CHR ''/'' then local (the serv)
                  else
                    (case getaddrinfo_host ipv6 rs use6 (the host1) (h_family hs) of
                       (Inl e, use6') \<Rightarrow> error_before_list e
                     | (Inr hptr, use6') \<Rightarrow>
                         if h_family hs \<noteq> AF_UNSPEC \<and> h_family hs \<noteq> he_addrtype hptr
                         then error_before_list EAI_ADDRFAMILY
                         else list_part ipv6 rs hs hptr serv use6')))"

section \<open>getnameinfo\<close>

text \<open>The array \<open>strncpy\<close> leaves behind: padded with NULs, and without one when the text is too long.\<close>

definition strncpy :: "string \<Rightarrow> nat \<Rightarrow> string" where
  "strncpy s n = take n s @ replicate (n - length s) nul"

definition do_ipv46 ::
  "resolver \<Rightarrow> nat \<Rightarrow> nat \<Rightarrow> byte list \<Rightarrow> int \<Rightarrow> 16 word \<Rightarrow> int \<times> string option \<times> string option" where
  "do_ipv46 rs hostlen servlen aptr family port =
     (let hosts = (if hostlen > 0
                   then (case gethostbyaddr rs aptr family of
                           None \<Rightarrow> None | Some name \<Rightarrow> Some (Some (strncpy name hostlen)))
                   else Some None)
      in case hosts of
           None \<Rightarrow> (1, None, None)
         | Some h \<Rightarrow>
             if servlen > 0
             then (case getservbyport rs port None of
                     None \<Rightarrow> (1, h, None) | Some name \<Rightarrow> (0, h, Some (strncpy name servlen)))
             else (0, h, None))"

definition old_getnameinfo ::
  "bool \<Rightarrow> resolver \<Rightarrow> sockaddr \<Rightarrow> nat \<Rightarrow> nat \<Rightarrow> int \<times> string option \<times> string option" where
  "old_getnameinfo ipv6 rs sa hostlen servlen =
     (case sa of
        Sin port a \<Rightarrow> do_ipv46 rs hostlen servlen a AF_INET port
      | Sin6 port a \<Rightarrow> if ipv6 then do_ipv46 rs hostlen servlen a AF_INET6 port else (1, None, None)
      | _ \<Rightarrow> (1, None, None))"

section \<open>The older code against libgai\<close>

lemma pton6_loop_no_colon:
  "pton6_loop s src = Some s' \<Longrightarrow> colon \<notin> set src \<Longrightarrow> tp6 s' \<le> tp6 s + 4 \<and> colonp s' = colonp s"
proof (induction s src rule: pton6_loop.induct)
  case (2 s ch src)
  show ?case
  proof (cases "hex_digit ch")
    case None
    with 2 show ?thesis by (auto simp: put_quad_def split: if_splits option.splits)
  next
    case (Some d)
    with 2 show ?thesis by (auto simp: Let_def split: if_splits)
  qed
qed simp

lemma pton6_needs_colon: "inet_pton6 src = Some a \<Longrightarrow> colon \<in> set src"
proof (rule ccontr)
  assume r: "inet_pton6 src = Some a" and nc: "colon \<notin> set src"
  then have "\<not> (src \<noteq> [] \<and> hd src = colon)" by (metis list.set_sel(1))
  with r obtain s where s: "pton6_loop (pton6_start src) src = Some s" "pton6_finish s = Some a"
    unfolding inet_pton6_def by (auto split: option.splits if_splits)
  from pton6_loop_no_colon [OF s(1) nc] have "tp6 s \<le> 4" "colonp s = None"
    by (simp_all add: pton6_start_def)
  with s(2) show False
    by (auto simp: pton6_finish_def put16_def split: if_splits)
qed

lemma status_valid: "pton_status r = 1 \<longleftrightarrow> (\<exists>a. r = Valid a)"
  by (cases r) (simp_all add: pton_status_def)

lemma add_entries_host:
  "family = AF_INET \<or> family = AF_INET6 \<and> ipv6 \<Longrightarrow>
     add_entries hs family aps ais = Inr (ais @ map (host_entry ipv6 hs family) aps)"
proof (induction aps arbitrary: ais)
  case (Cons ap aps)
  have "ga_aistruct (ais, []) hs (Bytes ap) family = Inr (ais @ [host_entry ipv6 hs family ap], [])"
    using Cons.prems by (auto simp: ga_aistruct_def host_entry_def Let_def)
  with Cons show ?case by simp
qed simp

lemma clone_same: "getaddrinfo_clone ai = ga_clone ai"
  by (simp add: getaddrinfo_clone_def ga_clone_def)

text \<open>Entries of families the code knows about.\<close>

definition known :: "bool \<Rightarrow> addrinfo \<Rightarrow> bool" where
  "known ipv6 ai \<longleftrightarrow> ai_family ai = AF_INET \<or> ipv6 \<and> ai_family ai = AF_INET6"

lemma store_port_fill:
  "known ipv6 ai \<Longrightarrow> store_port ipv6 port socktype ai = (1, fill_port ai port socktype)"
  by (auto simp: store_port_def fill_port_def known_def inet_family_def set_ai_port_def Let_def)

lemma getaddrinfo_port_same:
  "\<forall>ai \<in> set ais. known ipv6 ai \<Longrightarrow>
     getaddrinfo_port ipv6 port socktype ais m visited
       = (m + fst (ga_port ais port socktype), visited @ snd (ga_port ais port socktype))"
proof (induction ais arbitrary: m visited socktype)
  case (Cons ai ais)
  have k: "known ipv6 ai" "known ipv6 (ga_clone ai)" using Cons.prems by (simp_all add: known_def ga_clone_def)
  have i: "inet_family ai" using k(1) by (auto simp: known_def inet_family_def)
  have IH: "getaddrinfo_port ipv6 port st ais m' v = (m' + fst (ga_port ais port st), v @ snd (ga_port ais port st))"
    for m' v st using Cons by simp
  show ?case
    by (cases "has (ai_flags ai) AI_CLONE"; cases "ai_socktype ai = 0"; cases "ai_socktype ai = socktype")
      (simp_all add: clone_same store_port_fill k i IH Let_def case_prod_beta)
qed simp

lemma known_ga_port: "\<forall>ai \<in> set ais. known ipv6 ai \<Longrightarrow> \<forall>ai \<in> set (snd (ga_port ais port socktype)). known ipv6 ai"
proof (induction ais)
  case (Cons ai ais)
  obtain n rest where r: "ga_port ais port socktype = (n, rest)" by (cases "ga_port ais port socktype")
  have f: "ai_family (fill_port x port st) = ai_family x" for x st
    by (simp add: fill_port_def set_ai_port_def Let_def)
  from Cons r show ?case by (auto simp: Let_def known_def f ga_clone_def)
qed simp

lemma port_if_known_same:
  "\<forall>ai \<in> set (snd st). known ipv6 ai \<Longrightarrow> port_if_known ipv6 p socktype st = try_port p socktype st"
  by (cases p) (auto simp: port_if_known_def try_port_def getaddrinfo_port_same Let_def split: prod.splits)

lemma known_try_port:
  "\<forall>ai \<in> set (snd st). known ipv6 ai \<Longrightarrow> \<forall>ai \<in> set (snd (try_port p socktype st)). known ipv6 ai"
  using known_ga_port [of "snd st" ipv6] by (cases p) (auto simp: try_port_def Let_def case_prod_beta)

lemma getaddrinfo_serv_same:
  assumes k: "\<forall>ai \<in> set ais. known ipv6 ai" and num: "isdigit (hd serv) \<Longrightarrow> h_socktype hs \<noteq> 0"
    and r: "getaddrinfo_serv ipv6 gs ais hs serv = Inr ais'"
  shows "ga_serv gs ais hs serv = Inr ais'"
proof (cases "isdigit (hd serv)")
  case True
  obtain n rest where g: "ga_port ais (htons (word_of_int (atoi serv))) (h_socktype hs) = (n, rest)"
    by (cases "ga_port ais (htons (word_of_int (atoi serv))) (h_socktype hs)")
  have "n \<noteq> 0 \<and> rest = ais'"
    using r True num getaddrinfo_port_same [OF k] g by (auto simp: getaddrinfo_serv_def split: if_splits)
  then show ?thesis using True num g by (simp add: ga_serv_def Let_def try_port_def)
next
  case False
  let ?st1 = "if h_socktype hs = 0 \<or> h_socktype hs = SOCK_STREAM
     then try_port (gs serv ''tcp'') SOCK_STREAM (0, ais) else (0, ais)"
  let ?st2 = "if h_socktype hs = 0 \<or> h_socktype hs = SOCK_DGRAM
     then try_port (gs serv ''udp'') SOCK_DGRAM ?st1 else ?st1"
  have k1: "\<forall>ai \<in> set (snd ?st1). known ipv6 ai" using k known_try_port [of "(0, ais)"] by simp
  obtain n b where st2: "?st2 = (n, b)" by (cases ?st2)
  have p1: "port_if_known ipv6 (gs serv ''tcp'') SOCK_STREAM (0, ais) = try_port (gs serv ''tcp'') SOCK_STREAM (0, ais)"
    by (rule port_if_known_same) (simp add: k)
  have p2: "port_if_known ipv6 (gs serv ''udp'') SOCK_DGRAM ?st1 = try_port (gs serv ''udp'') SOCK_DGRAM ?st1"
    by (rule port_if_known_same [OF k1])
  have c: "(isdigit (hd serv) \<and> h_socktype hs \<noteq> 0) = False" "isdigit (hd serv) = False" using False by simp_all
  have "getaddrinfo_serv ipv6 gs ais hs serv
     = (if n = 0 then Inl (if h_socktype hs = 0 then EAI_NONAME else EAI_SERVICE) else Inr b)"
    unfolding getaddrinfo_serv_def Let_def c if_False p1 p2 st2 by simp
  also have "\<dots> = ga_serv gs ais hs serv"
    unfolding ga_serv_def Let_def c if_False st2 by simp
  finally show ?thesis using r by simp
qed

text \<open>The lookup of the host: the same addresses, and a name that gives the same canonical name.\<close>

lemma search_one_same:
  assumes r: "getaddrinfo_host True rs use6 host fam = (Inr hptr, use6')"
    and ne: "host \<noteq> []" and len: "length host < HENTBUFSIZ"
    and fam: "h_family hs = fam" "he_addrtype hptr = fam" "fam = AF_INET \<and> \<not> use6 \<or> fam = AF_INET6"
  obtains canon where
    "search_one rs (Some host) hs 1 (host, fam) ([], None)
       = Inr (map (host_entry True hs fam) (he_addr_list hptr), canon)"
    and "has (h_flags hs) AI_CANONNAME \<Longrightarrow> (if canon \<noteq> None then canon else Some host) = Some (he_name hptr)"
proof -
  note found = that
  have known: "fam = AF_INET \<or> fam = AF_INET6 \<and> True" and nu: "fam \<noteq> AF_UNSPEC" using fam(3) by auto
  have tk: "take (HENTBUFSIZ - 1) host = host" using len by simp
  have num: "numeric_entry hs fam fam a [] = Inr [host_entry True hs fam a]" for a
    using add_entries_host [OF known, of hs "[a]" "[]"] nu fam(1)
    by (simp add: numeric_entry_def split: sum.splits prod.splits)
  let ?b4 = "isdigit (hd host) \<and> pton_status (inet_pton AF_INET host) = 1"
  let ?b6 = "(hex_digit (hd host) \<noteq> None \<or> hd host = colon) \<and> colon \<in> set host
                 \<and> pton_status (inet_pton AF_INET6 host) = 1"
  show thesis
  proof (cases ?b4)
    case True
    then obtain a where a: "inet_pton AF_INET host = Valid a" "isdigit (hd host)" by (auto simp: status_valid)
    then have h: "hptr = \<lparr>he_name = host, he_addrtype = AF_INET, he_addr_list = [a]\<rparr>"
      using r tk by (simp add: getaddrinfo_host_def Let_def)
    then have f: "fam = AF_INET" using fam(2) by simp
    have "search_one rs (Some host) hs 1 (host, fam) ([], None) = Inr ([host_entry True hs fam a], None)"
      using a num [of a] f by (simp add: search_one_def Let_def)
    then show thesis by (intro found [of None]) (simp_all add: h)
  next
    case no4: False
    then have i4: "(if isdigit (hd host) then inet_pton AF_INET host else Invalid) \<noteq> Valid a" for a
      by (auto simp: pton_status_def)
    have b4: "(isdigit (hd host) \<and> pton_status (inet_pton AF_INET host) = 1) = False" using no4 by simp
    show thesis
    proof (cases ?b6)
      case True
      then obtain a where a: "inet_pton AF_INET6 host = Valid a" by (auto simp: status_valid)
      have h: "hptr = \<lparr>he_name = host, he_addrtype = AF_INET6, he_addr_list = [a]\<rparr>"
        using r tk a True i4 unfolding getaddrinfo_host_def Let_def
        by (cases "if isdigit (hd host) then inet_pton AF_INET host else Invalid") auto
      then have f: "fam = AF_INET6" using fam(2) by simp
      have b6: "((hex_digit (hd host) \<noteq> None \<or> hd host = colon) \<and> colon \<in> set host
                 \<and> pton_status (inet_pton AF_INET6 host) = 1) = True" using True by simp
      have "search_one rs (Some host) hs 1 (host, fam) ([], None) = Inr ([host_entry True hs fam a], None)"
        unfolding search_one_def Let_def prod.case b4 b6 if_False if_True
        unfolding a pton_result.case using num [of a] f by simp
      then show thesis by (intro found [of None]) (simp_all add: h)
    next
      case no6: False
      have b6: "((hex_digit (hd host) \<noteq> None \<or> hd host = colon) \<and> colon \<in> set host
                 \<and> pton_status (inet_pton AF_INET6 host) = 1) = False" using no6 by simp
      have i6: "(if True \<and> (hex_digit (hd host) \<noteq> None \<or> hd host = colon)
                  then inet_pton AF_INET6 host else Invalid) \<noteq> Valid a" for a
      proof
        assume v: "(if True \<and> (hex_digit (hd host) \<noteq> None \<or> hd host = colon)
                  then inet_pton AF_INET6 host else Invalid) = Valid a"
        then have "inet_pton6 host = Some a"
          by (auto simp: inet_pton_def split: if_splits option.splits)
        then have "colon \<in> set host" by (rule pton6_needs_colon)
        with v no6 show False by (auto split: if_splits)
      qed
      let ?u = "use6 \<or> True \<and> fam = AF_INET6"
      have u: "?u = (fam = AF_INET6)" using fam(3) by auto
      have g: "gethostbyname rs (fam = AF_INET6) host = Inr hptr"
      proof (cases "gethostbyname rs ?u host")
        case (Inl e)
        then show ?thesis using r i4 i6 unfolding getaddrinfo_host_def Let_def
          by (auto split: pton_result.splits)
      next
        case (Inr h)
        then have "h = hptr" using r i4 i6 unfolding getaddrinfo_host_def Let_def
          by (auto split: pton_result.splits)
        with Inr u show ?thesis by simp
      qed
      define canon where "canon = (if has (h_flags hs) AI_CANONNAME then Some (he_name hptr) else None)"
      have "search_one rs (Some host) hs 1 (host, fam) ([], None)
         = Inr (map (host_entry True hs fam) (he_addr_list hptr), canon)"
        unfolding search_one_def Let_def prod.case b4 b6 if_False
        using g fam add_entries_host [OF known, of hs "he_addr_list hptr" "[]"] ne
        by (simp add: canon_def)
      then show thesis by (rule found) (simp add: canon_def)
    qed
  qed
qed

text \<open>What a list returned for a host that is no path comes from.\<close>

lemma old_success:
  assumes r: "old_getaddrinfo True rs use6 (Some host) serv (Some hs) = Ok (Inr ais, unlinked, use6')"
    and ne: "host \<noteq> []" "hd host \<noteq> CHR ''/''" and sl: "\<not> empty serv \<Longrightarrow> hd (the serv) \<noteq> CHR ''/''"
    and fam: "h_family hs \<noteq> AF_UNSPEC"
  obtains hptr where "old_check True hs = None"
    and "getaddrinfo_host True rs use6 host (h_family hs) = (Inr hptr, use6')"
    and "he_addrtype hptr = h_family hs" and "unlinked = []"
    and "list_part True rs hs hptr serv use6' = Ok (Inr ais, [], use6')"
proof -
  have imp: "implied_family True hs (Some host) = hs" using fam by (simp add: implied_family_def)
  have def: "default_host True hs (Some host) serv = Inr (Some host)" using ne by (simp add: default_host_def)
  have chk: "old_check True hs = None"
    using r by (auto simp: old_getaddrinfo_def old_hints_def error_before_list_def split: option.splits)
  obtain x u1 where h: "getaddrinfo_host True rs use6 host (h_family hs) = (x, u1)"
    by (cases "getaddrinfo_host True rs use6 host (h_family hs)")
  have r1: "(case x of Inl e \<Rightarrow> Undefined
       | Inr hptr \<Rightarrow> if h_family hs \<noteq> he_addrtype hptr then Undefined
                     else list_part True rs hs hptr serv u1) = Ok (Inr ais, unlinked, use6')"
    using r chk def imp h ne sl fam
    by (auto simp: old_getaddrinfo_def old_hints_def error_before_list_def Let_def split: sum.splits if_splits)
  then obtain hptr where x: "x = Inr hptr" "he_addrtype hptr = h_family hs"
    and l: "list_part True rs hs hptr serv u1 = Ok (Inr ais, unlinked, use6')"
    by (cases x) (auto split: if_splits)
  have "u1 = use6' \<and> unlinked = []"
    using l by (auto simp: list_part_def Let_def split: if_splits)
  with chk h x l show thesis by (intro that [of hptr]) auto
qed

lemma echeck_old: "old_check True hs = None \<Longrightarrow> host \<noteq> [] \<Longrightarrow>
   ga_echeck (Some host) serv (h_flags hs) (h_family hs) (h_socktype hs) = None"
  by (auto simp: old_check_def ga_echeck_def split: if_splits)

text \<open>
  C33: For one family asked for (IPv4 or IPv6), both versions agree: whenever the older \<open>getaddrinfo\<close>
  (compiled with IPv6) returns a list that is not empty, for a nonempty host that is no path and shorter
  than its buffer (\<open>HENTBUFSIZ\<close>), and for no service or one that is no path (for a path the
  older version ignores the family: \<open>local_ignores_family\<close>), libgai's \<open>getaddrinfo\<close> returns the same
  list, entry for entry, with the canonical name in its first one; provided a numeric service comes with a
  socket type, and \<open>RES_USE_INET6\<close> is not left over from a lookup before when IPv4 is asked for.
\<close>

theorem old_getaddrinfo_agrees:
  assumes r: "old_getaddrinfo True rs use6 (Some host) serv (Some hs) = Ok (Inr ais, unlinked, use6')"
    and ais: "ais \<noteq> []" and fam: "h_family hs = AF_INET \<and> \<not> use6 \<or> h_family hs = AF_INET6"
    and host: "host \<noteq> []" "hd host \<noteq> CHR ''/''" "length host < HENTBUFSIZ"
    and serv: "\<not> empty serv \<Longrightarrow> hd (the serv) \<noteq> CHR ''/''"
      "\<not> empty serv \<Longrightarrow> isdigit (hd (the serv)) \<Longrightarrow> h_socktype hs \<noteq> 0"
  shows "getaddrinfo rs (Some host) serv (Some hs) = (Found ais, [])"
proof -
  have nu: "h_family hs \<noteq> AF_UNSPEC" using fam by auto
  obtain hptr where chk: "old_check True hs = None"
    and h: "getaddrinfo_host True rs use6 host (h_family hs) = (Inr hptr, use6')"
    and t: "he_addrtype hptr = h_family hs"
    and l: "list_part True rs hs hptr serv use6' = Ok (Inr ais, [], use6')"
    using old_success [OF r host(1,2) serv(1) nu] by metis
  obtain canon where s: "search_one rs (Some host) hs 1 (host, h_family hs) ([], None)
       = Inr (map (host_entry True hs (h_family hs)) (he_addr_list hptr), canon)"
    and c: "has (h_flags hs) AI_CANONNAME \<Longrightarrow> (if canon \<noteq> None then canon else Some host) = Some (he_name hptr)"
    by (rule search_one_same [OF h host(1,3) refl t]) (use fam in auto)
  define ais0 where "ais0 = map (host_entry True hs (h_family hs)) (he_addr_list hptr)"
  define ais1 where "ais1 = (if has (h_flags hs) AI_CANONNAME then set_canon (Some (he_name hptr)) ais0 else ais0)"
  have k: "\<forall>ai \<in> set ais1. known True ai"
    using fam by (auto simp: ais1_def ais0_def set_canon_def known_def host_entry_def Let_def split: list.splits)
  have fin: "if empty serv then ais1 = ais else ga_serv (getservbyname rs) ais1 hs (the serv) = Inr ais"
    using l getaddrinfo_serv_same [OF k, of "the serv" hs "getservbyname rs" ais] serv(2)
    by (auto simp: list_part_def t Let_def ais1_def ais0_def split: if_splits)
  have "ais1 \<noteq> []"
  proof
    assume e: "ais1 = []"
    then have "ga_serv (getservbyname rs) ais1 hs (the serv) \<noteq> Inr ais"
      using ais ga_serv_asked [of "getservbyname rs" ais1 hs "the serv" ais] by auto
    with fin e ais show False by (auto split: if_splits)
  qed
  then have ne: "ais0 \<noteq> []" by (auto simp: ais1_def split: if_splits)
  have path: "host \<noteq> ''/local''" "host \<noteq> ''/unix''" using host(2) by auto
  have n: "ga_nsearch (Some host) hs = Some [(host, h_family hs)]"
    using fam host(1) by (auto simp: ga_nsearch_def searches_for_def)
  have a: "search_all rs (Some host) hs (length [(host, h_family hs)]) [(host, h_family hs)] ([], None) = Inr (ais0, canon)"
    using s by (simp add: ais0_def)
  have cn: "(if \<not> empty (Some host) \<and> has (h_flags hs) AI_CANONNAME
       then set_canon (if canon \<noteq> None then canon else Some (fst (hd [(host, h_family hs)]))) ais0 else ais0) = ais1"
  proof (cases "has (h_flags hs) AI_CANONNAME")
    case True
    show ?thesis using c [OF True] host(1) True unfolding ais1_def by (simp split: if_splits)
  qed (simp add: ais1_def)
  show ?thesis
    unfolding getaddrinfo_def Let_def option.case echeck_old [OF chk host(1)] n a sum.case prod.case cn
    using fin ne path by (simp split: if_splits)
qed

definition demo_names :: resolver where
  "demo_names = no_resolver\<lparr>gethostbyname := (\<lambda>_ h. if h = ''www'' then
       Inr \<lparr>he_name = ''www.example'', he_addrtype = AF_INET, he_addr_list = [[192, 0, 2, 1], [192, 0, 2, 2]]\<rparr>
     else Inl HOST_NOT_FOUND)\<rparr>"

definition demo_hints :: hints where
  "demo_hints = \<lparr>h_flags = AI_CANONNAME, h_family = AF_INET, h_socktype = SOCK_STREAM, h_protocol = 0\<rparr>"

theorem old_getaddrinfo_agrees_witness:
  "\<exists>ais. old_getaddrinfo True demo_names False (Some ''www'') (Some ''80'') (Some demo_hints) = Ok (Inr ais, [], False)
     \<and> length ais = 2 \<and> getaddrinfo demo_names (Some ''www'') (Some ''80'') (Some demo_hints) = (Found ais, [])"
proof -
  have "(case old_getaddrinfo True demo_names False (Some ''www'') (Some ''80'') (Some demo_hints) of
      Ok (Inr ais, un, u) \<Rightarrow> length ais = 2 \<and> un = [] \<and> \<not> u | _ \<Rightarrow> False)" by code_simp
  then have "\<exists>ais. old_getaddrinfo True demo_names False (Some ''www'') (Some ''80'') (Some demo_hints)
     = Ok (Inr ais, [], False) \<and> length ais = 2"
    by (auto split: outcome.splits sum.splits prod.splits) (metis sum.exhaust)
  then obtain ais where r: "old_getaddrinfo True demo_names False (Some ''www'') (Some ''80'') (Some demo_hints)
     = Ok (Inr ais, [], False)" and l: "length ais = 2" by blast
  have "getaddrinfo demo_names (Some ''www'') (Some ''80'') (Some demo_hints) = (Found ais, [])"
    by (rule old_getaddrinfo_agrees [OF r])
      (use l in \<open>auto simp: demo_hints_def HENTBUFSIZ_def isdigit_def SOCK_STREAM_def\<close>)
  with r l show ?thesis by blast
qed

section \<open>Errors\<close>

text \<open>
  C34: The older \<open>getaddrinfo\<close> can report only three errors: that of a service (\<open>EAI_NONAME\<close>,
  \<open>EAI_SERVICE\<close>), and \<open>EAI_SOCKTYPE\<close> for a path. Every other one (bad flags, family or socket type,
  neither a host nor a service, a host whose name is unknown to the resolver and does not look like an
  address or a path, with a service that is no path) makes it free the list through a pointer that it has
  not yet set.
\<close>

theorem old_getaddrinfo_errors:
  "(\<forall>e un u. old_getaddrinfo ipv6 rs use6 host serv hintsptr = Ok (Inl e, un, u)
       \<longrightarrow> e \<in> {EAI_NONAME, EAI_SERVICE, EAI_SOCKTYPE})
   \<and> (old_check ipv6 (old_hints hintsptr) \<noteq> None \<or> empty host \<and> empty serv
       \<longrightarrow> old_getaddrinfo ipv6 rs use6 host serv hintsptr = Undefined)
   \<and> (\<forall>name. host = Some name \<and> name \<noteq> [] \<and> hd name \<noteq> CHR ''/'' \<and> hd name \<noteq> colon \<and> hex_digit (hd name) = None
        \<and> \<not> isdigit (hd name) \<and> (empty serv \<or> hd (the serv) \<noteq> CHR ''/'') \<and> (\<forall>u. isl (gethostbyname rs u name))
       \<longrightarrow> old_getaddrinfo ipv6 rs use6 host serv hintsptr = Undefined)"
proof (intro conjI allI impI)
  fix e un u
  assume r: "old_getaddrinfo ipv6 rs use6 host serv hintsptr = Ok (Inl e, un, u)"
  have port: "getaddrinfo_serv ipv6 gs ais hs sv = Inl e \<Longrightarrow> e \<in> {EAI_NONAME, EAI_SERVICE}" for gs ais hs sv
    by (auto simp: getaddrinfo_serv_def Let_def split: if_splits prod.splits)
  have path: "addrinfo_local p hs = (Inl e, un) \<Longrightarrow> e = EAI_SOCKTYPE" for p hs
    by (auto simp: addrinfo_local_def split: if_splits)
  have list: "list_part ipv6 rs hs hptr serv u' = Ok (Inl e, un, u) \<Longrightarrow> e \<in> {EAI_NONAME, EAI_SERVICE}" for hs hptr u'
    using port by (auto simp: list_part_def Let_def split: if_splits)
  show "e \<in> {EAI_NONAME, EAI_SERVICE, EAI_SOCKTYPE}"
    using r path list
    by (auto simp: old_getaddrinfo_def error_before_list_def Let_def
        split: option.splits sum.splits if_splits prod.splits dest!: list)
next
  assume "old_check ipv6 (old_hints hintsptr) \<noteq> None \<or> empty host \<and> empty serv"
  then show "old_getaddrinfo ipv6 rs use6 host serv hintsptr = Undefined"
    by (auto simp: old_getaddrinfo_def error_before_list_def default_host_def Let_def split: option.splits)
next
  fix name
  assume a: "host = Some name \<and> name \<noteq> [] \<and> hd name \<noteq> CHR ''/'' \<and> hd name \<noteq> colon \<and> hex_digit (hd name) = None
        \<and> \<not> isdigit (hd name) \<and> (empty serv \<or> hd (the serv) \<noteq> CHR ''/'') \<and> (\<forall>u. isl (gethostbyname rs u name))"
  have "\<exists>e u. getaddrinfo_host ipv6 rs use6 name f = (Inl e, u)" for f
  proof -
    have "isl (gethostbyname rs (use6 \<or> ipv6 \<and> f = AF_INET6) name)" using a by blast
    then obtain e where "gethostbyname rs (use6 \<or> ipv6 \<and> f = AF_INET6) name = Inl e" by (auto simp: isl_def)
    then show ?thesis using a by (auto simp: getaddrinfo_host_def Let_def)
  qed
  then have "\<exists>e u. getaddrinfo_host ipv6 rs use6 name (h_family (implied_family ipv6 (old_hints hintsptr) (Some name))) = (Inl e, u)"
    by blast
  with a show "old_getaddrinfo ipv6 rs use6 host serv hintsptr = Undefined"
    by (auto simp: old_getaddrinfo_def error_before_list_def default_host_def Let_def split: option.splits)
qed

theorem old_getaddrinfo_errors_witness:
  "old_getaddrinfo True demo_names False (Some ''nowhere'') None (Some demo_hints) = Undefined
   \<and> old_getaddrinfo True demo_names False None None (Some demo_hints) = Undefined"
  using old_getaddrinfo_errors [of True demo_names False "Some ''nowhere''" None "Some demo_hints"]
    old_getaddrinfo_errors [of True demo_names False None None "Some demo_hints"]
  by (simp add: isl_def demo_names_def hex_digit_def isdigit_def)

text \<open>The family asked for is not looked at where the service is a path, and the path may be cut.\<close>

lemma local_ignores_family:
  assumes "old_check ipv6 hs = None" and "h_family hs = AF_INET" and "h_socktype hs \<noteq> 0"
    and "host \<noteq> []" and "hd host \<noteq> CHR ''/''"
  shows "\<exists>ai un. old_getaddrinfo ipv6 rs use6 (Some host) (Some (CHR ''/'' # path)) (Some hs) = Ok (Inr [ai], un, use6)
     \<and> ai_family ai = AF_UNIX \<and> ai_addr ai = Some (Sun (take 104 (CHR ''/'' # path)))"
  using assms
  by (simp add: old_getaddrinfo_def old_hints_def default_host_def implied_family_def addrinfo_local_def Let_def)

text \<open>\<open>RES_USE_INET6\<close> stays set: a later lookup for IPv4 asks the resolver for mapped addresses.\<close>

lemma use_inet6_stays:
  assumes "old_getaddrinfo ipv6 rs use6 host serv hintsptr = Ok (r, un, use6')" and "use6"
  shows "use6'"
  using assms
  by (auto simp: old_getaddrinfo_def error_before_list_def list_part_def getaddrinfo_host_def Let_def
      split: option.splits sum.splits if_splits prod.splits pton_result.splits)

end
