(* ===== verification/LineLab.thy ===== *)
theory LineLab
  imports StreamIO
begin

text \<open>
  The third lab: the server \<^verbatim>\<open>unpv13e/tcp_server.c\<close>, which passes the lines of its standard input on
  to one client at a time, and the client \<^verbatim>\<open>unpv13e/lab3_client.c\<close>, whose parent process starts up to
  five children that show what the servers on their ports send. The server's \<open>Readline\<close> is that of
  \<open>StreamIO\<close>.
\<close>

abbreviation MAXLINE :: nat where
  "MAXLINE \<equiv> 4096"

section \<open>The server\<close>

text \<open>
  What the standard input is when \<open>select\<close> has waited 3 microseconds for it: not readable, readable
  with what \<open>fgets\<close> gets (and whether that meets the end of the file), or readable at its end.
\<close>

datatype tty = NotReadable | Gets string bool | AtEnd

record line_serv =
  conn :: int
  rbuf :: rline
  kern1 :: kernel
  at_eof :: bool
  writes :: "(int \<times> string) list"

datatype 's turn = Served 's | Disconnected 's | ShutDown 's | Fails

definition serve_stdin :: "tty \<Rightarrow> line_serv \<Rightarrow> line_serv turn" where
  "serve_stdin inp s =
     (case inp of
        Gets str eof \<Rightarrow>
          Served (s\<lparr>writes := writes s @ [(conn s, cstr (take 511 str))], at_eof := at_eof s \<or> eof\<rparr>)
      | AtEnd \<Rightarrow> Served (s\<lparr>writes := writes s @ [(conn s, [])], at_eof := True\<rparr>)
      | NotReadable \<Rightarrow>
          if at_eof s then ShutDown (s\<lparr>writes := writes s @ [(conn s, [nul, nul])]\<rparr>)
          else Served s)"

text \<open>One turn of the inner loop: \<open>Readline\<close> first (an error ends the process), then the input.\<close>

definition serve_turn :: "tty \<Rightarrow> line_serv \<Rightarrow> line_serv turn" where
  "serve_turn inp s =
     (case readline (conn s) MAXLINE (rbuf s, kern1 s) of
        (n, line, rl, k) \<Rightarrow>
          let s1 = s\<lparr>rbuf := rl, kern1 := k\<rparr> in
          if n < 0 then Fails
          else if n = 0 then Disconnected s1
          else serve_stdin inp s1)"

text \<open>The inner loop; how many of the inputs were looked at comes with the result.\<close>

fun serve :: "tty list \<Rightarrow> line_serv \<Rightarrow> nat \<times> line_serv turn" where
  "serve [] s = (0, Served s)"
| "serve (inp # inps) s =
     (case serve_turn inp s of
        Served s1 \<Rightarrow> (case serve inps s1 of (n, r) \<Rightarrow> (Suc n, r))
      | ShutDown s1 \<Rightarrow> (1, ShutDown s1)
      | Disconnected s1 \<Rightarrow> (0, Disconnected s1)
      | Fails \<Rightarrow> (0, Fails))"

text \<open>The outer loop: the descriptors \<open>accept\<close> returns, one after the other; a shutdown ends it.\<close>

fun serve_all :: "(int \<times> tty list) list \<Rightarrow> line_serv \<Rightarrow> line_serv turn" where
  "serve_all [] s = Served s"
| "serve_all ((fd, inps) # rest) s =
     (case snd (serve inps (s\<lparr>conn := fd\<rparr>)) of
        Disconnected s1 \<Rightarrow> serve_all rest s1
      | r \<Rightarrow> r)"

section \<open>The client\<close>

text \<open>
  One turn of \<open>str_client\<close>: whether \<open>write\<close> of the two bytes \<open>"a"\<close> gets through (otherwise \<open>SIGPIPE\<close>
  ends the process), and, if \<open>select\<close> finds the socket readable, what \<open>recvfrom\<close> delivers (\<open>Some None\<close>
  is an error). The port is not negative.
\<close>

record cli_ev =
  write_ok :: bool
  select_fails :: bool
  recvs :: "string option option"

datatype cli_turn = Next string | Closed string | Killed

definition ping_bytes :: string where
  "ping_bytes = [CHR ''a'', nul]"

definition show_line :: "nat \<Rightarrow> string \<Rightarrow> string" where
  "show_line prt buf =
     CHR ''>'' # dec prt @ CHR '' '' # (if length buf > 1 \<and> hd buf = nl then cstr (tl buf) else cstr buf)"

definition closed_text :: "nat \<Rightarrow> nat \<Rightarrow> string" where
  "closed_text n prt =
     ''n = '' @ dec n @ nl # ''server '' @ dec prt @ '' closed'' @ [nl]"

definition client_turn :: "nat \<Rightarrow> cli_ev \<Rightarrow> cli_turn outcome" where
  "client_turn prt ev =
     (if \<not> write_ok ev \<or> select_fails ev then Ok Killed
      else case recvs ev of
          None \<Rightarrow> Ok (Next [])
        | Some None \<Rightarrow> Undefined
        | Some (Some buf) \<Rightarrow>
            if length buf > 1 \<and> buf ! 0 = nul then
              (if buf ! 1 = nul then Ok (Closed (closed_text (length buf) prt)) else Ok (Next []))
            else if length buf \<ge> MAXLINE then Undefined
            else Ok (Next (show_line prt buf)))"

text \<open>The loop: what was printed, what was sent, and whether it still runs.\<close>

fun str_client :: "nat \<Rightarrow> cli_ev list \<Rightarrow> (string \<times> string \<times> bool) outcome" where
  "str_client prt [] = Ok ([], [], True)"
| "str_client prt (ev # evs) =
     (let sent = (if write_ok ev then ping_bytes else []) in
      bind_outcome (client_turn prt ev) (\<lambda>r. case r of
          Killed \<Rightarrow> Ok ([], sent, False)
        | Closed t \<Rightarrow> Ok (t, sent, False)
        | Next t \<Rightarrow> bind_outcome (str_client prt evs) (\<lambda>(ts, more, b). Ok (t @ ts, sent @ more, b))))"

section \<open>The client's parent\<close>

text \<open>
  The parent reads ports with \<open>fscanf\<close>, whose result it ignores: without a number \<open>port\<close> stays what
  it was (\<open>None\<close>: not initialised). \<open>handler\<close> runs when \<open>SIGCHLD\<close> is delivered; signals of children
  that end before that are merged into one. \<open>alive\<close> and \<open>pending\<close> are what the kernel knows.
\<close>

record parent =
  count1 :: int
  port :: "int option"
  forked :: "int option list"
  alive :: nat
  pending :: bool

definition parent_start :: parent where
  "parent_start = \<lparr>count1 = 0, port = None, forked = [], alive = 0, pending = False\<rparr>"

datatype parent_ev = Scans "int option" | ChildEnds | Sigchld

definition handler :: "parent \<Rightarrow> parent" where
  "handler p = p\<lparr>count1 := count1 p - 1\<rparr>"

definition scan_step :: "int option \<Rightarrow> parent \<Rightarrow> parent" where
  "scan_step inp p =
     (let p1 = (case inp of None \<Rightarrow> p | Some n \<Rightarrow> p\<lparr>port := Some n\<rparr>) in
      if count1 p1 \<ge> 5 then p1
      else p1\<lparr>count1 := count1 p1 + 1, forked := forked p1 @ [port p1], alive := alive p1 + 1\<rparr>)"

fun parent_step :: "parent_ev \<Rightarrow> parent \<Rightarrow> parent" where
  "parent_step (Scans inp) p = scan_step inp p"
| "parent_step ChildEnds p = (if alive p = 0 then p else p\<lparr>alive := alive p - 1, pending := True\<rparr>)"
| "parent_step Sigchld p = (if pending p then handler (p\<lparr>pending := False\<rparr>) else p)"

definition parent_run :: "parent_ev list \<Rightarrow> parent" where
  "parent_run evs = fold parent_step evs parent_start"

section \<open>Five children at most\<close>

definition parent_ok :: "parent \<Rightarrow> bool" where
  "parent_ok p \<longleftrightarrow> int (alive p) + (if pending p then 1 else 0) \<le> count1 p \<and> count1 p \<le> 5"

lemma parent_step_ok: "parent_ok p \<Longrightarrow> parent_ok (parent_step e p)"
proof (cases e)
  case (Scans inp)
  assume "parent_ok p"
  then show ?thesis
    by (cases inp) (auto simp: Scans scan_step_def Let_def parent_ok_def)
qed (auto simp: parent_ok_def handler_def split: if_splits)

lemma parent_run_ok: "parent_ok (parent_run evs)"
proof -
  have "parent_ok p \<Longrightarrow> parent_ok (fold parent_step evs p)" for p
    by (induction evs arbitrary: p) (auto intro: parent_step_ok)
  then show ?thesis by (simp add: parent_run_def parent_ok_def parent_start_def)
qed

text \<open>
  Two children that end before the parent handles the signal cost a place for ever: after one signal
  the parent counts one of them still.
\<close>

lemma merged_signals_lose_a_place:
  "alive (parent_run [Scans (Some 9877), Scans (Some 9878), ChildEnds, ChildEnds, Sigchld, Sigchld]) = 0
   \<and> count1 (parent_run [Scans (Some 9877), Scans (Some 9878), ChildEnds, ChildEnds, Sigchld, Sigchld]) = 1"
  by code_simp

text \<open>At the end of its input the parent starts children for the last port until there are five.\<close>

lemma end_of_input_forks:
  "forked (parent_run (Scans (Some 9877) # replicate 7 (Scans None))) = replicate 5 (Some 9877)"
  by code_simp

section \<open>The line reader on a connection\<close>

lemma first_line_no_nl: "nl \<notin> set (first_line b) \<Longrightarrow> first_line b = b"
  by (induction b) (auto split: if_splits)

lemma first_line_take_all:
  "nl \<notin> set (first_line (take k b)) \<Longrightarrow> length (first_line (take k b)) = min (length b) k"
  using first_line_no_nl [of "take k b"] by simp

text \<open>A source whose end is final, and does not fail: once it has ended it goes on ending.\<close>

locale steady_source = char_source +
  assumes getc_Eof_stays: "ok s \<Longrightarrow> getc s = (Eof, s') \<Longrightarrow> pending s' = ([], AtEof)"
    and never_fails: "ok s \<Longrightarrow> snd (pending s) = AtEof"
begin

lemma line_loop_rest:
  "ok s \<Longrightarrow> pending s = (b, AtEof) \<Longrightarrow> line_loop getc k n ptr s = (r, out, s') \<Longrightarrow>
     pending s' = (drop (length (first_line (take k b))) b, AtEof)"
proof (induction k arbitrary: n ptr s b)
  case (Suc k)
  obtain x s1 where x: "getc s = (x, s1)" by (cases "getc s")
  show ?case
  proof (cases x)
    case (Char c)
    obtain b1 where b1: "pending s1 = (b1, AtEof)" "b = c # b1"
      using getc_Char [OF Suc.prems(1) x [unfolded Char]] Suc.prems(2) by (cases "pending s1") auto
    have ok1: "ok s1" using ok_getc [OF Suc.prems(1) x] .
    show ?thesis
    proof (cases "c = nl")
      case True
      with Suc.prems x Char b1 show ?thesis by auto
    next
      case False
      with Suc.prems x Char have "line_loop getc k (n + 1) (ptr @ [c]) s1 = (r, out, s')" by simp
      from Suc.IH [OF ok1 b1(1) this] show ?thesis using False b1(2) by simp
    qed
  next
    case Eof
    with Suc.prems x getc_Eof [of s s1] getc_Eof_stays [of s s1] show ?thesis by auto
  next
    case Err
    with Suc.prems x getc_Err [of s s1] show ?thesis by auto
  qed
qed simp

text \<open>A call whose source never fails: its value counts the characters it took, and one too many
  where it had to stop at \<open>maxlen\<close>.\<close>

lemma line_loop_taken:
  assumes "ok s" and "pending s = (b, AtEof)" and "line_loop getc k 1 [] s = (r, out, s')"
  shows "ok s' \<and> out = first_line (take k b) \<and> pending s' = (drop (length out) b, AtEof)
    \<and> r = int (length out) + (if nl \<notin> set out \<and> k \<le> length b then 1 else 0)"
  using line_loop_spec [OF assms] line_loop_rest [OF assms] first_line_take_all [of k b] by (auto simp: Let_def)

end

text \<open>Connections whose data arrives without errors until the other side closes its end.\<close>

definition clean_events :: "event list \<Rightarrow> bool" where
  "clean_events es \<longleftrightarrow> Data [] \<notin> set es \<and> Failure \<notin> set es"

definition clean :: "int \<Rightarrow> 'a rline_scheme \<times> kernel \<Rightarrow> bool" where
  "clean fd s \<longleftrightarrow> rl_ok s \<and> clean_events (snd s fd)"

lemma clean_stream: "clean_events es \<Longrightarrow> snd (stream es) = AtEof"
  by (induction es rule: stream.induct) (auto simp: clean_events_def)

lemma clean_sys_read:
  assumes "sys_read k fd 4096 = (x, k')" and "clean_events (k fd)"
  shows "clean_events (k' fd) \<and> x \<noteq> Eother \<and> (x = Got [] \<longrightarrow> k' fd = [])"
  using assms by (auto simp: sys_read_def clean_events_def split: list.splits event.splits if_splits)

lemma clean_read_again:
  "read_again k fd = (x, k') \<Longrightarrow> clean_events (k fd) \<Longrightarrow>
     clean_events (k' fd) \<and> x \<noteq> None \<and> (x = Some [] \<longrightarrow> k' fd = [])"
proof (induction k fd arbitrary: x rule: read_again.induct)
  case (1 k fd)
  obtain y k1 where y: "sys_read k fd 4096 = (y, k1)" by (cases "sys_read k fd 4096")
  note c = clean_sys_read [OF y "1.prems"(2)]
  show ?case
  proof (cases y)
    case Eintr
    with "1.prems"(1) y have "read_again k1 fd = (x, k')" by (simp add: read_again.simps [of k fd])
    from "1.IH" [OF y [symmetric] Eintr this] c show ?thesis by simp
  qed (use "1.prems"(1) y c in \<open>auto simp: read_again.simps [of k fd]\<close>)
qed

lemma clean_my_read:
  assumes "clean fd s" and "my_read fd s = (x, s')"
  shows "clean fd s' \<and> (x = Eof \<longrightarrow> rl_pending fd s' = ([], AtEof))"
proof -
  obtain r k where s: "s = (r, k)" by (cases s)
  have ok: "rl_ok s'" using assms lib.ok_getc [of s fd x s'] by (simp add: clean_def)
  show ?thesis
  proof (cases "rl_cnt r \<le> 0")
    case True
    obtain y k1 where y: "read_again k fd = (y, k1)" by (cases "read_again k fd")
    have "clean_events (k fd)" using assms(1) s by (simp add: clean_def)
    note c = clean_read_again [OF y this]
    have k: "snd s' = k1" and e: "x = Eof \<longrightarrow> y = Some [] \<and> rl_cnt (fst s') = 0"
      using assms(2) s True y c by (auto simp: my_read_def take_char_def split: option.splits if_splits)
    have "x = Eof \<longrightarrow> rl_pending fd s' = ([], AtEof)"
      using k e c by (cases s') (auto simp: rl_pending_def)
    with ok k c show ?thesis by (simp add: clean_def)
  next
    case False
    with assms s ok show ?thesis by (auto simp: my_read_def take_char_def clean_def)
  qed
qed

interpretation conn: steady_source "my_read fd" "clean fd" "rl_pending fd" for fd
proof
  fix s s' :: "'a rline_scheme \<times> kernel" and x c
  assume c: "clean fd s"
  then have ok: "rl_ok s" by (simp add: clean_def)
  show "snd (rl_pending fd s) = AtEof"
    using c by (cases s) (simp add: clean_def rl_pending_def clean_stream)
  show "my_read fd s = (x, s') \<Longrightarrow> clean fd s'" using clean_my_read [OF c] by simp
  show "my_read fd s = (Char c, s') \<Longrightarrow> rl_pending fd s = (c # fst (rl_pending fd s'), snd (rl_pending fd s'))"
    by (rule lib.getc_Char [OF ok])
  show "my_read fd s = (Eof, s') \<Longrightarrow> rl_pending fd s = ([], AtEof)" by (rule lib.getc_Eof [OF ok])
  show "my_read fd s = (Err, s') \<Longrightarrow> rl_pending fd s = ([], AtFailure)" by (rule lib.getc_Err [OF ok])
  show "my_read fd s = (Eof, s') \<Longrightarrow> rl_pending fd s' = ([], AtEof)" using clean_my_read [OF c] by simp
qed

section \<open>One line of input for each line of the client\<close>
















section \<open>The end of the server\<close>

text \<open>
  The two NULs by which the server says that it ends are looked for only at the start of what
  \<open>recvfrom\<close> delivers: alone they end the client, behind a line they are lost, and the client then
  prints its prompt for ever, each time \<open>recvfrom\<close> returns 0.
\<close>

lemma shutdown_seen:
  "str_client prt [\<lparr>write_ok = True, select_fails = False, recvs = Some (Some [nul, nul])\<rparr>]
     = Ok (closed_text 2 prt, ping_bytes, False)"
  by (simp add: client_turn_def numeral_2_eq_2)

lemma at_end_prints:
  "str_client prt (replicate m \<lparr>write_ok = True, select_fails = False, recvs = Some (Some [])\<rparr>)
     = Ok (concat (replicate m (CHR ''>'' # dec prt @ '' '')), concat (replicate m ping_bytes), True)"
  by (induction m) (simp_all add: client_turn_def show_line_def cstr_def)

lemma shutdown_lost:
  assumes "l \<noteq> []" and "hd l \<noteq> nul" and "length l < 4094"
  shows "str_client prt (\<lparr>write_ok = True, select_fails = False, recvs = Some (Some (l @ [nul, nul]))\<rparr>
      # replicate m \<lparr>write_ok = True, select_fails = False, recvs = Some (Some [])\<rparr>)
    = Ok (show_line prt (l @ [nul, nul]) @ concat (replicate m (CHR ''>'' # dec prt @ '' '')),
          concat (replicate (Suc m) ping_bytes), True)"
proof -
  have "(l @ [nul, nul]) ! 0 = hd l" using assms(1) by (cases l) simp_all
  with assms show ?thesis by (simp add: client_turn_def at_end_prints del: replicate_Suc) simp
qed

end
