(* ===== verification/IfConf.thy ===== *)
theory IfConf
  imports RouteSock
begin

text \<open>
  \<open>get_ifi_info\<close> with \<open>ioctl\<close> (\<^verbatim>\<open>unpv13e/lib/get_ifi_info.c\<close>), on the system the repository was
  configured for: socket addresses with their length in the first byte, link addresses among the
  others, a \<open>struct ifreq\<close> of 32 bytes. What the kernel answers is a record of functions. Pointers into
  the buffer are offsets.
\<close>

section \<open>The buffer\<close>

text \<open>
  What \<open>SIOCGIFCONF\<close> does with a buffer of a length, at the i-th call: fill it, fail with \<open>EINVAL\<close> or
  with another error. The loop need not end; \<open>Some None\<close> is the end of the process by \<open>err_sys\<close>.
\<close>

datatype conf_res = Conf "byte list" | Einval | Efails

partial_function (option) conf_loop :: "(nat \<Rightarrow> nat \<Rightarrow> conf_res) \<Rightarrow> nat \<Rightarrow> nat \<Rightarrow> nat \<Rightarrow> byte list option option" where
  "conf_loop conf i lastlen len =
     (case conf i len of
        Efails \<Rightarrow> Some None
      | Einval \<Rightarrow> if lastlen \<noteq> 0 then Some None else conf_loop conf (Suc i) lastlen (len + 10 * 32)
      | Conf bs \<Rightarrow> if length bs = lastlen then Some (Some bs)
                   else conf_loop conf (Suc i) (length bs) (len + 10 * 32))"

definition conf_buf :: "(nat \<Rightarrow> nat \<Rightarrow> conf_res) \<Rightarrow> byte list option option" where
  "conf_buf conf = conf_loop conf 0 0 (100 * 32)"

section \<open>One entry\<close>

abbreviation BSD_INET :: byte where "BSD_INET \<equiv> 2"
abbreviation BSD_INET6 :: byte where "BSD_INET6 \<equiv> 30"
abbreviation colon_byte :: byte where "colon_byte \<equiv> 58"

text \<open>The other requests, by the name in \<open>ifrcopy\<close>; \<open>None\<close> is a failure, which ends the process.\<close>

record if_kernel =
  k_flags :: "byte list \<Rightarrow> nat option"
  k_mtu :: "byte list \<Rightarrow> 32 word option"
  k_brdaddr :: "byte list \<Rightarrow> byte list option"
  k_dstaddr :: "byte list \<Rightarrow> byte list option"

record net_info = ifi_info +
  ifi_mtu :: "16 word"
  ifi_myflags :: nat

definition IFI_ALIAS :: nat where "IFI_ALIAS = 1"

text \<open>
  The state of the loop: the buffer (a colon in a name is overwritten), the name last seen, the link
  address last seen (its name and its bytes by their offsets) and the list.
\<close>

record conf_st =
  cbuf :: "byte list"
  lastname :: "byte list"
  sdlname :: "nat option"
  idx :: "16 word"
  haddr :: nat
  hlen :: nat
  infos :: "net_info list"

definition name_at :: "byte list \<Rightarrow> nat \<Rightarrow> byte list" where
  "name_at buf p = takeWhile (\<lambda>b. b \<noteq> 0) (take 16 (drop p buf))"

definition conf_start :: "byte list \<Rightarrow> conf_st" where
  "conf_start buf = \<lparr>cbuf = buf, lastname = [], sdlname = None, idx = 0, haddr = 0, hlen = 0, infos = []\<rparr>"

definition see_link :: "nat \<Rightarrow> conf_st \<Rightarrow> conf_st" where
  "see_link ptr s =
     (if sa_fam (cbuf s) (ptr + 16) = AF_LINK then
        s\<lparr>sdlname := Some ptr, idx := sdl_index (cbuf s) (ptr + 16),
          haddr := ptr + 24 + sdl_nlen (cbuf s) (ptr + 16), hlen := sdl_alen (cbuf s) (ptr + 16)\<rparr>
      else s)"

text \<open>\<open>strchr\<close> for the colon, and the NUL in its place.\<close>

definition cut_colon :: "nat \<Rightarrow> byte list \<Rightarrow> byte list" where
  "cut_colon ptr buf =
     (let name = name_at buf ptr in
      if colon_byte \<in> set name then buf[ptr + length (takeWhile (\<lambda>b. b \<noteq> colon_byte) name) := 0] else buf)"

text \<open>The hardware address of the entry: at most 8 bytes are copied.\<close>

definition set_link :: "nat \<Rightarrow> conf_st \<Rightarrow> net_info \<Rightarrow> (conf_st \<times> net_info) outcome" where
  "set_link ptr s ifi =
     (let fits = (case sdlname s of None \<Rightarrow> False | Some p \<Rightarrow> name_at (cbuf s) p = name_at (cbuf s) ptr);
          s1 = (if fits then s else s\<lparr>idx := 0, hlen := 0\<rparr>);
          n = min 8 (hlen s1);
          hw = take n (drop (haddr s1) (cbuf s1)) in
      if hlen s1 \<noteq> 0 \<and> length hw < n then Undefined
      else Ok (s1, ifi\<lparr>ifi_index := idx s1, ifi_hlen := n, ifi_haddr := hw @ drop n (ifi_haddr ifi)\<rparr>))"

text \<open>
  The addresses. \<open>ifr_dstaddr\<close> in \<open>ifrcopy\<close> has 16 bytes, but for IPv6 28 are copied from it.
\<close>

definition set_entry_addrs ::
  "if_kernel \<Rightarrow> byte list \<Rightarrow> byte list \<Rightarrow> nat \<Rightarrow> nat \<Rightarrow> net_info \<Rightarrow> net_info option outcome" where
  "set_entry_addrs ks name buf ptr flags ifi =
     (let fam = sa_fam buf (ptr + 16) in
      if fam = BSD_INET then
        let ifi1 = ifi\<lparr>ifi_addr := Some (take 16 (drop (ptr + 16) buf))\<rparr> in
        case (if iff_broadcast flags then map_option Some (k_brdaddr ks name) else Some None) of
          None \<Rightarrow> Ok None
        | Some b \<Rightarrow>
            (case (if iff_pointopoint flags then map_option Some (k_dstaddr ks name) else Some None) of
               None \<Rightarrow> Ok None
             | Some d \<Rightarrow> Ok (Some (ifi1\<lparr>ifi_brdaddr := b, ifi_dstaddr := d\<rparr>)))
      else if fam = BSD_INET6 then
        if length buf < ptr + 16 + 28 then Undefined
        else if iff_pointopoint flags then
          (case k_dstaddr ks name of None \<Rightarrow> Ok None | Some d \<Rightarrow> Undefined)
        else Ok (Some (ifi\<lparr>ifi_addr := Some (take 28 (drop (ptr + 16) buf))\<rparr>))
      else Ok (Some ifi))"

definition net_zero :: net_info where
  "net_zero = ifi_info.extend ifi_zero \<lparr>ifi_mtu = 0, ifi_myflags = 0\<rparr>"

text \<open>The part for an entry of the family, with the flags of its interface, which is up.\<close>

definition new_entry ::
  "if_kernel \<Rightarrow> nat \<Rightarrow> nat \<Rightarrow> nat \<Rightarrow> conf_st \<Rightarrow> conf_st option outcome" where
  "new_entry ks ptr flags myflags s =
     (let name = name_at (cbuf s) ptr in
      case k_mtu ks name of
        None \<Rightarrow> Ok None
      | Some mtu \<Rightarrow>
          bind_outcome (set_link ptr s (net_zero\<lparr>ifi_flags := word_of_nat flags, ifi_myflags := myflags,
              ifi_mtu := ucast mtu, ifi_name := take 15 name\<rparr>)) (\<lambda>(s1, ifi).
          bind_outcome (set_entry_addrs ks name (cbuf s1) ptr flags ifi) (\<lambda>r.
            Ok (map_option (\<lambda>ifi'. s1\<lparr>infos := infos s1 @ [ifi']\<rparr>) r))))"

definition conf_entry :: "if_kernel \<Rightarrow> byte \<Rightarrow> bool \<Rightarrow> nat \<Rightarrow> conf_st \<Rightarrow> conf_st option outcome" where
  "conf_entry ks family doaliases ptr s =
     (let s1 = see_link ptr s in
      if sa_fam (cbuf s1) (ptr + 16) \<noteq> family then Ok (Some s1)
      else if 0 \<notin> set (take 16 (drop ptr (cbuf s1))) then Undefined
      else
        let s2 = s1\<lparr>cbuf := cut_colon ptr (cbuf s1)\<rparr>;
            name = name_at (cbuf s2) ptr;
            seen = (lastname s2 = name);
            s3 = s2\<lparr>lastname := name\<rparr> in
        if seen \<and> \<not> doaliases then Ok (Some s2)
        else
          (case k_flags ks name of
             None \<Rightarrow> Ok None
           | Some flags \<Rightarrow>
               if \<not> iff_up flags then Ok (Some s3)
               else new_entry ks ptr flags (if seen then IFI_ALIAS else 0) s3))"

section \<open>All of them\<close>

function conf_walk :: "if_kernel \<Rightarrow> byte \<Rightarrow> bool \<Rightarrow> nat \<Rightarrow> nat \<Rightarrow> conf_st \<Rightarrow> conf_st option outcome" where
  "conf_walk ks family doaliases n ptr s =
     (if ptr < n then
        if n < ptr + 32 then Undefined
        else bind_outcome (conf_entry ks family doaliases ptr s) (\<lambda>r.
               case r of
                 None \<Rightarrow> Ok None
               | Some s' \<Rightarrow> conf_walk ks family doaliases n (ptr + 16 + max 16 (unat (cbuf s ! (ptr + 16)))) s')
      else Ok (Some s))"
  by pat_completeness auto
termination by (relation "measure (\<lambda>(_, _, _, n, ptr, _). n - ptr)") auto

declare conf_walk.simps [simp del]

text \<open>The result: the outer \<open>None\<close> where the loop does not end, the inner one where the process does.\<close>

definition get_ifi_info_ioctl ::
  "(nat \<Rightarrow> nat \<Rightarrow> conf_res) \<Rightarrow> if_kernel \<Rightarrow> byte \<Rightarrow> bool \<Rightarrow> net_info list option outcome option" where
  "get_ifi_info_ioctl conf ks family doaliases =
     map_option (\<lambda>r. case r of
         None \<Rightarrow> Ok None
       | Some buf \<Rightarrow> bind_outcome (conf_walk ks family doaliases (length buf) 0 (conf_start buf))
                       (\<lambda>s. Ok (map_option infos s)))
     (conf_buf conf)"

section \<open>The whole list is read\<close>

text \<open>The entries that fit into a buffer.\<close>

fun fitting :: "nat \<Rightarrow> byte list list \<Rightarrow> byte list list" where
  "fitting n [] = []"
| "fitting n (e # es) = (if length e \<le> n then e # fitting (n - length e) es else [])"

text \<open>
  Kernels whose interfaces stay the same: one fails with \<open>EINVAL\<close> when not all entries fit, the other
  returns those that fit.
\<close>

definition stable :: "bool \<Rightarrow> byte list list \<Rightarrow> nat \<Rightarrow> nat \<Rightarrow> conf_res" where
  "stable strict es i len =
     (if length (concat es) \<le> len then Conf (concat es)
      else if strict then Einval else Conf (concat (fitting len es)))"

lemma fitting_all: "length (concat es) \<le> n \<Longrightarrow> fitting n es = es"
  by (induction es arbitrary: n) auto

lemma fitting_grows:
  "\<forall>e \<in> set es. 0 < length e \<and> length e \<le> d \<Longrightarrow> fitting n es \<noteq> es \<Longrightarrow>
     length (concat (fitting n es)) < length (concat (fitting (n + d) es))"
proof (induction es arbitrary: n)
  case (Cons e es)
  show ?case
  proof (cases "length e \<le> n")
    case True
    then have eq: "n + d - length e = (n - length e) + d" by simp
    have "fitting (n + d) (e # es) = e # fitting ((n - length e) + d) es"
      unfolding fitting.simps eq using True by simp
    moreover have "length (concat (fitting (n - length e) es)) < length (concat (fitting ((n - length e) + d) es))"
      by (rule Cons.IH) (use Cons.prems True in auto)
    ultimately show ?thesis using True by (simp only: fitting.simps(2) [of n] if_True concat.simps length_append)
  qed (use Cons.prems in auto)
qed simp

lemma conf_loop_step:
  "conf i len = Conf bs \<Longrightarrow> conf_loop conf i lastlen len
     = (if length bs = lastlen then Some (Some bs) else conf_loop conf (Suc i) (length bs) (len + 320))"
  "conf i len = Einval \<Longrightarrow> conf_loop conf i 0 len = conf_loop conf (Suc i) 0 (len + 320)"
  by (subst conf_loop.simps, simp)+

lemma stable_loose: "stable False es i len = Conf (concat (fitting len es))"
  by (simp add: stable_def fitting_all)

lemma stable_strict: "stable True es i len = (if length (concat es) \<le> len then Conf (concat es) else Einval)"
  by (simp add: stable_def)

lemma loose_step:
  "conf_loop (stable False es) i lastlen len =
     (if length (concat (fitting len es)) = lastlen then Some (Some (concat (fitting len es)))
      else conf_loop (stable False es) (Suc i) (length (concat (fitting len es))) (len + 320))"
  by (rule conf_loop_step(1)) (rule stable_loose)

lemma strict_fits:
  assumes "length (concat es) \<le> len"
  shows "conf_loop (stable True es) i 0 len = Some (Some (concat es))"
proof -
  have s: "stable True es j len = Conf (concat es)" "stable True es j (len + 320) = Conf (concat es)" for j
    using assms by (simp_all add: stable_strict)
  show ?thesis
    by (simp add: conf_loop_step(1) [where conf = "stable True es", OF s(1)]
        conf_loop_step(1) [where conf = "stable True es", OF s(2)] del: length_concat)
qed

lemma conf_loop_strict:
  "length (concat es) \<le> len + 320 * k \<Longrightarrow> conf_loop (stable True es) i 0 len = Some (Some (concat es))"
proof (induction k arbitrary: i len)
  case (Suc k)
  show ?case
  proof (cases "length (concat es) \<le> len")
    case False
    then have "stable True es i len = Einval" by (simp add: stable_strict)
    with Suc.IH [of "len + 320" "Suc i"] Suc.prems show ?thesis
      by (simp add: conf_loop_step(2) [where conf = "stable True es"] del: length_concat)
  qed (rule strict_fits)
qed (simp add: strict_fits)

lemma conf_loop_loose:
  assumes "\<forall>e \<in> set es. 0 < length e \<and> length e \<le> 320"
  shows "length (concat es) \<le> len + 320 * k \<Longrightarrow>
     conf_loop (stable False es) i (length (concat (fitting len es))) (len + 320) = Some (Some (concat es))"
proof (induction k arbitrary: i len)
  case 0
  then have "fitting len es = es" "fitting (len + 320) es = es" by (simp_all add: fitting_all)
  with loose_step [of es i _ "len + 320"] show ?case by simp
next
  case (Suc k)
  show ?case
  proof (cases "fitting len es = es")
    case True
    have "length (concat (fitting m xs)) \<le> m" for m and xs :: "byte list list"
      by (induction m xs rule: fitting.induct) auto
    then have "length (concat es) \<le> len" using True by metis
    then have "fitting (len + 320) es = es" by (simp add: fitting_all)
    with True loose_step [of es i _ "len + 320"] show ?thesis by simp
  next
    case False
    have "length (concat (fitting (len + 320) es)) \<noteq> length (concat (fitting len es))"
      using fitting_grows [OF assms False] by simp
    moreover have "length (concat es) \<le> len + 320 + 320 * k" using Suc.prems by simp
    note Suc.IH [OF this, of "Suc i"]
    ultimately show ?thesis
      using loose_step [of es i _ "len + 320"] by (simp del: length_concat)
  qed
qed

lemma conf_buf_stable:
  assumes "\<forall>e \<in> set es. 0 < length e \<and> length e \<le> 320"
  shows "conf_buf (stable strict es) = Some (Some (concat es))"
proof (cases strict)
  case True
  have "length (concat es) \<le> 100 * 32 + 320 * length (concat es)" by simp
  from conf_loop_strict [OF this] True show ?thesis by (simp add: conf_buf_def)
next
  case False
  note first = loose_step [of es 0 0 3200]
  show ?thesis
  proof (cases es)
    case Nil
    with False first show ?thesis by (simp add: conf_buf_def)
  next
    case (Cons e r)
    then have "fitting 3200 es = e # fitting (3200 - length e) r" using assms by auto
    then have ne: "(length (concat (fitting 3200 es)) = 0) = False" using assms Cons by auto
    have "length (concat es) \<le> 3200 + 320 * length (concat es)" by simp
    from conf_loop_loose [OF assms this, of "Suc 0"]
    have "conf_loop (stable False es) 0 0 3200 = Some (Some (concat es))" unfolding first ne if_False .
    then show ?thesis using False by (simp add: conf_buf_def)
  qed
qed

section \<open>Entries of a kernel\<close>

text \<open>An interface: its link address, and its addresses with what follows its name in their entries.\<close>

record netif =
  n_index :: "16 word"
  n_name :: "byte list"
  n_mac :: "byte list"
  n_addrs :: "(byte list \<times> byte list) list"

definition entry_bytes :: "byte list \<Rightarrow> byte list \<Rightarrow> byte list" where
  "entry_bytes nm sa = nm @ replicate (16 - length nm) 0 @ sa @ replicate (16 - length sa) 0"

definition entry_ok :: "byte list \<Rightarrow> byte list \<Rightarrow> bool" where
  "entry_ok nm sa \<longleftrightarrow> length nm \<le> 15 \<and> 0 \<notin> set nm \<and> 2 \<le> length sa \<and> unat (sa ! 0) = length sa"

definition netif_ok :: "netif \<Rightarrow> bool" where
  "netif_ok i \<longleftrightarrow> n_name i \<noteq> [] \<and> colon_byte \<notin> set (n_name i) \<and> length (n_mac i) \<le> 8
     \<and> entry_ok (n_name i) (sdl_bytes (n_index i) (n_name i) (n_mac i))
     \<and> (\<forall>(sf, sa) \<in> set (n_addrs i). entry_ok (n_name i @ sf) sa \<and> (sf = [] \<or> hd sf = colon_byte)
          \<and> sa ! 1 \<noteq> AF_LINK \<and> (sa ! 1 = BSD_INET \<longrightarrow> length sa = 16))"

definition addr_entries :: "netif \<Rightarrow> (byte list \<times> byte list) list \<Rightarrow> byte list list" where
  "addr_entries i addrs = map (\<lambda>(sf, sa). entry_bytes (n_name i @ sf) sa) addrs"

definition netif_entries :: "netif \<Rightarrow> byte list list" where
  "netif_entries i =
     entry_bytes (n_name i) (sdl_bytes (n_index i) (n_name i) (n_mac i)) # addr_entries i (n_addrs i)"

lemma length_entry: "entry_ok nm sa \<Longrightarrow> length (entry_bytes nm sa) = 16 + max 16 (length sa)"
  by (simp add: entry_ok_def entry_bytes_def)

lemma entry_fields:
  assumes "entry_ok nm sa"
  shows "(A @ entry_bytes nm sa @ post) ! (length A + 16) = sa ! 0"
    and "sa_fam (A @ entry_bytes nm sa @ post) (length A + 16) = sa ! 1"
    and "take 16 (drop (length A) (A @ entry_bytes nm sa @ post)) = nm @ replicate (16 - length nm) 0"
    and "name_at (A @ entry_bytes nm sa @ post) (length A) = nm"
    and "drop (length A + 16) (A @ entry_bytes nm sa @ post) = sa @ replicate (16 - length sa) 0 @ post"
proof -
  have l: "length nm \<le> 15" "2 \<le> length sa" "0 \<notin> set nm" using assms by (simp_all add: entry_ok_def)
  then show n: "take 16 (drop (length A) (A @ entry_bytes nm sa @ post)) = nm @ replicate (16 - length nm) 0"
    by (simp add: entry_bytes_def)
  show "name_at (A @ entry_bytes nm sa @ post) (length A) = nm"
    unfolding name_at_def n using l by (subst takeWhile_append2) (auto simp: takeWhile_eq_Nil_iff hd_replicate)
  show d: "drop (length A + 16) (A @ entry_bytes nm sa @ post) = sa @ replicate (16 - length sa) 0 @ post"
    using l(1) by (simp add: entry_bytes_def)
  have at: "(A @ entry_bytes nm sa @ post) ! (length A + 16 + k)
      = drop (length A + 16) (A @ entry_bytes nm sa @ post) ! k" for k
    using l(1) by (subst nth_drop) (simp_all add: entry_bytes_def)
  show "(A @ entry_bytes nm sa @ post) ! (length A + 16) = sa ! 0"
    using at [of 0] l(2) unfolding d by (cases sa) (simp_all add: nth_append)
  show "sa_fam (A @ entry_bytes nm sa @ post) (length A + 16) = sa ! 1"
    unfolding sa_fam_def at d using l(2) by (simp add: nth_append)
qed

lemma drop_sdl: "drop (8 + length nm) (sdl_bytes ix nm mac @ r) = mac @ sdl_pad nm mac @ r"
  unfolding add.commute [of 8] drop_drop [symmetric] by (simp add: sdl_bytes_def le16_def)

text \<open>The loop meets an entry, and goes on behind it.\<close>

lemma conf_walk_entry:
  assumes "entry_ok nm sa" and "cbuf s = A @ entry_bytes nm sa @ post" and "n = length (cbuf s)"
    and "conf_entry ks fam al (length A) s = Ok (Some s')"
  shows "conf_walk ks fam al n (length A) s
    = conf_walk ks fam al n (length A + length (entry_bytes nm sa)) s'"
proof -
  have l: "length (entry_bytes nm sa) = 16 + max 16 (unat (cbuf s ! (length A + 16)))"
    using length_entry [OF assms(1)] entry_fields(1) [OF assms(1), of A post] assms(1,2)
    by (simp add: entry_ok_def)
  then have "length A < n" "\<not> n < length A + 32" using assms(2,3) by simp_all
  then show ?thesis using assms(4) l by (subst conf_walk.simps) (simp add: add.assoc)
qed

lemma conf_entry_link:
  assumes "entry_ok nm (sdl_bytes ix nm mac)" and "length mac \<le> 8"
    and "cbuf s = A @ entry_bytes nm (sdl_bytes ix nm mac) @ post" and "fam \<noteq> AF_LINK"
  shows "conf_entry ks fam al (length A) s
    = Ok (Some (s\<lparr>sdlname := Some (length A), idx := ix, haddr := length A + 24 + length nm, hlen := length mac\<rparr>))"
proof -
  have l: "length nm \<le> 15" using assms(1) by (simp add: entry_ok_def)
  have "drop (length A + 16) (cbuf s)
      = sdl_bytes ix nm mac @ replicate (16 - length (sdl_bytes ix nm mac)) 0 @ post"
    unfolding assms(3) by (rule entry_fields(5) [OF assms(1)])
  from sdl_fields_at [OF this l assms(2)] assms(4) show ?thesis
    by (simp add: conf_entry_def see_link_def Let_def)
qed

lemma conf_entry_other:
  assumes "entry_ok nm sa" and "cbuf s = A @ entry_bytes nm sa @ post" and "sa ! 1 \<noteq> AF_LINK" and "sa ! 1 \<noteq> fam"
  shows "conf_entry ks fam al (length A) s = Ok (Some s)"
  using entry_fields(2) [OF assms(1), of A post] assms by (simp add: conf_entry_def see_link_def Let_def)

section \<open>An address of the family\<close>

lemma name_at_append: "length A = p \<Longrightarrow> length nm16 = 16 \<Longrightarrow> name_at (A @ nm16 @ r) p = takeWhile (\<lambda>b. b \<noteq> 0) nm16"
  by (simp add: name_at_def)

lemma name_at_front: "p + 16 \<le> length A \<Longrightarrow> name_at (A @ r) p = name_at A p"
  by (simp add: name_at_def)

text \<open>The name in an entry once a colon is cut off: 16 bytes with a NUL behind the interface's name.\<close>

definition name16 :: "byte list \<Rightarrow> byte list \<Rightarrow> bool" where
  "name16 nm bs \<longleftrightarrow> length bs = 16 \<and> takeWhile (\<lambda>b. b \<noteq> 0) bs = nm"

lemma cut_colon_entry:
  assumes ok: "entry_ok (nm @ sf) sa" and sf: "sf = [] \<or> hd sf = colon_byte" and nm: "colon_byte \<notin> set nm"
    and buf: "buf = A @ entry_bytes (nm @ sf) sa @ post"
  shows "\<exists>bs. name16 nm bs \<and> cut_colon (length A) buf = A @ bs @ sa @ replicate (16 - length sa) 0 @ post"
proof (cases sf)
  case Nil
  have "cut_colon (length A) buf = buf"
    using entry_fields(4) [OF ok, of A post] nm Nil by (simp add: cut_colon_def buf Let_def)
  moreover have "name16 nm (nm @ replicate (16 - length nm) 0)"
    using ok Nil unfolding name16_def entry_ok_def
    by (subst takeWhile_append2) (auto simp: takeWhile_eq_Nil_iff hd_replicate)
  ultimately show ?thesis using Nil buf by (auto simp: entry_bytes_def)
next
  case (Cons c sf')
  then have c: "c = colon_byte" using sf by simp
  have "name_at buf (length A) = nm @ colon_byte # sf'"
    using entry_fields(4) [OF ok, of A post] Cons c by (simp add: buf)
  moreover have "takeWhile (\<lambda>b. b \<noteq> colon_byte) (nm @ colon_byte # sf') = nm"
    using nm by (subst takeWhile_append2) auto
  ultimately have "cut_colon (length A) buf = buf[length A + length nm := 0]" by (simp add: cut_colon_def Let_def)
  also have "\<dots> = A @ (nm @ 0 # sf' @ replicate (16 - length (nm @ sf)) 0) @ sa @ replicate (16 - length sa) 0 @ post"
    by (simp add: buf entry_bytes_def Cons list_update_append)
  finally have cut: "cut_colon (length A) buf
      = A @ (nm @ 0 # sf' @ replicate (16 - length (nm @ sf)) 0) @ sa @ replicate (16 - length sa) 0 @ post" .
  have "name16 nm (nm @ 0 # sf' @ replicate (16 - length (nm @ sf)) 0)"
    using ok Cons unfolding name16_def entry_ok_def by (subst takeWhile_append2) auto
  with cut show ?thesis by blast
qed

text \<open>The link address of the interface has been seen, in the part \<open>A\<close> of the buffer.\<close>

definition linked :: "netif \<Rightarrow> byte list \<Rightarrow> conf_st \<Rightarrow> bool" where
  "linked i A s \<longleftrightarrow> (\<exists>p. sdlname s = Some p \<and> p + 16 \<le> length A \<and> name_at A p = n_name i)
     \<and> idx s = n_index i \<and> hlen s = length (n_mac i) \<and> haddr s + length (n_mac i) \<le> length A
     \<and> take (length (n_mac i)) (drop (haddr s) A) = n_mac i"

lemma linked_append: "linked i A s \<Longrightarrow> linked i (A @ r) s"
  by (auto simp: linked_def name_at_front)

lemma linked_state:
  "sdlname s' = sdlname s \<Longrightarrow> idx s' = idx s \<Longrightarrow> hlen s' = hlen s \<Longrightarrow> haddr s' = haddr s \<Longrightarrow>
     linked i A s' = linked i A s"
  by (simp add: linked_def)

definition entry_info :: "if_kernel \<Rightarrow> netif \<Rightarrow> nat \<Rightarrow> nat \<Rightarrow> byte list \<Rightarrow> net_info" where
  "entry_info ks i flags my sa = net_zero\<lparr>ifi_name := n_name i, ifi_index := n_index i,
     ifi_flags := word_of_nat flags, ifi_hlen := length (n_mac i),
     ifi_haddr := n_mac i @ replicate (8 - length (n_mac i)) 0, ifi_addr := Some sa,
     ifi_brdaddr := (if iff_broadcast flags then k_brdaddr ks (n_name i) else None),
     ifi_dstaddr := (if iff_pointopoint flags then k_dstaddr ks (n_name i) else None),
     ifi_mtu := ucast (the (k_mtu ks (n_name i))), ifi_myflags := my\<rparr>"

text \<open>The kernel answers what it is asked about the interface.\<close>

definition k_answers :: "if_kernel \<Rightarrow> netif \<Rightarrow> nat \<Rightarrow> bool" where
  "k_answers ks i flags \<longleftrightarrow> k_flags ks (n_name i) = Some flags \<and> k_mtu ks (n_name i) \<noteq> None
     \<and> (iff_broadcast flags \<longrightarrow> k_brdaddr ks (n_name i) \<noteq> None)
     \<and> (iff_pointopoint flags \<longrightarrow> k_dstaddr ks (n_name i) \<noteq> None)"

lemma set_link_linked:
  assumes "linked i A s" and "cbuf s = A @ bs @ r" and "name16 (n_name i) bs" and "length (n_mac i) \<le> 8"
    and "ifi_haddr ifi = replicate 8 0"
  shows "set_link (length A) s ifi = Ok (s, ifi\<lparr>ifi_index := n_index i, ifi_hlen := length (n_mac i),
      ifi_haddr := n_mac i @ replicate (8 - length (n_mac i)) 0\<rparr>)"
proof -
  have nm: "name_at (A @ bs @ r) (length A) = n_name i"
    using assms(3) name_at_append [of A "length A" bs r] by (simp add: name16_def)
  from assms(1) obtain p where p: "sdlname s = Some p" "p + 16 \<le> length A" "name_at A p = n_name i"
    and l: "idx s = n_index i" "hlen s = length (n_mac i)"
      "take (length (n_mac i)) (drop (haddr s) A) = n_mac i" "haddr s + length (n_mac i) \<le> length A"
    by (auto simp: linked_def)
  have np: "name_at (cbuf s) p = n_name i" using p name_at_front assms(2) by simp
  have hw: "take (length (n_mac i)) (drop (haddr s) (cbuf s)) = n_mac i" using l assms(2) by simp
  have nm': "name_at (cbuf s) (length A) = n_name i" using nm assms(2) by simp
  show ?thesis unfolding set_link_def Let_def p(1) l(1,2) option.case np nm' using assms(4,5) by (simp add: hw l)
qed

lemma set_entry_inet:
  assumes "k_answers ks i flags" and "sa_fam buf (ptr + 16) = BSD_INET"
  shows "set_entry_addrs ks (n_name i) buf ptr flags ifi = Ok (Some (ifi\<lparr>
      ifi_addr := Some (take 16 (drop (ptr + 16) buf)),
      ifi_brdaddr := (if iff_broadcast flags then k_brdaddr ks (n_name i) else None),
      ifi_dstaddr := (if iff_pointopoint flags then k_dstaddr ks (n_name i) else None)\<rparr>))"
  using assms by (auto simp: k_answers_def set_entry_addrs_def Let_def)

lemma new_entry_inet:
  assumes "linked i A s" and "cbuf s = A @ bs @ sa @ post" and "name16 (n_name i) bs"
    and "length (n_name i) \<le> 15" and "length (n_mac i) \<le> 8" and "k_answers ks i flags"
    and "length sa = 16" and "sa ! 1 = BSD_INET"
  shows "new_entry ks (length A) flags my s = Ok (Some (s\<lparr>infos := infos s @ [entry_info ks i flags my sa]\<rparr>))"
proof -
  have nm: "name_at (cbuf s) (length A) = n_name i"
    using assms(2,3) name_at_append [of A "length A" bs "sa @ post"] by (simp add: name16_def)
  have l: "length bs = 16" using assms(3) by (simp add: name16_def)
  have fam: "sa_fam (cbuf s) (length A + 16) = BSD_INET"
    using assms(7,8) l by (simp add: assms(2) sa_fam_def nth_append)
  have addr: "take 16 (drop (length A + 16) (cbuf s)) = sa" using assms(7) l by (simp add: assms(2))
  obtain mtu where mtu: "k_mtu ks (n_name i) = Some mtu" using assms(6) by (auto simp: k_answers_def)
  let ?ifi = "net_zero\<lparr>ifi_flags := word_of_nat flags, ifi_myflags := my, ifi_mtu := ucast mtu,
      ifi_name := take 15 (n_name i)\<rparr>"
  have "ifi_haddr ?ifi = replicate 8 0" by (simp add: net_zero_def ifi_zero_def ifi_info.defs)
  note sl = set_link_linked [OF assms(1,2,3,5) this]
  show ?thesis
    unfolding new_entry_def Let_def nm mtu option.case sl bind_outcome.simps prod.case
      set_entry_inet [OF assms(6) fam] addr
    using assms(4) by (simp add: entry_info_def mtu)
qed

section \<open>The list\<close>

text \<open>
  What is expected: the entries of an interface, from its addresses of the family. \<open>seen\<close> tells whether
  there was one of them before.
\<close>

fun infos_of :: "if_kernel \<Rightarrow> netif \<Rightarrow> nat \<Rightarrow> bool \<Rightarrow> bool \<Rightarrow> byte list list \<Rightarrow> net_info list" where
  "infos_of ks i flags al seen [] = []"
| "infos_of ks i flags al seen (sa # sas) =
     (if iff_up flags \<and> (al \<or> \<not> seen) then [entry_info ks i flags (if seen then IFI_ALIAS else 0) sa] else [])
     @ infos_of ks i flags al True sas"

definition inet_sas :: "(byte list \<times> byte list) list \<Rightarrow> byte list list" where
  "inet_sas addrs = filter (\<lambda>sa. sa ! 1 = BSD_INET) (map snd addrs)"

definition link_same :: "conf_st \<Rightarrow> conf_st \<Rightarrow> bool" where
  "link_same s s' \<longleftrightarrow> sdlname s' = sdlname s \<and> idx s' = idx s \<and> hlen s' = hlen s \<and> haddr s' = haddr s"

lemma conf_entry_inet:
  assumes ok: "netif_ok i" "(sf, sa) \<in> set (n_addrs i)" and fam: "sa ! 1 = BSD_INET"
    and buf: "cbuf s = A @ entry_bytes (n_name i @ sf) sa @ post" and li: "linked i A s" and k: "k_answers ks i flags"
  shows "\<exists>s' E. conf_entry ks BSD_INET al (length A) s = Ok (Some s')
    \<and> cbuf s' = A @ E @ post \<and> length E = length (entry_bytes (n_name i @ sf) sa)
    \<and> link_same s s' \<and> lastname s' = n_name i
    \<and> infos s' = infos s @ infos_of ks i flags al (lastname s = n_name i) [sa]"
proof -
  have e: "entry_ok (n_name i @ sf) sa" "sf = [] \<or> hd sf = colon_byte" "length sa = 16"
    "colon_byte \<notin> set (n_name i)" "length (n_mac i) \<le> 8"
    using ok fam by (auto simp: netif_ok_def)
  then have l: "length (n_name i) \<le> 15" "length (n_name i @ sf) \<le> 15" by (simp_all add: entry_ok_def)
  have see: "see_link (length A) s = s"
    using entry_fields(2) [OF e(1), of A post] fam buf by (simp add: see_link_def AF_LINK_def)
  obtain bs where bs: "name16 (n_name i) bs"
    and cut: "cut_colon (length A) (cbuf s) = A @ bs @ sa @ replicate (16 - length sa) 0 @ post"
    using cut_colon_entry [OF e(1,2,4) buf] by blast
  have cut': "cut_colon (length A) (cbuf s) = A @ bs @ sa @ post" using cut e(3) by simp
  have nul: "\<not> 0 \<notin> set (take 16 (drop (length A) (cbuf s)))"
    unfolding buf entry_fields(3) [OF e(1)] using l(2) by simp
  have nm: "name_at (A @ bs @ sa @ post) (length A) = n_name i"
    using bs name_at_append by (simp add: name16_def)
  have f: "\<not> sa_fam (cbuf s) (length A + 16) \<noteq> BSD_INET"
    using entry_fields(2) [OF e(1), of A post] fam buf by simp
  let ?t = "s\<lparr>cbuf := A @ bs @ sa @ post\<rparr>"
  let ?E = "bs @ sa"
  have E: "length ?E = length (entry_bytes (n_name i @ sf) sa)"
    using bs length_entry [OF e(1)] e(3) by (simp add: name16_def)
  have ke: "k_flags ks (n_name i) = Some flags" using k by (simp add: k_answers_def)
  have ce: "conf_entry ks BSD_INET al (length A) s =
     (if lastname s = n_name i \<and> \<not> al then Ok (Some ?t)
      else if \<not> iff_up flags then Ok (Some (?t\<lparr>lastname := n_name i\<rparr>))
      else new_entry ks (length A) flags (if lastname s = n_name i then IFI_ALIAS else 0)
             (?t\<lparr>lastname := n_name i\<rparr>))"
    unfolding conf_entry_def Let_def see using f nul ke by (simp add: cut' nm)
  have li': "linked i A (?t\<lparr>lastname := n_name i\<rparr>)" using li by (simp add: linked_def)
  have ne: "new_entry ks (length A) flags my (?t\<lparr>lastname := n_name i\<rparr>)
      = Ok (Some (?t\<lparr>lastname := n_name i, infos := infos s @ [entry_info ks i flags my sa]\<rparr>))" for my
    using new_entry_inet [OF li' _ bs l(1) e(5) k e(3) fam, of post my] by simp
  show ?thesis
  proof (cases "lastname s = n_name i \<and> \<not> al")
    case True
    with ce E show ?thesis by (intro exI [of _ ?t] exI [of _ ?E]) (simp add: link_same_def)
  next
    case F: False
    show ?thesis
    proof (cases "iff_up flags")
      case True
      let ?u = "?t\<lparr>lastname := n_name i,
          infos := infos s @ [entry_info ks i flags (if lastname s = n_name i then IFI_ALIAS else 0) sa]\<rparr>"
      have "conf_entry ks BSD_INET al (length A) s = Ok (Some ?u)" using ce ne F True by simp
      then show ?thesis using F True E by (intro exI [of _ ?u] exI [of _ ?E]) (auto simp: link_same_def)
    next
      case False
      with F ce E show ?thesis
        by (intro exI [of _ "?t\<lparr>lastname := n_name i\<rparr>"] exI [of _ ?E]) (simp add: link_same_def)
    qed
  qed
qed

lemma walk_addrs:
  assumes ok: "netif_ok i" and k: "k_answers ks i flags"
  shows "set addrs \<subseteq> set (n_addrs i) \<Longrightarrow> cbuf s = A @ concat (addr_entries i addrs) @ post \<Longrightarrow>
    n = length (cbuf s) \<Longrightarrow> linked i A s \<Longrightarrow>
    \<exists>s' A'. conf_walk ks BSD_INET al n (length A) s = conf_walk ks BSD_INET al n (length A') s'
      \<and> cbuf s' = A' @ post \<and> length A' = length A + length (concat (addr_entries i addrs))
      \<and> lastname s' = (if inet_sas addrs = [] then lastname s else n_name i)
      \<and> infos s' = infos s @ infos_of ks i flags al (lastname s = n_name i) (inet_sas addrs)"
proof (induction addrs arbitrary: s A)
  case Nil
  then show ?case by (intro exI [of _ s] exI [of _ A]) (simp add: addr_entries_def inet_sas_def)
next
  case (Cons x addrs)
  obtain sf sa where x: "x = (sf, sa)" by (cases x)
  let ?e = "entry_bytes (n_name i @ sf) sa"
  have mem: "(sf, sa) \<in> set (n_addrs i)" and sub: "set addrs \<subseteq> set (n_addrs i)" using Cons.prems(1) x by auto
  have e: "entry_ok (n_name i @ sf) sa" "sa ! 1 \<noteq> AF_LINK" using ok mem by (auto simp: netif_ok_def)
  have ents: "addr_entries i (x # addrs) = ?e # addr_entries i addrs" by (simp add: addr_entries_def x)
  have buf: "cbuf s = A @ ?e @ (concat (addr_entries i addrs) @ post)" using Cons.prems(2) ents by simp
  obtain s1 E where s1: "conf_entry ks BSD_INET al (length A) s = Ok (Some s1)"
    "cbuf s1 = A @ E @ (concat (addr_entries i addrs) @ post)" "length E = length ?e" "link_same s s1"
    and r: "lastname s1 = (if sa ! 1 = BSD_INET then n_name i else lastname s)"
      "infos s1 = infos s @ (if sa ! 1 = BSD_INET then infos_of ks i flags al (lastname s = n_name i) [sa] else [])"
  proof (cases "sa ! 1 = BSD_INET")
    case True
    with conf_entry_inet [OF ok mem True buf Cons.prems(4) k, of al] that show thesis by auto
  next
    case False
    with conf_entry_other [OF e(1) buf e(2) False, of ks al] that [of s ?e] buf show thesis
      by (simp add: link_same_def)
  qed
  note step = conf_walk_entry [OF e(1) buf Cons.prems(3) s1(1)]
  have "linked i (A @ E) s1"
    using linked_append [OF Cons.prems(4)] s1(4) linked_state [of s1 s] by (simp add: link_same_def)
  then obtain s' A' where s': "conf_walk ks BSD_INET al n (length (A @ E)) s1 = conf_walk ks BSD_INET al n (length A') s'"
    "cbuf s' = A' @ post" "length A' = length (A @ E) + length (concat (addr_entries i addrs))"
    "lastname s' = (if inet_sas addrs = [] then lastname s1 else n_name i)"
    "infos s' = infos s1 @ infos_of ks i flags al (lastname s1 = n_name i) (inet_sas addrs)"
    using Cons.IH [OF sub, of s1 "A @ E"] s1(2,3) buf Cons.prems(3) by auto
  have sas: "inet_sas (x # addrs) = (if sa ! 1 = BSD_INET then [sa] else []) @ inet_sas addrs"
    by (simp add: inet_sas_def x)
  show ?case
    using step s' s1(3) r by (intro exI [of _ s'] exI [of _ A']) (auto simp: ents sas)
qed

definition netif_infos :: "if_kernel \<Rightarrow> bool \<Rightarrow> netif \<Rightarrow> net_info list" where
  "netif_infos ks al i =
     (let flags = the (k_flags ks (n_name i)) in
      case inet_sas (n_addrs i) of
        [] \<Rightarrow> []
      | sa # sas \<Rightarrow>
          if iff_up flags
          then entry_info ks i flags 0 sa # (if al then map (entry_info ks i flags IFI_ALIAS) sas else [])
          else [])"

lemma infos_of_seen:
  "infos_of ks i flags al True sas = (if iff_up flags \<and> al then map (entry_info ks i flags IFI_ALIAS) sas else [])"
  by (induction sas) simp_all

lemma netif_infos_of:
  "netif_infos ks al i = infos_of ks i (the (k_flags ks (n_name i))) al False (inet_sas (n_addrs i))"
  by (simp add: netif_infos_def Let_def infos_of_seen split: list.split)

lemma netif_entry_ok: "netif_ok i \<Longrightarrow> e \<in> set (netif_entries i) \<Longrightarrow> 0 < length e \<and> length e \<le> 320"
proof -
  assume i: "netif_ok i" and e: "e \<in> set (netif_entries i)"
  then obtain nm sa where e': "e = entry_bytes nm sa" "entry_ok nm sa"
    by (auto simp: netif_entries_def addr_entries_def netif_ok_def)
  moreover have "unat (sa ! 0) < 256" by simp
  ultimately show ?thesis using length_entry [OF e'(2)] by (simp add: entry_ok_def)
qed

lemma walk_netif:
  assumes ok: "netif_ok i" and k: "k_answers ks i (the (k_flags ks (n_name i)))"
    and buf: "cbuf s = A @ concat (netif_entries i) @ post" and n: "n = length (cbuf s)" and new: "lastname s \<noteq> n_name i"
  shows "\<exists>s' A'. conf_walk ks BSD_INET al n (length A) s = conf_walk ks BSD_INET al n (length A') s'
    \<and> cbuf s' = A' @ post \<and> length (cbuf s') = length (cbuf s)
    \<and> lastname s' \<in> {lastname s, n_name i} \<and> infos s' = infos s @ netif_infos ks al i"
proof -
  let ?sdl = "sdl_bytes (n_index i) (n_name i) (n_mac i)" let ?e = "entry_bytes (n_name i) ?sdl"
  let ?p = "concat (addr_entries i (n_addrs i)) @ post"
  have e: "entry_ok (n_name i) ?sdl" "length (n_mac i) \<le> 8" using ok by (simp_all add: netif_ok_def)
  have buf': "cbuf s = A @ ?e @ ?p" using buf by (simp add: netif_entries_def)
  let ?s = "s\<lparr>sdlname := Some (length A), idx := n_index i, haddr := length A + 24 + length (n_name i),
      hlen := length (n_mac i)\<rparr>"
  have "conf_entry ks BSD_INET al (length A) s = Ok (Some ?s)"
    by (rule conf_entry_link [OF e buf']) (simp add: AF_LINK_def)
  note step = conf_walk_entry [OF e(1) buf' n this]
  have l: "length (n_name i) \<le> 15" using e by (simp add: entry_ok_def)
  have "linked i (A @ ?e) ?s"
  proof -
    have nm: "name_at (A @ ?e) (length A) = n_name i" using entry_fields(4) [OF e(1), of A "[]"] by simp
    have le: "length A + 16 \<le> length (A @ ?e)" using length_entry [OF e(1)] by simp
    have "drop (length A + 16 + 8 + length (n_name i)) (A @ ?e)
        = drop (8 + length (n_name i)) (drop (length A + 16) (A @ ?e))" by (simp add: add.commute add.left_commute)
    also have "\<dots> = n_mac i @ sdl_pad (n_name i) (n_mac i) @ replicate (16 - length ?sdl) 0"
      using entry_fields(5) [OF e(1), of A "[]"] unfolding append_Nil2 by (simp only: drop_sdl)
    finally have d: "drop (length A + 24 + length (n_name i)) (A @ ?e)
        = n_mac i @ sdl_pad (n_name i) (n_mac i) @ replicate (16 - length ?sdl) 0" by simp
    have "length (n_mac i) \<le> length (drop (length A + 24 + length (n_name i)) (A @ ?e))"
      unfolding d by simp
    then have "length (n_mac i) \<le> length (A @ ?e) - (length A + 24 + length (n_name i))"
      by (simp only: length_drop)
    moreover have "length A + 24 + length (n_name i) \<le> length (A @ ?e)"
      using length_entry [OF e(1)] by (simp add: sdl_bytes_def le16_def)
    ultimately show ?thesis using nm le d unfolding linked_def by simp
  qed
  then obtain s1 where s1: "s1 = ?s" "linked i (A @ ?e) s1" by blast
  have b1: "cbuf s1 = (A @ ?e) @ concat (addr_entries i (n_addrs i)) @ post" and n1: "n = length (cbuf s1)"
    using buf' n s1(1) by simp_all
  have keep: "lastname s1 = lastname s" "infos s1 = infos s" using s1(1) by simp_all
  obtain s' A' where s': "conf_walk ks BSD_INET al n (length (A @ ?e)) s1 = conf_walk ks BSD_INET al n (length A') s'"
    "cbuf s' = A' @ post" "length A' = length (A @ ?e) + length (concat (addr_entries i (n_addrs i)))"
    "lastname s' = (if inet_sas (n_addrs i) = [] then lastname s1 else n_name i)"
    "infos s' = infos s1 @ infos_of ks i (the (k_flags ks (n_name i))) al (lastname s1 = n_name i) (inet_sas (n_addrs i))"
    using walk_addrs [OF ok k subset_refl b1 n1 s1(2)] by blast
  have "length (cbuf s') = length (cbuf s)" using s'(2,3) b1 n1 n by (simp del: length_concat)
  moreover have "conf_walk ks BSD_INET al n (length A) s = conf_walk ks BSD_INET al n (length A') s'"
    using step s'(1) s1(1) by simp
  ultimately show ?thesis using s'(2,4,5) keep new
    by (intro exI [of _ s'] exI [of _ A']) (auto simp: netif_infos_of)
qed

lemma walk_netifs:
  "\<forall>i \<in> set ns. netif_ok i \<and> k_answers ks i (the (k_flags ks (n_name i))) \<Longrightarrow> distinct (map n_name ns) \<Longrightarrow>
     lastname s \<notin> n_name ` set ns \<Longrightarrow> cbuf s = A @ concat (concat (map netif_entries ns)) \<Longrightarrow> n = length (cbuf s) \<Longrightarrow>
     \<exists>s'. conf_walk ks BSD_INET al n (length A) s = Ok (Some s')
       \<and> infos s' = infos s @ concat (map (netif_infos ks al) ns)"
proof (induction ns arbitrary: s A)
  case Nil
  then show ?case by (simp add: conf_walk.simps)
next
  case (Cons i ns)
  have buf: "cbuf s = A @ concat (netif_entries i) @ concat (concat (map netif_entries ns))" using Cons.prems by simp
  have ok: "netif_ok i" "k_answers ks i (the (k_flags ks (n_name i)))" "lastname s \<noteq> n_name i"
    using Cons.prems by auto
  obtain s1 A1 where s1: "conf_walk ks BSD_INET al n (length A) s = conf_walk ks BSD_INET al n (length A1) s1"
    "cbuf s1 = A1 @ concat (concat (map netif_entries ns))" "length (cbuf s1) = length (cbuf s)"
    "lastname s1 \<in> {lastname s, n_name i}" "infos s1 = infos s @ netif_infos ks al i"
    using walk_netif [OF ok(1,2) buf Cons.prems(5) ok(3), of al] by blast
  have "lastname s1 \<notin> n_name ` set ns" using s1(4) Cons.prems(2,3) by auto
  then show ?case
    using Cons.IH [of s1 A1] Cons.prems s1 by auto
qed

text \<open>
  C21: Where the kernel's interfaces stay the same, \<open>get_ifi_info\<close> ends, whichever way \<open>SIOCGIFCONF\<close>
  treats a buffer that is too short, and lists for IPv4 each interface that is up: once with its first
  address, and with \<open>doaliases\<close> once more for each other address, marked as an alias; always under the
  interface's own name (an alias suffix is cut off), with its index and hardware address.
\<close>

theorem ioctl_lists_interfaces:
  assumes "\<forall>i \<in> set ns. netif_ok i \<and> k_answers ks i (the (k_flags ks (n_name i)))" and "distinct (map n_name ns)"
  shows "get_ifi_info_ioctl (stable strict (concat (map netif_entries ns))) ks BSD_INET al
    = Some (Ok (Some (concat (map (netif_infos ks al) ns))))"
proof -
  let ?buf = "concat (concat (map netif_entries ns))"
  have "conf_buf (stable strict (concat (map netif_entries ns))) = Some (Some ?buf)"
    by (rule conf_buf_stable) (use assms(1) netif_entry_ok in fastforce)
  moreover have "lastname (conf_start ?buf) \<notin> n_name ` set ns"
    using assms(1) by (auto simp: conf_start_def netif_ok_def)
  moreover have "cbuf (conf_start ?buf) = [] @ ?buf" "length ?buf = length (cbuf (conf_start ?buf))"
    by (simp_all add: conf_start_def)
  note walk_netifs [OF assms calculation(2) this, of al]
  then obtain s where "conf_walk ks BSD_INET al (length ?buf) 0 (conf_start ?buf) = Ok (Some s)"
    "infos s = concat (map (netif_infos ks al) ns)"
    by (auto simp: conf_start_def simp del: length_concat)
  ultimately show ?thesis by (simp add: get_ifi_info_ioctl_def del: length_concat)
qed

definition demo_netifs :: "netif list" where
  "demo_netifs =
     [\<lparr>n_index = 1, n_name = map of_char ''lo0'', n_mac = [], n_addrs = [([], demo_sin 127)]\<rparr>,
      \<lparr>n_index = 4, n_name = map of_char ''en0'', n_mac = [2, 3, 0, 1, 2, 3],
       n_addrs = [([], demo_sin 1), (map of_char '':1'', demo_sin 2)]\<rparr>]"

definition demo_kernel :: if_kernel where
  "demo_kernel = \<lparr>k_flags = (\<lambda>nm. Some (if nm = map of_char ''lo0'' then 0x49 else 0x43)),
     k_mtu = (\<lambda>_. Some 1500), k_brdaddr = (\<lambda>_. Some (demo_sin 255)), k_dstaddr = (\<lambda>_. None)\<rparr>"

theorem ioctl_lists_interfaces_witness:
  "\<exists>l. get_ifi_info_ioctl (stable False (concat (map netif_entries demo_netifs))) demo_kernel BSD_INET True
      = Some (Ok (Some l))
    \<and> map ifi_name l = [map of_char ''lo0'', map of_char ''en0'', map of_char ''en0'']
    \<and> map ifi_myflags l = [0, 0, 1]"
proof -
  have ok: "\<forall>i \<in> set demo_netifs. netif_ok i \<and> k_answers demo_kernel i (the (k_flags demo_kernel (n_name i)))"
    by (simp add: demo_netifs_def netif_ok_def entry_ok_def demo_sin_def sdl_bytes_def sdl_pad_def le16_def
        AF_LINK_def k_answers_def demo_kernel_def bit_1_iff)
  have d: "distinct (map n_name demo_netifs)" by (simp add: demo_netifs_def)
  have names: "map ifi_name (concat (map (netif_infos demo_kernel True) demo_netifs))
      = [map of_char ''lo0'', map of_char ''en0'', map of_char ''en0'']
    \<and> map ifi_myflags (concat (map (netif_infos demo_kernel True) demo_netifs)) = [0, 0, 1]"
    by (simp add: demo_netifs_def netif_infos_def inet_sas_def demo_sin_def demo_kernel_def entry_info_def
        IFI_ALIAS_def)
  show ?thesis by (rule exI, rule conjI, rule ioctl_lists_interfaces [OF ok d], rule names)
qed

text \<open>
  For IPv6 the destination address of a point-to-point interface is copied with 28 bytes out of the 16
  of a \<open>struct ifreq\<close>.
\<close>

lemma ipv6_tunnel_overread:
  assumes "sa_fam (cbuf s) (ptr + 16) = BSD_INET6" and "iff_pointopoint flags"
    and "k_mtu ks (name_at (cbuf s) ptr) \<noteq> None" and "k_dstaddr ks (name_at (cbuf s) ptr) \<noteq> None"
  shows "\<forall>r. new_entry ks ptr flags my s \<noteq> Ok r"
proof -
  have "cbuf s1 = cbuf s" if "set_link ptr s ifi = Ok (s1, ifi')" for s1 ifi ifi'
    using that by (auto simp: set_link_def Let_def split: if_splits)
  with assms show ?thesis
    by (auto simp: new_entry_def Let_def set_entry_addrs_def split: if_splits option.splits)
qed

end
