(* ===== verification/WebChild.thy ===== *)
theory WebChild
  imports LineLab
begin

text \<open>
  The measured client and server: \<open>web_child\<close> (\<^verbatim>\<open>unpv13e/server/web_child.c\<close>), which all the server
  designs run on a connection, and a child of \<^verbatim>\<open>unpv13e/server/client.c\<close>. The designs with processes
  (\<^verbatim>\<open>serv00\<close> to \<^verbatim>\<open>serv05\<close>) link the \<open>readline\<close> of the library, those with threads (\<^verbatim>\<open>serv06\<close> to
  \<^verbatim>\<open>serv09\<close>) the one of \<^verbatim>\<open>unpv13e/server/readline.c\<close>. Each connection is what the
  kernel delivers on it, in pieces of any size. \<open>Write\<close> and \<open>Writen\<close> get through.
\<close>

abbreviation MAXN :: int where
  "MAXN \<equiv> 16384"

section \<open>The unbuffered readline\<close>

text \<open>
  \<^verbatim>\<open>server/readline.c\<close>: one \<open>read\<close> for each character, no buffer, and an interrupted \<open>read\<close> is an error
  like any other. At the end of the file behind an unfinished line it returns one more than it stored.
\<close>

definition read_char :: "int \<Rightarrow> kernel \<Rightarrow> char_result \<times> kernel" where
  "read_char fd k =
     (case sys_read k fd 1 of
        (Got d, k') \<Rightarrow> (if d = [] then Eof else Char (hd d), k')
      | (_, k') \<Rightarrow> (Err, k'))"

definition readline1 :: "int \<Rightarrow> nat \<Rightarrow> kernel \<Rightarrow> int \<times> string \<times> kernel" where
  "readline1 fd maxlen k = line_loop_r (read_char fd) (maxlen - 1) 1 [] k"

section \<open>The server\<close>

text \<open>
  The loop of \<open>web_child\<close>: how many bytes it writes for each request (they come from an array that is
  not initialised), and how it ends; \<open>atol\<close> is stored in an \<open>int\<close>. \<open>readline\<close> is an argument. It need not
  end.
\<close>

datatype child_end = Conn_closed | Refuses int | Read_error

definition ntowrite :: "string \<Rightarrow> int" where
  "ntowrite line = sint (word_of_int (atoi line) :: 32 word)"

partial_function (option) web_child :: "('s \<Rightarrow> int \<times> string \<times> 's) \<Rightarrow> 's \<Rightarrow> (nat list \<times> child_end) option" where
  "web_child rl s =
     (case rl s of
        (nread, line, s') \<Rightarrow>
          if nread < 0 then Some ([], Read_error)
          else if nread = 0 then Some ([], Conn_closed)
          else if ntowrite line \<le> 0 \<or> ntowrite line > MAXN then Some ([], Refuses (ntowrite line))
          else Option.bind (web_child rl s') (\<lambda>(ws, e). Some (nat (ntowrite line) # ws, e)))"

text \<open>The loop in a server with processes, and in one with threads.\<close>

definition proc_child :: "int \<Rightarrow> kernel \<Rightarrow> (nat list \<times> child_end) option" where
  "proc_child fd k = web_child (readline fd MAXLINE) (fresh_rline, k)"

definition thread_child :: "int \<Rightarrow> kernel \<Rightarrow> (nat list \<times> child_end) option" where
  "thread_child fd k = web_child (readline1 fd MAXLINE) k"

section \<open>The client\<close>

text \<open>
  The request, and one turn of a child's loop: what it sends, and what \<open>Readn\<close> then makes of the
  connection. The reply must fit into an array of \<open>MAXN\<close> bytes.
\<close>

datatype child_turn = Got_all | Server_returned int | Readn_error

definition request :: "nat \<Rightarrow> string" where
  "request nbytes = dec nbytes @ [nl]"

definition client_child_turn :: "int \<Rightarrow> nat \<Rightarrow> kernel \<Rightarrow> child_turn outcome" where
  "client_child_turn fd nbytes k =
     (case readn k fd nbytes of
        (n, reply, k') \<Rightarrow>
          if length reply > nat MAXN then Undefined
          else if n < 0 then Ok Readn_error
          else if n \<noteq> int nbytes then Ok (Server_returned n)
          else Ok Got_all)"

text \<open>The loop: over the connections of \<open>nloops\<close> turns, whether the child reaches its end.\<close>

fun client_child :: "int \<Rightarrow> nat \<Rightarrow> kernel list \<Rightarrow> bool outcome" where
  "client_child fd nbytes [] = Ok True"
| "client_child fd nbytes (k # ks) =
     bind_outcome (client_child_turn fd nbytes k) (\<lambda>r.
       case r of Got_all \<Rightarrow> client_child fd nbytes ks | _ \<Rightarrow> Ok False)"

section \<open>Requests are answered\<close>

lemma ntowrite_dec: "n \<le> 16384 \<Longrightarrow> ntowrite (dec n @ [nl]) = int n"
proof -
  assume n: "n \<le> 16384"
  have d: "horner dec_digit 10 0 (dec n) = Some n" by simp
  have "atoi_digits (int a) (s @ [nl]) = int m" if "horner dec_digit 10 a s = Some m" for a s m
    using that
  proof (induction s arbitrary: a)
    case Nil
    then show ?case by (simp add: dec_digit_def isdigit_def)
  next
    case (Cons c cs)
    then obtain d where "dec_digit c = Some d" and "horner dec_digit 10 (a * 10 + d) cs = Some m"
      by (auto split: option.splits)
    with Cons.IH [of "a * 10 + d"] show ?case by simp
  qed
  from this [OF d] have digits: "atoi_digits 0 (dec n @ [nl]) = int n" by simp
  obtain c cs where s: "dec n = c # cs" by (cases "dec n") auto
  then have "isdigit c" using dec_chars [of c n] by simp
  then have "\<not> isspace c" and "c \<noteq> CHR ''-''" and "c \<noteq> CHR ''+''"
    by (auto simp: isdigit_def isspace_def)
  then have "atoi (dec n @ [nl]) = int n" using digits by (simp add: atoi_def s)
  with n show ?thesis
    by (simp add: ntowrite_def signed_of_int signed_of_nat signed_take_bit_int_eq_self)
qed

lemma first_line_request: "first_line (request n @ r) = request n"
proof -
  have "nl \<notin> set (dec n)" using dec_chars [of nl n] by (auto simp: isdigit_def)
  moreover have "nl \<notin> set s \<Longrightarrow> first_line ((s @ [nl]) @ r) = s @ [nl]" for s
    by (induction s) auto
  ultimately show ?thesis by (simp add: request_def)
qed

lemma length_request: "n \<le> 16384 \<Longrightarrow> length (request n) \<le> 6"
  using length_dec_u16 [of n] by (simp add: request_def)

lemma first_line_take_request:
  assumes "n \<le> 16384"
  shows "first_line (take 4095 (request n @ r)) = request n"
proof -
  have "take 4095 (request n @ r) = request n @ take (4095 - length (request n)) r"
    using length_request [OF assms] by simp
  then show ?thesis using first_line_request by simp
qed

text \<open>One call of \<open>readline\<close> on a connection that does not fail.\<close>

lemma readline_clean:
  assumes "clean fd s" and "fst (rl_pending fd s) = b"
  obtains s' where "readline fd MAXLINE s
      = (int (length (first_line (take 4095 b)))
           + (if nl \<notin> set (first_line (take 4095 b)) \<and> 4095 \<le> length b then 1 else 0),
         first_line (take 4095 b), s')"
    and "clean fd s'" and "fst (rl_pending fd s') = drop (length (first_line (take 4095 b))) b"
proof -
  obtain r out s' where l: "line_loop (my_read fd) 4095 1 [] s = (r, out, s')" by (metis prod_cases3)
  have p: "rl_pending fd s = (b, AtEof)"
    using conn.never_fails [OF assms(1)] assms(2) by (metis prod.collapse)
  from conn.line_loop_taken [OF assms(1) p l] l show thesis
    by (intro that [of s']) (auto simp: readline_def)
qed

text \<open>
  What \<open>web_child\<close> relies on: from a connection in order, \<open>readline\<close> returns the pending lines one after
  the other, and 0 behind them.
\<close>

locale line_reader =
  fixes rl :: "'s \<Rightarrow> int \<times> string \<times> 's"
    and good :: "'s \<Rightarrow> bool"
    and pend :: "'s \<Rightarrow> string"
  assumes reads_request: "good s \<Longrightarrow> pend s = request n @ r \<Longrightarrow> n \<le> 16384 \<Longrightarrow>
      \<exists>s'. rl s = (int (length (request n)), request n, s') \<and> good s' \<and> pend s' = r"
    and reads_end: "good s \<Longrightarrow> pend s = [] \<Longrightarrow> \<exists>s'. rl s = (0, [], s')"
begin

lemma web_child_requests:
  "good s \<Longrightarrow> pend s = concat (map request ns) \<Longrightarrow> \<forall>n \<in> set ns. 0 < n \<and> n \<le> 16384 \<Longrightarrow>
     web_child rl s = Some (ns, Conn_closed)"
proof (induction ns arbitrary: s)
  case Nil
  obtain s' where "rl s = (0, [], s')" using reads_end [OF Nil.prems(1)] Nil.prems(2) by auto
  then show ?case by (subst web_child.simps) simp
next
  case (Cons n ns)
  have n: "0 < n" "n \<le> 16384" using Cons.prems(3) by simp_all
  have "pend s = request n @ concat (map request ns)" using Cons.prems(2) by simp
  from reads_request [OF Cons.prems(1) this n(2)] obtain s'
    where s': "rl s = (int (length (request n)), request n, s')" "good s'" "pend s' = concat (map request ns)"
    by blast
  have "web_child rl s' = Some (ns, Conn_closed)" by (rule Cons.IH [OF s'(2,3)]) (use Cons.prems(3) in simp)
  moreover have "ntowrite (request n) = int n" using ntowrite_dec [OF n(2)] by (simp add: request_def)
  moreover have "0 < length (request n)" by (simp add: request_def)
  ultimately show ?case using s'(1) n by (subst web_child.simps) simp
qed

end

interpretation proc: line_reader "readline fd MAXLINE" "clean fd" "\<lambda>s. fst (rl_pending fd s)" for fd
proof
  fix s :: "rline \<times> kernel" and n r
  assume s: "clean fd s" "fst (rl_pending fd s) = request n @ r" and n: "n \<le> 16384"
  have "nl \<in> set (request n)" by (simp add: request_def)
  then obtain s' where "readline fd MAXLINE s = (int (length (request n)), request n, s')" "clean fd s'"
    "fst (rl_pending fd s') = r"
    using readline_clean [OF s, unfolded first_line_take_request [OF n]] by auto
  then show "\<exists>s'. readline fd MAXLINE s = (int (length (request n)), request n, s') \<and> clean fd s' \<and> fst (rl_pending fd s') = r"
    by blast
next
  fix s :: "rline \<times> kernel"
  assume s: "clean fd s" "fst (rl_pending fd s) = []"
  show "\<exists>s'. readline fd MAXLINE s = (0, [], s')"
    by (rule readline_clean [OF s]) auto
qed

text \<open>The unbuffered \<open>readline\<close> on a connection whose reads are not interrupted either.\<close>

definition uncut :: "int \<Rightarrow> kernel \<Rightarrow> bool" where
  "uncut fd k \<longleftrightarrow> clean_events (k fd) \<and> Interrupt \<notin> set (k fd)"

lemma uncut_read_char:
  assumes "uncut fd k" and "read_char fd k = (x, k')"
  shows "uncut fd k' \<and> x \<noteq> Err \<and> (x = Eof \<longrightarrow> k' fd = [])
    \<and> (case x of Char c \<Rightarrow> stream (k fd) = (c # fst (stream (k' fd)), snd (stream (k' fd))) | _ \<Rightarrow> stream (k fd) = ([], AtEof))"
proof (cases "k fd")
  case Nil
  with assms show ?thesis by (auto simp: read_char_def sys_read_def)
next
  case (Cons e es)
  then obtain d where d: "e = Data d" "d \<noteq> []" using assms(1) by (cases e) (auto simp: uncut_def clean_events_def)
  then obtain c cs where c: "d = c # cs" by (cases d) auto
  with assms Cons d show ?thesis
    by (cases cs) (auto simp: read_char_def sys_read_def uncut_def clean_events_def)
qed

interpretation plain: steady_source "read_char fd" "uncut fd" "\<lambda>k. stream (k fd)" for fd
proof
  fix k k' :: kernel and x c
  assume u: "uncut fd k"
  note step = uncut_read_char [OF u]
  show "snd (stream (k fd)) = AtEof" using u by (simp add: uncut_def clean_stream)
  show "read_char fd k = (x, k') \<Longrightarrow> uncut fd k'" using step by blast
  show "read_char fd k = (Char c, k') \<Longrightarrow> stream (k fd) = (c # fst (stream (k' fd)), snd (stream (k' fd)))"
    using step by fastforce
  show "read_char fd k = (Eof, k') \<Longrightarrow> stream (k fd) = ([], AtEof)" using step by fastforce
  show "read_char fd k = (Err, k') \<Longrightarrow> stream (k fd) = ([], AtFailure)" using step by blast
  show "read_char fd k = (Eof, k') \<Longrightarrow> stream (k' fd) = ([], AtEof)" using step by fastforce
qed

lemma readline1_uncut:
  assumes "uncut fd k" and "fst (stream (k fd)) = b" and "b = [] \<or> nl \<in> set (first_line (take 4095 b))"
  shows "\<exists>k'. readline1 fd MAXLINE k = (int (length (first_line (take 4095 b))), first_line (take 4095 b), k')
    \<and> uncut fd k' \<and> fst (stream (k' fd)) = drop (length (first_line (take 4095 b))) b"
proof -
  obtain r out k' where l: "line_loop (read_char fd) 4095 1 [] k = (r, out, k')" by (metis prod_cases3)
  have p: "stream (k fd) = (b, AtEof)" using plain.never_fails [OF assms(1)] assms(2) by (metis prod.collapse)
  note t = plain.line_loop_taken [OF assms(1) p l] and r = plain.line_loop_r_spec [OF assms(1) p l]
  have "readline1 fd MAXLINE k = (r, out, k')" using r assms(3) by (auto simp: readline1_def)
  moreover have "r = int (length out)" using t assms(3) by auto
  ultimately show ?thesis using t by auto
qed

interpretation threads: line_reader "readline1 fd MAXLINE" "uncut fd" "\<lambda>k. fst (stream (k fd))" for fd
proof
  fix k :: kernel and n r
  assume k: "uncut fd k" "fst (stream (k fd)) = request n @ r" and n: "n \<le> 16384"
  have "nl \<in> set (request n)" by (simp add: request_def)
  with readline1_uncut [OF k, unfolded first_line_take_request [OF n]] show "\<exists>k'. readline1 fd MAXLINE k = (int (length (request n)), request n, k')
      \<and> uncut fd k' \<and> fst (stream (k' fd)) = r"
    by auto
next
  fix k :: kernel
  assume "uncut fd k" "fst (stream (k fd)) = []"
  from readline1_uncut [OF this] show "\<exists>k'. readline1 fd MAXLINE k = (0, [], k')" by auto
qed

lemma client_turn_all:
  assumes "fst (stream (k fd)) = reply" and "length reply = nbytes" and "nbytes \<le> 16384"
  shows "client_child_turn fd nbytes k = Ok Got_all"
proof -
  obtain r buf k' where l: "readn_loop k fd nbytes [] = (r, buf, k')" by (metis prod_cases3)
  have "stream (k fd) = (reply, snd (stream (k fd)))" using assms(1) by (metis prod.collapse)
  from readn_loop_spec [OF this l] have "buf = reply" "r = Some 0" using assms(2) by simp_all
  with l assms show ?thesis by (simp add: client_child_turn_def readn_def)
qed

text \<open>Either server writes \<open>n\<close> bytes in all on a connection that brings it the events of \<open>ks\<close>.\<close>

definition writes_back :: "int \<Rightarrow> kernel \<Rightarrow> nat \<Rightarrow> bool" where
  "writes_back fd ks n \<longleftrightarrow> map_option (sum_list \<circ> fst) (proc_child fd ks) = Some n
     \<or> Interrupt \<notin> set (ks fd) \<and> map_option (sum_list \<circ> fst) (thread_child fd ks) = Some n"

lemma fresh_clean:
  "clean_events (ks fd) \<Longrightarrow> clean fd (fresh_rline, ks) \<and> fst (rl_pending fd (fresh_rline, ks)) = fst (stream (ks fd))"
  by (simp add: clean_def rl_ok_def fresh_rline_def rl_pending_def)

lemma child_requests:
  assumes "clean_events (k fd)" and "fst (stream (k fd)) = concat (map request ns)" and "\<forall>n \<in> set ns. 0 < n \<and> n \<le> 16384"
  shows "proc_child fd k = Some (ns, Conn_closed)"
    and "Interrupt \<notin> set (k fd) \<Longrightarrow> thread_child fd k = Some (ns, Conn_closed)"
  using proc.web_child_requests [of fd "(fresh_rline, k)" ns] threads.web_child_requests [of fd k ns] fresh_clean [of k fd] assms
  by (simp_all add: proc_child_def thread_child_def uncut_def)

text \<open>
  C27: The client and the servers fit together: for requests of 1 to 16384 bytes on a connection without
  errors, however the network cuts them up, \<open>web_child\<close> in a server with processes writes exactly the bytes
  that were asked for, request by request, and returns when the client closes the connection; so does it
  in a server with threads as long as no \<open>read\<close> is interrupted, since the \<open>readline\<close> of those servers takes
  an interrupt for an error, which ends the server. And where the reply to its request comes from either
  server, the client's \<open>Readn\<close> gets all of it; so a child does all its turns.
\<close>

theorem web_child_serves_client:
  assumes "\<forall>n \<in> set ns. 0 < n \<and> n \<le> 16384"
    and "clean_events (k fd)" and "fst (stream (k fd)) = concat (map request ns)"
    and "0 < nbytes" and "nbytes \<le> 16384"
    and "\<forall>kc \<in> set kcs. \<exists>ks. clean_events (ks fd) \<and> fst (stream (ks fd)) = request nbytes
      \<and> writes_back fd ks (length (fst (stream (kc cfd))))"
  shows "proc_child fd k = Some (ns, Conn_closed)
    \<and> (Interrupt \<notin> set (k fd) \<longrightarrow> thread_child fd k = Some (ns, Conn_closed))
    \<and> thread_child fd (k(fd := Interrupt # es)) = Some ([], Read_error)
    \<and> client_child cfd nbytes kcs = Ok True"
proof (intro conjI impI)
  show "proc_child fd k = Some (ns, Conn_closed)"
    and "Interrupt \<notin> set (k fd) \<Longrightarrow> thread_child fd k = Some (ns, Conn_closed)"
    using child_requests [of k fd ns] assms(1-3) by blast+
  have "readline1 fd MAXLINE (k(fd := Interrupt # es)) = (-1, [], k(fd := es))"
    by (simp add: readline1_def read_char_def sys_read_def numeral_eq_Suc)
  then show "thread_child fd (k(fd := Interrupt # es)) = Some ([], Read_error)"
    unfolding thread_child_def by (subst web_child.simps) simp
  show "client_child cfd nbytes kcs = Ok True" using assms(6)
  proof (induction kcs)
    case (Cons kc kcs)
    then obtain ks where ks: "clean_events (ks fd)" "fst (stream (ks fd)) = request nbytes"
      "writes_back fd ks (length (fst (stream (kc cfd))))" by auto
    from child_requests [of ks fd "[nbytes]"] ks assms(4,5)
    have "length (fst (stream (kc cfd))) = nbytes" by (auto simp: writes_back_def)
    from client_turn_all [of kc cfd, OF refl this assms(5)] Cons show ?case by simp
  qed simp
qed

theorem web_child_serves_client_witness:
  "proc_child 4 (\<lambda>_. [Data ''30'', Interrupt, Data ([CHR ''0'', nl] @ ''70'' @ [nl])]) = Some ([300, 70], Conn_closed)
   \<and> client_child 3 2 [\<lambda>_. [Data [nul], Interrupt, Data [nul]]] = Ok True"
proof -
  have d: "dec 300 = ''300''" "dec 70 = ''70''" "dec 2 = ''2''" by code_simp+
  let ?ks = "\<lambda>_::int. [Data (''2'' @ [nl])]" and ?k = "\<lambda>_::int. [Data ''30'', Interrupt, Data ([CHR ''0'', nl] @ ''70'' @ [nl])]"
  have c: "clean_events (?ks 4)" "fst (stream (?ks 4)) = request 2" by (simp_all add: clean_events_def request_def d)
  from child_requests(1) [of ?ks 4 "[2]"] c have "writes_back 4 ?ks 2" by (simp add: writes_back_def)
  with c have "\<exists>ks. clean_events (ks 4) \<and> fst (stream (ks 4)) = request 2 \<and> writes_back 4 ks 2"
    by (intro exI [of _ ?ks] conjI)
  then have r: "\<forall>kc \<in> set [\<lambda>_. [Data [nul], Interrupt, Data [nul]]].
      \<exists>ks. clean_events (ks 4) \<and> fst (stream (ks 4)) = request 2 \<and> writes_back 4 ks (length (fst (stream (kc (3::int)))))"
    by (simp flip: numeral_2_eq_2)
  have "clean_events (?k 4)" "fst (stream (?k 4)) = concat (map request [300, 70])"
    by (simp_all add: clean_events_def request_def d)
  from web_child_serves_client [OF _ this _ _ r] show ?thesis by simp
qed

end
