(* ===== verification/Listeners.thy ===== *)
theory Listeners
  imports Icmp
begin

unbundle bit_operations_syntax

text \<open>
  The two listeners for multicast datagrams: \<^verbatim>\<open>unpv13e/ssntp\<close>, which compares its clock with that of an
  NTP server, and \<^verbatim>\<open>unpv13e/mysdr\<close>, which prints session announcements. What they print is their result.
\<close>

text \<open>A 32-bit number in network byte order.\<close>

definition ntohl_at :: "byte list \<Rightarrow> nat \<Rightarrow> 32 word" where
  "ntohl_at bs i = word_of_nat
     (((unat (bs ! i) * 256 + unat (bs ! (i + 1))) * 256 + unat (bs ! (i + 2))) * 256 + unat (bs ! (i + 3)))"

definition htonl_bytes :: "32 word \<Rightarrow> byte list" where
  "htonl_bytes w = map (\<lambda>k. word_of_nat (unat w div 256 ^ k mod 256)) [3, 2, 1, 0]"

lemma length_htonl [simp]: "length (htonl_bytes w) = 4"
  by (simp add: htonl_bytes_def)

lemma ntohl_htonl: "ntohl_at (pre @ htonl_bytes w @ post) (length pre) = w"
proof -
  define n where "n = unat w"
  have n: "n < 256 * 256 * 256 * 256" unfolding n_def by (rule order.strict_trans2 [OF unsigned_less]) simp
  define a b c where "a = n div 256" and "b = a div 256" and "c = b div 256"
  have p: "n div 256 ^ 0 = n" "n div 256 ^ 1 = a" "n div 256 ^ 2 = b" "n div 256 ^ 3 = c"
    by (simp_all add: a_def b_def c_def power2_eq_square power3_eq_cube flip: div_mult2_eq)
  have "c < 256" using n by (simp add: a_def b_def c_def less_mult_imp_div_less mult.commute)
  moreover have "n = a * 256 + n mod 256" "a = b * 256 + a mod 256" "b = c * 256 + b mod 256"
    unfolding a_def b_def c_def by (simp_all only: div_mult_mod_eq)
  ultimately have e: "((c mod 256 * 256 + b mod 256) * 256 + a mod 256) * 256 + n mod 256 = n" by simp
  have bs: "htonl_bytes w = map word_of_nat [c mod 256, b mod 256, a mod 256, n mod 256]"
    by (simp only: htonl_bytes_def n_def [symmetric] list.map p)
  have "(pre @ htonl_bytes w @ post) ! (length pre + k) = htonl_bytes w ! k" if "k < 4" for k
    using that by (simp add: nth_append)
  note at = this [of 0] this [of 1] this [of 2] this [of 3]
  have "ntohl_at (pre @ htonl_bytes w @ post) (length pre)
      = word_of_nat (((c mod 256 * 256 + b mod 256) * 256 + a mod 256) * 256 + n mod 256)"
    unfolding ntohl_at_def using at by (simp add: bs unat_byte_of_nat del: of_nat_add of_nat_mult)
  then show ?thesis unfolding e by (simp add: n_def)
qed

section \<open>NTP\<close>

text \<open>
  \<open>sntp_proc\<close>: the datagram, and the time it came, in seconds and microseconds. The product of the
  fraction and 1000000 has less than 53 bits and the division by \<open>2^32\<close> only changes the exponent, so
  the computation with \<open>double\<close> is exact; storing it in an integer cuts it off.
\<close>

datatype sntp_out = Too_small nat | Client byte byte | Difference byte byte byte int

definition MODE_CLIENT :: byte where "MODE_CLIENT = 3"
definition JAN_1970 :: "32 word" where "JAN_1970 = 2208988800"

definition frac_usec :: "32 word \<Rightarrow> 32 word" where
  "frac_usec f = word_of_nat (unat f * 1000000 div 2 ^ 32)"

text \<open>The difference of the clocks; \<open>tv_usec\<close> has 32 bits.\<close>

definition clock_diff :: "int \<Rightarrow> 32 word \<Rightarrow> 32 word \<Rightarrow> 32 word \<Rightarrow> int" where
  "clock_diff now_sec now_usec nsec useci =
     (let usec = sint (now_usec - useci); sec = now_sec - uint nsec;
          (usec', sec') = (if usec < 0 then (usec + 1000000, sec - 1) else (usec, sec))
      in sint (word_of_int (sec' * 1000000 + usec') :: 32 word))"

definition sntp_proc :: "byte list \<Rightarrow> int \<Rightarrow> 32 word \<Rightarrow> sntp_out" where
  "sntp_proc buf now_sec now_usec =
     (if length buf < 48 then Too_small (length buf)
      else
        let version = drop_bit 3 (buf ! 0 AND 0x38); mode = buf ! 0 AND 0x07 in
        if mode = MODE_CLIENT then Client version (buf ! 1)
        else
          Difference version mode (buf ! 1)
            (clock_diff now_sec now_usec (ntohl_at buf 40 - JAN_1970) (frac_usec (ntohl_at buf 44))))"

text \<open>An NTP datagram with the time a server put in it: seconds since 1900, modulo \<open>2^32\<close>.\<close>

definition ntp_packet :: "byte \<Rightarrow> byte \<Rightarrow> byte list \<Rightarrow> 32 word \<Rightarrow> 32 word \<Rightarrow> byte list \<Rightarrow> byte list" where
  "ntp_packet status stratum middle sec frac rest =
     [status, stratum] @ middle @ htonl_bytes sec @ htonl_bytes frac @ rest"

lemma clock_diff_usecs:
  assumes "unat useci < 1000000" and "unat now_usec < 1000000"
  shows "clock_diff now_sec now_usec nsec useci
    = sint (word_of_int ((now_sec * 1000000 + uint now_usec) - (uint nsec * 1000000 + uint useci)) :: 32 word)"
proof -
  have b: "uint useci < 1000000" "uint now_usec < 1000000"
    using assms unfolding uint_nat by linarith+
  let ?x = "uint now_usec - uint useci"
  have "- 2147483648 \<le> ?x" "?x < 2147483648" using b uint_ge_0 [of useci] uint_ge_0 [of now_usec] by linarith+
  then have r: "- (2 ^ 31) \<le> ?x" "?x < 2 ^ 31" by simp_all
  have "now_usec - useci = word_of_int ?x" by (simp only: word_sub_wi)
  moreover have "sint (word_of_int ?x :: 32 word) = ?x"
    using signed_take_bit_int_eq_self [OF r] by (simp only: signed_of_int) simp
  ultimately have s: "sint (now_usec - useci) = ?x" by simp
  define nu us x y where "nu = uint now_usec" and "us = uint useci" and "x = uint nsec" and "y = now_sec"
  have "(y - x) * 1000000 + (nu - us) = (y * 1000000 + nu) - (x * 1000000 + us)"
    "(y - x - 1) * 1000000 + (nu - us + 1000000) = (y * 1000000 + nu) - (x * 1000000 + us)" by simp_all
  note sums = this
  show ?thesis
    unfolding clock_diff_def Let_def s nu_def [symmetric] us_def [symmetric] x_def [symmetric] y_def [symmetric]
    by (cases "nu - us < 0") (simp_all only: if_True if_False prod.case sums)
qed

lemma frac_usec_less: "unat (frac_usec f) = unat f * 1000000 div 2 ^ 32" "unat (frac_usec f) < 1000000"
proof -
  have "unat f < 2 ^ 32" by (rule order.strict_trans2 [OF unsigned_less]) simp
  then have l: "unat f * 1000000 div 2 ^ 32 < 1000000" by (simp add: less_mult_imp_div_less)
  then show e: "unat (frac_usec f) = unat f * 1000000 div 2 ^ 32"
    unfolding frac_usec_def by (subst unat_of_nat) (rule mod_less, simp)
  show "unat (frac_usec f) < 1000000" unfolding e by (rule l)
qed

text \<open>
  C28: For a datagram of a server (anything but the mode of a client) the listener prints the difference
  of its own clock and the server's in microseconds, the server's fraction of a second cut off to whole
  microseconds: exactly if the clocks are less than 2147 seconds apart, otherwise modulo \<open>2^32\<close>.
\<close>

theorem sntp_difference:
  assumes "length middle = 38" and "status AND 7 \<noteq> MODE_CLIENT" and "unat now_usec < 1000000"
    and "server = uint (sec - JAN_1970) * 1000000 + int (unat frac * 1000000 div 2 ^ 32)"
    and "now = now_sec * 1000000 + uint now_usec"
  shows "\<exists>d. sntp_proc (ntp_packet status stratum middle sec frac rest) now_sec now_usec
        = Difference (drop_bit 3 (status AND 0x38)) (status AND 7) stratum d
      \<and> (word_of_int d :: 32 word) = word_of_int (now - server)
      \<and> (\<bar>now - server\<bar> < 2147 * 1000000 \<longrightarrow> d = now - server)"
proof -
  let ?p = "ntp_packet status stratum middle sec frac rest"
  have s: "ntohl_at ?p 40 = sec" using ntohl_htonl [of "[status, stratum] @ middle"] assms(1)
    by (simp add: ntp_packet_def)
  have f: "ntohl_at ?p 44 = frac" using ntohl_htonl [of "[status, stratum] @ middle @ htonl_bytes sec"] assms(1)
    by (simp add: ntp_packet_def)
  have b: "?p ! 0 = status" "?p ! 1 = stratum" "\<not> length ?p < 48" using assms(1) by (simp_all add: ntp_packet_def)
  define d where "d = sint (word_of_int (now - server) :: 32 word)"
  have "uint (frac_usec frac) = int (unat frac * 1000000 div 2 ^ 32)"
    unfolding uint_nat using frac_usec_less(1) by metis
  then have "clock_diff now_sec now_usec (sec - JAN_1970) (frac_usec frac) = d"
    using clock_diff_usecs [OF frac_usec_less(2) assms(3)] unfolding d_def assms(4,5) by metis
  then have "sntp_proc ?p now_sec now_usec = Difference (drop_bit 3 (status AND 0x38)) (status AND 7) stratum d"
    using assms(2) b(3) unfolding sntp_proc_def Let_def s f b(1,2) by simp
  moreover have "(word_of_int d :: 32 word) = word_of_int (now - server)" unfolding d_def by simp
  moreover have "d = now - server" if "\<bar>now - server\<bar> < 2147 * 1000000"
  proof -
    from that have "- (2 ^ 31) \<le> now - server" "now - server < 2 ^ 31" by (simp_all add: abs_less_iff)
    from signed_take_bit_int_eq_self [OF this] show ?thesis unfolding d_def by (simp only: signed_of_int) simp
  qed
  ultimately show ?thesis by blast
qed

theorem sntp_difference_witness:
  "\<exists>d. sntp_proc (ntp_packet 0x24 2 (replicate 38 0) (JAN_1970 + 1000) 0x80000000 []) 1001 250000
      = Difference 4 4 2 d \<and> d = 750000"
  using sntp_difference [where middle = "replicate 38 0" and status = "0x24" and now_usec = 250000 and stratum = 2
      and sec = "JAN_1970 + 1000" and frac = "0x80000000" and now_sec = 1001 and rest = "[]", OF _ _ _ refl refl]
  by (simp add: MODE_CLIENT_def)

section \<open>Session announcements\<close>

text \<open>
  One turn of \<open>loop\<close>. The buffer, a structure of 8200 bytes, keeps what earlier packets left behind the
  NUL that ends this one; its header is stored back in the order of the host. The result is the buffer,
  the hash and what is printed for the packet. The C string at \<open>p\<close> must end within the structure.
\<close>

datatype sap_out = Bad_version "32 word" | Is_ipv6 | Cannot_parse "32 word" | Announcement "byte list"

definition sap_header :: "32 word \<Rightarrow> byte list" where
  "sap_header w = le_bytes 4 (uint w)"

definition sap_store :: "byte list \<Rightarrow> byte list \<Rightarrow> byte list" where
  "sap_store buf dgram = (let d = take 8199 dgram in d @ [0] @ drop (Suc (length d)) buf)"

definition cstring_at :: "byte list \<Rightarrow> nat \<Rightarrow> byte list outcome" where
  "cstring_at buf p = (if 0 \<in> set (drop p buf) then Ok (takeWhile (\<lambda>b. b \<noteq> 0) (drop p buf)) else Undefined)"

definition sdp_type :: "byte list" where
  "sdp_type = map of_char ''application/sdp''"

definition auth_len :: "32 word \<Rightarrow> nat" where
  "auth_len hdr = unat (drop_bit 16 (hdr AND 0x00ff0000))"

definition sap_packet :: "byte list \<Rightarrow> byte list \<Rightarrow> (byte list \<times> 32 word \<times> sap_out) outcome" where
  "sap_packet buf0 dgram =
     (let buf1 = sap_store buf0 dgram; hdr = ntohl_at buf1 0;
          buf = sap_header hdr @ drop 4 buf1; hash = hdr AND 0xffff in
      if drop_bit 29 (hdr AND 0xe0000000) > 1 then Ok (buf, hash, Bad_version hdr)
      else if hdr AND 0x10000000 \<noteq> 0 then Ok (buf, hash, Is_ipv6)
      else if hdr AND (0x04000000 OR 0x02000000 OR 0x01000000) \<noteq> 0 then Ok (buf, hash, Cannot_parse hdr)
      else
        let p = 8 + auth_len hdr in
        bind_outcome (cstring_at buf p) (\<lambda>s.
        bind_outcome (if s = sdp_type then cstring_at buf (p + 16) else Ok s) (\<lambda>text.
          Ok (buf, hash, Announcement text))))"

fun sap_loop :: "byte list \<Rightarrow> byte list list \<Rightarrow> (32 word \<times> sap_out) list outcome" where
  "sap_loop buf [] = Ok []"
| "sap_loop buf (d # ds) =
     bind_outcome (sap_packet buf d) (\<lambda>(buf', hash, out).
     bind_outcome (sap_loop buf' ds) (\<lambda>outs. Ok ((hash, out) # outs)))"

lemma le_bytes_4: "length (sap_header w) = 4"
  by (simp add: sap_header_def)

text \<open>A packet: header, source, and what follows; headers that are printed.\<close>

definition sap_bytes :: "32 word \<Rightarrow> byte list \<Rightarrow> byte list \<Rightarrow> byte list" where
  "sap_bytes hdr src data = htonl_bytes hdr @ src @ data"

definition parsable :: "32 word \<Rightarrow> bool" where
  "parsable hdr \<longleftrightarrow> drop_bit 29 (hdr AND 0xe0000000) \<le> 1 \<and> hdr AND 0x10000000 = 0
     \<and> hdr AND (0x04000000 OR 0x02000000 OR 0x01000000) = 0"

lemma sap_packet_parsable:
  assumes "parsable hdr" and "length src = 4" and "length data \<le> 8191"
  shows "sap_packet buf0 (sap_bytes hdr src data) =
     (let buf = sap_header hdr @ src @ data @ [0] @ drop (9 + length data) buf0; p = 8 + auth_len hdr in
      bind_outcome (cstring_at buf p) (\<lambda>s.
      bind_outcome (if s = sdp_type then cstring_at buf (p + 16) else Ok s) (\<lambda>text.
        Ok (buf, hdr AND 0xffff, Announcement text))))"
proof -
  have st: "sap_store buf0 (sap_bytes hdr src data) = htonl_bytes hdr @ (src @ data @ [0] @ drop (9 + length data) buf0)"
    using assms(2,3) by (simp add: sap_store_def sap_bytes_def Let_def)
  have h: "ntohl_at (sap_store buf0 (sap_bytes hdr src data)) 0 = hdr"
    unfolding st using ntohl_htonl [of "[]" hdr] by simp
  have d: "drop 4 (sap_store buf0 (sap_bytes hdr src data)) = src @ data @ [0] @ drop (9 + length data) buf0"
    unfolding st by simp
  have "\<not> 1 < drop_bit 29 (hdr AND 0xe0000000)" using assms(1) unfolding parsable_def by (simp only: not_less)
  then show ?thesis using assms(1) unfolding sap_packet_def Let_def h d parsable_def by simp
qed

lemma cstring_at_append: "0 \<notin> set s \<Longrightarrow> length pre = p \<Longrightarrow> cstring_at (pre @ s @ 0 # r) p = Ok s"
  unfolding cstring_at_def by (simp, subst takeWhile_append2) auto

text \<open>
  An announcement is printed as it was sent, with or without its type in front of it, behind the
  authentication data that its header tells of; what the buffer held before does not matter.
\<close>

theorem sap_announcements:
  assumes "parsable hdr" and "length src = 4" and "length auth = auth_len hdr"
    and "length auth + length sdp \<le> 8175" and "0 \<notin> set sdp"
  shows "(\<exists>buf. sap_packet buf0 (sap_bytes hdr src (auth @ sdp_type @ [0] @ sdp))
        = Ok (buf, hdr AND 0xffff, Announcement sdp))
    \<and> (sdp \<noteq> sdp_type \<longrightarrow> (\<exists>buf. sap_packet buf0 (sap_bytes hdr src (auth @ sdp))
        = Ok (buf, hdr AND 0xffff, Announcement sdp)))"
proof -
  have ty: "0 \<notin> set sdp_type" "length sdp_type = 15" by code_simp+
  let ?q = "sap_header hdr @ src @ auth"
  have q: "length ?q = 8 + auth_len hdr" using assms(2,3) by (simp add: le_bytes_4)
  have c1: "cstring_at (sap_header hdr @ src @ (auth @ sdp_type @ [0] @ sdp) @ [0] @ r) (8 + auth_len hdr) = Ok sdp_type" for r
    using cstring_at_append [OF ty(1) q, of "sdp @ [0] @ r"] by simp
  have c2: "cstring_at (sap_header hdr @ src @ (auth @ sdp_type @ [0] @ sdp) @ [0] @ r) (8 + auth_len hdr + 16) = Ok sdp" for r
    using cstring_at_append [OF assms(5), of "?q @ sdp_type @ [0]" "8 + auth_len hdr + 16" r] q ty(2) by simp
  have c3: "cstring_at (sap_header hdr @ src @ (auth @ sdp) @ [0] @ r) (8 + auth_len hdr) = Ok sdp" for r
    using cstring_at_append [OF assms(5) q, of r] by simp
  have l: "length (auth @ sdp_type @ [0] @ sdp) \<le> 8191" "length (auth @ sdp) \<le> 8191" using assms(4) ty(2) by simp_all
  show ?thesis
    unfolding sap_packet_parsable [OF assms(1,2) l(1)] sap_packet_parsable [OF assms(1,2) l(2)] Let_def c1 c2 c3
    by simp
qed

theorem sap_announcements_witness:
  "\<exists>buf. sap_packet buf0 (sap_bytes 0x20001234 [10, 0, 0, 1] (sdp_type @ [0] @ map of_char ''v=0''))
     = Ok (buf, 0x1234, Announcement (map of_char ''v=0''))"
proof -
  have "parsable 0x20001234" "auth_len 0x20001234 = 0" "(0x20001234 :: 32 word) AND 0xffff = 0x1234"
    unfolding parsable_def auth_len_def by code_simp+
  with sap_announcements [of "0x20001234" "[10, 0, 0, 1]" "[]" "map of_char ''v=0''" buf0] show ?thesis by simp
qed

text \<open>
  But when the header tells of more authentication data than the datagram has bytes, the program prints
  what an earlier packet left at that place of the buffer.
\<close>

lemma sap_stale_text:
  assumes "parsable hdr" and "length src = 4" and "0 \<notin> set old" and "old \<noteq> sdp_type"
    and "length few < auth_len hdr" and "length few \<le> 8191" and "length pre = 8 + auth_len hdr"
  shows "\<exists>buf. sap_packet (pre @ old @ [0] @ post) (sap_bytes hdr src few)
      = Ok (buf, hdr AND 0xffff, Announcement old)"
proof -
  have d: "drop (9 + length few) (pre @ old @ [0] @ post) = drop (9 + length few) pre @ old @ [0] @ post"
    using assms(5,7) by simp
  have "cstring_at (sap_header hdr @ src @ few @ [0] @ drop (9 + length few) pre @ old @ [0] @ post) (8 + auth_len hdr) = Ok old"
    using cstring_at_append [OF assms(3), of "sap_header hdr @ src @ few @ [0] @ drop (9 + length few) pre" "8 + auth_len hdr" post]
      assms(2,5,7) le_bytes_4 [of hdr] by simp
  then show ?thesis unfolding sap_packet_parsable [OF assms(1,2,6)] Let_def d using assms(4) by simp
qed

end
