(* ===== verification/EchoSystem.thy ===== *)
theory EchoSystem
  imports StreamIO "HOL-Library.Sublist"
begin

text \<open>
  Echo clients and the echo server as one system: \<open>str_echo\<close> (\<^verbatim>\<open>unpv13e/lib/str_echo.c\<close>), the two
  versions of \<open>str_cli\<close> around \<open>select\<close> (\<^verbatim>\<open>unpv13e/select/strcliselect01.c\<close> and \<^verbatim>\<open>strcliselect02.c\<close>) and
  the one with two threads (\<^verbatim>\<open>unpv13e/threads/strclithread2.c\<close>). Between the two programs are two
  streams of bytes, each in a buffer of the kernel that holds so many bytes; \<open>Writen\<close> blocks while its
  buffer is full. A step of the system is one turn of one program (or one access of a thread to what
  is shared), with what the kernel hands it then, or a part of a \<open>Writen\<close>.
\<close>

section \<open>The server\<close>

text \<open>One turn of \<open>str_echo\<close>, by the result of \<open>read\<close>, and all of it on a descriptor.\<close>

datatype echo_next = Echoes string | Echo_ends | Echo_fails

fun echo_turn :: "read_result \<Rightarrow> echo_next" where
  "echo_turn (Got d) = (if d = [] then Echo_ends else Echoes d)"
| "echo_turn Eintr = Echoes []"
| "echo_turn Eother = Echo_fails"

lemma echo_turn_size:
  "sys_read k fd 4096 = (r, k') \<Longrightarrow> echo_turn r = Echoes d \<Longrightarrow> kernel_size k' fd < kernel_size k fd"
  using sys_read_size [of k fd 4096 r k'] by (cases r) (auto split: if_splits)

function str_echo :: "kernel \<Rightarrow> int \<Rightarrow> string \<times> ending" where
  "str_echo k fd =
     (case sys_read k fd 4096 of
        (r, k') \<Rightarrow>
          (case echo_turn r of
             Echo_ends \<Rightarrow> ([], AtEof)
           | Echo_fails \<Rightarrow> ([], AtFailure)
           | Echoes d \<Rightarrow> (case str_echo k' fd of (out, e) \<Rightarrow> (d @ out, e))))"
  by pat_completeness auto
termination
  by (relation "measure (\<lambda>(k, fd). kernel_size k fd)") (auto dest: echo_turn_size [OF sym])

declare str_echo.simps [simp del]

lemma str_echo_stream: "str_echo k fd = stream (k fd)"
proof (induction k fd rule: str_echo.induct)
  case (1 k fd)
  obtain r k' where r: "sys_read k fd 4096 = (r, k')" by (cases "sys_read k fd 4096")
  show ?case
  proof (cases r)
    case (Got d)
    with r sys_read_Got [of k fd 4096 d k'] 1 show ?thesis
      by (subst str_echo.simps) (auto split: prod.splits)
  next
    case Eintr
    with r sys_read_Eintr [of k fd 4096 k'] 1 show ?thesis
      by (subst str_echo.simps) (auto split: prod.splits)
  next
    case Eother
    with r sys_read_Eother [of k fd 4096 k'] show ?thesis by (subst str_echo.simps) simp
  qed
qed

section \<open>The clients around select\<close>

text \<open>
  A client, and one turn of its loop: what it gets from the socket and from its standard input where
  \<open>select\<close> finds them readable (no bytes: their end). \<open>fin\<close>: \<open>Shutdown\<close> was called.
\<close>

record ecli =
  ecli_out :: string
  ecli_sent :: string
  fin :: bool
  stdineof :: bool

datatype cli_next = Goes_on ecli | Returns ecli | Quits ecli

definition cli_init :: ecli where
  "cli_init = \<lparr>ecli_out = [], ecli_sent = [], fin = False, stdineof = False\<rparr>"

text \<open>The first version returns at the end of its input. (The lines it reads are any parts of the streams here.)\<close>

definition cli01_turn :: "string option \<Rightarrow> string option \<Rightarrow> ecli \<Rightarrow> cli_next" where
  "cli01_turn sock inp c =
     (let after_sock = (case sock of
          None \<Rightarrow> Some c
        | Some recvline \<Rightarrow> if recvline = [] then None else Some (c\<lparr>ecli_out := ecli_out c @ recvline\<rparr>))
      in case after_sock of
           None \<Rightarrow> Quits c
         | Some c1 \<Rightarrow>
             (case inp of
                None \<Rightarrow> Goes_on c1
              | Some sendline \<Rightarrow>
                  if sendline = [] then Returns c1
                  else Goes_on (c1\<lparr>ecli_sent := ecli_sent c1 @ sendline\<rparr>)))"

text \<open>The second one half-closes the connection and goes on reading.\<close>

definition cli02_turn :: "string option \<Rightarrow> string option \<Rightarrow> ecli \<Rightarrow> cli_next" where
  "cli02_turn sock inp c =
     (let after_sock = (case sock of
          None \<Rightarrow> Inr c
        | Some buf \<Rightarrow>
            if buf = [] then Inl (if stdineof c then Returns c else Quits c)
            else Inr (c\<lparr>ecli_out := ecli_out c @ buf\<rparr>))
      in case after_sock of
           Inl r \<Rightarrow> r
         | Inr c1 \<Rightarrow>
             (case (if stdineof c then None else inp) of
                None \<Rightarrow> Goes_on c1
              | Some buf \<Rightarrow>
                  if buf = [] then Goes_on (c1\<lparr>stdineof := True, fin := True\<rparr>)
                  else Goes_on (c1\<lparr>ecli_sent := ecli_sent c1 @ buf\<rparr>)))"

section \<open>The system\<close>

datatype status = Running | Returned | Quit

text \<open>
  The client and the server: what the client has yet to read of its standard input, what its \<open>Writen\<close> still
  has to send, what is in the buffer towards the server, what the server's \<open>Writen\<close> still has to send, and
  what is in the buffer towards the client.
\<close>

record esys =
  cli :: ecli
  typed :: string
  c_pend :: string
  up :: string
  s_pend :: string
  down :: string
  down_fin :: bool
  ended :: status

definition esys_init :: "string \<Rightarrow> esys" where
  "esys_init input = \<lparr>cli = cli_init, typed = input, c_pend = [], up = [], s_pend = [], down = [],
     down_fin = False, ended = Running\<rparr>"

text \<open>What \<open>read\<close> can deliver of a stream: up to 4096 bytes of it, or its end once that has come.\<close>

definition delivers :: "string \<Rightarrow> bool \<Rightarrow> string option \<Rightarrow> bool" where
  "delivers s at_end r \<longleftrightarrow>
     (case r of
        None \<Rightarrow> True
      | Some buf \<Rightarrow> if buf = [] then s = [] \<and> at_end else prefix buf s \<and> length buf \<le> 4096)"

text \<open>
  A line, as \<open>Fgets\<close> and \<open>Readline\<close> return it: up to its newline, as much as the buffer holds, or what
  is left at the end.
\<close>

definition takes_line :: "string \<Rightarrow> bool \<Rightarrow> string \<Rightarrow> bool" where
  "takes_line s at_end l \<longleftrightarrow> l \<noteq> [] \<and> prefix l s \<and> length l \<le> 4095 \<and> CHR 0x0A \<notin> set (butlast l)
     \<and> (last l = CHR 0x0A \<or> length l = 4095 \<or> (l = s \<and> at_end))"

definition got :: "string option \<Rightarrow> nat" where
  "got r = (case r of None \<Rightarrow> 0 | Some buf \<Rightarrow> length buf)"

text \<open>
  The client's turn takes what it read off the streams and starts to send what is to be sent; the server's
  turn is \<open>echo_turn\<close>, and at its end it closes the connection.
\<close>

definition after_client :: "string option \<Rightarrow> string option \<Rightarrow> cli_next \<Rightarrow> esys \<Rightarrow> esys" where
  "after_client sock inp r x =
     (let (c, e) = (case r of Goes_on c \<Rightarrow> (c, Running) | Returns c \<Rightarrow> (c, Returned) | Quits c \<Rightarrow> (c, Quit)) in
      x\<lparr>cli := c, typed := drop (got inp) (typed x), down := drop (got sock) (down x),
        c_pend := drop (length (ecli_sent (cli x))) (ecli_sent c), ended := e\<rparr>)"

definition after_server :: "string \<Rightarrow> esys \<Rightarrow> esys" where
  "after_server buf x =
     (case echo_turn (Got buf) of
        Echoes d \<Rightarrow> x\<lparr>up := drop (length buf) (up x), s_pend := d\<rparr>
      | _ \<Rightarrow> x\<lparr>down_fin := True\<rparr>)"

text \<open>
  The actions: a turn of the client, with what \<open>select\<close> finds readable, a turn of the server, and the
  kernel taking \<open>n\<close> bytes of a \<open>Writen\<close> into a buffer that holds \<open>cu\<close> (towards the server) or \<open>cd\<close>
  (towards the client) bytes. A program makes no turn while it is in a \<open>Writen\<close>. Standard output takes
  everything.
\<close>

datatype eact = Client_turn "string option" "string option" | Client_writes nat | Server_reads string | Server_writes nat

fun esys_do :: "nat \<Rightarrow> nat \<Rightarrow> (string option \<Rightarrow> string option \<Rightarrow> ecli \<Rightarrow> cli_next) \<Rightarrow> eact \<Rightarrow> esys \<Rightarrow> esys option" where
  "esys_do cu cd turn (Client_turn sock inp) x =
     (if ended x = Running \<and> c_pend x = [] \<and> delivers (down x) (down_fin x) sock \<and> delivers (typed x) True inp
         \<and> (stdineof (cli x) \<longrightarrow> inp = None) \<and> (sock \<noteq> None \<or> inp \<noteq> None)
      then Some (after_client sock inp (turn sock inp (cli x)) x) else None)"
| "esys_do cu cd turn (Client_writes n) x =
     (if 0 < n \<and> n \<le> length (c_pend x) \<and> length (up x) + n \<le> cu
      then Some (x\<lparr>up := up x @ take n (c_pend x), c_pend := drop n (c_pend x)\<rparr>) else None)"
| "esys_do cu cd turn (Server_reads buf) x =
     (if \<not> down_fin x \<and> s_pend x = [] \<and> delivers (up x) (fin (cli x)) (Some buf)
      then Some (after_server buf x) else None)"
| "esys_do cu cd turn (Server_writes n) x =
     (if 0 < n \<and> n \<le> length (s_pend x) \<and> length (down x) + n \<le> cd
      then Some (x\<lparr>down := down x @ take n (s_pend x), s_pend := drop n (s_pend x)\<rparr>) else None)"

inductive esys_reach :: "nat \<Rightarrow> nat \<Rightarrow> (string option \<Rightarrow> string option \<Rightarrow> ecli \<Rightarrow> cli_next) \<Rightarrow> string \<Rightarrow> esys \<Rightarrow> bool"
  for cu cd turn input where
  start: "esys_reach cu cd turn input (esys_init input)"
| step: "esys_reach cu cd turn input x \<Longrightarrow> esys_do cu cd turn a x = Some y \<Longrightarrow> esys_reach cu cd turn input y"

text \<open>Running a list of actions.\<close>

fun esys_acts :: "nat \<Rightarrow> nat \<Rightarrow> (string option \<Rightarrow> string option \<Rightarrow> ecli \<Rightarrow> cli_next) \<Rightarrow> eact list \<Rightarrow> esys \<Rightarrow> esys option" where
  "esys_acts cu cd turn [] x = Some x"
| "esys_acts cu cd turn (a # as) x = Option.bind (esys_do cu cd turn a x) (esys_acts cu cd turn as)"

lemma esys_acts_reach:
  "esys_reach cu cd turn input x \<Longrightarrow> esys_acts cu cd turn as x = Some y \<Longrightarrow> esys_reach cu cd turn input y"
proof (induction as arbitrary: x)
  case (Cons a as)
  then show ?case by (auto split: bind_splits intro: esys_reach.step)
qed simp

text \<open>Both programs are in a \<open>Writen\<close>, and both buffers are full.\<close>

definition deadlocked :: "nat \<Rightarrow> nat \<Rightarrow> esys \<Rightarrow> bool" where
  "deadlocked cu cd x \<longleftrightarrow> c_pend x \<noteq> [] \<and> cu \<le> length (up x) \<and> s_pend x \<noteq> [] \<and> cd \<le> length (down x)"

section \<open>Nothing is lost by the second version\<close>

text \<open>The invariant: what is printed, on its way back and forth and not yet read is always the input.\<close>

definition esys_ok :: "string \<Rightarrow> esys \<Rightarrow> bool" where
  "esys_ok input x \<longleftrightarrow> ecli_out (cli x) @ down x @ s_pend x @ up x @ c_pend x @ typed x = input
     \<and> (fin (cli x) \<longleftrightarrow> stdineof (cli x)) \<and> (stdineof (cli x) \<longrightarrow> typed x = [] \<and> c_pend x = [])
     \<and> (down_fin x \<longrightarrow> fin (cli x) \<and> up x = [] \<and> s_pend x = [])
     \<and> ended x \<noteq> Quit \<and> (ended x = Returned \<longrightarrow> down_fin x \<and> down x = [])"

lemma prefix_drop: "prefix a s \<Longrightarrow> a @ drop (length a) s = s"
  by (auto simp: prefix_def)


definition esys_size :: "esys \<Rightarrow> nat" where
  "esys_size x = 5 * length (typed x) + 4 * length (c_pend x) + 3 * length (up x) + 2 * length (s_pend x) + length (down x)
     + (if stdineof (cli x) then 0 else 1) + (if down_fin x then 0 else 1) + (if ended x = Running then 1 else 0)"

lemma client_step:
  assumes ok: "esys_ok input x" and run: "ended x = Running" and pd: "c_pend x = []" and sk: "delivers (down x) (down_fin x) sock"
    and si: "delivers (typed x) True inp" and ev: "stdineof (cli x) \<longrightarrow> inp = None" "sock \<noteq> None \<or> inp \<noteq> None"
  shows "let y = after_client sock inp (cli02_turn sock inp (cli x)) x
    in esys_ok input y \<and> esys_size y < esys_size x"
proof -
  have out: "ecli_out (cli x) @ buf @ drop (length buf) (down x) @ rest = ecli_out (cli x) @ down x @ rest"
    if "prefix buf (down x)" for buf rest using prefix_drop [OF that] by (metis append_assoc)
  have left: "rest @ buf @ drop (length buf) (typed x) = rest @ typed x" if "prefix buf (typed x)" for buf rest
    using prefix_drop [OF that] by simp
  note defs = esys_ok_def esys_size_def after_client_def cli02_turn_def delivers_def got_def
  consider (none) "sock = None" | (eof) "sock = Some []" | (data) b bs where "sock = Some (b # bs)"
    by (metis list.exhaust option.exhaust)
  then show ?thesis
  proof cases
    case none
    then obtain buf where inp: "inp = Some buf" and ne: "\<not> stdineof (cli x)" using ev by auto
    show ?thesis
    proof (cases "buf = []")
      case True
      with none inp ne ok run pd si show ?thesis by (auto simp: defs)
    next
      case False
      then have "prefix buf (typed x)" "buf \<noteq> []" using si inp by (simp_all add: delivers_def)
      with none inp ne ok run pd left [of buf] prefix_length_le [of buf "typed x"] show ?thesis
        by (auto simp: defs Let_def neq_Nil_conv)
    qed
  next
    case eof
    then have "down x = []" "down_fin x" using sk by (simp_all add: delivers_def)
    with eof ok run pd show ?thesis by (auto simp: defs Let_def)
  next
    case data
    then have pre: "prefix (b # bs) (down x)" using sk by (simp add: delivers_def)
    note o = out [OF pre] and l = prefix_length_le [OF pre]
    show ?thesis
    proof (cases inp)
      case None
      with data ok run pd o l show ?thesis by (auto simp: defs Let_def)
    next
      case (Some buf)
      then have ne: "\<not> stdineof (cli x)" using ev by auto
      show ?thesis
      proof (cases "buf = []")
        case True
        with data Some ne ok run pd si o l show ?thesis by (auto simp: defs Let_def)
      next
        case False
        then have "prefix buf (typed x)" "buf \<noteq> []" using si Some by (simp_all add: delivers_def)
        with data Some ne ok run pd o l left [of buf] prefix_length_le [of buf "typed x"] show ?thesis
          by (auto simp: defs Let_def neq_Nil_conv)
      qed
    qed
  qed
qed

lemma server_step:
  assumes "esys_ok input x" and "\<not> down_fin x" and "s_pend x = []" and "delivers (up x) (fin (cli x)) (Some buf)"
  shows "esys_ok input (after_server buf x) \<and> esys_size (after_server buf x) < esys_size x"
proof (cases "buf = []")
  case True
  with assms show ?thesis by (auto simp: esys_ok_def esys_size_def after_server_def delivers_def)
next
  case False
  then have pre: "prefix buf (up x)" using assms(4) by (simp add: delivers_def)
  have "ecli_out (cli x) @ down x @ buf @ drop (length buf) (up x) @ r = ecli_out (cli x) @ down x @ up x @ r" for r
    using prefix_drop [OF pre] by (metis append_assoc)
  with assms False prefix_length_le [OF pre] show ?thesis
    by (auto simp: esys_ok_def esys_size_def after_server_def neq_Nil_conv)
qed

lemma take_drop_append: "take n s @ drop n s @ r = s @ r"
  by (metis append_assoc append_take_drop_id)

lemma esys_do_ok:
  assumes ok: "esys_ok input x" and d: "esys_do cu cd cli02_turn a x = Some y"
  shows "esys_ok input y \<and> esys_size y < esys_size x"
proof (cases a)
  case (Client_turn sock inp)
  then show ?thesis using d client_step [OF ok, of sock inp] by (auto simp: Let_def split: if_splits)
next
  case (Server_reads buf)
  then show ?thesis using d server_step [OF ok, of buf] by (auto split: if_splits)
next
  case (Client_writes n)
  then have "0 < n" "n \<le> length (c_pend x)" "y = x\<lparr>up := up x @ take n (c_pend x), c_pend := drop n (c_pend x)\<rparr>"
    using d by (auto split: if_splits)
  with ok show ?thesis by (auto simp: esys_ok_def esys_size_def take_drop_append)
next
  case (Server_writes n)
  then have "0 < n" "n \<le> length (s_pend x)" "y = x\<lparr>down := down x @ take n (s_pend x), s_pend := drop n (s_pend x)\<rparr>"
    using d by (auto split: if_splits)
  with ok show ?thesis by (auto simp: esys_ok_def esys_size_def take_drop_append)
qed

lemma esys_reach_ok: "esys_reach cu cd cli02_turn input x \<Longrightarrow> esys_ok input x"
proof (induction rule: esys_reach.induct)
  case start
  show ?case by (simp add: esys_ok_def esys_init_def cli_init_def)
next
  case (step x a y)
  then show ?case by (blast dest: esys_do_ok)
qed

lemma delivers_some: "s \<noteq> [] \<or> e \<Longrightarrow> \<exists>buf. delivers s e (Some buf)"
  by (rule exI [of _ "take 4096 s"]) (simp add: delivers_def take_is_prefix)

lemma delivers_none: "delivers s e None"
  by (simp add: delivers_def)

lemma esys_progress:
  assumes ok: "esys_ok input x" and nr: "ended x \<noteq> Returned" and cap: "0 < cu" "0 < cd" and nd: "\<not> deadlocked cu cd x"
  shows "\<exists>a. esys_do cu cd cli02_turn a x \<noteq> None"
proof -
  have run: "ended x = Running" using ok nr by (cases "ended x") (auto simp: esys_ok_def)
  have cw: ?thesis if "c_pend x \<noteq> []" "length (up x) < cu"
    by (rule exI [of _ "Client_writes 1"]) (use that in \<open>auto simp: Suc_le_eq\<close>)
  have sw: ?thesis if "s_pend x \<noteq> []" "length (down x) < cd"
    by (rule exI [of _ "Server_writes 1"]) (use that in \<open>auto simp: Suc_le_eq\<close>)
  have sr: ?thesis if "\<not> down_fin x" "s_pend x = []" "up x \<noteq> [] \<or> fin (cli x)"
    using that delivers_some [of "up x" "fin (cli x)"] by (metis esys_do.simps(3) option.distinct(1))
  have ct: ?thesis if "c_pend x = []" "down x \<noteq> [] \<or> down_fin x"
    using that run delivers_some [of "down x" "down_fin x"] delivers_none [of "typed x" True]
    by (metis esys_do.simps(1) option.distinct(1))
  have ci: ?thesis if "c_pend x = []" "\<not> stdineof (cli x)"
    using that run delivers_some [of "typed x" True] delivers_none [of "down x" "down_fin x"]
    by (metis esys_do.simps(1) option.distinct(1))
  show ?thesis
  proof (cases "c_pend x = []")
    case True
    then have c: "c_pend x = []" .
    show ?thesis
    proof (cases "down x = [] \<and> \<not> down_fin x \<and> stdineof (cli x)")
      case True
      then show ?thesis using sw sr cap(2) ok by (cases "s_pend x = []") (auto simp: esys_ok_def)
    next
      case False
      then show ?thesis using ct [OF c] ci [OF c] by blast
    qed
  next
    case False
    then have "\<not> fin (cli x)" using ok by (auto simp: esys_ok_def)
    then have "\<not> down_fin x" using ok by (auto simp: esys_ok_def)
    with False show ?thesis using cw sw sr nd cap(1) by (cases "s_pend x = []"; cases "up x = []") (auto simp: deadlocked_def not_le)
  qed
qed

lemma deadlocked_stuck: "deadlocked cu cd x \<Longrightarrow> esys_do cu cd turn a x = None"
  by (cases a) (auto simp: deadlocked_def)

lemma returned_stuck: "esys_ok input x \<Longrightarrow> ended x = Returned \<Longrightarrow> esys_do cu cd turn a x = None"
  by (cases a) (auto simp: esys_ok_def)

text \<open>
  C10: The client of \<open>strcliselect02\<close> and the echo server lose nothing: however the two take turns, the
  network cuts up the data and the buffers between them (of any size) fill up, what is printed is always a
  beginning of the input, the client never takes the server for terminated, every step brings the end
  nearer, and when the client returns all of the input is printed. But both use a \<open>Writen\<close> that blocks: the
  system comes to rest exactly when the client has returned or when both programs are in \<open>Writen\<close> and both
  buffers are full, which takes an input longer than the two buffers together.
\<close>

theorem strcli02_echoes_all:
  assumes "esys_reach cu cd cli02_turn input x" and "0 < cu" and "0 < cd"
  shows "prefix (ecli_out (cli x)) input \<and> ended x \<noteq> Quit
    \<and> (ended x = Returned \<longrightarrow> ecli_out (cli x) = input)
    \<and> (\<forall>a y. esys_do cu cd cli02_turn a x = Some y \<longrightarrow> esys_size y < esys_size x)
    \<and> ((\<forall>a. esys_do cu cd cli02_turn a x = None) \<longleftrightarrow> ended x = Returned \<or> deadlocked cu cd x)
    \<and> (deadlocked cu cd x \<longrightarrow> cu + cd + 2 \<le> length input)"
proof -
  note ok = esys_reach_ok [OF assms(1)]
  have input: "ecli_out (cli x) @ down x @ s_pend x @ up x @ c_pend x @ typed x = input" using ok by (simp add: esys_ok_def)
  then have "prefix (ecli_out (cli x)) input" by (auto simp: prefix_def)
  moreover have "ecli_out (cli x) = input" if "ended x = Returned" using that ok by (auto simp: esys_ok_def)
  moreover have "cu + cd + 2 \<le> length input" if "deadlocked cu cd x"
  proof -
    have "1 \<le> length (c_pend x)" "1 \<le> length (s_pend x)" using that by (auto simp: deadlocked_def Suc_le_eq)
    then show ?thesis using that unfolding input [symmetric] by (simp add: deadlocked_def)
  qed
  moreover have "ended x \<noteq> Quit" using ok by (simp add: esys_ok_def)
  moreover have "(\<forall>a. esys_do cu cd cli02_turn a x = None) \<longleftrightarrow> ended x = Returned \<or> deadlocked cu cd x"
  proof
    assume "\<forall>a. esys_do cu cd cli02_turn a x = None"
    then have "\<nexists>a. esys_do cu cd cli02_turn a x \<noteq> None" by simp
    then show "ended x = Returned \<or> deadlocked cu cd x" using esys_progress [OF ok _ assms(2,3)] by metis
  next
    assume "ended x = Returned \<or> deadlocked cu cd x"
    then show "\<forall>a. esys_do cu cd cli02_turn a x = None"
      using deadlocked_stuck returned_stuck [OF ok] by (elim disjE) simp_all
  qed
  ultimately show ?thesis using esys_do_ok [OF ok] by blast
qed

definition demo_echo :: "eact list" where
  "demo_echo = [Client_turn None (Some ''hi''), Client_writes 1, Server_reads ''h'', Client_writes 1, Client_turn None (Some []),
     Server_writes 1, Server_reads ''i'', Client_turn (Some ''h'') None, Server_writes 1, Server_reads [],
     Client_turn (Some ''i'') None, Client_turn (Some []) None]"

lemma demo_echo_state:
  "\<exists>x. esys_reach 1 1 cli02_turn ''hi'' x \<and> ended x = Returned"
proof -
  have "map_option ended (esys_acts 1 1 cli02_turn demo_echo (esys_init ''hi'')) = Some Returned"
    by (simp add: demo_echo_def esys_init_def cli_init_def after_client_def cli02_turn_def after_server_def
        delivers_def got_def Let_def)
  then show ?thesis using esys_acts_reach [OF esys_reach.start] by blast
qed

theorem strcli02_echoes_all_witness:
  "\<exists>x. esys_reach 1 1 cli02_turn ''hi'' x \<and> ended x = Returned \<and> ecli_out (cli x) = ''hi''"
proof -
  obtain x where x: "esys_reach 1 1 cli02_turn ''hi'' x" "ended x = Returned" using demo_echo_state by blast
  with strcli02_echoes_all [OF x(1)] show ?thesis by auto
qed

text \<open>The two do come to rest before the end: here with buffers of one byte.\<close>

lemma echo_deadlock:
  "\<exists>x. esys_reach 1 1 cli02_turn ''abcd'' x \<and> deadlocked 1 1 x"
proof -
  let ?as = "[Client_turn None (Some ''abcd''), Client_writes 1, Server_reads ''a'', Server_writes 1, Client_writes 1,
    Server_reads ''b'', Client_writes 1]"
  have "map_option (deadlocked 1 1) (esys_acts 1 1 cli02_turn ?as (esys_init ''abcd'')) = Some True"
    by (simp add: esys_init_def cli_init_def after_client_def cli02_turn_def after_server_def
        delivers_def got_def Let_def deadlocked_def)
  then show ?thesis using esys_acts_reach [OF esys_reach.start] by blast
qed

text \<open>
  The client of \<open>strcliselect01\<close> returns at the end of its input, whatever is still on its way: when the
  input comes from a file it may print nothing of it.
\<close>

lemma strcli01_loses_all:
  assumes "takes_line input True input" and "length input \<le> cu"
  shows "\<exists>x. esys_reach cu cd cli01_turn input x \<and> ended x = Returned \<and> ecli_out (cli x) = [] \<and> up x = input"
proof -
  have input: "input \<noteq> []" "length input \<le> 4096" using assms by (simp_all add: takes_line_def)
  let ?as = "[Client_turn None (Some input), Client_writes (length input), Client_turn None (Some [])]"
  have "\<exists>x. esys_acts cu cd cli01_turn ?as (esys_init input) = Some x \<and> ended x = Returned \<and> ecli_out (cli x) = [] \<and> up x = input"
    using input assms(2) by (simp add: esys_init_def cli_init_def after_client_def cli01_turn_def delivers_def got_def)
  then show ?thesis using esys_acts_reach [OF esys_reach.start] by blast
qed

section \<open>The client with two threads\<close>













end
