(* ===== verification/PollServer.thy ===== *)
theory PollServer
  imports SelectServer
begin

text \<open>
  The TCP echo server around \<open>poll\<close>, \<^verbatim>\<open>unpv13e/tcpcliserv/tcpservpoll01.c\<close>, with the events of
  \<open>SelectServer\<close>. \<open>OPEN_MAX\<close>, of a header of the system, is the length of the table. The array of
  \<open>struct pollfd\<close> is not initialised but for its descriptors; of \<open>revents\<close> only matters whether
  \<open>POLLRDNORM\<close> or \<open>POLLERR\<close> is in it.
\<close>

record psrv =
  fds :: "int list"
  revents :: "bool list"
  pmaxi :: nat
  pacts :: "act list"

datatype poll_result = P_on psrv | P_exits | P_blocks

definition poll_init :: "nat \<Rightarrow> int \<Rightarrow> bool list \<Rightarrow> psrv" where
  "poll_init open_max listenfd garbage =
     \<lparr>fds = listenfd # replicate (open_max - 1) (- 1), revents = garbage, pmaxi = 0, pacts = []\<rparr>"

text \<open>\<open>Poll\<close> sets \<open>revents\<close> of the entries up to \<open>maxi\<close>; an entry without descriptor gets none.\<close>

definition poll_revents :: "round_ev \<Rightarrow> psrv \<Rightarrow> bool list" where
  "poll_revents e p =
     map (\<lambda>i. if i \<le> pmaxi p then 0 \<le> fds p ! i \<and> fds p ! i \<in> ready e else revents p ! i) [0..<length (fds p)]"

definition poll_accept :: "round_ev \<Rightarrow> psrv \<Rightarrow> poll_result" where
  "poll_accept e p =
     (case accepts e of
        None \<Rightarrow> P_exits
      | Some connfd \<Rightarrow>
          let i = Suc (first_avail (tl (fds p))) in
          if i = length (fds p) then P_exits
          else P_on (p\<lparr>fds := (fds p)[i := connfd], pmaxi := (if i > pmaxi p then i else pmaxi p),
                       pacts := pacts p @ [Accepted connfd]\<rparr>))"

definition poll_close :: "nat \<Rightarrow> psrv \<Rightarrow> psrv" where
  "poll_close i p = p\<lparr>fds := (fds p)[i := - 1], pacts := pacts p @ [Closed (fds p ! i)]\<rparr>"

text \<open>
  The loop over the clients. \<open>read\<close> blocks where there is nothing to read; of its errors a reset of the
  connection closes it, another one ends the process.
\<close>

fun poll_clients :: "(int \<Rightarrow> bool) \<Rightarrow> round_ev \<Rightarrow> nat list \<Rightarrow> int \<Rightarrow> psrv \<Rightarrow> poll_result" where
  "poll_clients reset e [] nready p = P_on p"
| "poll_clients reset e (i # is) nready p =
     (let sockfd = fds p ! i; next = (\<lambda>p1. if nready - 1 \<le> 0 then P_on p1 else poll_clients reset e is (nready - 1) p1)
      in if sockfd < 0 \<or> \<not> revents p ! i then poll_clients reset e is nready p
         else if sockfd \<notin> ready e then P_blocks
         else case reads e sockfd of
                None \<Rightarrow> if reset sockfd then next (poll_close i p) else P_exits
              | Some d0 \<Rightarrow>
                  let d = take 4096 d0 in
                  if d = [] then next (poll_close i p)
                  else if \<not> writes e sockfd then P_exits
                  else next (p\<lparr>pacts := pacts p @ [Echoed sockfd d]\<rparr>))"

definition poll_round :: "(int \<Rightarrow> bool) \<Rightarrow> round_ev \<Rightarrow> psrv \<Rightarrow> poll_result" where
  "poll_round reset e p =
     (let p1 = p\<lparr>revents := poll_revents e p\<rparr>;
          nready = int (length (filter id (take (Suc (pmaxi p)) (revents p1))))
      in if revents p1 ! 0 then
           case poll_accept e p1 of
             P_on p2 \<Rightarrow> if nready - 1 \<le> 0 then P_on p2
                        else poll_clients reset e [1..<Suc (pmaxi p2)] (nready - 1) p2
           | r \<Rightarrow> r
         else poll_clients reset e [1..<Suc (pmaxi p1)] nready p1)"

section \<open>Against the server around select\<close>

text \<open>
  The two servers side by side: the same clients in the same places.
\<close>

definition beside :: "nat \<Rightarrow> int \<Rightarrow> srv \<Rightarrow> psrv \<Rightarrow> bool" where
  "beside n l s p \<longleftrightarrow> fds p = l # client s @ replicate (n - Suc FD_SETSIZE) (- 1) \<and> length (revents p) = n
     \<and> int (pmaxi p) = maxi s + 1 \<and> pacts p = acts s"

definition as_poll :: "nat \<Rightarrow> int \<Rightarrow> bool list \<Rightarrow> nat \<Rightarrow> srv \<Rightarrow> psrv" where
  "as_poll n l R m s = \<lparr>fds = l # client s @ replicate (n - Suc FD_SETSIZE) (- 1), revents = R, pmaxi = m, pacts = acts s\<rparr>"

lemma poll_clients_same:
  "(\<forall>i \<in> set is. i < length (client s) \<and> (0 \<le> client s ! i \<longrightarrow> (R ! Suc i \<longleftrightarrow> client s ! i \<in> rset))) \<Longrightarrow>
     rset \<subseteq> ready e \<Longrightarrow> distinct is \<Longrightarrow>
     poll_clients (\<lambda>_. False) e (map Suc is) nready (as_poll n l R m s)
       = (case clients_part rset e is nready s of
            Goes_on s' \<Rightarrow> P_on (as_poll n l R m s') | _ \<Rightarrow> P_exits)"
proof (induction "is" arbitrary: nready s)
  case (Cons i "is")
  let ?p = "as_poll n l R m s"
  have fd: "fds ?p ! Suc i = client s ! i" using Cons.prems(1) by (simp add: as_poll_def nth_append)
  have R: "revents ?p = R" by (simp add: as_poll_def)
  show ?case
  proof (cases "client s ! i < 0 \<or> client s ! i \<notin> rset")
    case True
    with Cons fd R show ?thesis by auto
  next
    case False
    have hit: "\<not> (client s ! i < 0 \<or> \<not> R ! Suc i)" "client s ! i \<in> ready e" using False Cons.prems(1,2) by auto
    have close: "poll_close (Suc i) ?p = as_poll n l R m (close_client i s)"
      using Cons.prems(1) by (simp add: poll_close_def close_client_def as_poll_def list_update_append1 nth_append)
    have echo: "?p\<lparr>pacts := pacts ?p @ [a]\<rparr> = as_poll n l R m (s\<lparr>acts := acts s @ [a]\<rparr>)" for a
      by (simp add: as_poll_def)
    have keep: "\<forall>j \<in> set is. j < length (client t) \<and> (0 \<le> client t ! j \<longrightarrow> (R ! Suc j \<longleftrightarrow> client t ! j \<in> rset))"
      if "client t = client s \<or> client t = (client s)[i := - 1]" for t :: srv
    proof
      fix j assume j: "j \<in> set is"
      then have "client t ! j = client s ! j" "length (client t) = length (client s)"
        using that Cons.prems(3) by (auto intro: nth_list_update_neq)
      then show "j < length (client t) \<and> (0 \<le> client t ! j \<longrightarrow> (R ! Suc j \<longleftrightarrow> client t ! j \<in> rset))"
        using Cons.prems(1) j by simp
    qed
    have IH: "poll_clients (\<lambda>_. False) e (map Suc is) (nready - 1) (as_poll n l R m t)
       = (case clients_part rset e is (nready - 1) t of Goes_on s' \<Rightarrow> P_on (as_poll n l R m s') | _ \<Rightarrow> P_exits)"
      if "client t = client s \<or> client t = (client s)[i := - 1]" for t
      by (rule Cons.IH [OF keep [OF that]]) (use Cons.prems in simp_all)
    show ?thesis
    proof (cases "reads e (client s ! i)")
      case None
      with False hit fd R show ?thesis by (simp add: Let_def)
    next
      case (Some d0)
      show ?thesis
      proof (cases "d0 = []")
        case True
        with Some False hit fd R close IH [of "close_client i s"] show ?thesis
          by (simp add: Let_def close_client_def)
      next
        case ne: False
        show ?thesis
        proof (cases "writes e (client s ! i)")
          case True
          with ne Some False hit fd R echo [of "Echoed (client s ! i) (take 4096 d0)"]
            IH [of "s\<lparr>acts := acts s @ [Echoed (client s ! i) (take 4096 d0)]\<rparr>"]
          show ?thesis by (simp add: Let_def)
        next
          case f: False
          with ne Some False hit fd R show ?thesis by (simp add: Let_def)
        qed
      qed
    qed
  qed
qed simp

text \<open>
  The loop ends with the last entry that has an event, and so never comes to an entry behind those that
  \<open>Poll\<close> has looked at; the one around \<open>select\<close> goes over it for nothing.
\<close>

lemma poll_clients_stops:
  "distinct (is @ js) \<Longrightarrow> nready = int (length (filter (\<lambda>i. 0 \<le> fds p ! i \<and> revents p ! i) is)) \<Longrightarrow> 0 < nready \<Longrightarrow>
     poll_clients reset e (is @ js) nready p = poll_clients reset e is nready p"
proof (induction "is" arbitrary: nready p)
  case (Cons i "is")
  show ?case
  proof (cases "fds p ! i < 0 \<or> \<not> revents p ! i")
    case True
    with Cons show ?thesis by auto
  next
    case False
    have keep: "filter (\<lambda>i. 0 \<le> fds q ! i \<and> revents q ! i) is = filter (\<lambda>i. 0 \<le> fds p ! i \<and> revents p ! i) is"
      if "revents q = revents p" "fds q = fds p \<or> fds q = (fds p)[i := - 1]" for q :: psrv
    proof (rule filter_cong [OF refl])
      fix j assume "j \<in> set is"
      then have "fds q ! j = fds p ! j" using that(2) Cons.prems(1) by (auto intro: nth_list_update_neq)
      then show "(0 \<le> fds q ! j \<and> revents q ! j) = (0 \<le> fds p ! j \<and> revents p ! j)" using that(1) by simp
    qed
    have IH: "poll_clients reset e (is @ js) (nready - 1) q = poll_clients reset e is (nready - 1) q"
      if "revents q = revents p" "fds q = fds p \<or> fds q = (fds p)[i := - 1]" "\<not> nready - 1 \<le> 0" for q
      by (rule Cons.IH) (use Cons.prems False that(3) keep [OF that(1,2)] in simp_all)
    show ?thesis
      using False IH [of "poll_close i p"] IH [of "p\<lparr>pacts := pacts p @ [Echoed (fds p ! i) (take 4096 (the (reads e (fds p ! i))))]\<rparr>"]
      by (cases "reads e (fds p ! i)") (simp_all add: Let_def poll_close_def)
  qed
qed simp

lemma clients_part_skips:
  "distinct (is @ js) \<Longrightarrow> \<forall>j \<in> set js. client s ! j \<notin> rset \<Longrightarrow>
     clients_part rset e (is @ js) nready s = clients_part rset e is nready s"
proof (induction "is" arbitrary: nready s)
  case Nil
  then show ?case by (induction js) simp_all
next
  case (Cons i "is")
  have "\<forall>j \<in> set js. client t ! j \<notin> rset" if "client t = client s \<or> client t = (client s)[i := - 1]" for t :: srv
  proof
    fix j assume j: "j \<in> set js"
    then have "client t ! j = client s ! j" using that Cons.prems(1) by (auto intro: nth_list_update_neq)
    then show "client t ! j \<notin> rset" using Cons.prems(2) j by simp
  qed
  then have IH: "clients_part rset e (is @ js) n t = clients_part rset e is n t"
    if "client t = client s \<or> client t = (client s)[i := - 1]" for t n
    using Cons.IH Cons.prems(1) that by simp
  show ?case
    using IH [of s] IH [of "close_client i s"] IH [of "s\<lparr>acts := as\<rparr>" for as]
    by (simp add: Let_def close_client_def split: option.split)
qed

text \<open>What \<open>Poll\<close> reports is what \<open>select\<close> finds.\<close>

lemma revents_readable:
  assumes inv: "srv_inv l s" and b: "beside n l s p" and n: "Suc FD_SETSIZE \<le> n" and l: "0 \<le> l"
  shows "poll_revents e p ! 0 \<longleftrightarrow> l \<in> readable e s"
    and "i < FD_SETSIZE \<Longrightarrow> 0 \<le> client s ! i \<Longrightarrow> poll_revents e p ! Suc i \<longleftrightarrow> client s ! i \<in> readable e s"
    and "i < pmaxi p \<Longrightarrow> client s ! i < 0 \<Longrightarrow> \<not> poll_revents e p ! Suc i"
    and "int (length (filter id (take (Suc (pmaxi p)) (poll_revents e p)))) = int (card (readable e s))"
    and "length (poll_revents e p) = n"
    and "length (filter (\<lambda>i. poll_revents e p ! Suc i) [0..<pmaxi p]) = length (filter (\<lambda>fd. fd \<in> readable e s) (connected s))"
proof -
  let ?R = "poll_revents e p" and ?m = "pmaxi p"
  have len: "length (client s) = FD_SETSIZE" and maxi: "maxi s < int FD_SETSIZE" using inv by (simp_all add: srv_inv_def)
  have lf: "length (fds p) = n" using b n len by (simp add: beside_def)
  have m1: "int ?m = maxi s + 1" using b by (simp add: beside_def)
  then have "?m = nat (maxi s + 1)" by (metis nat_int)
  with m1 maxi have m: "int ?m = maxi s + 1" "?m = nat (maxi s + 1)" "?m \<le> FD_SETSIZE" by simp_all
  have at: "?R ! j = (if j \<le> ?m then 0 \<le> fds p ! j \<and> fds p ! j \<in> ready e else revents p ! j)" if "j < n" for j
    using that lf by (simp add: poll_revents_def)
  have fd: "fds p ! Suc i = client s ! i" if "i < FD_SETSIZE" for i
    using that b len by (simp add: beside_def nth_append)
  have rd: "c \<in> readable e s \<longleftrightarrow> c \<in> allset s \<and> c \<in> ready e" for c using readable_facts(1) [OF inv] by simp
  have l_all: "l \<in> allset s" using inv by (simp add: srv_inv_def)
  have c_all: "client s ! i \<in> allset s" if "i < FD_SETSIZE" "0 \<le> client s ! i" for i
  proof -
    have "client s ! i \<in> set (connected s)" using that len by (simp add: connected_def)
    then show ?thesis using inv by (simp add: srv_inv_def)
  qed
  show z: "?R ! 0 \<longleftrightarrow> l \<in> readable e s"
    using at [of 0] n b l l_all by (simp add: beside_def rd)
  show pos: "?R ! Suc i \<longleftrightarrow> client s ! i \<in> readable e s" if i: "i < FD_SETSIZE" "0 \<le> client s ! i" for i
  proof -
    have "int i \<le> maxi s" using inv i by (simp add: srv_inv_def)
    then have "Suc i \<le> ?m" using m by simp
    then show ?thesis using at [of "Suc i"] fd [OF i(1)] i n c_all [OF i] by (simp add: rd)
  qed
  show neg: "\<not> ?R ! Suc i" if i: "i < ?m" "client s ! i < 0" for i
    using at [of "Suc i"] fd [of i] i n m(3) by simp
  show "length ?R = n" by (simp add: poll_revents_def lf)
  have "filter (\<lambda>i. ?R ! Suc i) [0..<?m] = filter (\<lambda>i. client s ! i \<in> readable e s) [0..<?m]"
  proof (rule filter_cong [OF refl])
    fix i assume "i \<in> set [0..<?m]"
    then have i: "i < FD_SETSIZE" "i < ?m" using m(3) by simp_all
    show "?R ! Suc i = (client s ! i \<in> readable e s)"
      using pos [OF i(1)] neg [OF i(2)] readable_facts(2) [OF inv, of "client s ! i" e] by (cases "0 \<le> client s ! i") auto
  qed
  also have "length \<dots> = length (filter (\<lambda>fd. fd \<in> readable e s) (map ((!) (client s)) [0..<?m]))"
    by (simp add: filter_map comp_def)
  also have "\<dots> = length (filter (\<lambda>fd. fd \<in> readable e s) (connected s))"
    using table_scan(1) [OF inv readable_facts(2) [OF inv, where e = e]] m(2) by simp
  finally show count: "length (filter (\<lambda>i. ?R ! Suc i) [0..<?m]) = length (filter (\<lambda>fd. fd \<in> readable e s) (connected s))" .
  have "take (Suc ?m) ?R = map ((!) ?R) [0..<Suc ?m]"
    using m n lf by (intro nth_equalityI) (simp_all add: poll_revents_def del: upt_Suc)
  also have "\<dots> = ?R ! 0 # map (\<lambda>i. ?R ! Suc i) [0..<?m]" by (simp add: upt_conv_Cons map_Suc_upt [symmetric] del: upt_Suc)
  finally have t: "take (Suc ?m) ?R = ?R ! 0 # map (\<lambda>i. ?R ! Suc i) [0..<?m]" .
  show "int (length (filter id (take (Suc ?m) ?R))) = int (card (readable e s))"
    unfolding t using z readable_facts(3) [OF inv, of e] count by (simp add: filter_map comp_def)
qed

lemma first_avail_append: "first_avail cs < length cs \<Longrightarrow> first_avail (cs @ ds) = first_avail cs"
  by (induction cs) auto

lemma beside_as_poll:
  "beside n l s p \<Longrightarrow> p\<lparr>revents := R\<rparr> = as_poll n l R (pmaxi p) s"
  by (simp add: beside_def as_poll_def)

lemma as_poll_beside:
  "length R = n \<Longrightarrow> int m = maxi s + 1 \<Longrightarrow> beside n l s (as_poll n l R m s)"
  by (simp add: beside_def as_poll_def)

lemma clients_part_maxi: "clients_part R e is nready s = Goes_on s' \<Longrightarrow> maxi s' = maxi s"
proof (induction "is" arbitrary: nready s)
  case (Cons i "is")
  from Cons.prems show ?case
    by (auto simp: Let_def close_client_def split: option.splits if_splits dest!: Cons.IH)
qed simp

lemma poll_accept_same:
  assumes inv: "srv_inv l s" and c: "accepts e = Some c" and s1: "accept_part e s = Goes_on s1"
    and n: "Suc FD_SETSIZE \<le> n"
  shows "poll_accept e (as_poll n l R m s)
    = P_on (as_poll n l R (if Suc (first_avail (client s)) > m then Suc (first_avail (client s)) else m) s1)"
    and "maxi s1 = max (int (first_avail (client s))) (maxi s)"
proof -
  have len: "length (client s) = FD_SETSIZE" using inv by (simp add: srv_inv_def)
  have k: "first_avail (client s) < length (client s)" using table_never_full [OF inv] len by simp
  have s1': "s1 = s\<lparr>client := (client s)[first_avail (client s) := c], allset := insert c (allset s),
      maxfd := (if c > maxfd s then c else maxfd s),
      maxi := (if int (first_avail (client s)) > maxi s then int (first_avail (client s)) else maxi s),
      acts := acts s @ [Accepted c]\<rparr>"
    using s1 c by (auto simp: accept_part_def Let_def split: if_splits)
  show "poll_accept e (as_poll n l R m s)
    = P_on (as_poll n l R (if Suc (first_avail (client s)) > m then Suc (first_avail (client s)) else m) s1)"
    using k len n first_avail_append [OF k] c
    by (simp add: poll_accept_def as_poll_def s1' list_update_append1)
  show "maxi s1 = max (int (first_avail (client s))) (maxi s)" by (simp add: s1' max_def)
qed

text \<open>A round in the terms of the other server.\<close>

lemma poll_round_parts:
  assumes inv: "srv_inv l s" and b: "beside n l s p" and n: "Suc FD_SETSIZE \<le> n"
  shows "poll_round (\<lambda>_. False) e p =
     (if l \<in> (readable e s) then
        case poll_accept e (as_poll n l (poll_revents e p) (pmaxi p) s) of
          P_on p2 \<Rightarrow> if int (card (readable e s)) - 1 \<le> 0 then P_on p2
                     else poll_clients (\<lambda>_. False) e [1..<Suc (pmaxi p2)] (int (card (readable e s)) - 1) p2
        | r \<Rightarrow> r
      else poll_clients (\<lambda>_. False) e [1..<Suc (pmaxi p)] (int (card (readable e s))) (as_poll n l (poll_revents e p) (pmaxi p) s))"
proof -
  have l: "0 \<le> l" using inv by (simp add: srv_inv_def)
  note R = revents_readable [OF inv b n l, where e = e]
  have rq: "revents (as_poll n l r m s) = r" "pmaxi (as_poll n l r m s) = m" for r m by (simp_all add: as_poll_def)
  show ?thesis
    unfolding poll_round_def Let_def beside_as_poll [OF b, of "poll_revents e p"] rq R(1) R(4) by (rule refl)
qed

lemma upt_map_Suc: "[1..<Suc k] = map Suc [0..<k]"
  by (simp add: map_Suc_upt)

lemma beside_maxi:
  "srv_inv l s \<Longrightarrow> beside n l s p \<Longrightarrow>
     int (pmaxi p) = maxi s + 1 \<and> pmaxi p = nat (maxi s + 1) \<and> pmaxi p \<le> FD_SETSIZE \<and> length (client s) = FD_SETSIZE"
  by (auto simp: beside_def srv_inv_def)

text \<open>The round with a new connection.\<close>

lemma poll_round_accepts:
  assumes inv: "srv_inv l s" and poss: "round_possible e s" and b: "beside n l s p"
    and n: "Suc FD_SETSIZE \<le> n" and True: "l \<in> readable e s" and Goes_on: "accept_part e s = Goes_on s1"
  shows "case select_round l e s of
      Goes_on s' \<Rightarrow> (\<exists>p'. poll_round (\<lambda>_. False) e p = P_on p' \<and> beside n l s' p' \<and> pacts p' = acts s')
    | Exits \<Rightarrow> poll_round (\<lambda>_. False) e p = P_exits
    | Overruns \<Rightarrow> True"
proof -
  let ?rset = "readable e s" and ?R = "poll_revents e p" and ?m = "pmaxi p" and ?q = "as_poll n l (poll_revents e p) (pmaxi p) s"
  have l: "0 \<le> l" using inv by (simp add: srv_inv_def)
  note R = revents_readable [OF inv b n l, where e = e]
  have m: "int ?m = maxi s + 1" "?m = nat (maxi s + 1)" and mle: "?m \<le> FD_SETSIZE" and len: "length (client s) = FD_SETSIZE"
    using beside_maxi [OF inv b] by blast+
  have sub: "?rset \<subseteq> ready e" using readable_facts(1) [OF inv] by simp
  note round = poll_round_parts [OF inv b n, where e = e] and upt = upt_map_Suc and end_ok = as_poll_beside [OF R(5)]
  from Goes_on obtain c where c: "accepts e = Some c" by (cases "accepts e") (simp_all add: accept_part_def)
  with poss have c': "0 \<le> c" "c \<notin> allset s" by (simp_all add: round_possible_def)
  define k where "k = first_avail (client s)"
  define m1 where "m1 = (if Suc k > ?m then Suc k else ?m)"
  have acc: "poll_accept e ?q = P_on (as_poll n l ?R m1 s1)" and mx: "maxi s1 = max (int k) (maxi s)"
    using poll_accept_same [OF inv c Goes_on n] by (simp_all add: m1_def k_def)
  have m1: "int m1 = maxi s1 + 1" "?m \<le> m1" "nat (maxi s1 + 1) = m1" using m mx by (auto simp: m1_def max_def)
  have k: "k < FD_SETSIZE" "client s ! k < 0"
    using table_never_full [OF inv] first_avail_free [of "client s"] len by (simp_all add: k_def)
  have cl: "client s1 = (client s)[k := c]"
    using Goes_on c by (auto simp: accept_part_def Let_def k_def split: if_splits)
  have new: "c \<notin> ?rset" using c'(2) readable_facts(1) [OF inv, of e] by simp
  have ok: "\<forall>i \<in> set [0..<?m]. i < length (client s1)
      \<and> (0 \<le> client s1 ! i \<longrightarrow> (?R ! Suc i \<longleftrightarrow> client s1 ! i \<in> ?rset))"
    using R(2,3) k new mle len by (auto simp: cl nth_list_update)
  have upt1: "[0..<m1] = [0..<?m] @ (if m1 = ?m then [] else [?m..<m1])"
    using m1(2) upt_add_eq_append [of 0 ?m "m1 - ?m"] by auto
  have skip: "clients_part ?rset e [0..<m1] nr s1 = clients_part ?rset e [0..<?m] nr s1" for nr
    unfolding upt1
  proof (rule clients_part_skips)
    have "client s1 ! j \<notin> ?rset" if "j \<in> set [?m..<m1]" for j
    proof (cases "j = k")
      case False
      have "j < FD_SETSIZE" "int j > maxi s" using that k(1) m mle by (auto simp: m1_def split: if_splits)
      then have "client s ! j < 0" using inv by (fastforce simp: srv_inv_def not_le)
      then show ?thesis using False readable_facts(2) [OF inv, of "client s ! j" e] by (auto simp: cl)
    qed (use new k len in \<open>simp add: cl\<close>)
    then show "\<forall>j \<in> set (if m1 = ?m then [] else [?m..<m1]). client s1 ! j \<notin> ?rset" by simp
  qed simp
  have cnt: "int (card ?rset) - 1 = int (length (filter (\<lambda>i. 0 \<le> fds (as_poll n l ?R m1 s1) ! i
      \<and> revents (as_poll n l ?R m1 s1) ! i) (map Suc [0..<?m])))"
  proof -
    have "(0 \<le> fds (as_poll n l ?R m1 s1) ! Suc i \<and> revents (as_poll n l ?R m1 s1) ! Suc i) = ?R ! Suc i"
      if "i < ?m" for i
    proof -
      have "fds (as_poll n l ?R m1 s1) ! Suc i = (if i = k then c else client s ! i)"
        using that mle len k(1) by (simp add: as_poll_def cl nth_append)
      moreover have "?R ! Suc i \<Longrightarrow> 0 \<le> client s ! i" using R(3) [OF that] by (cases "client s ! i < 0") auto
      ultimately show ?thesis using R(3) [OF that] k(2) by (auto simp: as_poll_def)
    qed
    then have "filter (\<lambda>i. 0 \<le> fds (as_poll n l ?R m1 s1) ! Suc i \<and> revents (as_poll n l ?R m1 s1) ! Suc i) [0..<?m]
        = filter (\<lambda>i. ?R ! Suc i) [0..<?m]" by (intro filter_cong) simp_all
    then show ?thesis using R(6) readable_facts(3) [OF inv, of e] True by (simp add: filter_map comp_def)
  qed
  have stop: "poll_clients (\<lambda>_. False) e (map Suc [0..<m1]) (int (card ?rset) - 1) (as_poll n l ?R m1 s1)
      = poll_clients (\<lambda>_. False) e (map Suc [0..<?m]) (int (card ?rset) - 1) (as_poll n l ?R m1 s1)"
    if "\<not> int (card ?rset) - 1 \<le> 0"
    unfolding upt1 map_append
    by (rule poll_clients_stops [OF _ cnt]) (use that in \<open>auto simp: distinct_map\<close>)
  have same: "poll_clients (\<lambda>_. False) e (map Suc [0..<?m]) (int (card ?rset) - 1) (as_poll n l ?R m1 s1)
     = (case clients_part ?rset e [0..<?m] (int (card ?rset) - 1) s1 of
          Goes_on s' \<Rightarrow> P_on (as_poll n l ?R m1 s') | _ \<Rightarrow> P_exits)"
    by (rule poll_clients_same [OF ok sub distinct_upt])
  have "pmaxi (as_poll n l ?R m1 s1) = m1" by (simp add: as_poll_def)
  then have pr: "poll_round (\<lambda>_. False) e p = (if int (card ?rset) - 1 \<le> 0 then P_on (as_poll n l ?R m1 s1)
      else poll_clients (\<lambda>_. False) e (map Suc [0..<?m]) (int (card ?rset) - 1) (as_poll n l ?R m1 s1))"
    using round True stop unfolding acc poll_result.case upt by simp
  have sel: "select_round l e s = (if int (card ?rset) - 1 \<le> 0 then Goes_on s1
      else clients_part ?rset e [0..<?m] (int (card ?rset) - 1) s1)"
    using True Goes_on m1(3) skip by (simp add: select_round_def Let_def)
  show ?thesis
  proof (cases "int (card ?rset) - 1 \<le> 0")
    case True
    then show ?thesis using pr sel end_ok [OF m1(1)] by (simp add: as_poll_def)
  next
    case more: False
    show ?thesis
    proof (cases "clients_part ?rset e [0..<?m] (int (card ?rset) - 1) s1")
      case (Goes_on s')
      then have "beside n l s' (as_poll n l ?R m1 s')" using end_ok [of m1 s'] clients_part_maxi [OF Goes_on] m1 by simp
      then show ?thesis using pr sel more same Goes_on by (auto simp: as_poll_def)
    qed (use pr sel more same clients_part_in_bounds in auto)
  qed
qed

text \<open>
  C11: The server around \<open>poll\<close> does the same as the one around \<open>select\<close>: from corresponding states, with
  the same events and no reset connection, it accepts, echoes and closes the same connections in the
  same order, and ends where the other ends; whatever was in the entries of the table that \<open>Poll\<close> has
  not yet seen, and for any \<open>OPEN_MAX\<close> above \<open>FD_SETSIZE\<close>.
\<close>

theorem poll_server_as_select:
  assumes r: "srv_reachable l s" and poss: "round_possible e s" and b: "beside n l s p"
    and n: "Suc FD_SETSIZE \<le> n"
  shows "case select_round l e s of
      Goes_on s' \<Rightarrow> (\<exists>p'. poll_round (\<lambda>_. False) e p = P_on p' \<and> beside n l s' p' \<and> pacts p' = acts s')
    | Exits \<Rightarrow> poll_round (\<lambda>_. False) e p = P_exits
    | Overruns \<Rightarrow> True"
proof -
  note inv = srv_reachable_inv [OF r]
  let ?rset = "readable e s" and ?R = "poll_revents e p" and ?m = "pmaxi p" and ?q = "as_poll n l (poll_revents e p) (pmaxi p) s"
  have l: "0 \<le> l" using inv by (simp add: srv_inv_def)
  note R = revents_readable [OF inv b n l, where e = e]
  have m: "int ?m = maxi s + 1" "?m = nat (maxi s + 1)" and mle: "?m \<le> FD_SETSIZE" and len: "length (client s) = FD_SETSIZE"
    using beside_maxi [OF inv b] by blast+
  have sub: "?rset \<subseteq> ready e" using readable_facts(1) [OF inv] by simp
  note round = poll_round_parts [OF inv b n, where e = e] and upt = upt_map_Suc and end_ok = as_poll_beside [OF R(5)]
  show ?thesis
  proof (cases "l \<in> ?rset")
    case False
    have same: "poll_clients (\<lambda>_. False) e (map Suc [0..<?m]) (int (card ?rset)) ?q
       = (case clients_part ?rset e [0..<?m] (int (card ?rset)) s of
            Goes_on s' \<Rightarrow> P_on (as_poll n l ?R ?m s') | _ \<Rightarrow> P_exits)"
      by (rule poll_clients_same [OF _ sub distinct_upt]) (use R(2) mle len in simp)
    have sel: "select_round l e s = clients_part ?rset e [0..<?m] (int (card ?rset)) s"
      using False m(2) by (simp add: select_round_def Let_def)
    show ?thesis
    proof (cases "clients_part ?rset e [0..<?m] (int (card ?rset)) s")
      case (Goes_on s')
      then have "beside n l s' (as_poll n l ?R ?m s')" using end_ok [of ?m s'] clients_part_maxi [OF Goes_on] m(1) by simp
      then show ?thesis using round False upt same sel Goes_on by (auto simp: as_poll_def)
    qed (use round False upt same sel clients_part_in_bounds in auto)
  next
    case True
    show ?thesis
    proof (cases "accept_part e s")
      case Exits
      then have "accepts e = None" using accept_part_cases(1) [OF inv] by simp
      then show ?thesis using round True Exits by (simp add: select_round_def poll_accept_def)
    next
      case Overruns
      then show ?thesis using True by (simp add: select_round_def)
    next
      case (Goes_on s1)
      from poll_round_accepts [OF inv poss b n True this] show ?thesis .
    qed
  qed
qed

theorem poll_server_as_select_witness:
  "\<exists>p. poll_round (\<lambda>_. False) first_round (poll_init 1025 3 (replicate 1025 True)) = P_on p \<and> pacts p = [Accepted 4]"
proof -
  let ?s = "srv_init 3" and ?p = "poll_init 1025 3 (replicate 1025 True)"
  have r: "srv_reachable 3 ?s" by (rule srv_reachable.start) simp_all
  note inv = srv_reachable_inv [OF r]
  have none: "connected ?s = []" by (simp add: connected_def srv_init_def)
  have rd: "readable first_round ?s = {3}" by (auto simp: readable_def srv_init_def first_round_def)
  have poss: "round_possible first_round ?s"
    unfolding round_possible_def rd by (simp add: first_round_def srv_init_def)
  have b: "beside 1025 3 ?s ?p" by (simp add: beside_def poll_init_def srv_init_def)
  have "select_round 3 first_round ?s \<noteq> Overruns"
    unfolding round_overruns [OF inv] by (simp add: first_round_def)
  moreover from this have "select_round 3 first_round ?s \<noteq> Exits"
    unfolding round_exits [OF inv poss] none by (simp add: first_round_def)
  ultimately obtain s' where s': "select_round 3 first_round ?s = Goes_on s'"
    by (cases "select_round 3 first_round ?s") simp_all
  have "acts s' = [Accepted 4]"
    using round_effect [OF inv poss s'] unfolding rd none by (simp add: srv_init_def first_round_def)
  with poll_server_as_select [OF r poss b] s' show ?thesis by auto
qed

end
