(* ===== verification/Spec2Isabelle.thy ===== *)
theory Spec2Isabelle
  imports TftpServer GuessServer GuessClient Inet4 Inet6 InCksum StreamIO SockAddr AddrInfo RttTimer
    SigioQueue NonblockCli SelectServer Connectors ThreadPool Ping Traceroute Labs WebClient
    IcmpDaemon UdpCksum RouteSock ProcPool WebNonblock SockOpen SockCopy OldAddrInfo LineLab IfConf WebChild Listeners
    EchoSystem PollServer
begin

text \<open>
  \<^bold>\<open>The program.\<close> The repository holds the network programming exercises of its authors (a TFTP
  server, a guessing game over TCP, small lab programs) on top of the code of the book UNIX Network
  Programming (\<^verbatim>\<open>unpv13e\<close>): a library of socket functions (\<^verbatim>\<open>lib\<close>, \<^verbatim>\<open>libfree\<close>, \<^verbatim>\<open>libgai\<close>) and
  programs that use it. The library's parts call each other (the connectors call \<open>getaddrinfo\<close>, which
  calls the address conversions); the programs are separate processes that meet on sockets. The
  models follow that division: one theory for each part, and in this theory what holds of the
  client and the server of the game together.

  \<^bold>\<open>Conventions.\<close> What a program reads from outside (datagrams, results of \<open>read\<close>, \<open>accept\<close> and
  \<open>select\<close>, alarms, the clock, random numbers, the name server) is an argument of its model, mostly as
  a list of events in the order the program meets them; what it sends, closes or prints is a
  result. A loop that waits for the network stops when its list of events is used up: that is the
  program blocked in a system call, and it is a value of its own (\<open>Blocked\<close>, \<open>Waiting\<close>, \<open>Blocks\<close>).
  Other loops are total functions with a termination proof, except those that need not end, which
  are partial functions with \<open>None\<close> for not ending; no model uses fuel. Undefined behaviour of C,
  an endless loop and the end of the process by \<open>err_quit\<close> or \<open>err_sys\<close> are values too
  (\<open>Undefined\<close>, \<open>Hangs\<close> of \<open>outcome\<close> in \<open>Prelude\<close>; \<open>Exits\<close>, \<open>Ends\<close>, \<open>Dies\<close>). Programs with several threads
  are step relations, a step being one access to what the threads share. Words are kept at their
  width where they wrap (ports, block numbers, checksums, timers); the machine is a little-endian
  one with 64-bit \<open>long\<close>, as the configuration of the repository has it.

  \<^bold>\<open>The exercises.\<close>
  \<^item> \<open>TftpServer\<close> (\<^verbatim>\<open>server.c\<close>): packets, \<open>read_data\<close> as \<open>send_file\<close>, \<open>write_data\<close> as \<open>recv_file\<close>, the
    child of a request and the parent that hands out ports. Lemmas on one block, by the number of
    timeouts before its acknowledgement; from them the transfer of a whole file, its round trip, the
    order and the end of a session. The value of the uninitialised \<open>addr_len\<close> of \<open>write_data\<close> is an
    argument.
  \<^item> \<open>GuessWord\<close>, \<open>GuessServer\<close> (\<^verbatim>\<open>unpv13e/hw2_server.c\<close>): \<open>word_match\<close>, the dictionary, and the rounds of
    the game around \<open>select\<close> with its five slots; an invariant of the slots that every round keeps,
    and the effect of each message. Every disconnect makes the server store in front of an empty
    buffer: what that does to the state is the argument \<open>spill\<close>. \<open>GuessClient\<close> (\<^verbatim>\<open>unpv13e/hw2_client.c\<close>): the client's loop.
  \<^item> \<open>Labs\<close> (\<^verbatim>\<open>unpv13e/lab4.c\<close>, \<^verbatim>\<open>lab6.c\<close>, \<^verbatim>\<open>unpv13e/lab3_server.c\<close>); \<open>LineLab\<close> (\<^verbatim>\<open>unpv13e/tcp_server.c\<close>,
    \<^verbatim>\<open>unpv13e/lab3_client.c\<close>): lines passed on from a terminal to clients. What their \<open>Readline\<close> takes of a
    connection comes from the locale \<open>steady_source\<close>, which extends \<open>char_source\<close>.

  \<^bold>\<open>The library.\<close>
  \<^item> \<open>Inet4\<close>, \<open>Inet6\<close> (\<^verbatim>\<open>libfree\<close>): \<open>inet_pton\<close>, \<open>inet_ntop\<close>, \<open>inet_aton\<close>; the accepted texts, the round
    trips, the elided run of zeros. \<open>InCksum\<close>: \<open>in_cksum\<close> and packets that carry their checksum.
  \<^item> \<open>StreamIO\<close> (\<^verbatim>\<open>lib/readn.c\<close>, \<^verbatim>\<open>writen.c\<close>, \<^verbatim>\<open>readline.c\<close> and its two variants): the locale
    \<open>char_source\<close> states what a source of characters owes the line reader; it is interpreted on the
    three buffers of the code.
  \<^item> \<open>SockAddr\<close> (\<^verbatim>\<open>lib/sock_*.c\<close>), \<open>AddrInfo\<close> (\<^verbatim>\<open>libgai\<close>): the accessors of socket addresses,
    \<open>getaddrinfo\<close> and \<open>getnameinfo\<close> with the name server as a parameter. \<open>OldAddrInfo\<close>
    (\<^verbatim>\<open>libfree/getaddrinfo.c\<close>, \<^verbatim>\<open>getnameinfo.c\<close>): the older versions of both, shown to agree with libgai
    where they return. \<open>Connectors\<close> (\<^verbatim>\<open>lib/tcp_connect.c\<close>
    and its relatives): the loops over the addresses, with their system calls.
  \<^item> \<open>RttTimer\<close> (\<^verbatim>\<open>lib/rtt.c\<close>, \<^verbatim>\<open>rtt/dg_send_recv.c\<close>): the estimator and the request with retransmission.

  \<^bold>\<open>The programs of the book.\<close>
  \<^item> \<open>SelectServer\<close> (\<^verbatim>\<open>tcpcliserv/tcpservselect01.c\<close>), \<open>NonblockCli\<close> (\<^verbatim>\<open>nonblock/strclinonb.c\<close>, with
    the locale \<open>copier\<close> for its two buffers), \<open>SigioQueue\<close> (\<^verbatim>\<open>sigio/dgecho01.c\<close>) and \<open>ThreadPool\<close>
    (\<^verbatim>\<open>server/serv08.c\<close>): the last two rest on \<open>Ring\<close>, whose locale \<open>fifo\<close> is the contract of a
    bounded queue and is interpreted on both rings.
  \<^item> \<open>WebClient\<close> (\<^verbatim>\<open>threads/web03.c\<close>): threads counted through a condition variable; \<open>WebNonblock\<close>
    (\<^verbatim>\<open>nonblock/web.c\<close>): the same client as one process with nonblocking connects.
  \<^item> \<open>ProcPool\<close> (\<^verbatim>\<open>server/serv05.c\<close>, \<^verbatim>\<open>child05.c\<close>): the parent that hands connections to idle children;
    an invariant that ties its counters to what the children do, as long as none of them ends, and
    what the end of one does to the parent.
  \<^item> \<open>WebChild\<close> (\<^verbatim>\<open>server/web_child.c\<close>, \<^verbatim>\<open>server/client.c\<close>): what the servers do on a connection, and the
    client that measures them. The servers with processes use the \<open>readline\<close> of the library, those with
    threads the unbuffered one of \<^verbatim>\<open>server/readline.c\<close>; the locale \<open>line_reader\<close> is what \<open>web_child\<close>
    needs of either, and both meet it through \<open>steady_source\<close>. \<open>Listeners\<close> (\<^verbatim>\<open>ssntp\<close>, \<^verbatim>\<open>mysdr\<close>): the
    clock difference to an NTP server, and announced sessions.
  \<^item> \<open>EchoSystem\<close> (\<^verbatim>\<open>lib/str_echo.c\<close>, \<^verbatim>\<open>select/strcliselect01.c\<close>, \<^verbatim>\<open>select/strcliselect02.c\<close>,
    \<^verbatim>\<open>threads/strclithread2.c\<close>): an echo client and the echo server with the two streams between them as
    one transition system; an invariant on what is printed, coming back, going out and not yet read, and a
    measure. The buffers between client and server have a bounded size, and a \<open>Writen\<close> blocks while its
    buffer is full; only for the client with threads they are not bounded. \<open>PollServer\<close> (\<^verbatim>\<open>tcpcliserv/tcpservpoll01.c\<close>): the server around \<open>poll\<close>, shown to do
    the same as the one of \<open>SelectServer\<close>.
  \<^item> \<open>IcmpDaemon\<close> (\<^verbatim>\<open>icmpd\<close>): clients, their registered ports, and the ICMP errors passed on to them; its
    table of connections is shown to be that of \<open>SelectServer\<close>, whose invariant it reuses.
  \<^item> \<open>UdpCksum\<close> (\<^verbatim>\<open>udpcksum\<close>): a datagram with its checksum, built and checked by hand; \<open>kernel_header\<close>
    is what the kernel makes of its IP header.
  \<^item> \<open>RouteSock\<close> (\<^verbatim>\<open>libroute\<close>, \<^verbatim>\<open>route/get_ifi_info.c\<close>): the messages of a routing socket as bytes, walked
    by \<open>each_msg\<close>; the lemmas reduce a walk over a well-formed buffer to a walk over its messages; \<open>IfConf\<close>
    (\<^verbatim>\<open>lib/get_ifi_info.c\<close>): the same lists from \<open>ioctl\<close>, with the loop that looks for a buffer large
    enough.
  \<^item> \<open>SockOpts\<close>, \<open>SockOpen\<close>, \<open>SockCopy\<close> (\<^verbatim>\<open>sock\<close>): the test program: its options and the source
    route, the calls that open its socket with all they set on it, and the loops that copy, send or
    discard. The lemmas named \<open>adds\<close> compose what single steps set; \<open>copied\<close> is the invariant of a
    copying loop, with what is lost when it dies.
  \<^item> \<open>Icmp\<close>, \<open>Ping\<close> (\<^verbatim>\<open>ping\<close>), \<open>Traceroute\<close> (\<^verbatim>\<open>traceroute\<close>): times (in the order class \<open>linorder\<close>),
    headers, what is sent, which packets count as replies, and the loops.

  \<^bold>\<open>What the lemmas show.\<close> Each theory ends with its properties, numbered as in the manifest: of
  protocols, what the other side can rely on (files arrive unchanged, queues keep their order,
  replies are matched to their requests); of state, invariants of all reachable states; of
  conversions, round trips; and where the code is wrong, what exactly it does (the second name of a
  player is never accepted, an array is freed, a thread is joined under the mutex it needs).

  \<^bold>\<open>Not modelled.\<close> Terminal output, except where it is the program's answer; the set-up of sockets and
  their options, except in \<open>SockOpen\<close> and \<open>Connectors\<close>; failures of \<open>malloc\<close>; the wrapper functions with a capital letter, whose error branch
  ends the process (it is a value of the models where the call can fail on input). Of the book's
  programs those not named above: the variations of the echo clients and servers, the programs
  that print interface lists (\<^verbatim>\<open>ioctl\<close>), the multicast options, SCTP and the key socket programs,
  the earlier copies under \<^verbatim>\<open>libgai/old\<close>, and the drivers under \<^verbatim>\<open>test\<close>.
\<close>

section \<open>The guessing game: client and server together\<close>

text \<open>
  C36: Whatever the server of the game sends, and whatever its wild store does, as long as each \<open>read\<close> of
  the client returns one message or several in a row (TCP may join them; the server's two messages to a new
  player come back to back) that fit its buffer, the client never takes what it reads for one of the two
  farewell texts it waits for: it answers each \<open>read\<close> with the next line of standard input, and when the
  server has closed the connection it neither ends nor sends anything, but goes on reading for ever.
  A farewell can only be a piece of a message that TCP has cut, as of one with a player's guess \<open>GGWP\<close>;
  if it comes after the welcome, the client calls \<open>free\<close> on its own array.
\<close>

theorem client_never_leaves_game:
  assumes "run_server spill lfd rs g = Ok (g', out)"
    and "\<forall>d \<in> set ds. nul \<notin> set d \<and> length d < 1025 \<and> (\<exists>ms. ms \<noteq> [] \<and> d = concat ms \<and> (\<forall>m \<in> set ms. Send fd m \<in> set out))"
    and "\<forall>l \<in> set ls. input_line l" and "length ls = length ds"
  shows "\<exists>c. run_client (map (\<lambda>d. Reads (Some d)) ds @ replicate n (Reads (Some [])))
        (client_init (concat ls @ r)) = Ok (c, False)
      \<and> cli_in c = r \<and> cli_sent c = map (\<lambda>l. l @ [nul]) ls
      \<and> (welcome_msg \<in> set ds \<longrightarrow>
           run_client [Reads (Some ''GGWP'')] c = Undefined
         \<and> run_client [Reads (Some ''Too many players atm.'')] c = Undefined)"
proof -
  have "\<forall>d \<in> set ds. asks d"
  proof
    fix d assume d: "d \<in> set ds"
    then obtain ms where "ms \<noteq> []" "d = concat ms" "\<forall>m \<in> set ms. Send fd m \<in> set out" using assms(2) by blast
    moreover from this(3) have "\<forall>m \<in> set ms. server_text m"
      using sends_texts_run [OF assms(1)] unfolding sends_texts_def by blast
    ultimately have "d \<noteq> [] \<and> d \<noteq> ''GGWP'' \<and> d \<noteq> ''Too many players atm.''" using joined_no_farewell [of ms] by simp
    moreover have "nul \<notin> set d \<and> length d < 1025" using d assms(2) by blast
    ultimately show "asks d" unfolding asks_def by blast
  qed
  then obtain c where "run_client (map (\<lambda>d. Reads (Some d)) ds) (client_init (concat ls @ r)) = Ok (c, False)"
    "cli_in c = r" "cli_sent c = map (\<lambda>l. l @ [nul]) ls" "welcome_msg \<in> set ds \<longrightarrow> name_ptr c = None"
    using run_client_asks [OF _ assms(3,4), where c = "client_init (concat ls @ r)" and r = r] by (auto simp: client_init_def)
  then show ?thesis
    by (intro exI [of _ "if n = 0 then c else c\<lparr>server_response := []\<rparr>"])
      (simp add: run_client_append run_client_eof run_client_farewell del: run_client.simps(2))
qed

theorem client_never_leaves_game_witness:
  "\<exists>c. run_client [Reads (Some welcome_msg), Reads (Some []), Reads (Some [])]
        (client_init (''ann'' @ [newline])) = Ok (c, False) \<and> cli_sent c = [''ann'' @ [newline, nul]]"
proof -
  have "is_ok (bind_outcome (game_init [''word''] (\<lambda>_. 7) {}) (run_server Ok 3 [hd demo_rounds]))"
    by code_simp
  then obtain g0 g out where g0: "game_init [''word''] (\<lambda>_. 7) {} = Ok g0"
    and run: "run_server Ok 3 [hd demo_rounds] g0 = Ok (g, out)" by (auto simp: is_ok_iff)
  have "bind_outcome (game_init [''word''] (\<lambda>_. 7) {}) (\<lambda>g0. bind_outcome (run_server Ok 3 [hd demo_rounds] g0)
      (\<lambda>(g, out). Ok (Send 4 welcome_msg \<in> set out))) = Ok True" by code_simp
  then have "Send 4 welcome_msg \<in> set out" using g0 run by simp
  then have "\<exists>ms. ms \<noteq> [] \<and> welcome_msg = concat ms \<and> (\<forall>m \<in> set ms. Send 4 m \<in> set out)"
    by (intro exI [of _ "[welcome_msg]"]) simp
  moreover have "nul \<notin> set welcome_msg" "length welcome_msg < 1025" by (simp_all add: welcome_msg_def)
  moreover have "input_line (''ann'' @ [newline])" unfolding input_line_def by (intro exI [of _ "''ann''"]) simp
  ultimately show ?thesis
    using client_never_leaves_game [OF run, of "[welcome_msg]" 4 "[''ann'' @ [newline]]" 2 "[]"]
    by (auto simp: numeral_2_eq_2 simp del: run_client.simps)
qed

text \<open>
  A player who guesses \<open>GGWP\<close> can so end the client of another one: here the second player reads the
  message about the guess in pieces.
\<close>

lemma guess_ends_other_client:
  "\<exists>g' out. guess_phase 0 ''GGWP'' demo_game = Ok (g', out)
     \<and> Send 5 (''ann guessed '' @ ''GGWP'' @ '': 1 letter(s) were correct and 0 letter(s) were correctly placed.'') \<in> set out
     \<and> run_client [Reads (Some welcome_msg), Reads (Some ''ann guessed ''), Reads (Some ''GGWP'')]
          (client_init (''bob'' @ [newline] @ ''frog'' @ [newline])) = Undefined"
proof -
  have 1: "bind_outcome (guess_phase 0 ''GGWP'' demo_game) (\<lambda>(g', out). Ok (list_ex (\<lambda>a. a = Send 5 (''ann guessed '' @ ''GGWP''
      @ '': 1 letter(s) were correct and 0 letter(s) were correctly placed.'')) out)) = Ok True" by code_simp
  have 2: "run_client [Reads (Some welcome_msg), Reads (Some ''ann guessed ''), Reads (Some ''GGWP'')]
          (client_init (''bob'' @ [newline] @ ''frog'' @ [newline])) = Undefined" by code_simp
  from 1 obtain g' out where "guess_phase 0 ''GGWP'' demo_game = Ok (g', out)"
    "Send 5 (''ann guessed '' @ ''GGWP'' @ '': 1 letter(s) were correct and 0 letter(s) were correctly placed.'') \<in> set out"
    by (cases "guess_phase 0 ''GGWP'' demo_game") (auto simp: list_ex_iff)
  with 2 show ?thesis by blast
qed

end
